(* ===== verification/Prelude.thy ===== *)
theory Prelude
  imports Main "HOL-Library.Word"
begin

text \<open>
  Shared vocabulary of the development: how a kernel function fails, how fallible
  steps are sequenced, the spin locks a CPU holds, and the generic lemmas on scans of
  fixed-size arrays that the component theories use.

  A C function that may panic, dereference a null pointer or leave an array is a
  function into \<open>fault + 'a\<close>: \<open>Inl\<close> is the failure, \<open>Inr\<close> the value it returns
  together with the new state. A \<^verbatim>\<open>for\<close> loop that looks for the first index with
  some property is \<open>find P [lo..<hi]\<close>; a loop that updates the state is a \<open>fold\<close>
  over the index range.
\<close>

section \<open>Failing computations\<close>

datatype fault =
    Kpanic string
  | NullDeref
  | OutOfBounds
  | DivByZero
  | Uninitialised
  | Diverges
  | WouldSleep

type_synonym 'a res = "fault + 'a"

definition bindR :: "'a res \<Rightarrow> ('a \<Rightarrow> 'b res) \<Rightarrow> 'b res" where
  "bindR m f = (case m of Inl e \<Rightarrow> Inl e | Inr x \<Rightarrow> f x)"

definition guardR :: "bool \<Rightarrow> fault \<Rightarrow> unit res" where
  "guardR b e = (if b then Inr () else Inl e)"

text \<open>
  The value a C \<^verbatim>\<open>int\<close> has after an operation: the 32-bit two's complement number that the i386
  instructions compute. It is the mathematical result when that is in range.
\<close>

definition cint :: "int \<Rightarrow> int" where
  "cint k = signed_take_bit 31 k"

named_theorems res_iff \<open>rules that invert a successful computation\<close>
named_theorems sched_simps \<open>selectors applied to the scheduler's operations\<close>

lemma cint_id: "- (2 ^ 31) \<le> k \<Longrightarrow> k < 2 ^ 31 \<Longrightarrow> cint k = k"
  by (simp add: cint_def signed_take_bit_int_eq_self)

lemma cint_cong: "take_bit 32 k = take_bit 32 l \<Longrightarrow> cint k = cint l"
  using signed_take_bit_take_bit [of 31 32 k] signed_take_bit_take_bit [of 31 32 l] by (simp add: cint_def)

lemma cint_add: "cint (cint k + l) = cint (k + l)"
  by (rule cint_cong)
    (use take_bit_add [of 32 "signed_take_bit 31 k" l] take_bit_add [of 32 k l] in \<open>simp add: cint_def take_bit_signed_take_bit\<close>)

lemma cint_overflow: "2 ^ 31 \<le> k \<Longrightarrow> k < 2 ^ 32 + 2 ^ 31 \<Longrightarrow> cint k = k - 2 ^ 32"
  using cint_cong [of k "k - 2 ^ 32"] cint_id [of "k - 2 ^ 32"] by (simp add: take_bit_eq_mod)

lemma bindR_simps [simp]:
  "bindR (Inl e) f = Inl e"
  "bindR (Inr x) f = f x"
  by (simp_all add: bindR_def)

lemma bindR_eq_Inr [res_iff]:
  "bindR m f = Inr y \<longleftrightarrow> (\<exists>x. m = Inr x \<and> f x = Inr y)"
  by (cases m) auto

lemma bindR_eq_Inl:
  "bindR m f = Inl e \<longleftrightarrow> m = Inl e \<or> (\<exists>x. m = Inr x \<and> f x = Inl e)"
  by (cases m) auto

lemma bindR_assoc [simp]: "bindR (bindR m f) g = bindR m (\<lambda>x. bindR (f x) g)"
  by (cases m) auto

lemma bindR_Inr [simp]: "bindR m Inr = m"
  by (cases m) auto

lemma bindR_cong [fundef_cong]:
  "m = m' \<Longrightarrow> (\<And>x. m' = Inr x \<Longrightarrow> f x = f' x) \<Longrightarrow> bindR m f = bindR m' f'"
  by (cases m) auto

lemma guardR_simps [simp]:
  "guardR True e = Inr ()"
  "guardR False e = Inl e"
  by (simp_all add: guardR_def)

lemma guardR_eq_Inr [res_iff]: "guardR b e = Inr u \<longleftrightarrow> b"
  by (simp add: guardR_def)

text \<open>A loop whose body may fail stops at the first failure.\<close>

fun foldR :: "('a \<Rightarrow> 's \<Rightarrow> 's res) \<Rightarrow> 'a list \<Rightarrow> 's \<Rightarrow> 's res" where
  "foldR f [] s = Inr s"
| "foldR f (x # xs) s = bindR (f x s) (foldR f xs)"

lemma foldR_append: "foldR f (xs @ ys) s = bindR (foldR f xs s) (foldR f ys)"
  by (induction xs arbitrary: s) (auto simp: bindR_def split: sum.splits)

lemma foldR_inv:
  assumes "foldR f xs s = Inr t" and "P s"
    and "\<And>x u v. x \<in> set xs \<Longrightarrow> P u \<Longrightarrow> f x u = Inr v \<Longrightarrow> P v"
  shows "P t"
  using assms
proof (induction xs arbitrary: s)
  case Nil
  then show ?case by simp
next
  case (Cons x xs)
  from Cons.prems(1) obtain u where u: "f x s = Inr u" "foldR f xs u = Inr t"
    by (auto simp: res_iff)
  have "P u" using Cons.prems(3) [of x s u] Cons.prems(2) u by simp
  moreover have "\<And>y a b. y \<in> set xs \<Longrightarrow> P a \<Longrightarrow> f y a = Inr b \<Longrightarrow> P b"
    using Cons.prems(3) by (meson list.set_intros(2))
  ultimately show ?case using Cons.IH [OF u(2)] by blast
qed

lemma foldR_total:
  assumes "P s" and "\<And>x u. x \<in> set xs \<Longrightarrow> P u \<Longrightarrow> \<exists>v. f x u = Inr v \<and> P v"
  shows "\<exists>t. foldR f xs s = Inr t \<and> P t"
  using assms
proof (induction xs arbitrary: s)
  case Nil
  then show ?case by simp
next
  case (Cons x xs)
  obtain v where "f x s = Inr v" "P v" using Cons.prems by (meson list.set_intros(1))
  then show ?case using Cons.IH [of v] Cons.prems(2) by simp
qed

section \<open>Spin locks held by the running CPU\<close>

text \<open>
  The component models keep the list of spin locks the CPU holds. \<open>acquire\<close> and
  \<open>release\<close> panic as \<^verbatim>\<open>spinlock.c\<close> does when the lock is already, or not, held; the
  length of the list is the depth that \<^verbatim>\<open>pushcli\<close> keeps in \<^verbatim>\<open>ncli\<close>. Theory
  \<open>Spinlock\<close> models the code itself and proves that it implements this view.
\<close>

datatype lockid =
    Lptable | LFQ_tick | Lthread | Lkmem | Lbcache | Llog | Licache | Lftable
  | Lticks | Lpipe nat | Lide | Lcons

record klocks =
  locks :: "lockid list"

definition holding :: "lockid \<Rightarrow> 'a klocks_scheme \<Rightarrow> bool" where
  "holding l s = (l \<in> set (locks s))"

definition acquire :: "lockid \<Rightarrow> 'a klocks_scheme \<Rightarrow> 'a klocks_scheme res" where
  "acquire l s = (if holding l s then Inl (Kpanic ''acquire'')
                  else Inr (s\<lparr>locks := l # locks s\<rparr>))"

definition release :: "lockid \<Rightarrow> 'a klocks_scheme \<Rightarrow> 'a klocks_scheme res" where
  "release l s = (if holding l s then Inr (s\<lparr>locks := remove1 l (locks s)\<rparr>)
                  else Inl (Kpanic ''release''))"

lemma acquire_free [simp]:
  "l \<notin> set (locks s) \<Longrightarrow> acquire l s = Inr (s\<lparr>locks := l # locks s\<rparr>)"
  by (simp add: acquire_def holding_def)

lemma acquire_held [simp]:
  "l \<in> set (locks s) \<Longrightarrow> acquire l s = Inl (Kpanic ''acquire'')"
  by (simp add: acquire_def holding_def)

lemma release_top [simp]:
  "locks s = l # ls \<Longrightarrow> release l s = Inr (s\<lparr>locks := ls\<rparr>)"
  by (simp add: release_def holding_def)

lemma acquire_eq_Inr [res_iff]:
  "acquire l s = Inr t \<longleftrightarrow> l \<notin> set (locks s) \<and> t = s\<lparr>locks := l # locks s\<rparr>"
  by (auto simp: acquire_def holding_def)

lemma release_eq_Inr [res_iff]:
  "release l s = Inr t \<longleftrightarrow> l \<in> set (locks s) \<and> t = s\<lparr>locks := remove1 l (locks s)\<rparr>"
  by (auto simp: release_def holding_def)

section \<open>Scans of index ranges\<close>

lemma find_upt_Some:
  "find P [a..<b] = Some i \<longleftrightarrow> a \<le> i \<and> i < b \<and> P i \<and> (\<forall>j. a \<le> j \<and> j < i \<longrightarrow> \<not> P j)"
proof (induction "b - a" arbitrary: a)
  case 0
  then show ?case by auto
next
  case (Suc n)
  then have ab: "a < b" by simp
  have IH: "find P [Suc a..<b] = Some i \<longleftrightarrow>
      Suc a \<le> i \<and> i < b \<and> P i \<and> (\<forall>j. Suc a \<le> j \<and> j < i \<longrightarrow> \<not> P j)"
    using Suc(1) [of "Suc a"] Suc(2) by simp
  show ?case
  proof (cases "P a")
    case True
    then show ?thesis using ab by (auto simp: upt_conv_Cons not_less le_less)
  next
    case False
    have "(\<forall>j. a \<le> j \<and> j < i \<longrightarrow> \<not> P j) \<longleftrightarrow> (\<forall>j. Suc a \<le> j \<and> j < i \<longrightarrow> \<not> P j)"
      using False by (metis Suc_le_eq le_less)
    then show ?thesis using False ab IH
      by (auto simp: upt_conv_Cons) (metis Suc_leI le_less)
  qed
qed

lemma find_upt_None: "find P [a..<b] = None \<longleftrightarrow> (\<forall>i. a \<le> i \<and> i < b \<longrightarrow> \<not> P i)"
  by (auto simp: find_None_iff)

lemma find_upt_ex: "a \<le> i \<Longrightarrow> i < b \<Longrightarrow> P i \<Longrightarrow> \<exists>j. find P [a..<b] = Some j"
  using find_upt_None [of P a b] by (cases "find P [a..<b]") auto

text \<open>A loop over an index range that rewrites each entry of a table independently.\<close>

lemma fold_fun_upd_upt:
  "fold (\<lambda>i f. f(i := g i (f i))) [a..<b] f =
     (\<lambda>j. if a \<le> j \<and> j < b then g j (f j) else f j)"
proof (induction b)
  case 0
  then show ?case by simp
next
  case (Suc b)
  then show ?case by (auto simp: fun_eq_iff not_less_eq_eq le_Suc_eq)
qed

text \<open>Counting the occupied slots of a table.\<close>

definition occupied :: "nat \<Rightarrow> (nat \<Rightarrow> 'a option) \<Rightarrow> nat" where
  "occupied n h = length (filter (\<lambda>i. h i \<noteq> None) [0..<n])"

lemma occupied_eq_card: "occupied n h = card {i. i < n \<and> h i \<noteq> None}"
proof -
  have "distinct (filter (\<lambda>i. h i \<noteq> None) [0..<n])" by simp
  moreover have "set (filter (\<lambda>i. h i \<noteq> None) [0..<n]) = {i. i < n \<and> h i \<noteq> None}" by auto
  ultimately show ?thesis unfolding occupied_def using distinct_card by metis
qed

lemma occupied_fill: "i < n \<Longrightarrow> h i = None \<Longrightarrow> occupied n (h(i := Some x)) = Suc (occupied n h)"
proof -
  assume i: "i < n" "h i = None"
  have "{j. j < n \<and> (h(i := Some x)) j \<noteq> None} = insert i {j. j < n \<and> h j \<noteq> None}"
    using i by auto
  then show ?thesis using i by (simp add: occupied_eq_card)
qed

lemma occupied_clear: "i < n \<Longrightarrow> h i \<noteq> None \<Longrightarrow> Suc (occupied n (h(i := None))) = occupied n h"
  using occupied_fill [of i n "h(i := None)" "the (h i)"] by (auto simp: fun_upd_idem_iff)

lemma occupied_zero: "occupied n h = 0 \<longleftrightarrow> (\<forall>i < n. h i = None)"
  by (auto simp: occupied_eq_card)

lemma occupied_le: "occupied n h \<le> n"
  unfolding occupied_def by (metis diff_zero length_filter_le length_upt)

lemma occupied_full: "(\<forall>i < n. h i \<noteq> None) \<longleftrightarrow> occupied n h = n"
proof
  assume "\<forall>i < n. h i \<noteq> None"
  then have "{i. i < n \<and> h i \<noteq> None} = {..<n}" by auto
  then show "occupied n h = n" by (simp add: occupied_eq_card)
next
  assume a: "occupied n h = n"
  have "{i. i < n \<and> h i \<noteq> None} \<subseteq> {..<n}" by auto
  moreover have "card {i. i < n \<and> h i \<noteq> None} = card {..<n}" using a by (simp add: occupied_eq_card)
  ultimately have "{i. i < n \<and> h i \<noteq> None} = {..<n}" by (simp add: card_subset_eq)
  then show "\<forall>i < n. h i \<noteq> None" by auto
qed

end
