(* ===== verification/Params.thy ===== *)
theory Params
  imports Prelude
begin

text \<open>
  Compile-time constants of the kernel (\<^verbatim>\<open>param.h\<close>, \<^verbatim>\<open>mmu.h\<close>, \<^verbatim>\<open>memlayout.h\<close>,
  \<^verbatim>\<open>fs.h\<close>, \<^verbatim>\<open>fcntl.h\<close>, \<^verbatim>\<open>stat.h\<close>). They are definitions, not abbreviations, so that
  index ranges such as \<open>[0..<NPROC]\<close> stay folded in proofs; \<open>params\<close> unfolds them for
  evaluation.
\<close>

named_theorems params \<open>the values of the kernel's constants\<close>

definition NPROC :: nat where [params]: "NPROC = 64"
definition KSTACKSIZE :: nat where [params]: "KSTACKSIZE = 4096"
definition NCPU :: nat where [params]: "NCPU = 8"
definition NOFILE :: nat where [params]: "NOFILE = 16"
definition NFILE :: nat where [params]: "NFILE = 100"
definition NINODE :: nat where [params]: "NINODE = 50"
definition NDEV :: nat where [params]: "NDEV = 10"
definition ROOTDEV :: nat where [params]: "ROOTDEV = 1"
definition MAXARG :: nat where [params]: "MAXARG = 32"
definition MAXOPBLOCKS :: nat where [params]: "MAXOPBLOCKS = 10"
definition LOGSIZE :: nat where [params]: "LOGSIZE = MAXOPBLOCKS * 3"
definition NBUF :: nat where [params]: "NBUF = MAXOPBLOCKS * 3"
definition FSSIZE :: nat where [params]: "FSSIZE = 40000"
definition MAXTICKET :: int where [params]: "MAXTICKET = 100000"
definition NTHRE :: nat where [params]: "NTHRE = 32"

definition PGSIZE :: nat where [params]: "PGSIZE = 4096"
definition NPDENTRIES :: nat where [params]: "NPDENTRIES = 1024"
definition EXTMEM :: nat where [params]: "EXTMEM = 0x100000"
definition PHYSTOP :: nat where [params]: "PHYSTOP = 0xE000000"
definition DEVSPACE :: nat where [params]: "DEVSPACE = 0xFE000000"
definition KERNBASE :: nat where [params]: "KERNBASE = 0x80000000"

definition ROOTINO :: nat where [params]: "ROOTINO = 1"
definition BSIZE :: nat where [params]: "BSIZE = 512"
definition NDIRECT :: nat where [params]: "NDIRECT = 10"
definition NINDIRECT :: nat where [params]: "NINDIRECT = BSIZE div 4"
definition NDOUINDIRECT :: nat where [params]: "NDOUINDIRECT = NINDIRECT * NINDIRECT"
definition NTRIINDIRECT :: nat where
  [params]: "NTRIINDIRECT = NINDIRECT * NINDIRECT * NINDIRECT"
definition MAXFILE :: nat where
  [params]: "MAXFILE = NDIRECT + NINDIRECT + NDOUINDIRECT + NTRIINDIRECT"
definition DIRSIZ :: nat where [params]: "DIRSIZ = 14"
definition BPB :: nat where [params]: "BPB = BSIZE * 8"

definition T_DIR :: int where [params]: "T_DIR = 1"
definition T_FILE :: int where [params]: "T_FILE = 2"
definition T_DEV :: int where [params]: "T_DEV = 3"

definition O_RDONLY :: "32 word" where [params]: "O_RDONLY = 0x000"
definition O_WRONLY :: "32 word" where [params]: "O_WRONLY = 0x001"
definition O_RDWR :: "32 word" where [params]: "O_RDWR = 0x002"
definition O_CREATE :: "32 word" where [params]: "O_CREATE = 0x200"

lemma NPROC_pos [simp]: "0 < NPROC" "Suc 0 < NPROC" "NPROC \<noteq> 0"
  by (simp_all add: params)

lemma NTHRE_pos [simp]: "0 < NTHRE" "NTHRE \<noteq> 0"
  by (simp_all add: params)

end
