(* ===== verification/Ptable.thy ===== *)
theory Ptable
  imports Params
begin

text \<open>
  The process table: \<^verbatim>\<open>struct proc\<close>, \<^verbatim>\<open>enum procstate\<close> and \<^verbatim>\<open>struct context\<close> of
  \<^verbatim>\<open>proc.h\<close>, \<^verbatim>\<open>struct trapframe\<close> of \<^verbatim>\<open>x86.h\<close>, \<^verbatim>\<open>struct stride\<close> and \<^verbatim>\<open>struct FQ\<close> of
  \<^verbatim>\<open>myscheduler.h\<close>, the global variables of \<^verbatim>\<open>proc.c\<close> and \<^verbatim>\<open>myscheduler.c\<close>, and the
  operations that touch nothing else: \<^verbatim>\<open>wakeup1\<close>, \<^verbatim>\<open>wakeup\<close>, \<^verbatim>\<open>kill\<close>, \<^verbatim>\<open>sleep\<close>,
  \<^verbatim>\<open>sched\<close>, \<^verbatim>\<open>yield\<close>, \<^verbatim>\<open>getppid\<close>.

  A pointer into \<open>ptable.proc\<close> is the index of the entry, null is \<open>None\<close>. A wait
  channel is the address of a kernel object, one constructor per kind of object that
  the kernel sleeps on.
\<close>

section \<open>Data\<close>

datatype procstate = UNUSED | EMBRYO | SLEEPING | RUNNABLE | RUNNING | ZOMBIE

datatype chan =
    ChProc nat | ChLog | ChTicks | ChPipeRead nat | ChPipeWrite nat
  | ChBuf nat | ChInode nat | ChInput

datatype kpc = Forkret | Trapret | NoPc

record trapframe =
  tf_edi :: "32 word"
  tf_esi :: "32 word"
  tf_ebp :: "32 word"
  tf_oesp :: "32 word"
  tf_ebx :: "32 word"
  tf_edx :: "32 word"
  tf_ecx :: "32 word"
  tf_eax :: "32 word"
  tf_gs :: "16 word"
  tf_fs :: "16 word"
  tf_es :: "16 word"
  tf_ds :: "16 word"
  tf_trapno :: "32 word"
  tf_err :: "32 word"
  tf_eip :: "32 word"
  tf_cs :: "16 word"
  tf_eflags :: "32 word"
  tf_esp :: "32 word"
  tf_ss :: "16 word"

record kcontext =
  ctx_edi :: "32 word"
  ctx_esi :: "32 word"
  ctx_ebx :: "32 word"
  ctx_ebp :: "32 word"
  ctx_eip :: kpc

record proc =
  p_sz :: nat
  p_pgdir :: nat
  p_kstack :: nat
  p_state :: procstate
  p_pid :: int
  p_parent :: "nat option"
  p_tf :: trapframe
  p_tfaddr :: nat
  p_context :: kcontext
  p_ctxaddr :: nat
  p_retpc :: kpc
  p_chan :: "chan option"
  p_killed :: bool
  p_ofile :: "nat \<Rightarrow> nat option"
  p_cwd :: "nat option"
  p_name :: string
  p_mystride :: "nat option"
  p_fqtick :: int
  p_level :: nat
  p_isstride :: bool
  p_isthread :: bool
  p_curthread :: nat
  p_master :: "nat option"
  p_workerthread :: "nat \<Rightarrow> nat option"
  p_retvals :: "nat \<Rightarrow> 32 word"
  p_threadcnt :: int
  p_freeusrspace :: "nat \<Rightarrow> nat"
  p_tindex :: nat

record stride_ent =
  st_stride :: int
  st_pass :: int
  st_share :: int
  st_proc :: "nat option"

record FQ =
  fq_total :: int
  fq_timeallot :: int
  fq_current :: nat
  fq_holdingproc :: "nat \<Rightarrow> nat option"

record kproc = klocks +
  ptable :: "nat \<Rightarrow> proc"
  initproc :: "nat option"
  nextpid :: int
  myproc :: "nat option"
  stride_arr :: "nat \<Rightarrow> stride_ent"
  MLFQ_queues :: "nat \<Rightarrow> FQ"
  MLFQ_tick :: int

text \<open>
  Every field of a static C object starts at zero; these are the values the globals
  have when the kernel starts.
\<close>

definition zero_tf :: trapframe where
  "zero_tf = \<lparr>tf_edi = 0, tf_esi = 0, tf_ebp = 0, tf_oesp = 0, tf_ebx = 0, tf_edx = 0,
     tf_ecx = 0, tf_eax = 0, tf_gs = 0, tf_fs = 0, tf_es = 0, tf_ds = 0, tf_trapno = 0,
     tf_err = 0, tf_eip = 0, tf_cs = 0, tf_eflags = 0, tf_esp = 0, tf_ss = 0\<rparr>"

definition zero_context :: kcontext where
  "zero_context = \<lparr>ctx_edi = 0, ctx_esi = 0, ctx_ebx = 0, ctx_ebp = 0, ctx_eip = NoPc\<rparr>"

definition zero_proc :: proc where
  "zero_proc = \<lparr>p_sz = 0, p_pgdir = 0, p_kstack = 0, p_state = UNUSED, p_pid = 0,
     p_parent = None, p_tf = zero_tf, p_tfaddr = 0, p_context = zero_context, p_ctxaddr = 0,
     p_retpc = NoPc, p_chan = None, p_killed = False, p_ofile = (\<lambda>_. None), p_cwd = None,
     p_name = [], p_mystride = None, p_fqtick = 0, p_level = 0, p_isstride = False,
     p_isthread = False, p_curthread = 0, p_master = None, p_workerthread = (\<lambda>_. None),
     p_retvals = (\<lambda>_. 0), p_threadcnt = 0, p_freeusrspace = (\<lambda>_. 0), p_tindex = 0\<rparr>"

definition zero_stride :: stride_ent where
  "zero_stride = \<lparr>st_stride = 0, st_pass = 0, st_share = 0, st_proc = None\<rparr>"

definition zero_FQ :: FQ where
  "zero_FQ = \<lparr>fq_total = 0, fq_timeallot = 0, fq_current = 0, fq_holdingproc = (\<lambda>_. None)\<rparr>"

definition boot_kproc :: kproc where
  "boot_kproc = \<lparr>locks = [], ptable = (\<lambda>_. zero_proc), initproc = None, nextpid = 1,
     myproc = None, stride_arr = (\<lambda>_. zero_stride), MLFQ_queues = (\<lambda>_. zero_FQ), MLFQ_tick = 0\<rparr>"

section \<open>Updating one entry of a table\<close>

definition upd_proc :: "nat \<Rightarrow> (proc \<Rightarrow> proc) \<Rightarrow> 'a kproc_scheme \<Rightarrow> 'a kproc_scheme" where
  "upd_proc p f s = s\<lparr>ptable := (ptable s)(p := f (ptable s p))\<rparr>"

definition upd_FQ :: "nat \<Rightarrow> (FQ \<Rightarrow> FQ) \<Rightarrow> 'a kproc_scheme \<Rightarrow> 'a kproc_scheme" where
  "upd_FQ l f s = s\<lparr>MLFQ_queues := (MLFQ_queues s)(l := f (MLFQ_queues s l))\<rparr>"

definition upd_stride :: "nat \<Rightarrow> (stride_ent \<Rightarrow> stride_ent) \<Rightarrow> 'a kproc_scheme \<Rightarrow> 'a kproc_scheme" where
  "upd_stride j f s = s\<lparr>stride_arr := (stride_arr s)(j := f (stride_arr s j))\<rparr>"

lemma upd_proc_sel [simp]:
  "ptable (upd_proc p f s) = (ptable s)(p := f (ptable s p))"
  "initproc (upd_proc p f s) = initproc s"
  "nextpid (upd_proc p f s) = nextpid s"
  "myproc (upd_proc p f s) = myproc s"
  "stride_arr (upd_proc p f s) = stride_arr s"
  "MLFQ_queues (upd_proc p f s) = MLFQ_queues s"
  "MLFQ_tick (upd_proc p f s) = MLFQ_tick s"
  "locks (upd_proc p f s) = locks s"
  by (simp_all add: upd_proc_def)

lemma upd_FQ_sel [simp]:
  "ptable (upd_FQ l g s) = ptable s"
  "initproc (upd_FQ l g s) = initproc s"
  "nextpid (upd_FQ l g s) = nextpid s"
  "myproc (upd_FQ l g s) = myproc s"
  "stride_arr (upd_FQ l g s) = stride_arr s"
  "MLFQ_queues (upd_FQ l g s) = (MLFQ_queues s)(l := g (MLFQ_queues s l))"
  "MLFQ_tick (upd_FQ l g s) = MLFQ_tick s"
  "locks (upd_FQ l g s) = locks s"
  by (simp_all add: upd_FQ_def)

lemma upd_stride_sel [simp]:
  "ptable (upd_stride j h s) = ptable s"
  "initproc (upd_stride j h s) = initproc s"
  "nextpid (upd_stride j h s) = nextpid s"
  "myproc (upd_stride j h s) = myproc s"
  "stride_arr (upd_stride j h s) = (stride_arr s)(j := h (stride_arr s j))"
  "MLFQ_queues (upd_stride j h s) = MLFQ_queues s"
  "MLFQ_tick (upd_stride j h s) = MLFQ_tick s"
  "locks (upd_stride j h s) = locks s"
  by (simp_all add: upd_stride_def)

section \<open>Sleep and wakeup\<close>

text \<open>\<open>wakeup1\<close>: every process sleeping on the channel becomes runnable.\<close>

definition wakeup1 :: "chan option \<Rightarrow> 'a kproc_scheme \<Rightarrow> 'a kproc_scheme" where
  "wakeup1 ch s = fold (\<lambda>i s. if p_state (ptable s i) = SLEEPING \<and> p_chan (ptable s i) = ch
                              then upd_proc i (\<lambda>p. p\<lparr>p_state := RUNNABLE\<rparr>) s else s) [0..<NPROC] s"

definition wakeup :: "chan option \<Rightarrow> 'a kproc_scheme \<Rightarrow> 'a kproc_scheme res" where
  "wakeup ch s = bindR (acquire Lptable s) (\<lambda>s. release Lptable (wakeup1 ch s))"

text \<open>
  \<open>sched\<close> checks that the caller holds exactly \<open>ptable.lock\<close> and has already changed
  its state; the value is the state in which the scheduler runs next. The interrupt
  flag is off whenever a spin lock is held, so its check cannot fail here.
\<close>

definition sched :: "'a kproc_scheme \<Rightarrow> 'a kproc_scheme res" where
  "sched s = (case myproc s of None \<Rightarrow> Inl NullDeref
     | Some p \<Rightarrow>
        if \<not> holding Lptable s then Inl (Kpanic ''sched ptable.lock'')
        else if length (locks s) \<noteq> 1 then Inl (Kpanic ''sched locks'')
        else if p_state (ptable s p) = RUNNING then Inl (Kpanic ''sched running'')
        else Inr s)"

text \<open>\<open>sleep\<close> up to the context switch: the state the other processes see.\<close>

definition sleep_to_sched :: "chan option \<Rightarrow> lockid option \<Rightarrow> 'a kproc_scheme \<Rightarrow> 'a kproc_scheme res" where
  "sleep_to_sched ch lk s = (case myproc s of None \<Rightarrow> Inl (Kpanic ''sleep'')
     | Some p \<Rightarrow>
        (case lk of None \<Rightarrow> Inl (Kpanic ''sleep without lk'')
         | Some l \<Rightarrow>
            bindR (if l \<noteq> Lptable then bindR (acquire Lptable s) (release l) else Inr s) (\<lambda>s.
            sched (upd_proc p (\<lambda>q. q\<lparr>p_chan := ch, p_state := SLEEPING\<rparr>) s))))"

text \<open>The rest of \<open>sleep\<close>, run when the process \<open>p\<close> is scheduled again.\<close>

definition sleep_resume :: "nat \<Rightarrow> lockid \<Rightarrow> 'a kproc_scheme \<Rightarrow> 'a kproc_scheme res" where
  "sleep_resume p l s =
     (let s = upd_proc p (\<lambda>q. q\<lparr>p_chan := None\<rparr>) s
      in if l \<noteq> Lptable then bindR (release Lptable s) (acquire l) else Inr s)"

definition yield_to_sched :: "'a kproc_scheme \<Rightarrow> 'a kproc_scheme res" where
  "yield_to_sched s = bindR (acquire Lptable s) (\<lambda>s.
     case myproc s of None \<Rightarrow> Inl NullDeref
     | Some p \<Rightarrow> sched (upd_proc p (\<lambda>q. q\<lparr>p_state := RUNNABLE\<rparr>) s))"

definition kill :: "int \<Rightarrow> 'a kproc_scheme \<Rightarrow> (int \<times> 'a kproc_scheme) res" where
  "kill pid s = bindR (acquire Lptable s) (\<lambda>s.
     case find (\<lambda>i. p_pid (ptable s i) = pid) [0..<NPROC] of
       Some i \<Rightarrow>
         bindR (release Lptable (upd_proc i (\<lambda>p. p\<lparr>p_killed := True,
            p_state := (if p_state p = SLEEPING then RUNNABLE else p_state p)\<rparr>) s))
           (\<lambda>s. Inr (0, s))
     | None \<Rightarrow> bindR (release Lptable s) (\<lambda>s. Inr (- 1, s)))"

definition getppid :: "'a kproc_scheme \<Rightarrow> int res" where
  "getppid s = (case myproc s of None \<Rightarrow> Inl NullDeref
     | Some p \<Rightarrow> (case p_parent (ptable s p) of None \<Rightarrow> Inl NullDeref
                  | Some q \<Rightarrow> Inr (p_pid (ptable s q))))"

section \<open>Lemmas\<close>

lemma fold_upd_proc:
  "fold (\<lambda>i s. if b (ptable s i) then upd_proc i f s else s) [0..<n] s =
     s\<lparr>ptable := \<lambda>i. if i < n \<and> b (ptable s i) then f (ptable s i) else ptable s i\<rparr>"
proof (induction n)
  case 0
  then show ?case by simp
next
  case (Suc n)
  show ?case
    by (simp add: Suc upd_proc_def) (auto simp: fun_eq_iff less_Suc_eq intro!: arg_cong [where f = "\<lambda>x. ptable_update x s"])
qed

lemma wakeup1_eq:
  "wakeup1 ch s = s\<lparr>ptable := \<lambda>i. if i < NPROC \<and> p_state (ptable s i) = SLEEPING \<and> p_chan (ptable s i) = ch
                               then ptable s i\<lparr>p_state := RUNNABLE\<rparr> else ptable s i\<rparr>"
  using fold_upd_proc [of "\<lambda>p. p_state p = SLEEPING \<and> p_chan p = ch" "\<lambda>p. p\<lparr>p_state := RUNNABLE\<rparr>" NPROC s]
  by (simp add: wakeup1_def)

lemma wakeup1_sel [simp]:
  "initproc (wakeup1 ch s) = initproc s"
  "nextpid (wakeup1 ch s) = nextpid s"
  "myproc (wakeup1 ch s) = myproc s"
  "stride_arr (wakeup1 ch s) = stride_arr s"
  "MLFQ_queues (wakeup1 ch s) = MLFQ_queues s"
  "MLFQ_tick (wakeup1 ch s) = MLFQ_tick s"
  "locks (wakeup1 ch s) = locks s"
  by (simp_all add: wakeup1_eq)

end
