(* ===== verification/Myscheduler.thy ===== *)
theory Myscheduler
  imports Ptable "HOL-Library.Signed_Division"
begin

text \<open>
  The combined MLFQ and stride scheduler of \<^verbatim>\<open>myscheduler.c\<close>: three feedback queues
  (level 0 is served first), the table of stride entries whose entry 0 stands for the
  MLFQ as a whole, and round robin among the threads of one process. Each definition
  is one function of the file, in its order. The counters that grow without a bound of
  the code (passes, ticks, the sum of the shares) are kept at the width of \<^verbatim>\<open>int\<close> by \<open>cint\<close>;
  the numbers of queued processes and the slot indices stay below \<open>NPROC\<close>. A queue index of 3 or more, a stride
  slot past the table, a null worker and an uninitialised pointer are faults of the
  model, because the C program has no defined behaviour there.
\<close>

section \<open>Feedback queues\<close>

definition push_MLFQ :: "nat \<Rightarrow> nat \<Rightarrow> 'a kproc_scheme \<Rightarrow> (int \<times> 'a kproc_scheme) res" where
  "push_MLFQ p level s =
     (if 3 \<le> level then Inl OutOfBounds
      else case find (\<lambda>i. fq_holdingproc (MLFQ_queues s level) i = None) [0..<NPROC] of
        Some i \<Rightarrow>
          Inr (0, upd_FQ level (\<lambda>q. q\<lparr>fq_holdingproc := (fq_holdingproc q)(i := Some p),
                                     fq_total := fq_total q + 1\<rparr>)
                  (upd_proc p (\<lambda>q. q\<lparr>p_level := level, p_fqtick := 0,
                                     p_mystride := Some 0, p_isstride := False\<rparr>) s))
      | None \<Rightarrow> Inr (- 1, s))"

definition pop_MLFQ :: "nat \<Rightarrow> 'a kproc_scheme \<Rightarrow> (int \<times> 'a kproc_scheme) res" where
  "pop_MLFQ p s =
     (let level = p_level (ptable s p) in
      if 3 \<le> level then Inl OutOfBounds
      else case find (\<lambda>i. fq_holdingproc (MLFQ_queues s level) i = Some p) [0..<NPROC] of
        Some i \<Rightarrow>
          Inr (0, upd_FQ level (\<lambda>q. q\<lparr>fq_total := fq_total q - 1,
                                     fq_holdingproc := (fq_holdingproc q)(i := None)\<rparr>)
                  (upd_proc p (\<lambda>q. q\<lparr>p_fqtick := 0\<rparr>) s))
      | None \<Rightarrow> Inr (- 1, s))"

text \<open>
  \<open>pickthread\<close>: the \<^verbatim>\<open>do ... while\<close> loop over the thread slots after \<open>curthread\<close>;
  slot \<open>NTHRE\<close> stands for the master. \<open>pick_at\<close> is what the body returns at slot \<open>i\<close>,
  if it returns there; the first argument of \<open>pick_loop\<close> bounds the iterations.
\<close>

definition pick_at :: "nat \<Rightarrow> nat \<Rightarrow> 'a kproc_scheme \<Rightarrow> (nat \<times> 'a kproc_scheme) option" where
  "pick_at master i s =
     (let found = (\<lambda>t. if p_state (ptable s t) = RUNNABLE
                       then Some (t, upd_proc master (\<lambda>q. q\<lparr>p_curthread := i\<rparr>) s) else None)
      in if i = NTHRE then found master
         else Option.bind (p_workerthread (ptable s master) i) found)"

fun pick_loop :: "nat \<Rightarrow> nat \<Rightarrow> nat \<Rightarrow> 'a kproc_scheme \<Rightarrow> (nat \<times> 'a kproc_scheme) res" where
  "pick_loop 0 master i s = Inl Diverges"
| "pick_loop (Suc n) master i s =
     (let i = (i + 1) mod (NTHRE + 1)
      in case pick_at master i s of
           Some r \<Rightarrow> Inr r
         | None \<Rightarrow> if i \<noteq> p_curthread (ptable s master) then pick_loop n master i s
                   else Inr (master, s))"

definition pickthread :: "nat \<Rightarrow> 'a kproc_scheme \<Rightarrow> (nat \<times> 'a kproc_scheme) res" where
  "pickthread master s =
     (if p_threadcnt (ptable s master) = 0 then Inr (master, s)
      else pick_loop (NTHRE + 2) master (p_curthread (ptable s master)) s)"

text \<open>
  \<open>exec_MLFQ\<close>: the inner loop probes \<open>NPROC - 1\<close> slots starting at the queue's
  \<open>current\<close>; \<open>exec_scan\<close> is the slot it stops at.
\<close>

definition exec_scan :: "nat \<Rightarrow> 'a kproc_scheme \<Rightarrow> nat option" where
  "exec_scan l s =
     (let q = MLFQ_queues s l
      in map_option (\<lambda>j. (fq_current q mod NPROC + j) mod NPROC)
           (find (\<lambda>j. case fq_holdingproc q ((fq_current q mod NPROC + j) mod NPROC) of
                        None \<Rightarrow> False
                      | Some p \<Rightarrow> p_state (ptable s p) = RUNNABLE) [0..<NPROC - 1]))"

fun exec_levels :: "nat list \<Rightarrow> 'a kproc_scheme \<Rightarrow> (nat option \<times> 'a kproc_scheme) res" where
  "exec_levels [] s = Inr (None, s)"
| "exec_levels (l # ls) s =
     (if fq_total (MLFQ_queues s l) = 0 then exec_levels ls s
      else case exec_scan l s of
        None \<Rightarrow> exec_levels ls s
      | Some pos \<Rightarrow>
          (case fq_holdingproc (MLFQ_queues s l) pos of
             None \<Rightarrow> Inl NullDeref
           | Some p \<Rightarrow>
               let s' = upd_FQ l (\<lambda>q. q\<lparr>fq_current := pos + 1\<rparr>) s
               in if p_isthread (ptable s p)
                  then bindR (pickthread p s') (\<lambda>(t, s''). Inr (Some t, s''))
                  else Inr (Some p, s')))"

definition exec_MLFQ :: "'a kproc_scheme \<Rightarrow> (nat option \<times> 'a kproc_scheme) res" where
  "exec_MLFQ s = exec_levels [0, 1, 2] s"

definition level_change_MLFQ :: "nat \<Rightarrow> nat \<Rightarrow> 'a kproc_scheme \<Rightarrow> (int \<times> 'a kproc_scheme) res" where
  "level_change_MLFQ p level s =
     bindR (pop_MLFQ p s) (\<lambda>(ret, s'). if ret = - 1 then Inr (ret, s') else push_MLFQ p level s')"

definition boost_priority :: "'a kproc_scheme \<Rightarrow> 'a kproc_scheme res" where
  "boost_priority s =
     bindR (foldR (\<lambda>i s. if p_level (ptable s i) = 1 \<or> p_level (ptable s i) = 2
                         then bindR (level_change_MLFQ i 0 s) (\<lambda>(_, s'). Inr s')
                         else Inr s) [0..<NPROC] s) (\<lambda>s.
     bindR (acquire LFQ_tick s) (\<lambda>s.
     release LFQ_tick (s\<lparr>MLFQ_tick := 0\<rparr>)))"

text \<open>
  \<open>increasealltick\<close>: for a thread the code reads the local pointer \<^verbatim>\<open>master\<close>, which it
  never assigned.
\<close>

definition increasealltick :: "nat \<Rightarrow> 'a kproc_scheme \<Rightarrow> 'a kproc_scheme res" where
  "increasealltick p s =
     (if \<not> p_isthread (ptable s p)
      then Inr (upd_proc p (\<lambda>q. q\<lparr>p_fqtick := cint (p_fqtick q + 1)\<rparr>) s)
      else Inl Uninitialised)"

text \<open>The three level branches of \<open>tick_add_MLFQ\<close> differ in their two constants.\<close>

definition tick_level :: "nat \<Rightarrow> int \<Rightarrow> nat \<Rightarrow> int option \<Rightarrow> int \<Rightarrow> 'a kproc_scheme \<Rightarrow> (int \<times> 'a kproc_scheme) res" where
  "tick_level p allot nextlevel limit quantum s =
     bindR (case limit of None \<Rightarrow> Inr s
            | Some m \<Rightarrow> if allot \<ge> m then bindR (level_change_MLFQ p nextlevel s) (\<lambda>(_, s'). Inr s')
                        else Inr s) (\<lambda>s.
     if allot mod quantum = 0
     then bindR (if MLFQ_tick s > 200 then boost_priority s else Inr s) (\<lambda>s.
          bindR (release Lptable s) (\<lambda>s. Inr (1, s)))
     else bindR (release Lptable s) (\<lambda>s. Inr (0, s)))"

definition tick_add_MLFQ :: "'a kproc_scheme \<Rightarrow> (int \<times> 'a kproc_scheme) res" where
  "tick_add_MLFQ s =
     bindR (acquire Lptable s) (\<lambda>s.
     case myproc s of None \<Rightarrow> Inl NullDeref
     | Some p \<Rightarrow>
     (case p_mystride (ptable s p) of None \<Rightarrow> Inl NullDeref
      | Some now \<Rightarrow>
      let s = upd_stride now (\<lambda>e. e\<lparr>st_pass := cint (st_pass e + st_stride e)\<rparr>) s in
      if p_isstride (ptable s p)
      then bindR (increasealltick p s) (\<lambda>s.
           bindR (release Lptable s) (\<lambda>s'.
           Inr (if p_fqtick (ptable s p) > 5 then 1 else 0, s')))
      else
       bindR (acquire LFQ_tick s) (\<lambda>s.
       bindR (release LFQ_tick (s\<lparr>MLFQ_tick := cint (MLFQ_tick s + 1)\<rparr>)) (\<lambda>s.
       bindR (increasealltick p s) (\<lambda>s.
       let allot = p_fqtick (ptable s p) in
       if p_level (ptable s p) = 0 then tick_level p allot 1 (Some 20) 5 s
       else if p_level (ptable s p) = 1 then tick_level p allot 2 (Some 40) 10 s
       else if p_level (ptable s p) = 2 then tick_level p allot 2 None 20 s
       else bindR (release Lptable s) (\<lambda>s. Inr (- 1, s)))))))"

section \<open>Stride scheduling\<close>

text \<open>
  \<open>choose_lowpass\<close>: the scan keeps the entry with the lowest pass, from entry 0 on. The loop
  that is to bring the passes down works on \<^verbatim>\<open>tmp[i]\<close>, \<open>i < NPROC\<close>; \<open>wrap_passes\<close> is that loop for
  a pointer \<open>tmp\<close> given as an index of the table, where an access at \<open>NPROC\<close> or later leaves the
  table. The scan leaves \<^verbatim>\<open>tmp\<close> at \<^verbatim>\<open>&stride_arr[NPROC]\<close>, the value its loop condition ends at. The
  body never reads the parameter \<^verbatim>\<open>start\<close>.
\<close>

definition lowpass_scan :: "'a kproc_scheme \<Rightarrow> nat res" where
  "lowpass_scan s =
     foldR (\<lambda>i select.
        if st_stride (stride_arr s i) = 0 then Inr select
        else case st_proc (stride_arr s i) of
          None \<Rightarrow> Inl NullDeref
        | Some q \<Rightarrow>
            if p_state (ptable s q) \<noteq> RUNNABLE then Inr select
            else if st_pass (stride_arr s i) < st_pass (stride_arr s select) then Inr i
            else Inr select) [0..<NPROC] 0"

definition wrap_passes :: "nat \<Rightarrow> 'a kproc_scheme \<Rightarrow> 'a kproc_scheme res" where
  "wrap_passes tmp s =
     foldR (\<lambda>i s. if NPROC \<le> tmp + i then Inl OutOfBounds
                  else Inr (upd_stride (tmp + i) (\<lambda>e. e\<lparr>st_pass := st_pass e smod 200000000\<rparr>) s)) [0..<NPROC] s"

definition choose_lowpass :: "int \<Rightarrow> 'a kproc_scheme \<Rightarrow> (nat option \<times> 'a kproc_scheme) res" where
  "choose_lowpass start s =
     bindR (lowpass_scan s) (\<lambda>select.
     let tmp = NPROC in
     bindR (if st_pass (stride_arr s select) > 200000000 then wrap_passes tmp s else Inr s) (\<lambda>s.
     if select = 0 then exec_MLFQ s
     else case st_proc (stride_arr s select) of
       None \<Rightarrow> Inl NullDeref
     | Some q \<Rightarrow>
         if p_isthread (ptable s q)
         then bindR (pickthread q s) (\<lambda>(t, s'). Inr (Some t, s'))
         else Inr (Some q, s)))"

definition setthreadtick :: "nat \<Rightarrow> 'a kproc_scheme \<Rightarrow> 'a kproc_scheme res" where
  "setthreadtick thread s =
     (let master = (case p_master (ptable s thread) of None \<Rightarrow> thread | Some m \<Rightarrow> m);
          s = upd_proc master (\<lambda>q. q\<lparr>p_fqtick := 0\<rparr>) s
      in if p_isthread (ptable s master)
         then foldR (\<lambda>i s. case p_workerthread (ptable s master) i of
                             None \<Rightarrow> Inl NullDeref
                           | Some w \<Rightarrow> Inr (upd_proc w (\<lambda>q. q\<lparr>p_fqtick := 0\<rparr>) s)) [0..<NTHRE] s
         else Inr s)"

text \<open>
  The request plus the shares already granted to stride processes, added up in a C \<^verbatim>\<open>int\<close>, and
  the lowest pass in use.
\<close>

definition share_total :: "'a kproc_scheme \<Rightarrow> int \<Rightarrow> int" where
  "share_total s portion =
     fold (\<lambda>i t. if st_stride (stride_arr s i) \<noteq> 0 then cint (t + st_share (stride_arr s i)) else t)
       [1..<NPROC] portion"

definition min_pass :: "'a kproc_scheme \<Rightarrow> int" where
  "min_pass s =
     fold (\<lambda>l m. if st_stride (stride_arr s l) \<noteq> 0 \<and> m > st_pass (stride_arr s l)
                 then st_pass (stride_arr s l) else m) [0..<NPROC] 220000000"

definition set_cpu_share :: "int \<Rightarrow> 'a kproc_scheme \<Rightarrow> (int \<times> 'a kproc_scheme) res" where
  "set_cpu_share portion s =
     (let total_portion = share_total s portion in
      if total_portion > 80 then Inr (- 1, s)
      else
        let rest = cint (100 - total_portion) in
        if rest = 0 then Inl DivByZero
        else
        let s = upd_stride 0 (\<lambda>e. e\<lparr>st_share := rest, st_stride := MAXTICKET sdiv rest\<rparr>) s;
            min = min_pass s
        in case find (\<lambda>j. st_stride (stride_arr s j) = 0) [0..<NPROC] of
             None \<Rightarrow> Inl OutOfBounds
           | Some j \<Rightarrow>
               if portion = 0 then Inl DivByZero
               else case myproc s of None \<Rightarrow> Inl NullDeref
               | Some p \<Rightarrow>
                  let s = upd_stride j (\<lambda>e. e\<lparr>st_share := portion,
                             st_stride := MAXTICKET sdiv portion, st_pass := min,
                             st_proc := Some p\<rparr>) s;
                      s = upd_proc p (\<lambda>q. q\<lparr>p_mystride := Some j, p_isstride := True\<rparr>) s
                  in bindR (setthreadtick p s) (\<lambda>s.
                     bindR (pop_MLFQ p s) (\<lambda>(_, s).
                     Inr (0, upd_proc p (\<lambda>q. q\<lparr>p_level := 3\<rparr>) s))))"

definition getlev :: int where
  "getlev = 0"

section \<open>Well-formed queues\<close>

text \<open>
  A queue is well formed when its counter is the number of occupied slots, every
  process in it records that level and is not a stride process, and no process sits in
  two slots.
\<close>

definition queue_wf :: "(nat \<Rightarrow> proc) \<Rightarrow> nat \<Rightarrow> FQ \<Rightarrow> bool" where
  "queue_wf pt l q \<longleftrightarrow>
     fq_total q = int (occupied NPROC (fq_holdingproc q)) \<and>
     (\<forall>i < NPROC. \<forall>p. fq_holdingproc q i = Some p \<longrightarrow>
        p < NPROC \<and> p_level (pt p) = l \<and> \<not> p_isstride (pt p)) \<and>
     (\<forall>i < NPROC. \<forall>j < NPROC. \<forall>p. fq_holdingproc q i = Some p \<and> fq_holdingproc q j = Some p \<longrightarrow> i = j)"

definition mlfq_wf :: "'a kproc_scheme \<Rightarrow> bool" where
  "mlfq_wf s \<longleftrightarrow> (\<forall>l < 3. queue_wf (ptable s) l (MLFQ_queues s l))"

definition queued :: "nat \<Rightarrow> nat \<Rightarrow> 'a kproc_scheme \<Rightarrow> bool" where
  "queued l p s \<longleftrightarrow> (\<exists>i < NPROC. fq_holdingproc (MLFQ_queues s l) i = Some p)"

definition member :: "nat \<Rightarrow> 'a kproc_scheme \<Rightarrow> bool" where
  "member p s \<longleftrightarrow> (\<exists>l < 3. queued l p s)"

abbreviation level_of :: "nat \<Rightarrow> 'a kproc_scheme \<Rightarrow> nat" where
  "level_of p s \<equiv> p_level (ptable s p)"

lemma mlfq_wfD: "mlfq_wf s \<Longrightarrow> l < 3 \<Longrightarrow> queue_wf (ptable s) l (MLFQ_queues s l)"
  by (simp add: mlfq_wf_def)

lemma queue_wfI:
  assumes "fq_total q = int (occupied NPROC (fq_holdingproc q))"
    and "\<And>i p. i < NPROC \<Longrightarrow> fq_holdingproc q i = Some p \<Longrightarrow>
           p < NPROC \<and> p_level (pt p) = l \<and> \<not> p_isstride (pt p)"
    and "\<And>i j p. i < NPROC \<Longrightarrow> j < NPROC \<Longrightarrow> fq_holdingproc q i = Some p \<Longrightarrow>
           fq_holdingproc q j = Some p \<Longrightarrow> i = j"
  shows "queue_wf pt l q"
  unfolding queue_wf_def
proof (intro conjI allI impI, goal_cases)
  case 1
  show ?case by (rule assms(1))
next
  case (2 i p)
  then show ?case using assms(2) [of i p] by simp
next
  case (3 i p)
  then show ?case using assms(2) [of i p] by simp
next
  case (4 i p)
  then show ?case using assms(2) [of i p] by simp
next
  case (5 i j p)
  then show ?case using assms(3) [of i j p] by simp
qed

lemma queue_wfD:
  assumes "queue_wf pt l q"
  shows "fq_total q = int (occupied NPROC (fq_holdingproc q))"
    and "i < NPROC \<Longrightarrow> fq_holdingproc q i = Some p \<Longrightarrow>
           p < NPROC \<and> p_level (pt p) = l \<and> \<not> p_isstride (pt p)"
    and "i < NPROC \<Longrightarrow> j < NPROC \<Longrightarrow> fq_holdingproc q i = Some p \<Longrightarrow>
           fq_holdingproc q j = Some p \<Longrightarrow> i = j"
proof -
  show "fq_total q = int (occupied NPROC (fq_holdingproc q))"
    using assms [unfolded queue_wf_def] by (rule conjunct1)
next
  assume "i < NPROC" "fq_holdingproc q i = Some p"
  then show "p < NPROC \<and> p_level (pt p) = l \<and> \<not> p_isstride (pt p)"
    using assms [unfolded queue_wf_def, THEN conjunct2, THEN conjunct1, rule_format, of i p] by simp
next
  assume "i < NPROC" "j < NPROC" "fq_holdingproc q i = Some p" "fq_holdingproc q j = Some p"
  then show "i = j"
    using assms [unfolded queue_wf_def, THEN conjunct2, THEN conjunct2, rule_format, of i j p] by simp
qed

lemma queued_level:
  assumes "mlfq_wf s" "l < 3" "queued l p s"
  shows "level_of p s = l \<and> p < NPROC \<and> \<not> p_isstride (ptable s p)"
proof -
  obtain i where "i < NPROC" "fq_holdingproc (MLFQ_queues s l) i = Some p"
    using assms(3) by (auto simp: queued_def)
  then show ?thesis using queue_wfD(2) [OF mlfq_wfD [OF assms(1,2)]] by simp
qed

lemma member_level:
  assumes "mlfq_wf s" "member p s"
  shows "level_of p s < 3 \<and> queued (level_of p s) p s \<and> p < NPROC"
proof -
  obtain l where l: "l < 3" "queued l p s" using assms(2) by (auto simp: member_def)
  then show ?thesis using queued_level [OF assms(1) l] by simp
qed

lemma queue_wf_cong:
  assumes wf: "queue_wf pt l q" and h: "fq_holdingproc q' = fq_holdingproc q" "fq_total q' = fq_total q"
    and eq: "\<And>i p. i < NPROC \<Longrightarrow> fq_holdingproc q i = Some p \<Longrightarrow>
           p_level (pt' p) = p_level (pt p) \<and> p_isstride (pt' p) = p_isstride (pt p)"
  shows "queue_wf pt' l q'"
proof (rule queue_wfI, goal_cases)
  case 1
  then show ?case using queue_wfD(1) [OF wf] by (simp add: h)
next
  case (2 i p)
  then show ?case using queue_wfD(2) [OF wf, of i p] eq [of i p] by (simp add: h)
next
  case (3 i j p)
  then show ?case using queue_wfD(3) [OF wf, of i j p] by (simp add: h)
qed

lemma queue_wf_fill:
  assumes wf: "queue_wf pt l q" and i: "i < NPROC" "fq_holdingproc q i = None"
    and p: "p < NPROC" "p_level (pt' p) = l" "\<not> p_isstride (pt' p)"
    and out: "\<forall>j < NPROC. fq_holdingproc q j \<noteq> Some p"
    and rest: "\<And>r. r \<noteq> p \<Longrightarrow> pt' r = pt r"
  shows "queue_wf pt' l (q\<lparr>fq_holdingproc := (fq_holdingproc q)(i := Some p), fq_total := fq_total q + 1\<rparr>)"
proof (rule queue_wfI, goal_cases)
  case 1
  then show ?case using queue_wfD(1) [OF wf] i by (simp add: occupied_fill)
next
  case (2 j r)
  then show ?case using queue_wfD(2) [OF wf, of j r] p rest [of r] by (cases "j = i"; cases "r = p") auto
next
  case (3 j k r)
  then show ?case using queue_wfD(3) [OF wf, of j k r] out by (cases "j = i"; cases "k = i") auto
qed

lemma queue_wf_clear:
  assumes wf: "queue_wf pt l q" and i: "i < NPROC" "fq_holdingproc q i = Some p"
    and same: "\<And>r. p_level (pt' r) = p_level (pt r) \<and> p_isstride (pt' r) = p_isstride (pt r)"
  shows "queue_wf pt' l (q\<lparr>fq_total := fq_total q - 1, fq_holdingproc := (fq_holdingproc q)(i := None)\<rparr>)"
proof (rule queue_wfI, goal_cases)
  case 1
  then show ?case using queue_wfD(1) [OF wf] occupied_clear [of i NPROC "fq_holdingproc q"] i by simp
next
  case (2 j r)
  then show ?case using queue_wfD(2) [OF wf, of j r] same by (cases "j = i") auto
next
  case (3 j k r)
  then show ?case using queue_wfD(3) [OF wf, of j k r] by (cases "j = i"; cases "k = i") auto
qed

lemma slot_other_fill:
  "h i = None \<Longrightarrow> q \<noteq> p \<Longrightarrow> (\<exists>j < n. (h(i := Some p)) j = Some q) \<longleftrightarrow> (\<exists>j < n. h j = Some q)"
  by (metis fun_upd_apply option.distinct(1) option.inject)

lemma slot_other_clear:
  "h i = Some p \<Longrightarrow> q \<noteq> p \<Longrightarrow> (\<exists>j < n. (h(i := None)) j = Some q) \<longleftrightarrow> (\<exists>j < n. h j = Some q)"
  by (metis fun_upd_apply option.distinct(1) option.inject)

text \<open>A queue that holds each process once has a free slot for any process not in it.\<close>

lemma queue_has_room:
  assumes wf: "queue_wf pt l q" and p: "p < NPROC"
    and out: "\<forall>i < NPROC. fq_holdingproc q i \<noteq> Some p"
  shows "\<exists>i < NPROC. fq_holdingproc q i = None"
proof (rule ccontr)
  assume "\<not> ?thesis"
  then have full: "fq_holdingproc q i \<noteq> None" if "i < NPROC" for i using that by simp
  define h where "h = (\<lambda>i. the (fq_holdingproc q i))"
  have h: "fq_holdingproc q i = Some (h i)" if "i < NPROC" for i
    using full that by (simp add: h_def)
  have inj: "inj_on h {..<NPROC}"
    using queue_wfD(3) [OF wf] h by (intro inj_onI) (metis lessThan_iff)
  have sub: "h ` {..<NPROC} \<subseteq> {..<NPROC} - {p}"
    using queue_wfD(2) [OF wf] h out by (auto simp: image_subset_iff)
  have "card {..<NPROC} \<le> card ({..<NPROC} - {p})"
    using card_inj_on_le [OF inj sub] by simp
  then show False using p by simp
qed

lemma push_MLFQ_ok:
  assumes wf: "mlfq_wf s" and p: "p < NPROC" and l: "level < 3" and out: "\<not> member p s"
  shows "\<exists>s'. push_MLFQ p level s = Inr (0, s') \<and> mlfq_wf s' \<and> queued level p s' \<and>
    level_of p s' = level \<and> p_fqtick (ptable s' p) = 0 \<and>
    (\<forall>q k. q \<noteq> p \<longrightarrow> queued k q s' = queued k q s) \<and>
    (\<forall>q. q \<noteq> p \<longrightarrow> ptable s' q = ptable s q) \<and> locks s' = locks s \<and>
    MLFQ_tick s' = MLFQ_tick s \<and> stride_arr s' = stride_arr s \<and> myproc s' = myproc s"
proof -
  let ?H = "fq_holdingproc (MLFQ_queues s level)"
  have outl: "\<forall>i < NPROC. fq_holdingproc (MLFQ_queues s k) i \<noteq> Some p" if "k < 3" for k
    using out that by (auto simp: member_def queued_def)
  have wfl: "queue_wf (ptable s) k (MLFQ_queues s k)" if "k < 3" for k
    using wf that by (rule mlfq_wfD)
  obtain i0 where "i0 < NPROC" "?H i0 = None"
    using queue_has_room [OF wfl [OF l] p outl [OF l]] by blast
  then obtain i where f: "find (\<lambda>i. ?H i = None) [0..<NPROC] = Some i"
    using find_upt_ex [of 0 i0 NPROC "\<lambda>i. ?H i = None"] by auto
  then have i: "i < NPROC" "?H i = None" by (auto simp: find_upt_Some)
  let ?s1 = "upd_proc p (\<lambda>q. q\<lparr>p_level := level, p_fqtick := 0, p_mystride := Some 0, p_isstride := False\<rparr>) s"
  let ?s' = "upd_FQ level (\<lambda>q. q\<lparr>fq_holdingproc := (fq_holdingproc q)(i := Some p), fq_total := fq_total q + 1\<rparr>) ?s1"
  have eq: "push_MLFQ p level s = Inr (0, ?s')"
    using f l by (simp add: push_MLFQ_def)
  have here: "queue_wf (ptable ?s') level (MLFQ_queues ?s' level)"
    using queue_wf_fill [OF wfl [OF l] i p _ _ outl [OF l]] by simp
  have there: "queue_wf (ptable ?s') k (MLFQ_queues ?s' k)" if "k < 3" "k \<noteq> level" for k
    using outl [OF that(1)] that(2) by (intro queue_wf_cong [OF wfl [OF that(1)]]) auto
  have wf': "mlfq_wf ?s'"
    unfolding mlfq_wf_def using here there by (intro allI impI) (case_tac "l = level", simp_all only:)
  have q: "queued level p ?s'" using i by (auto simp: queued_def)
  have others: "\<forall>q k. q \<noteq> p \<longrightarrow> queued k q ?s' = queued k q s"
    using i slot_other_fill [of "fq_holdingproc (MLFQ_queues s level)"] by (simp add: queued_def)
  show ?thesis
    by (rule exI [of _ ?s']) (use eq wf' q others in simp)
qed

lemma pop_MLFQ_ok:
  assumes wf: "mlfq_wf s" and m: "member p s"
  shows "\<exists>s'. pop_MLFQ p s = Inr (0, s') \<and> mlfq_wf s' \<and> \<not> member p s' \<and>
    (\<forall>q k. q \<noteq> p \<longrightarrow> queued k q s' = queued k q s) \<and>
    (\<forall>q. q \<noteq> p \<longrightarrow> ptable s' q = ptable s q) \<and> ptable s' p = ptable s p\<lparr>p_fqtick := 0\<rparr> \<and>
    locks s' = locks s \<and> MLFQ_tick s' = MLFQ_tick s \<and> stride_arr s' = stride_arr s \<and> myproc s' = myproc s"
proof -
  let ?l = "level_of p s"
  let ?H = "fq_holdingproc (MLFQ_queues s ?l)"
  have lv: "?l < 3" "queued ?l p s" "p < NPROC" using member_level [OF wf m] by auto
  have wfl: "queue_wf (ptable s) k (MLFQ_queues s k)" if "k < 3" for k
    using wf that by (rule mlfq_wfD)
  obtain i where f: "find (\<lambda>i. ?H i = Some p) [0..<NPROC] = Some i"
    using lv(2) find_upt_ex [of 0 _ NPROC "\<lambda>i. ?H i = Some p"] by (auto simp: queued_def)
  then have i: "i < NPROC" "?H i = Some p" by (auto simp: find_upt_Some)
  let ?s1 = "upd_proc p (\<lambda>q. q\<lparr>p_fqtick := 0\<rparr>) s"
  let ?s' = "upd_FQ ?l (\<lambda>q. q\<lparr>fq_total := fq_total q - 1, fq_holdingproc := (fq_holdingproc q)(i := None)\<rparr>) ?s1"
  have eq: "pop_MLFQ p s = Inr (0, ?s')"
    using f lv(1) by (simp add: pop_MLFQ_def Let_def)
  have here: "queue_wf (ptable ?s') ?l (MLFQ_queues ?s' ?l)"
    using queue_wf_clear [OF wfl [OF lv(1)] i, of "ptable ?s'"] by simp
  have there: "queue_wf (ptable ?s') k (MLFQ_queues ?s' k)" if "k < 3" "k \<noteq> ?l" for k
    using that(2) by (intro queue_wf_cong [OF wfl [OF that(1)]]) auto
  have wf': "mlfq_wf ?s'"
    unfolding mlfq_wf_def using here there by (intro allI impI) (case_tac "l = level_of p s", simp_all only:)
  have gone: "\<not> member p ?s'"
  proof
    assume mem: "member p ?s'"
    then have "queued ?l p ?s'" using member_level [OF wf' mem] by simp
    then obtain j where "j < NPROC" "j \<noteq> i" "?H j = Some p" by (auto simp: queued_def split: if_splits)
    then show False using queue_wfD(3) [OF wfl [OF lv(1)] _ i(1) _ i(2)] by blast
  qed
  have others: "\<forall>q k. q \<noteq> p \<longrightarrow> queued k q ?s' = queued k q s"
    using i slot_other_clear [of "fq_holdingproc (MLFQ_queues s (level_of p s))"] by (simp add: queued_def)
  show ?thesis
    by (rule exI [of _ ?s']) (use eq wf' gone others in simp)
qed

lemma pop_MLFQ_absent:
  assumes "\<not> member p s" and "level_of p s < 3"
  shows "pop_MLFQ p s = Inr (- 1, s)"
proof -
  have "find (\<lambda>i. fq_holdingproc (MLFQ_queues s (level_of p s)) i = Some p) [0..<NPROC] = None"
    using assms by (auto simp: find_upt_None member_def queued_def)
  then show ?thesis using assms by (simp add: pop_MLFQ_def Let_def)
qed

section \<open>Moving a process between levels\<close>

text \<open>
  The contract a client of the queues relies on: changing the level of a process that
  is in some queue succeeds and moves only that process; one that is in no queue is
  left alone. The sweep of \<open>boost_priority\<close> is proved from this contract.
\<close>

locale multilevel =
  fixes wf :: "'s \<Rightarrow> bool"
    and level :: "nat \<Rightarrow> 's \<Rightarrow> nat"
    and mem :: "nat \<Rightarrow> 's \<Rightarrow> bool"
    and tick :: "nat \<Rightarrow> 's \<Rightarrow> int"
    and frame :: "'s \<Rightarrow> 'f"
    and change :: "nat \<Rightarrow> nat \<Rightarrow> 's \<Rightarrow> (int \<times> 's) res"
  assumes change_mem: "wf s \<Longrightarrow> mem p s \<Longrightarrow> l < 3 \<Longrightarrow>
      \<exists>s'. change p l s = Inr (0, s') \<and> wf s' \<and> mem p s' \<and> level p s' = l \<and> tick p s' = 0 \<and>
           frame s' = frame s \<and> (\<forall>q. q \<noteq> p \<longrightarrow> mem q s' = mem q s \<and> level q s' = level q s \<and> tick q s' = tick q s)"
    and change_absent: "\<not> mem p s \<Longrightarrow> level p s < 3 \<Longrightarrow> change p l s = Inr (- 1, s)"
begin

definition sweep :: "nat \<Rightarrow> 's \<Rightarrow> 's res" where
  "sweep n s = foldR (\<lambda>i s. if level i s = 1 \<or> level i s = 2
      then bindR (change i 0 s) (\<lambda>(_, s'). Inr s') else Inr s) [0..<n] s"

lemma sweep_step:
  assumes "wf s"
  shows "\<exists>s'. (if level i s = 1 \<or> level i s = 2
                then bindR (change i 0 s) (\<lambda>(_, s'). Inr s') else Inr s) = Inr s' \<and> wf s' \<and>
     frame s' = frame s \<and> (\<forall>q. mem q s' = mem q s) \<and> (\<forall>q. q \<noteq> i \<longrightarrow> level q s' = level q s \<and> tick q s' = tick q s) \<and>
     (mem i s \<longrightarrow> level i s < 3 \<longrightarrow> level i s' = 0 \<and> tick i s' = (if level i s = 0 then tick i s else 0))"
proof (cases "level i s = 1 \<or> level i s = 2")
  case False
  then show ?thesis using assms by (intro exI [of _ s]) auto
next
  case True
  then have l3: "level i s < 3" by auto
  show ?thesis
  proof (cases "mem i s")
    case m: True
    obtain s' where s': "change i 0 s = Inr (0, s')" "wf s'" "mem i s'" "level i s' = 0" "tick i s' = 0"
        "frame s' = frame s" "\<forall>q. q \<noteq> i \<longrightarrow> mem q s' = mem q s \<and> level q s' = level q s \<and> tick q s' = tick q s"
      using change_mem [OF assms m, of 0] by auto
    then have "\<forall>q. mem q s' = mem q s" using m by metis
    then show ?thesis using s' True by (intro exI [of _ s']) auto
  next
    case False
    then show ?thesis using change_absent [OF False l3, of 0] assms True by (intro exI [of _ s]) simp
  qed
qed

lemma sweep_ok:
  assumes "wf s"
  shows "\<exists>t. sweep n s = Inr t \<and> wf t \<and> frame t = frame s \<and> (\<forall>q. mem q t = mem q s) \<and>
     (\<forall>q. n \<le> q \<longrightarrow> level q t = level q s \<and> tick q t = tick q s) \<and>
     (\<forall>q < n. mem q s \<longrightarrow> level q s < 3 \<longrightarrow> level q t = 0 \<and> tick q t = (if level q s = 0 then tick q s else 0))"
proof (induction n)
  case 0
  then show ?case using assms by (simp add: sweep_def)
next
  case (Suc n)
  then obtain t where t: "sweep n s = Inr t" "wf t" "frame t = frame s" "\<forall>q. mem q t = mem q s"
      "\<forall>q. n \<le> q \<longrightarrow> level q t = level q s \<and> tick q t = tick q s"
      "\<forall>q < n. mem q s \<longrightarrow> level q s < 3 \<longrightarrow> level q t = 0 \<and> tick q t = (if level q s = 0 then tick q s else 0)"
    by blast
  obtain u where u: "(if level n t = 1 \<or> level n t = 2
                then bindR (change n 0 t) (\<lambda>(_, s'). Inr s') else Inr t) = Inr u" "wf u"
     "frame u = frame t" "\<forall>q. mem q u = mem q t" "\<forall>q. q \<noteq> n \<longrightarrow> level q u = level q t \<and> tick q u = tick q t"
     "mem n t \<longrightarrow> level n t < 3 \<longrightarrow> level n u = 0 \<and> tick n u = (if level n t = 0 then tick n t else 0)"
    using sweep_step [OF t(2), of n] by blast
  have "sweep (Suc n) s = Inr u"
    using t(1) u(1) by (simp add: sweep_def foldR_append)
  then show ?case using t u by (intro exI [of _ u]) (auto simp: less_Suc_eq)
qed

end

lemma level_change_ok:
  assumes wf: "mlfq_wf s" and m: "member p s" and l: "l < 3"
  shows "\<exists>s'. level_change_MLFQ p l s = Inr (0, s') \<and> mlfq_wf s' \<and> member p s' \<and> level_of p s' = l \<and>
     p_fqtick (ptable s' p) = 0 \<and>
     (locks s', MLFQ_tick s', stride_arr s', myproc s') = (locks s, MLFQ_tick s, stride_arr s, myproc s) \<and>
     (\<forall>q. q \<noteq> p \<longrightarrow> member q s' = member q s \<and> ptable s' q = ptable s q)"
proof -
  obtain s1 where s1: "pop_MLFQ p s = Inr (0, s1)" "mlfq_wf s1" "\<not> member p s1"
      "\<forall>q k. q \<noteq> p \<longrightarrow> queued k q s1 = queued k q s" "\<forall>q. q \<noteq> p \<longrightarrow> ptable s1 q = ptable s q"
      "locks s1 = locks s" "MLFQ_tick s1 = MLFQ_tick s" "stride_arr s1 = stride_arr s" "myproc s1 = myproc s"
    using pop_MLFQ_ok [OF wf m] by blast
  have p: "p < NPROC" using member_level [OF wf m] by simp
  obtain s2 where s2: "push_MLFQ p l s1 = Inr (0, s2)" "mlfq_wf s2" "queued l p s2" "level_of p s2 = l"
      "p_fqtick (ptable s2 p) = 0"
      "\<forall>q k. q \<noteq> p \<longrightarrow> queued k q s2 = queued k q s1" "\<forall>q. q \<noteq> p \<longrightarrow> ptable s2 q = ptable s1 q"
      "locks s2 = locks s1" "MLFQ_tick s2 = MLFQ_tick s1" "stride_arr s2 = stride_arr s1" "myproc s2 = myproc s1"
    using push_MLFQ_ok [OF s1(2) p l s1(3)] by blast
  have "level_change_MLFQ p l s = Inr (0, s2)" using s1(1) s2(1) by (simp add: level_change_MLFQ_def)
  moreover have "member p s2" using s2(3) l by (auto simp: member_def)
  moreover have "\<forall>q. q \<noteq> p \<longrightarrow> member q s2 = member q s" using s1(4) s2(6) by (simp add: member_def)
  ultimately show ?thesis using s1 s2 by (intro exI [of _ s2]) simp
qed

interpretation fq: multilevel mlfq_wf level_of member "\<lambda>p s. p_fqtick (ptable s p)"
  "\<lambda>s. (locks s, MLFQ_tick s, stride_arr s, myproc s)" level_change_MLFQ
proof (unfold_locales, goal_cases)
  case (1 s p l)
  then show ?case using level_change_ok [of s p l] by metis
next
  case (2 p s l)
  then show ?case by (simp add: level_change_MLFQ_def pop_MLFQ_absent)
qed

lemma boost_priority_ok:
  assumes wf: "mlfq_wf s" and lk: "LFQ_tick \<notin> set (locks s)"
  shows "\<exists>t. boost_priority s = Inr t \<and> mlfq_wf t \<and> MLFQ_tick t = 0 \<and> locks t = locks s \<and>
     stride_arr t = stride_arr s \<and> myproc t = myproc s \<and> (\<forall>q. member q t = member q s) \<and>
     (\<forall>q. member q t \<longrightarrow> level_of q t = 0 \<and>
        p_fqtick (ptable t q) = (if level_of q s = 0 then p_fqtick (ptable s q) else 0))"
proof -
  obtain t where t: "fq.sweep NPROC s = Inr t" "mlfq_wf t"
      "(locks t, MLFQ_tick t, stride_arr t, myproc t) = (locks s, MLFQ_tick s, stride_arr s, myproc s)"
      "\<forall>q. member q t = member q s" "\<forall>q < NPROC. member q s \<longrightarrow> level_of q s < 3 \<longrightarrow> level_of q t = 0 \<and>
         p_fqtick (ptable t q) = (if level_of q s = 0 then p_fqtick (ptable s q) else 0)"
    using fq.sweep_ok [OF wf, of NPROC] by blast
  have "boost_priority s = Inr (t\<lparr>MLFQ_tick := 0\<rparr>)"
    using t(1) lk t(3) unfolding boost_priority_def fq.sweep_def by simp
  moreover have "mlfq_wf (t\<lparr>MLFQ_tick := 0\<rparr>)" using t(2) by (simp add: mlfq_wf_def)
  moreover have "member q (t\<lparr>MLFQ_tick := 0\<rparr>) = member q s" for q
    using t(4) by (simp add: member_def queued_def)
  moreover have "level_of q t = 0 \<and> p_fqtick (ptable t q) = (if level_of q s = 0 then p_fqtick (ptable s q) else 0)"
    if "member q s" for q
    using member_level [OF wf that] t(5) that by blast
  ultimately show ?thesis using t(3) by (intro exI [of _ "t\<lparr>MLFQ_tick := 0\<rparr>"]) simp
qed

section \<open>Choosing a thread and a process\<close>

text \<open>
  Starting from slot \<open>c\<close>, after \<open>k\<close> steps of the loop of \<open>pickthread\<close> the index is
  \<open>(c + k) mod (NTHRE + 1)\<close>, so the loop is back at \<open>c\<close> after \<open>NTHRE + 1\<close> steps.
\<close>

lemma pick_loop_total:
  assumes "p_curthread (ptable s m) \<le> NTHRE" and "i = (p_curthread (ptable s m) + k) mod (NTHRE + 1)"
    and "k + n \<ge> NTHRE + 1" and "k \<le> NTHRE"
  shows "\<exists>r. pick_loop n m i s = Inr r"
  using assms
proof (induction n arbitrary: i k)
  case 0
  then show ?case by simp
next
  case (Suc n)
  let ?c = "p_curthread (ptable s m)"
  let ?i = "(i + 1) mod (NTHRE + 1)"
  have i': "?i = (?c + Suc k) mod (NTHRE + 1)"
    using Suc.prems(2) by (simp add: mod_Suc_eq)
  have again: "?i \<noteq> ?c \<Longrightarrow> \<exists>r. pick_loop n m ?i s = Inr r"
  proof -
    assume ne: "?i \<noteq> ?c"
    have "k \<noteq> NTHRE"
    proof
      assume "k = NTHRE"
      then have "?i = (?c + (NTHRE + 1)) mod (NTHRE + 1)" using i' by simp
      then show False using ne Suc.prems(1) by (simp only: mod_add_self2) simp
    qed
    then show ?thesis using Suc.IH [of ?i "Suc k"] Suc.prems i' by simp
  qed
  show ?case
    using again by (auto simp: Let_def split: option.split)
qed

lemma pickthread_total:
  "p_curthread (ptable s m) \<le> NTHRE \<Longrightarrow> \<exists>r. pickthread m s = Inr r"
  using pick_loop_total [of s m "p_curthread (ptable s m)" 0 "NTHRE + 2"] by (simp add: pickthread_def)

lemma pick_at_Some:
  assumes "pick_at m i s = Some (t, s')"
  shows "s' = upd_proc m (\<lambda>q. q\<lparr>p_curthread := i\<rparr>) s \<and> p_state (ptable s t) = RUNNABLE \<and>
         (if i = NTHRE then t = m else p_workerthread (ptable s m) i = Some t)"
  using assms by (auto simp: pick_at_def bind_eq_Some_conv split: if_splits)

lemma pick_loop_result:
  "pick_loop n m i s = Inr (t, s') \<Longrightarrow>
     (t, s') = (m, s) \<or>
     (\<exists>j \<le> NTHRE. s' = upd_proc m (\<lambda>q. q\<lparr>p_curthread := j\<rparr>) s \<and> p_state (ptable s t) = RUNNABLE \<and>
       (if j = NTHRE then t = m else p_workerthread (ptable s m) j = Some t))"
proof (induction n arbitrary: i)
  case 0
  then show ?case by simp
next
  case (Suc n)
  let ?i = "(i + 1) mod (NTHRE + 1)"
  have le: "?i \<le> NTHRE"
    using mod_less_divisor [of "NTHRE + 1" "i + 1"] by simp
  show ?case
  proof (cases "pick_at m ?i s")
    case None
    then have "(if ?i \<noteq> p_curthread (ptable s m) then pick_loop n m ?i s else Inr (m, s)) = Inr (t, s')"
      using Suc.prems by (simp only: pick_loop.simps Let_def option.case)
    then show ?thesis using Suc.IH [of ?i] by (cases "?i = p_curthread (ptable s m)") simp_all
  next
    case (Some r)
    then have "pick_at m ?i s = Some (t, s')"
      using Suc.prems by (simp only: pick_loop.simps Let_def option.case sum.inject)
    then show ?thesis using pick_at_Some le by blast
  qed
qed

lemma pickthread_result:
  assumes "pickthread m s = Inr (t, s')"
  shows "(t, s') = (m, s) \<or>
     (\<exists>j \<le> NTHRE. s' = upd_proc m (\<lambda>q. q\<lparr>p_curthread := j\<rparr>) s \<and> p_state (ptable s t) = RUNNABLE \<and>
       (if j = NTHRE then t = m else p_workerthread (ptable s m) j = Some t))"
  using assms pick_loop_result [of "NTHRE + 2" m "p_curthread (ptable s m)" s t s']
  by (auto simp: pickthread_def split: if_splits)

lemma pickthread_runnable:
  assumes "pickthread m s = Inr (t, s')" and "p_state (ptable s m) = RUNNABLE"
  shows "p_state (ptable s' t) = RUNNABLE"
  using pickthread_result [OF assms(1)] assms(2) by auto

text \<open>The slot of a queue that the scan of \<open>exec_MLFQ\<close> never probes.\<close>

definition skipped :: "FQ \<Rightarrow> nat" where
  "skipped q = (fq_current q + (NPROC - 1)) mod NPROC"

definition runnable_at :: "nat \<Rightarrow> nat \<Rightarrow> 'a kproc_scheme \<Rightarrow> bool" where
  "runnable_at l i s \<longleftrightarrow> (case fq_holdingproc (MLFQ_queues s l) i of None \<Rightarrow> False
                          | Some p \<Rightarrow> p_state (ptable s p) = RUNNABLE)"

lemma rotate_surj:
  assumes "i < (n :: nat)"
  shows "\<exists>j < n. (c mod n + j) mod n = i"
proof (cases "c mod n \<le> i")
  case True
  then show ?thesis using assms by (intro exI [of _ "i - c mod n"]) auto
next
  case False
  have "c mod n < n" using assms by simp
  then have "c mod n + (i + n - c mod n) = i + n" by simp
  then show ?thesis using False assms
    by (intro exI [of _ "i + n - c mod n"]) auto
qed

lemma rotate_inj_le:
  assumes "(a + j) mod n = (a + k) mod n" and "k < (n :: nat)" and "j \<le> k"
  shows "j = k"
proof -
  have "n dvd (a + k) - (a + j)" using assms mod_eq_dvd_iff_nat [of "a + j" "a + k" n] by simp
  then have "n dvd k - j" by simp
  then show ?thesis using assms by (auto dest: dvd_imp_le)
qed

lemma rotate_inj:
  "(a + j) mod n = (a + k) mod n \<Longrightarrow> j < (n :: nat) \<Longrightarrow> k < n \<Longrightarrow> j = k"
  using rotate_inj_le [of a j n k] rotate_inj_le [of a k n j] by (cases "j \<le> k") auto

lemma exec_scan_eq:
  "exec_scan l s = map_option (\<lambda>j. (fq_current (MLFQ_queues s l) mod NPROC + j) mod NPROC)
     (find (\<lambda>j. runnable_at l ((fq_current (MLFQ_queues s l) mod NPROC + j) mod NPROC) s) [0..<NPROC - 1])"
  by (simp add: exec_scan_def Let_def runnable_at_def)

lemma exec_scan_Some:
  assumes "exec_scan l s = Some pos"
  shows "pos < NPROC \<and> runnable_at l pos s"
  using assms by (auto simp: exec_scan_eq find_upt_Some)

lemma exec_scan_None:
  "exec_scan l s = None \<longleftrightarrow> (\<forall>i < NPROC. i \<noteq> skipped (MLFQ_queues s l) \<longrightarrow> \<not> runnable_at l i s)"
proof -
  let ?c = "fq_current (MLFQ_queues s l)"
  have skip: "skipped (MLFQ_queues s l) = (?c mod NPROC + (NPROC - 1)) mod NPROC"
    by (simp add: skipped_def mod_add_left_eq)
  show ?thesis
  proof
    assume none: "exec_scan l s = None"
    show "\<forall>i < NPROC. i \<noteq> skipped (MLFQ_queues s l) \<longrightarrow> \<not> runnable_at l i s"
    proof (intro allI impI)
      fix i assume i: "i < NPROC" "i \<noteq> skipped (MLFQ_queues s l)"
      obtain j where j: "j < NPROC" "(?c mod NPROC + j) mod NPROC = i" using rotate_surj [OF i(1)] by blast
      then have "j \<noteq> NPROC - 1" using i(2) skip by metis
      then have "j < NPROC - 1" using j(1) by simp
      then show "\<not> runnable_at l i s" using none j(2) by (auto simp: exec_scan_eq find_upt_None)
    qed
  next
    assume all: "\<forall>i < NPROC. i \<noteq> skipped (MLFQ_queues s l) \<longrightarrow> \<not> runnable_at l i s"
    have "\<not> runnable_at l ((?c mod NPROC + j) mod NPROC) s" if "j < NPROC - 1" for j
    proof -
      have "(?c mod NPROC + j) mod NPROC \<noteq> skipped (MLFQ_queues s l)"
        using rotate_inj [of "?c mod NPROC" j NPROC "NPROC - 1"] that skip by auto
      then show ?thesis using all by simp
    qed
    then show "exec_scan l s = None" by (simp add: exec_scan_eq find_upt_None)
  qed
qed

lemma exec_levels_result:
  assumes "exec_levels ls s = Inr (r, s')"
  shows "case r of
     None \<Rightarrow> s' = s \<and> (\<forall>l \<in> set ls. fq_total (MLFQ_queues s l) = 0 \<or> exec_scan l s = None)
   | Some t \<Rightarrow> \<exists>l pos p s1. l \<in> set ls \<and> exec_scan l s = Some pos \<and>
        fq_holdingproc (MLFQ_queues s l) pos = Some p \<and> s1 = upd_FQ l (\<lambda>q. q\<lparr>fq_current := pos + 1\<rparr>) s \<and>
        (\<exists>pre post. ls = pre @ l # post \<and>
           (\<forall>k \<in> set pre. fq_total (MLFQ_queues s k) = 0 \<or> exec_scan k s = None)) \<and>
        (if p_isthread (ptable s p) then pickthread p s1 = Inr (t, s') else (t, s') = (p, s1))"
  using assms
proof (induction ls)
  case Nil
  then show ?case by auto
next
  case (Cons l ls)
  show ?case
  proof (cases "fq_total (MLFQ_queues s l) = 0 \<or> exec_scan l s = None")
    case True
    then have rec: "exec_levels ls s = Inr (r, s')" using Cons.prems by (auto split: if_splits)
    show ?thesis
    proof (cases r)
      case None
      then show ?thesis using Cons.IH [OF rec] True by simp
    next
      case (Some t)
      then obtain k pos p s1 pre post where k: "k \<in> set ls" "exec_scan k s = Some pos"
          "fq_holdingproc (MLFQ_queues s k) pos = Some p" "s1 = upd_FQ k (\<lambda>q. q\<lparr>fq_current := pos + 1\<rparr>) s"
          "ls = pre @ k # post" "\<forall>k \<in> set pre. fq_total (MLFQ_queues s k) = 0 \<or> exec_scan k s = None"
          "if p_isthread (ptable s p) then pickthread p s1 = Inr (t, s') else (t, s') = (p, s1)"
        using Cons.IH [OF rec] by auto
      have "l # ls = (l # pre) @ k # post" using k(5) by simp
      moreover have "\<forall>k \<in> set (l # pre). fq_total (MLFQ_queues s k) = 0 \<or> exec_scan k s = None"
        using k(6) True by simp
      ultimately have "\<exists>pre post. l # ls = pre @ k # post \<and>
           (\<forall>k \<in> set pre. fq_total (MLFQ_queues s k) = 0 \<or> exec_scan k s = None)" by blast
      then show ?thesis unfolding Some option.case
        by (intro exI [of _ k] exI [of _ pos] exI [of _ p] exI [of _ s1] conjI)
          (use k(1-4,7) in \<open>simp_all only: list.set insert_iff simp_thms\<close>)
    qed
  next
    case False
    then obtain pos where pos: "exec_scan l s = Some pos" by auto
    then obtain p where p: "fq_holdingproc (MLFQ_queues s l) pos = Some p"
      using exec_scan_Some [OF pos] by (auto simp: runnable_at_def split: option.splits)
    let ?s1 = "upd_FQ l (\<lambda>q. q\<lparr>fq_current := pos + 1\<rparr>) s"
    obtain t where t: "r = Some t" "if p_isthread (ptable s p) then pickthread p ?s1 = Inr (t, s') else (t, s') = (p, ?s1)"
      using Cons.prems False pos p by (auto simp: Let_def res_iff split: if_splits)
    have "\<exists>pre post. l # ls = pre @ l # post \<and>
           (\<forall>k \<in> set pre. fq_total (MLFQ_queues s k) = 0 \<or> exec_scan k s = None)"
      by (rule exI [of _ "[]"]) simp
    then show ?thesis unfolding t(1) option.case
      by (intro exI [of _ l] exI [of _ pos] exI [of _ p] exI [of _ ?s1] conjI)
        (use t(2) pos p in \<open>simp_all only: list.set insert_iff simp_thms\<close>)
  qed
qed

lemma exec_levels_total:
  assumes "\<And>l i p. l \<in> set ls \<Longrightarrow> i < NPROC \<Longrightarrow> fq_holdingproc (MLFQ_queues s l) i = Some p \<Longrightarrow>
             p_curthread (ptable s p) \<le> NTHRE"
  shows "\<exists>r. exec_levels ls s = Inr r"
  using assms
proof (induction ls)
  case Nil
  then show ?case by simp
next
  case (Cons l ls)
  have rec: "\<exists>r. exec_levels ls s = Inr r" using Cons.IH Cons.prems by (meson list.set_intros(2))
  show ?case
  proof (cases "fq_total (MLFQ_queues s l) = 0 \<or> exec_scan l s = None")
    case True
    then show ?thesis using rec by auto
  next
    case False
    then obtain pos where pos: "exec_scan l s = Some pos" by auto
    then obtain p where p: "pos < NPROC" "fq_holdingproc (MLFQ_queues s l) pos = Some p"
      using exec_scan_Some [OF pos] by (auto simp: runnable_at_def split: option.splits)
    have "p_curthread (ptable s p) \<le> NTHRE" using Cons.prems p by (meson list.set_intros(1))
    then obtain t s' where "pickthread p (upd_FQ l (\<lambda>q. q\<lparr>fq_current := pos + 1\<rparr>) s) = Inr (t, s')"
      using pickthread_total [of "upd_FQ l (\<lambda>q. q\<lparr>fq_current := pos + 1\<rparr>) s" p] by auto
    then show ?thesis using False pos p by (auto simp: Let_def)
  qed
qed

text \<open>In a well-formed queue an empty counter means no slot is occupied.\<close>

lemma total_zero_no_runnable:
  assumes "mlfq_wf s" "l < 3" "fq_total (MLFQ_queues s l) = 0" "i < NPROC"
  shows "\<not> runnable_at l i s"
proof -
  have "occupied NPROC (fq_holdingproc (MLFQ_queues s l)) = 0"
    using queue_wfD(1) [OF mlfq_wfD [OF assms(1,2)]] assms(3) by simp
  then show ?thesis using assms(4) by (simp add: occupied_zero runnable_at_def)
qed

lemma exec_MLFQ_runnable:
  assumes "exec_MLFQ s = Inr (r, s')" and "r = Some t"
  shows "p_state (ptable s' t) = RUNNABLE"
proof -
  obtain l pos p s1 where l: "exec_scan l s = Some pos" "fq_holdingproc (MLFQ_queues s l) pos = Some p"
      "s1 = upd_FQ l (\<lambda>q. q\<lparr>fq_current := pos + 1\<rparr>) s"
      "if p_isthread (ptable s p) then pickthread p s1 = Inr (t, s') else (t, s') = (p, s1)"
    using exec_levels_result [OF assms(1) [unfolded exec_MLFQ_def]] unfolding assms(2) option.case by blast
  have "p_state (ptable s1 p) = RUNNABLE" using exec_scan_Some [OF l(1)] l(2,3) by (simp add: runnable_at_def)
  then show ?thesis using l(4) pickthread_runnable [of p s1 t s'] by (auto split: if_splits)
qed

lemma levels_set: "l < (3 :: nat) \<longleftrightarrow> l \<in> set [0, 1, 2]"
  by auto

section \<open>Properties of the feedback queues\<close>

text \<open>
  C6. \<open>exec_MLFQ\<close> on well-formed queues returns: a process it picks is runnable, and it
  picks none exactly when every runnable process in the queues sits in the one slot of
  its queue that the scan does not probe.
\<close>

theorem exec_MLFQ_correct:
  assumes wf: "mlfq_wf s"
    and cur: "\<forall>p < NPROC. p_curthread (ptable s p) \<le> NTHRE"
  shows "\<exists>r s'. exec_MLFQ s = Inr (r, s') \<and>
     (\<forall>t. r = Some t \<longrightarrow> p_state (ptable s' t) = RUNNABLE) \<and>
     (r = None \<longleftrightarrow> (\<forall>l < 3. \<forall>i < NPROC. runnable_at l i s \<longrightarrow> i = skipped (MLFQ_queues s l)))"
proof -
  have "p_curthread (ptable s p) \<le> NTHRE"
    if "l \<in> set [0, 1, 2]" "i < NPROC" "fq_holdingproc (MLFQ_queues s l) i = Some p" for l i p
  proof -
    have "l < 3" using that(1) by auto
    then show ?thesis using queue_wfD(2) [OF mlfq_wfD [OF wf] that(2,3)] cur by blast
  qed
  then obtain r s' where ex: "exec_levels [0, 1, 2] s = Inr (r, s')"
    using exec_levels_total [of "[0, 1, 2]" s] by fastforce
  note res = exec_levels_result [OF ex]
  have none_iff: "(fq_total (MLFQ_queues s l) = 0 \<or> exec_scan l s = None) \<longleftrightarrow>
      (\<forall>i < NPROC. runnable_at l i s \<longrightarrow> i = skipped (MLFQ_queues s l))" if "l < 3" for l
    using total_zero_no_runnable [OF wf that] exec_scan_None [of l s] by metis
  have runnable: "p_state (ptable s' t) = RUNNABLE" if "r = Some t" for t
    using exec_MLFQ_runnable [of s r s' t] ex that by (simp add: exec_MLFQ_def)
  have "r = None \<longleftrightarrow> (\<forall>l < 3. \<forall>i < NPROC. runnable_at l i s \<longrightarrow> i = skipped (MLFQ_queues s l))"
  proof
    assume "r = None"
    then have "\<forall>l \<in> set [0, 1, 2]. fq_total (MLFQ_queues s l) = 0 \<or> exec_scan l s = None"
      using res by simp
    then have "fq_total (MLFQ_queues s l) = 0 \<or> exec_scan l s = None" if "l < 3" for l
      using that by (simp only: levels_set)
    then show "\<forall>l < 3. \<forall>i < NPROC. runnable_at l i s \<longrightarrow> i = skipped (MLFQ_queues s l)"
      using none_iff by blast
  next
    assume all: "\<forall>l < 3. \<forall>i < NPROC. runnable_at l i s \<longrightarrow> i = skipped (MLFQ_queues s l)"
    show "r = None"
    proof (rule ccontr)
      assume "r \<noteq> None"
      then obtain t where r: "r = Some t" by auto
      obtain l pos where l: "l \<in> set [0, 1, 2]" "exec_scan l s = Some pos"
        using res unfolding r option.case by blast
      then have "l < 3" by auto
      then have "fq_total (MLFQ_queues s l) = 0" using none_iff [of l] all l(2) by simp
      then show False using total_zero_no_runnable [OF wf \<open>l < 3\<close>] exec_scan_Some [OF l(2)] by blast
    qed
  qed
  then show ?thesis using ex runnable unfolding exec_MLFQ_def by blast
qed

text \<open>
  C23. Strict priority in the order of the code, which serves level 0 first: if a process is picked
  from level \<open>l\<close> then no level with a smaller number has a runnable process, except possibly
  in the slot its scan does not probe. The comment on \<^verbatim>\<open>level\<close> in \<^verbatim>\<open>proc.h\<close> and the design
  document number the levels the other way round, with 2 the highest priority.
\<close>

theorem exec_MLFQ_priority:
  assumes wf: "mlfq_wf s" and ex: "exec_MLFQ s = Inr (Some t, s')"
  shows "\<exists>l < 3. \<exists>pos p. pos < NPROC \<and> fq_holdingproc (MLFQ_queues s l) pos = Some p \<and>
     p_state (ptable s p) = RUNNABLE \<and> fq_current (MLFQ_queues s' l) = pos + 1 \<and>
     (t = p \<or> (\<exists>j. p_workerthread (ptable s p) j = Some t)) \<and>
     (\<forall>k < l. \<forall>i < NPROC. runnable_at k i s \<longrightarrow> i = skipped (MLFQ_queues s k))"
proof -
  obtain l pos p s1 pre post where l: "l \<in> set [0, 1, 2]" "exec_scan l s = Some pos"
      "fq_holdingproc (MLFQ_queues s l) pos = Some p" "s1 = upd_FQ l (\<lambda>q. q\<lparr>fq_current := pos + 1\<rparr>) s"
      "[0, 1, 2] = pre @ l # post" "\<forall>k \<in> set pre. fq_total (MLFQ_queues s k) = 0 \<or> exec_scan k s = None"
      "if p_isthread (ptable s p) then pickthread p s1 = Inr (t, s') else (t, s') = (p, s1)"
    using exec_levels_result [OF ex [unfolded exec_MLFQ_def]] unfolding option.case by blast
  have l3: "l < 3" using l(1) by auto
  have pre: "set pre = {..<l}"
    using l(5) l(1) by (auto simp: Cons_eq_append_conv)
  have run: "pos < NPROC \<and> p_state (ptable s p) = RUNNABLE"
    using exec_scan_Some [OF l(2)] l(3) by (simp add: runnable_at_def)
  have "fq_current (MLFQ_queues s' l) = pos + 1 \<and> (t = p \<or> (\<exists>j. p_workerthread (ptable s p) j = Some t))"
  proof (cases "p_isthread (ptable s p)")
    case True
    then have "pickthread p s1 = Inr (t, s')" using l(7) by simp
    from pickthread_result [OF this] show ?thesis using l(4) by (auto split: if_splits)
  next
    case False
    then show ?thesis using l(4,7) by simp
  qed
  moreover have "\<forall>k < l. \<forall>i < NPROC. runnable_at k i s \<longrightarrow> i = skipped (MLFQ_queues s k)"
  proof (intro allI impI)
    fix k i assume k: "k < l" "i < NPROC" "runnable_at k i s"
    then have "fq_total (MLFQ_queues s k) = 0 \<or> exec_scan k s = None" using l(6) pre by simp
    then show "i = skipped (MLFQ_queues s k)"
      using total_zero_no_runnable [OF wf, of k i] exec_scan_None [of k s] k l3 by auto
  qed
  ultimately show ?thesis using l3 l(3) run by (intro exI [of _ l] exI [of _ pos] exI [of _ p] conjI) simp_all
qed

section \<open>The timer tick\<close>

text \<open>
  What a tick does to an MLFQ process, stated apart from the code: the quantum of each
  level, the level a process that has used \<open>n\<close> ticks moves to, and when the boost is due.
\<close>

definition quantum :: "nat \<Rightarrow> int" where
  "quantum l = (if l = 0 then 5 else if l = 1 then 10 else 20)"

definition demote :: "nat \<Rightarrow> int \<Rightarrow> nat" where
  "demote l n = (if l = 0 \<and> n \<ge> 20 then 1 else if l = 1 \<and> n \<ge> 40 then 2 else l)"

lemma mlfq_wf_frame:
  assumes "mlfq_wf s" and "MLFQ_queues t = MLFQ_queues s"
    and "\<And>q. p_level (ptable t q) = p_level (ptable s q) \<and> p_isstride (ptable t q) = p_isstride (ptable s q)"
  shows "mlfq_wf t"
  unfolding mlfq_wf_def
proof (intro allI impI)
  fix l :: nat assume "l < 3"
  then show "queue_wf (ptable t) l (MLFQ_queues t l)"
    by (intro queue_wf_cong [OF mlfq_wfD [OF assms(1)]]) (simp_all add: assms(2,3))
qed

lemma member_frame: "MLFQ_queues t = MLFQ_queues s \<Longrightarrow> member p t = member p s"
  by (simp add: member_def queued_def)

text \<open>The tick never changes which processes have threads, nor takes a process off entry 0.\<close>

definition same_kind :: "'a kproc_scheme \<Rightarrow> 'a kproc_scheme \<Rightarrow> bool" where
  "same_kind s t \<longleftrightarrow> (\<forall>q. p_isthread (ptable t q) = p_isthread (ptable s q) \<and>
     (p_mystride (ptable s q) = Some 0 \<longrightarrow> p_mystride (ptable t q) = Some 0))"

lemma same_kind_refl: "same_kind s s"
  by (simp add: same_kind_def)

lemma same_kind_trans: "same_kind s t \<Longrightarrow> same_kind t u \<Longrightarrow> same_kind s u"
  by (simp add: same_kind_def)

lemma level_change_kind: "level_change_MLFQ p l s = Inr (r, t) \<Longrightarrow> same_kind s t"
  by (auto simp: level_change_MLFQ_def push_MLFQ_def pop_MLFQ_def same_kind_def Let_def res_iff split: if_splits option.splits)

lemma boost_priority_kind:
  assumes "boost_priority s = Inr t"
  shows "same_kind s t"
proof -
  obtain u where u: "foldR (\<lambda>i s. if p_level (ptable s i) = 1 \<or> p_level (ptable s i) = 2
                         then bindR (level_change_MLFQ i 0 s) (\<lambda>(_, s'). Inr s')
                         else Inr s) [0..<NPROC] s = Inr u" "same_kind u t"
    using assms by (auto simp: boost_priority_def same_kind_def acquire_def release_def res_iff split: if_splits)
  have "same_kind s u"
  proof (rule foldR_inv [where P = "same_kind s", OF u(1) same_kind_refl])
    fix i v w
    assume "(if p_level (ptable v i) = 1 \<or> p_level (ptable v i) = 2
          then bindR (level_change_MLFQ i 0 v) (\<lambda>(_, s'). Inr s') else Inr v) = Inr w" and v: "same_kind s v"
    then have "same_kind v w" by (auto simp: res_iff same_kind_refl dest: level_change_kind split: if_splits)
    then show "same_kind s w" using same_kind_trans v by blast
  qed
  then show ?thesis using same_kind_trans u(2) by blast
qed

lemma tick_level_ok:
  assumes wf: "mlfq_wf s" and m: "member p s" and nl: "nextlevel < 3" and lk: "locks s = Lptable # ls"
    and notl: "LFQ_tick \<notin> set (locks s)"
  shows "\<exists>r s'. tick_level p allot nextlevel limit qu s = Inr (r, s') \<and> mlfq_wf s' \<and> locks s' = ls \<and>
     (\<forall>q. member q s' = member q s) \<and> r = (if allot mod qu = 0 then 1 else 0) \<and>
     (let boost = (r = 1 \<and> MLFQ_tick s > 200); go = (limit \<noteq> None \<and> the limit \<le> allot) in
        level_of p s' = (if boost then 0 else if go then nextlevel else level_of p s) \<and>
        p_fqtick (ptable s' p) = (if go \<or> (boost \<and> level_of p s \<noteq> 0) then 0 else p_fqtick (ptable s p)) \<and>
        MLFQ_tick s' = (if boost then 0 else MLFQ_tick s)) \<and>
     stride_arr s' = stride_arr s \<and> myproc s' = myproc s \<and> same_kind s s'"
proof -
  define go where "go \<longleftrightarrow> limit \<noteq> None \<and> the limit \<le> allot"
  obtain s1 where s1: "(case limit of None \<Rightarrow> Inr s
            | Some m \<Rightarrow> if allot \<ge> m then bindR (level_change_MLFQ p nextlevel s) (\<lambda>(_, s'). Inr s')
                        else Inr s) = Inr s1"
     "mlfq_wf s1" "locks s1 = locks s" "MLFQ_tick s1 = MLFQ_tick s" "stride_arr s1 = stride_arr s"
     "\<forall>q. member q s1 = member q s" "level_of p s1 = (if go then nextlevel else level_of p s)"
     "p_fqtick (ptable s1 p) = (if go then 0 else p_fqtick (ptable s p))" "myproc s1 = myproc s" "same_kind s s1"
  proof (cases go)
    case True
    then obtain k where k: "limit = Some k" "k \<le> allot" by (auto simp: go_def)
    obtain s2 where s2: "level_change_MLFQ p nextlevel s = Inr (0, s2)" "mlfq_wf s2" "member p s2"
        "level_of p s2 = nextlevel" "p_fqtick (ptable s2 p) = 0"
        "(locks s2, MLFQ_tick s2, stride_arr s2, myproc s2) = (locks s, MLFQ_tick s, stride_arr s, myproc s)"
        "\<forall>q. q \<noteq> p \<longrightarrow> member q s2 = member q s \<and> ptable s2 q = ptable s q"
      using level_change_ok [OF wf m nl] by blast
    have "\<forall>q. member q s2 = member q s" using s2(3,7) m by metis
    then show ?thesis using that [of s2] s2 k True level_change_kind [OF s2(1)] by simp
  next
    case False
    then show ?thesis using that [of s] wf by (cases limit) (simp_all add: go_def same_kind_refl)
  qed
  show ?thesis
  proof (cases "allot mod qu = 0 \<and> MLFQ_tick s > 200")
    case True
    obtain t where t: "boost_priority s1 = Inr t" "mlfq_wf t" "MLFQ_tick t = 0" "locks t = locks s1"
        "stride_arr t = stride_arr s1" "myproc t = myproc s1" "\<forall>q. member q t = member q s1"
        "\<forall>q. member q t \<longrightarrow> level_of q t = 0 \<and> p_fqtick (ptable t q) = (if level_of q s1 = 0 then p_fqtick (ptable s1 q) else 0)"
      using boost_priority_ok [OF s1(2)] notl s1(3) by auto
    let ?s' = "t\<lparr>locks := ls\<rparr>"
    have "tick_level p allot nextlevel limit qu s = Inr (1, ?s')"
      unfolding tick_level_def s1(1) using True t s1(3,4) lk by simp
    moreover have "mlfq_wf ?s'" by (rule mlfq_wf_frame [OF t(2)]) simp_all
    moreover have "\<forall>q. member q ?s' = member q s" using t(7) s1(6) member_frame [of ?s' t] by simp
    moreover have "level_of p t = 0" "p_fqtick (ptable t p) = (if go \<or> level_of p s \<noteq> 0 then 0 else p_fqtick (ptable s p))"
      using t(7,8) s1(6,7,8) m by auto
    moreover have "same_kind s ?s'"
      using same_kind_trans [OF s1(10) boost_priority_kind [OF t(1)]] by (simp add: same_kind_def)
    ultimately show ?thesis using True t(3,5,6) s1(5,9) by (intro exI [of _ 1] exI [of _ ?s']) (simp add: go_def)
  next
    case False
    let ?s' = "s1\<lparr>locks := ls\<rparr>"
    let ?r = "if allot mod qu = 0 then 1 else 0"
    have "tick_level p allot nextlevel limit qu s = Inr (?r, ?s')"
      unfolding tick_level_def s1(1) using False s1(3,4) lk by auto
    moreover have "mlfq_wf ?s'" by (rule mlfq_wf_frame [OF s1(2)]) simp_all
    moreover have "\<forall>q. member q ?s' = member q s" using s1(6) member_frame [of ?s' s1] by simp
    moreover have "same_kind s ?s'" using s1(10) by (simp add: same_kind_def)
    ultimately show ?thesis using False s1(4,5,7-9)
      by (intro exI [of _ ?r] exI [of _ ?s']) (auto simp: go_def)
  qed
qed

lemma tick_add_ok:
  assumes wf: "mlfq_wf s" and me: "myproc s = Some p" and m: "member p s"
    and st: "p_mystride (ptable s p) = Some j" and th: "\<not> p_isthread (ptable s p)"
    and lk: "Lptable \<notin> set (locks s)" "LFQ_tick \<notin> set (locks s)"
  shows "\<exists>r s'. tick_add_MLFQ s = Inr (r, s') \<and> mlfq_wf s' \<and> locks s' = locks s \<and>
     (\<forall>q. member q s' = member q s) \<and>
     (let n = cint (p_fqtick (ptable s p) + 1); l = level_of p s;
          k = cint (MLFQ_tick s + 1); boost = (r = 1 \<and> k > 200) in
        r = (if n mod quantum l = 0 then 1 else 0) \<and>
        level_of p s' = (if boost then 0 else demote l n) \<and>
        p_fqtick (ptable s' p) = (if demote l n \<noteq> l \<or> (boost \<and> l \<noteq> 0) then 0 else n) \<and>
        MLFQ_tick s' = (if boost then 0 else k)) \<and>
     stride_arr s' = (stride_arr s)(j := stride_arr s j\<lparr>st_pass := cint (st_pass (stride_arr s j) + st_stride (stride_arr s j))\<rparr>) \<and>
     myproc s' = myproc s \<and> same_kind s s'"
proof -
  let ?l = "level_of p s"
  let ?n = "cint (p_fqtick (ptable s p) + 1)"
  have lv: "?l < 3" "\<not> p_isstride (ptable s p)"
    using member_level [OF wf m] queued_level [OF wf, of ?l p] by auto
  define t where "t = upd_proc p (\<lambda>q. q\<lparr>p_fqtick := cint (p_fqtick q + 1)\<rparr>)
     (s\<lparr>stride_arr := (stride_arr s)(j := stride_arr s j\<lparr>st_pass := cint (st_pass (stride_arr s j) + st_stride (stride_arr s j))\<rparr>),
        MLFQ_tick := cint (MLFQ_tick s + 1), locks := Lptable # locks s\<rparr>)"
  have eq: "tick_add_MLFQ s =
     (if ?l = 0 then tick_level p ?n 1 (Some 20) 5 t
      else if ?l = 1 then tick_level p ?n 2 (Some 40) 10 t
      else tick_level p ?n 2 None 20 t)"
    using lk me st th lv by (simp add: tick_add_MLFQ_def increasealltick_def Let_def upd_stride_def t_def)
  have wft: "mlfq_wf t" by (rule mlfq_wf_frame [OF wf]) (simp_all add: upd_stride_def t_def)
  have mt: "member q t = member q s" for q by (rule member_frame) (simp add: upd_stride_def t_def)
  have mp: "member p t" using mt m by simp
  have lkt: "locks t = Lptable # locks s" "LFQ_tick \<notin> set (locks t)" using lk by (simp_all add: t_def)
  have lt: "level_of p t = ?l" "MLFQ_tick t = cint (MLFQ_tick s + 1)" "p_fqtick (ptable t p) = ?n" "myproc t = myproc s"
      "stride_arr t = (stride_arr s)(j := stride_arr s j\<lparr>st_pass := cint (st_pass (stride_arr s j) + st_stride (stride_arr s j))\<rparr>)"
    by (simp_all add: t_def)
  have k: "same_kind s t" by (simp add: same_kind_def t_def)
  have fin: ?thesis
    if c: "tick_add_MLFQ s = tick_level p ?n nl lim (quantum ?l) t" "nl < 3"
      "demote ?l ?n = (if lim \<noteq> None \<and> the lim \<le> ?n then nl else ?l)" "lim \<noteq> None \<Longrightarrow> nl \<noteq> ?l" for nl lim
  proof -
    obtain r s' where r: "tick_level p ?n nl lim (quantum ?l) t = Inr (r, s')" "mlfq_wf s'" "locks s' = locks s"
        "\<forall>q. member q s' = member q t" "r = (if ?n mod quantum ?l = 0 then 1 else 0)"
        "let boost = (r = 1 \<and> MLFQ_tick t > 200); go = (lim \<noteq> None \<and> the lim \<le> ?n) in
          level_of p s' = (if boost then 0 else if go then nl else level_of p t) \<and>
          p_fqtick (ptable s' p) = (if go \<or> (boost \<and> level_of p t \<noteq> 0) then 0 else p_fqtick (ptable t p)) \<and>
          MLFQ_tick s' = (if boost then 0 else MLFQ_tick t)"
        "stride_arr s' = stride_arr t" "myproc s' = myproc t" "same_kind t s'"
      using tick_level_ok [OF wft mp c(2) lkt, of ?n lim "quantum ?l"] by blast
    have d: "demote ?l ?n \<noteq> ?l \<longleftrightarrow> lim \<noteq> None \<and> the lim \<le> ?n" using c(3,4) by simp
    show ?thesis unfolding Let_def c(1) d unfolding c(3)
      by (rule exI [of _ r], rule exI [of _ s'])
        (intro conjI; use r [unfolded mt lt Let_def] same_kind_trans [OF k r(9)] in blast)
  qed
  consider "?l = 0" | "?l = 1" | "?l = 2" using lv(1) by linarith
  then show ?thesis
  proof cases
    case 1
    then show ?thesis using eq by (intro fin [of 1 "Some 20"]) (simp_all add: quantum_def demote_def)
  next
    case 2
    then show ?thesis using eq by (intro fin [of 2 "Some 40"]) (simp_all add: quantum_def demote_def)
  next
    case 3
    then show ?thesis using eq by (intro fin [of 2 None]) (simp_all add: quantum_def demote_def)
  qed
qed

text \<open>
  C7. A timer tick on a single-threaded MLFQ process, with the numbers of the code: the tick is
  charged, the process is told to yield exactly when its ticks are a multiple of the level's
  quantum (5, 10 and 20 ticks), it moves down one level with its ticks back at 0 when it has
  used 20 ticks at level 0 or 40 at level 1, all processes return to level 0 when the yield
  comes after more than 200 ticks, the pass of its stride entry advances, the queues stay
  well formed and every lock is released. The counters wrap at 32 bits. The design document
  \<^verbatim>\<open>OS_Project1.md\<close> has other numbers: quanta of 1, 2 and 4 ticks, allotments of 5 and 15, a
  boost every 100 ticks.
\<close>

theorem tick_add_MLFQ_correct:
  assumes wf: "mlfq_wf s" and me: "myproc s = Some p" and m: "member p s"
    and st: "p_mystride (ptable s p) = Some j" and th: "\<not> p_isthread (ptable s p)"
    and lk: "Lptable \<notin> set (locks s)" "LFQ_tick \<notin> set (locks s)"
  shows "\<exists>r s'. tick_add_MLFQ s = Inr (r, s') \<and> mlfq_wf s' \<and> locks s' = locks s \<and>
     (\<forall>q. member q s' = member q s) \<and>
     (let n = cint (p_fqtick (ptable s p) + 1); l = level_of p s;
          k = cint (MLFQ_tick s + 1); boost = (r = 1 \<and> k > 200) in
        r = (if n mod quantum l = 0 then 1 else 0) \<and>
        level_of p s' = (if boost then 0 else demote l n) \<and>
        p_fqtick (ptable s' p) = (if demote l n \<noteq> l \<or> (boost \<and> l \<noteq> 0) then 0 else n) \<and>
        MLFQ_tick s' = (if boost then 0 else k)) \<and>
     stride_arr s' = (stride_arr s)(j := stride_arr s j\<lparr>st_pass := cint (st_pass (stride_arr s j) + st_stride (stride_arr s j))\<rparr>)"
  using tick_add_ok [OF assms] by blast

section \<open>Stride scheduling\<close>

text \<open>An entry competes when it is in use and its process is runnable.\<close>

definition competes :: "nat \<Rightarrow> 'a kproc_scheme \<Rightarrow> bool" where
  "competes i s \<longleftrightarrow> st_stride (stride_arr s i) \<noteq> 0 \<and>
     (case st_proc (stride_arr s i) of None \<Rightarrow> False | Some q \<Rightarrow> p_state (ptable s q) = RUNNABLE)"

abbreviation pass_of :: "nat \<Rightarrow> 'a kproc_scheme \<Rightarrow> int" where
  "pass_of i s \<equiv> st_pass (stride_arr s i)"

abbreviation active :: "nat \<Rightarrow> 'a kproc_scheme \<Rightarrow> bool" where
  "active i s \<equiv> st_stride (stride_arr s i) \<noteq> 0"

text \<open>
  The choice among the first \<open>n\<close> entries. Entry 0 is a candidate whether it competes or not; the
  others must compete. The lowest pass wins, and among equal passes the first entry, so at most
  one \<open>k\<close> qualifies.
\<close>

definition candidate :: "nat \<Rightarrow> 'a kproc_scheme \<Rightarrow> bool" where
  "candidate i s \<longleftrightarrow> i = 0 \<or> competes i s"

definition lowest :: "nat \<Rightarrow> nat \<Rightarrow> 'a kproc_scheme \<Rightarrow> bool" where
  "lowest n k s \<longleftrightarrow> candidate k s \<and> (k = 0 \<or> k < n) \<and>
     (\<forall>i < n. candidate i s \<longrightarrow> pass_of k s \<le> pass_of i s \<and> (i < k \<longrightarrow> pass_of k s < pass_of i s))"

lemma lowpass_scan_prefix:
  assumes "\<forall>i < n. active i s \<longrightarrow> st_proc (stride_arr s i) \<noteq> None"
  shows "\<exists>k. foldR (\<lambda>i select.
        if st_stride (stride_arr s i) = 0 then Inr select
        else case st_proc (stride_arr s i) of
          None \<Rightarrow> Inl NullDeref
        | Some q \<Rightarrow>
            if p_state (ptable s q) \<noteq> RUNNABLE then Inr select
            else if st_pass (stride_arr s i) < st_pass (stride_arr s select) then Inr i
            else Inr select) [0..<n] 0 = Inr k \<and> lowest n k s"
  using assms
proof (induction n)
  case 0
  then show ?case by (simp add: lowest_def candidate_def)
next
  case (Suc n)
  then obtain k where k: "foldR (\<lambda>i select.
        if st_stride (stride_arr s i) = 0 then Inr select
        else case st_proc (stride_arr s i) of
          None \<Rightarrow> Inl NullDeref
        | Some q \<Rightarrow>
            if p_state (ptable s q) \<noteq> RUNNABLE then Inr select
            else if st_pass (stride_arr s i) < st_pass (stride_arr s select) then Inr i
            else Inr select) [0..<n] 0 = Inr k" "lowest n k s" by auto
  show ?case
  proof (cases "competes n s")
    case False
    have z: "pass_of k s \<le> pass_of 0 s \<and> (0 < k \<longrightarrow> pass_of k s < pass_of 0 s)"
      using k(2) by (cases "0 < n") (auto simp: lowest_def candidate_def)
    have "lowest (Suc n) k s" using k(2) False z by (auto simp: lowest_def candidate_def less_Suc_eq)
    moreover have "active n s \<Longrightarrow> \<exists>q. st_proc (stride_arr s n) = Some q \<and> p_state (ptable s q) \<noteq> RUNNABLE"
      using False Suc.prems by (auto simp: competes_def)
    ultimately show ?thesis using k(1) by (intro exI [of _ k]) (auto simp: foldR_append)
  next
    case True
    then obtain q where q: "active n s" "st_proc (stride_arr s n) = Some q" "p_state (ptable s q) = RUNNABLE"
      by (auto simp: competes_def split: option.splits)
    let ?k = "if pass_of n s < pass_of k s then n else k"
    have kn: "k \<le> n" "n = 0 \<longrightarrow> k = 0" using k(2) by (auto simp: lowest_def)
    have "lowest (Suc n) ?k s" using k(2) True kn by (fastforce simp: lowest_def candidate_def less_Suc_eq)
    then show ?thesis using k(1) q by (intro exI [of _ ?k]) (simp add: foldR_append)
  qed
qed

lemma lowpass_scan_ok:
  assumes "\<forall>i < NPROC. active i s \<longrightarrow> st_proc (stride_arr s i) \<noteq> None"
  shows "\<exists>k. lowpass_scan s = Inr k \<and> lowest NPROC k s"
  using lowpass_scan_prefix [OF assms] by (simp add: lowpass_scan_def)

lemma lowest_zero: "lowest NPROC k s \<Longrightarrow> pass_of k s \<le> pass_of 0 s"
  unfolding lowest_def candidate_def using NPROC_pos(1) by blast

text \<open>
  C8. \<open>choose_lowpass\<close> while the pass of entry 0 is at most 200000000 and every entry in use has a
  process: it selects entry 0 unless a competing entry has a smaller pass, and otherwise the
  first competing entry with the lowest pass. Entry 0 is a candidate also when it does not
  compete. It is served by the feedback queues, which may have nothing to run, and then the
  result is null; any other entry is served by its process or one of its threads. A process that
  is returned is runnable. The argument makes no difference: \<open>choose_lowpass(1)\<close>, the second search
  of the scheduler, considers entry 0 as well, where \<^verbatim>\<open>OS_Project1.md\<close> says that it starts at
  \<^verbatim>\<open>stride_arr[1]\<close>.
\<close>

theorem choose_lowpass_correct:
  assumes wf: "mlfq_wf s" and cur: "\<forall>p. p_curthread (ptable s p) \<le> NTHRE"
    and act: "\<forall>i < NPROC. active i s \<longrightarrow> st_proc (stride_arr s i) \<noteq> None"
    and small: "pass_of 0 s \<le> 200000000"
  shows "\<exists>k r s'. lowest NPROC k s \<and> (\<forall>start. choose_lowpass start s = Inr (r, s')) \<and>
     (k = 0 \<longrightarrow> exec_MLFQ s = Inr (r, s')) \<and>
     (k \<noteq> 0 \<longrightarrow> (\<exists>q t. st_proc (stride_arr s k) = Some q \<and> r = Some t \<and>
                  (if p_isthread (ptable s q) then t = q \<or> (\<exists>j. p_workerthread (ptable s q) j = Some t)
                   else t = q \<and> s' = s))) \<and>
     (\<forall>t. r = Some t \<longrightarrow> p_state (ptable s' t) = RUNNABLE)"
proof -
  obtain k where k: "lowpass_scan s = Inr k" "lowest NPROC k s" using lowpass_scan_ok [OF act] by blast
  then have le: "\<not> pass_of k s > 200000000" using small lowest_zero by force
  show ?thesis
  proof (cases "k = 0")
    case True
    obtain r s' where "exec_MLFQ s = Inr (r, s')" "\<forall>t. r = Some t \<longrightarrow> p_state (ptable s' t) = RUNNABLE"
      using exec_levels_total [of "[0, 1, 2]" s] cur
      by (metis exec_MLFQ_def exec_MLFQ_runnable surj_pair wf)
    then show ?thesis using k True le by (intro exI [of _ k] exI [of _ r] exI [of _ s']) (simp add: choose_lowpass_def)
  next
    case False
    then have "competes k s" using k(2) by (auto simp: lowest_def candidate_def)
    then obtain q where q: "st_proc (stride_arr s k) = Some q" "p_state (ptable s q) = RUNNABLE"
      by (auto simp: competes_def split: option.splits)
    show ?thesis
    proof (cases "p_isthread (ptable s q)")
      case True
      obtain t s' where t: "pickthread q s = Inr (t, s')" using pickthread_total cur by (metis surj_pair)
      have "t = q \<or> (\<exists>j. p_workerthread (ptable s q) j = Some t)"
        using pickthread_result [OF t] by (auto split: if_splits)
      then show ?thesis using k False le q t True pickthread_runnable [OF t q(2)]
        by (intro exI [of _ k] exI [of _ "Some t"] exI [of _ s']) (simp add: choose_lowpass_def)
    next
      case nt: False
      then show ?thesis using k False le q
        by (intro exI [of _ k] exI [of _ "Some q"] exI [of _ s]) (simp add: choose_lowpass_def)
    qed
  qed
qed

section \<open>The passes outgrow the table\<close>

text \<open>The timer ticks \<open>n\<close> times while the same process runs.\<close>

primrec run_ticks :: "nat \<Rightarrow> 'a kproc_scheme \<Rightarrow> 'a kproc_scheme res" where
  "run_ticks 0 s = Inr s"
| "run_ticks (Suc n) s = bindR (run_ticks n s) (\<lambda>s. bindR (tick_add_MLFQ s) (\<lambda>(_, s). Inr s))"

text \<open>The loop that reduces the passes is right for a pointer to the start of the table.\<close>

lemma wrap_passes_start: "\<exists>u. wrap_passes 0 s = Inr u \<and> (\<forall>i < NPROC. pass_of i u = pass_of i s smod 200000000)"
proof -
  have "\<exists>u. foldR (\<lambda>i s. if NPROC \<le> 0 + i then Inl OutOfBounds
                  else Inr (upd_stride (0 + i) (\<lambda>e. e\<lparr>st_pass := st_pass e smod 200000000\<rparr>) s)) [0..<n] s = Inr u \<and>
      (\<forall>i. pass_of i u = (if i < n then pass_of i s smod 200000000 else pass_of i s))" if "n \<le> NPROC" for n
    using that
  proof (induction n)
    case (Suc n)
    then obtain u where u: "foldR (\<lambda>i s. if NPROC \<le> 0 + i then Inl OutOfBounds
                  else Inr (upd_stride (0 + i) (\<lambda>e. e\<lparr>st_pass := st_pass e smod 200000000\<rparr>) s)) [0..<n] s = Inr u"
      "\<forall>i. pass_of i u = (if i < n then pass_of i s smod 200000000 else pass_of i s)" by auto
    then show ?case using Suc.prems
      by (intro exI [of _ "upd_stride n (\<lambda>e. e\<lparr>st_pass := st_pass e smod 200000000\<rparr>) u"]) (simp add: foldR_append)
  qed simp
  then show ?thesis unfolding wrap_passes_def by force
qed

lemma wrap_passes_end: "wrap_passes NPROC s = Inl OutOfBounds"
  by (simp add: wrap_passes_def upt_conv_Cons)

lemma run_ticks_ok:
  assumes s: "mlfq_wf s" "myproc s = Some p" "member p s" "p_mystride (ptable s p) = Some 0" "\<not> p_isthread (ptable s p)"
      "Lptable \<notin> set (locks s)" "LFQ_tick \<notin> set (locks s)"
    and d: "0 \<le> pass_of 0 s" "0 \<le> st_stride (stride_arr s 0)" "pass_of 0 s + int n * st_stride (stride_arr s 0) < 2 ^ 31"
  shows "\<exists>t. run_ticks n s = Inr t \<and> mlfq_wf t \<and> (\<forall>q. member q t = member q s) \<and> myproc t = Some p \<and> same_kind s t \<and> locks t = locks s \<and>
    stride_arr t = (stride_arr s)(0 := (stride_arr s 0)\<lparr>st_pass := pass_of 0 s + int n * st_stride (stride_arr s 0)\<rparr>)"
  using d
proof (induction n)
  case 0
  then show ?case using s by (simp add: same_kind_refl)
next
  case (Suc n)
  let ?d = "st_stride (stride_arr s 0)"
  have b: "pass_of 0 s + int n * ?d < 2 ^ 31" "0 \<le> int n * ?d" using Suc.prems by (simp_all add: distrib_right)
  obtain t where t: "run_ticks n s = Inr t" "mlfq_wf t" "\<forall>q. member q t = member q s" "myproc t = Some p" "same_kind s t" "locks t = locks s"
      "stride_arr t = (stride_arr s)(0 := (stride_arr s 0)\<lparr>st_pass := pass_of 0 s + int n * ?d\<rparr>)"
    using Suc.IH b Suc.prems by blast
  have k: "p_mystride (ptable t p) = Some 0" "\<not> p_isthread (ptable t p)" "member p t" using t(3,5) s by (simp_all add: same_kind_def)
  obtain r u where u: "tick_add_MLFQ t = Inr (r, u)" "mlfq_wf u" "locks u = locks t" "\<forall>q. member q u = member q t" "myproc u = myproc t"
      "stride_arr u = (stride_arr t)(0 := stride_arr t 0\<lparr>st_pass := cint (pass_of 0 t + st_stride (stride_arr t 0))\<rparr>)" "same_kind t u"
    using tick_add_ok [OF t(2,4) k(3,1,2)] s(6,7) t(6) by auto
  have e: "pass_of 0 t + st_stride (stride_arr t 0) = pass_of 0 s + int (Suc n) * ?d" by (simp add: t(7) distrib_right)
  have "0 \<le> int (Suc n) * ?d" using Suc.prems(2) by (intro mult_nonneg_nonneg) simp_all
  then have "cint (pass_of 0 t + st_stride (stride_arr t 0)) = pass_of 0 s + int (Suc n) * ?d"
    unfolding e using Suc.prems(1,3) by (intro cint_id) linarith+
  then show ?case using t u same_kind_trans [OF t(5) u(7)] by (intro exI [of _ u]) simp
qed

text \<open>
  C25. The passes grow until the scheduler leaves its table. While only the feedback queues use
  the CPU, every tick of a single-threaded process adds the stride of entry 0 to its pass. After
  enough ticks (200001, about 34 minutes at 100 ticks a second, for the stride 1000 that entry 0
  has when the last stride process is gone; until the first request for a share it is 0) the
  pass exceeds 200000000, \<open>choose_lowpass\<close> runs the loop that is to reduce the passes, and its first
  access is past the end of the table. The same loop on a pointer to the start of the table
  would reduce every pass.
\<close>

theorem choose_lowpass_wrap_out_of_bounds:
  assumes s: "mlfq_wf s" "myproc s = Some p" "member p s" "p_mystride (ptable s p) = Some 0" "\<not> p_isthread (ptable s p)"
      "Lptable \<notin> set (locks s)" "LFQ_tick \<notin> set (locks s)"
    and arr: "st_proc (stride_arr s 0) \<noteq> None" "\<forall>i < NPROC. 0 < i \<longrightarrow> \<not> active i s"
    and pass: "0 \<le> pass_of 0 s" "0 \<le> st_stride (stride_arr s 0)" "200000000 < pass_of 0 s + int n * st_stride (stride_arr s 0)"
      "pass_of 0 s + int n * st_stride (stride_arr s 0) < 2 ^ 31"
  shows "\<exists>t. run_ticks n s = Inr t \<and> pass_of 0 t = pass_of 0 s + int n * st_stride (stride_arr s 0) \<and>
    (\<forall>start. choose_lowpass start t = Inl OutOfBounds) \<and>
    (\<exists>u. wrap_passes 0 t = Inr u \<and> (\<forall>i < NPROC. pass_of i u = pass_of i t smod 200000000))"
proof -
  obtain t where t: "run_ticks n s = Inr t"
      "stride_arr t = (stride_arr s)(0 := (stride_arr s 0)\<lparr>st_pass := pass_of 0 s + int n * st_stride (stride_arr s 0)\<rparr>)"
    using run_ticks_ok [OF s pass(1,2,4)] by blast
  have "\<forall>i < NPROC. active i t \<longrightarrow> st_proc (stride_arr t i) \<noteq> None" using arr by (simp add: t(2))
  then obtain k where k: "lowpass_scan t = Inr k" "lowest NPROC k t" using lowpass_scan_ok by blast
  then have "k = 0" using arr(2) by (auto simp: lowest_def candidate_def competes_def t(2) split: if_splits)
  then have "choose_lowpass start t = Inl OutOfBounds" for start
    using k(1) pass(3) by (simp add: choose_lowpass_def Let_def t(2) wrap_passes_end)
  moreover have "pass_of 0 t = pass_of 0 s + int n * st_stride (stride_arr s 0)" by (simp add: t(2))
  ultimately show ?thesis using t(1) wrap_passes_start [of t] by blast
qed

section \<open>Asking for a share\<close>

definition shares :: "'a kproc_scheme \<Rightarrow> int" where
  "shares s = (\<Sum>i \<in> {1..<NPROC}. if active i s then st_share (stride_arr s i) else 0)"

lemma share_total_eq:
  assumes "- (2 ^ 31) \<le> portion" "portion < 2 ^ 31"
  shows "share_total s portion = cint (portion + shares s)"
proof -
  have "fold (\<lambda>i t. if active i s then cint (t + st_share (stride_arr s i)) else t) [1..<n] portion =
        cint (portion + (\<Sum>i \<in> {1..<n}. if active i s then st_share (stride_arr s i) else 0))" for n
  proof (induction n)
    case (Suc n)
    then show ?case by (cases "n = 0") (use assms in \<open>auto simp: cint_id cint_add add.assoc\<close>)
  qed (use assms in \<open>simp add: cint_id\<close>)
  then show ?thesis by (simp add: share_total_def shares_def)
qed

lemma min_pass_le:
  assumes "i < NPROC" and "active i s"
  shows "min_pass s \<le> pass_of i s"
proof -
  have "i < n \<Longrightarrow> fold (\<lambda>l m. if active l s \<and> m > pass_of l s then pass_of l s else m) [0..<n] 220000000
          \<le> pass_of i s" for n
    using assms(2) by (induction n) (auto simp: less_Suc_eq)
  then show ?thesis using assms(1) by (simp add: min_pass_def)
qed

lemma shares_grant:
  assumes "1 \<le> j" "j < NPROC" "\<not> active j s" "d \<noteq> 0"
    and "stride_arr t j = e" "st_share e = portion" "st_stride e = d"
    and "\<And>i. i \<noteq> 0 \<Longrightarrow> i \<noteq> j \<Longrightarrow> stride_arr t i = stride_arr s i"
  shows "shares t = shares s + portion"
proof -
  have j: "j \<in> {1..<NPROC}" using assms by simp
  have "(\<Sum>i \<in> {1..<NPROC} - {j}. if active i t then st_share (stride_arr t i) else 0) =
        (\<Sum>i \<in> {1..<NPROC} - {j}. if active i s then st_share (stride_arr s i) else 0)"
    using assms(8) by (intro sum.cong) auto
  then show ?thesis using assms(3-7)
    unfolding shares_def sum.remove [OF finite_atLeastLessThan j] by simp
qed

lemma mlfq_wf_absent:
  assumes "mlfq_wf s" and "\<not> member p s" and "MLFQ_queues t = MLFQ_queues s"
    and "\<And>q. q \<noteq> p \<Longrightarrow> ptable t q = ptable s q"
  shows "mlfq_wf t"
  unfolding mlfq_wf_def
proof (intro allI impI)
  fix l :: nat assume l: "l < 3"
  have "q \<noteq> p" if "k < NPROC" "fq_holdingproc (MLFQ_queues s l) k = Some q" for k q
    using assms(2) l that by (auto simp: member_def queued_def)
  then show "queue_wf (ptable t) l (MLFQ_queues t l)"
    using assms(3,4) by (intro queue_wf_cong [OF mlfq_wfD [OF assms(1) l]]) simp_all
qed

text \<open>Removing a process from its queue reads only its level, whatever else was set before.\<close>

lemma pop_MLFQ_after:
  assumes wf: "mlfq_wf s" and lv: "level_of p s < 3"
    and t: "MLFQ_queues t = MLFQ_queues s" "\<And>q. q \<noteq> p \<Longrightarrow> ptable t q = ptable s q" "level_of p t = level_of p s"
  shows "\<exists>r t'. pop_MLFQ p t = Inr (r, t') \<and> mlfq_wf t' \<and> \<not> member p t' \<and>
    (\<forall>q. q \<noteq> p \<longrightarrow> ptable t' q = ptable s q) \<and> stride_arr t' = stride_arr t \<and>
    (ptable t' p = ptable t p\<lparr>p_fqtick := 0\<rparr> \<or> ptable t' p = ptable t p) \<and> (r = 0 \<longleftrightarrow> member p s)"
proof -
  define u where "u = t\<lparr>ptable := (ptable t)(p := ptable s p)\<rparr>"
  have pt: "ptable u = ptable s" using t(2) by (auto simp: u_def fun_eq_iff)
  have mq: "MLFQ_queues u = MLFQ_queues s" using t(1) by (simp add: u_def)
  have wfu: "mlfq_wf u" using wf by (simp add: mlfq_wf_def pt mq)
  have mem: "member p u = member p s" by (rule member_frame [OF mq])
  show ?thesis
  proof (cases "member p s")
    case True
    then obtain u' where u': "pop_MLFQ p u = Inr (0, u')" "mlfq_wf u'" "\<not> member p u'"
      "\<forall>q. q \<noteq> p \<longrightarrow> ptable u' q = ptable u q"
      using pop_MLFQ_ok [OF wfu] mem by metis
    obtain i where i: "find (\<lambda>i. fq_holdingproc (MLFQ_queues s (level_of p s)) i = Some p) [0..<NPROC] = Some i"
      using u'(1) lv by (auto simp: pop_MLFQ_def Let_def pt mq split: option.splits)
    let ?t' = "upd_FQ (level_of p s) (\<lambda>q. q\<lparr>fq_total := fq_total q - 1,
        fq_holdingproc := (fq_holdingproc q)(i := None)\<rparr>) (upd_proc p (\<lambda>q. q\<lparr>p_fqtick := 0\<rparr>) t)"
    have eq: "pop_MLFQ p t = Inr (0, ?t')" using i lv t by (simp add: pop_MLFQ_def Let_def)
    have same: "MLFQ_queues ?t' = MLFQ_queues u'"
      using u'(1) i lv by (auto simp: pop_MLFQ_def Let_def pt mq t(1))
    have wf': "mlfq_wf ?t'"
      by (rule mlfq_wf_absent [OF u'(2,3) same]) (use u'(4) t(2) in \<open>simp add: pt\<close>)
    have gone: "\<not> member p ?t'" using u'(3) member_frame [OF same] by simp
    show ?thesis using True eq wf' gone t(2)
      by (intro exI [of _ "0 :: int"] exI [of _ ?t'] conjI) (simp_all only: upd_FQ_sel upd_proc_sel, simp_all)
  next
    case False
    have gone: "\<not> member p t" using False member_frame [OF t(1)] by simp
    have wf': "mlfq_wf t" by (rule mlfq_wf_absent [OF wf False t(1,2)])
    show ?thesis using pop_MLFQ_absent [OF gone] lv t False wf' gone
      by (intro exI [of _ "- 1 :: int"] exI [of _ t]) simp
  qed
qed

lemma ticket_div:
  assumes "0 < k" and "k \<le> 100"
  shows "MAXTICKET sdiv k = MAXTICKET div k \<and> MAXTICKET div k \<noteq> 0"
  using assms pos_imp_zdiv_pos_iff [of k MAXTICKET] by (simp add: signed_divide_int_def params)

lemma setthreadtick_single:
  assumes "p_master (ptable s p) = None" and "\<not> p_isthread (ptable s p)"
  shows "setthreadtick p s = Inr (upd_proc p (\<lambda>q. q\<lparr>p_fqtick := 0\<rparr>) s)"
  using assms by (simp add: setthreadtick_def Let_def)

lemma setthreadtick_null:
  assumes "p_isthread (ptable s m)" "m = (case p_master (ptable s p) of None \<Rightarrow> p | Some m \<Rightarrow> m)"
    and "i < NTHRE" "p_workerthread (ptable s m) i = None"
  shows "setthreadtick p s = Inl NullDeref"
proof -
  have "foldR (\<lambda>i s. case p_workerthread (ptable s m) i of None \<Rightarrow> Inl NullDeref
        | Some w \<Rightarrow> Inr (upd_proc w (\<lambda>q. q\<lparr>p_fqtick := 0\<rparr>) s)) is t = Inl NullDeref"
    if "i \<in> set is" "p_workerthread (ptable t m) i = None" for "is" t
    using that
  proof (induction "is" arbitrary: t)
    case (Cons a "is")
    have "p_workerthread (ptable (upd_proc w (\<lambda>q. q\<lparr>p_fqtick := 0\<rparr>) t) m) i = None" for w using Cons.prems(2) by auto
    then show ?case using Cons by (cases "p_workerthread (ptable t m) a") auto
  qed simp
  from this [of "[0..<NTHRE]" "upd_proc m (\<lambda>q. q\<lparr>p_fqtick := 0\<rparr>) s"]
  show ?thesis unfolding setthreadtick_def assms(2) [symmetric] Let_def using assms(1,3,4) by simp
qed

text \<open>A request that passes the check: the entry it takes, and how the call goes on.\<close>

definition grant :: "int \<Rightarrow> nat \<Rightarrow> nat \<Rightarrow> int \<Rightarrow> 'a kproc_scheme \<Rightarrow> 'a kproc_scheme" where
  "grant portion p j rest s =
     (let s1 = upd_stride 0 (\<lambda>e. e\<lparr>st_share := rest, st_stride := MAXTICKET sdiv rest\<rparr>) s
      in upd_proc p (\<lambda>q. q\<lparr>p_mystride := Some j, p_isstride := True\<rparr>)
           (upd_stride j (\<lambda>e. e\<lparr>st_share := portion, st_stride := MAXTICKET sdiv portion,
              st_pass := min_pass s1, st_proc := Some p\<rparr>) s1))"

lemma grant_sel [simp]:
  "ptable (grant portion p j rest s) = (ptable s)(p := (ptable s p)\<lparr>p_mystride := Some j, p_isstride := True\<rparr>)"
  "MLFQ_queues (grant portion p j rest s) = MLFQ_queues s"
  by (simp_all add: grant_def Let_def)

lemma set_cpu_share_eq:
  assumes "myproc s = Some p" "share_total s portion \<le> 80" "cint (100 - share_total s portion) = rest" "rest \<noteq> 0"
    and "find (\<lambda>j. (if j = 0 then MAXTICKET sdiv rest else st_stride (stride_arr s j)) = 0) [0..<NPROC] = Some j"
  shows "set_cpu_share portion s =
    (if portion = 0 then Inl DivByZero
     else bindR (setthreadtick p (grant portion p j rest s)) (\<lambda>s.
          bindR (pop_MLFQ p s) (\<lambda>(_, s). Inr (0, upd_proc p (\<lambda>q. q\<lparr>p_level := 3\<rparr>) s))))"
proof -
  let ?s1 = "upd_stride 0 (\<lambda>e. e\<lparr>st_share := rest, st_stride := MAXTICKET sdiv rest\<rparr>) s"
  have "find (\<lambda>j. st_stride (stride_arr ?s1 j) = 0) [0..<NPROC] = Some j"
    using assms(5) by (simp add: if_distrib [of st_stride] cong: if_cong)
  then show ?thesis using assms(1-4) by (simp add: set_cpu_share_def Let_def grant_def)
qed

lemma set_cpu_share_grant:
  assumes wf: "mlfq_wf s" and p: "myproc s = Some p" "level_of p s < 3"
    and single: "p_master (ptable s p) = None" "\<not> p_isthread (ptable s p)" and portion: "portion \<noteq> 0"
    and call: "share_total s portion \<le> 80" "cint (100 - share_total s portion) = rest" "rest \<noteq> 0"
      "find (\<lambda>j. (if j = 0 then MAXTICKET sdiv rest else st_stride (stride_arr s j)) = 0) [0..<NPROC] = Some j"
  shows "\<exists>s'. set_cpu_share portion s = Inr (0, s') \<and> mlfq_wf s' \<and> \<not> member p s' \<and> p_isstride (ptable s' p) \<and>
    p_mystride (ptable s' p) = Some j \<and> level_of p s' = 3 \<and> (\<forall>q. q \<noteq> p \<longrightarrow> ptable s' q = ptable s q) \<and>
    stride_arr s' = stride_arr (grant portion p j rest s)"
proof -
  let ?g = "upd_proc p (\<lambda>q. q\<lparr>p_fqtick := 0\<rparr>) (grant portion p j rest s)"
  obtain r t where t: "pop_MLFQ p ?g = Inr (r, t)" "mlfq_wf t" "\<not> member p t"
      "\<forall>q. q \<noteq> p \<longrightarrow> ptable t q = ptable s q" "stride_arr t = stride_arr ?g"
      "ptable t p = ptable ?g p\<lparr>p_fqtick := 0\<rparr> \<or> ptable t p = ptable ?g p"
    using pop_MLFQ_after [OF wf p(2), of ?g] by auto
  define s' where "s' = upd_proc p (\<lambda>q. q\<lparr>p_level := 3\<rparr>) t"
  have "set_cpu_share portion s = Inr (0, s')"
    using portion single t(1) unfolding set_cpu_share_eq [OF p(1) call] by (simp add: setthreadtick_single s'_def)
  moreover have same: "MLFQ_queues s' = MLFQ_queues t" by (simp add: s'_def)
  moreover have "mlfq_wf s'" by (rule mlfq_wf_absent [OF t(2,3) same]) (simp add: s'_def)
  moreover have "\<not> member p s'" using t(3) member_frame [OF same] by simp
  ultimately show ?thesis using t(4-6) by (intro exI [of _ s']) (auto simp: s'_def)
qed

lemma grant_overflow:
  assumes "2 ^ 31 \<le> portion + x" "portion < 2 ^ 31" "0 \<le> x" "x \<le> (80 :: int)"
  shows "cint (portion + x) \<le> 80" "MAXTICKET sdiv cint (100 - cint (portion + x)) = 0"
    "cint (100 - cint (portion + x)) \<noteq> 0" "MAXTICKET sdiv portion = 0"
proof -
  have c: "cint (portion + x) = portion + x - 2 ^ 32" using assms by (intro cint_overflow) simp_all
  have r: "cint (100 - cint (portion + x)) = 100 - (portion + x)"
    unfolding c using assms cint_overflow [of "100 - (portion + x - 2 ^ 32)"] by simp
  show "cint (portion + x) \<le> 80" using assms c by simp
  show "MAXTICKET sdiv cint (100 - cint (portion + x)) = 0" "cint (100 - cint (portion + x)) \<noteq> 0" "MAXTICKET sdiv portion = 0"
    using assms unfolding r by (simp_all add: signed_divide_int_def params)
qed

lemma grant_table:
  assumes jr: "1 \<le> j" "j < NPROC" "\<not> active j s" and portion: "0 < portion" "portion \<le> 80"
    and arr: "stride_arr s' = stride_arr (grant portion p j rest s)"
  shows "st_proc (stride_arr s' j) = Some p" "st_share (stride_arr s' j) = portion" "st_stride (stride_arr s' j) = MAXTICKET div portion"
    "st_share (stride_arr s' 0) = rest" "\<forall>i. i \<noteq> 0 \<longrightarrow> i \<noteq> j \<longrightarrow> stride_arr s' i = stride_arr s i"
    "shares s' = shares s + portion" "\<forall>i < NPROC. active i s' \<longrightarrow> pass_of j s' \<le> pass_of i s'"
proof -
  have dp: "MAXTICKET sdiv portion = MAXTICKET div portion" "MAXTICKET div portion \<noteq> 0" using portion by (auto simp: ticket_div)
  let ?s1 = "upd_stride 0 (\<lambda>e. e\<lparr>st_share := rest, st_stride := MAXTICKET sdiv rest\<rparr>) s"
  have arr': "stride_arr s' = (stride_arr ?s1)(j := (stride_arr s j)\<lparr>st_share := portion, st_stride := MAXTICKET div portion,
            st_pass := min_pass ?s1, st_proc := Some p\<rparr>)"
    using jr(1) by (simp add: arr grant_def Let_def dp)
  show "shares s' = shares s + portion"
    by (rule shares_grant [OF jr dp(2), of s' "stride_arr s' j"]) (use jr in \<open>simp_all add: arr'\<close>)
  show "\<forall>i < NPROC. active i s' \<longrightarrow> pass_of j s' \<le> pass_of i s'" using min_pass_le [of _ ?s1] jr by (simp add: arr')
qed (use jr portion in \<open>simp_all add: arr grant_def Let_def ticket_div\<close>)

text \<open>
  C9. \<open>set_cpu_share\<close> by a single-threaded process that asks for a positive share, while the shares
  granted before are between 0 and 80 and an entry is free. If the total is at most 80, the
  request takes a free entry, leaves the feedback queues exactly \<open>100 - shares \<ge> 20\<close> percent,
  gives the caller a pass no larger than any entry in use, and moves it from the queues to the
  stride table. If the total is above 80 and fits an \<^verbatim>\<open>int\<close> the request is refused and changes
  nothing. If the sum overflows, it is negative: the request is accepted, entry 0, which stood
  for the feedback queues, is taken over by the caller, and its stride becomes 0.
\<close>

theorem set_cpu_share_correct:
  assumes wf: "mlfq_wf s" and p: "myproc s = Some p" "level_of p s < 3"
    and single: "p_master (ptable s p) = None" "\<not> p_isthread (ptable s p)"
    and portion: "0 < portion" "portion < 2 ^ 31" and sum: "0 \<le> shares s" "shares s \<le> 80"
    and free: "1 \<le> i0" "i0 < NPROC" "\<not> active i0 s"
  shows "if portion + shares s \<le> 80 then \<exists>s' j. set_cpu_share portion s = Inr (0, s') \<and> 1 \<le> j \<and> j < NPROC \<and> \<not> active j s \<and>
      mlfq_wf s' \<and> \<not> member p s' \<and>
      p_isstride (ptable s' p) \<and> p_mystride (ptable s' p) = Some j \<and> level_of p s' = 3 \<and>
      st_proc (stride_arr s' j) = Some p \<and> st_share (stride_arr s' j) = portion \<and>
      st_stride (stride_arr s' j) = MAXTICKET div portion \<and>
      (\<forall>i < NPROC. active i s' \<longrightarrow> pass_of j s' \<le> pass_of i s') \<and>
      shares s' = shares s + portion \<and> st_share (stride_arr s' 0) = 100 - shares s' \<and>
      st_share (stride_arr s' 0) \<ge> 20 \<and>
      (\<forall>i. i \<noteq> 0 \<longrightarrow> i \<noteq> j \<longrightarrow> stride_arr s' i = stride_arr s i) \<and>
      (\<forall>q. q \<noteq> p \<longrightarrow> ptable s' q = ptable s q)
    else if portion + shares s < 2 ^ 31 then set_cpu_share portion s = Inr (- 1, s)
    else \<exists>s'. set_cpu_share portion s = Inr (0, s') \<and> mlfq_wf s' \<and> \<not> member p s' \<and>
      p_isstride (ptable s' p) \<and> p_mystride (ptable s' p) = Some 0 \<and> level_of p s' = 3 \<and>
      st_proc (stride_arr s' 0) = Some p \<and> st_share (stride_arr s' 0) = portion \<and> \<not> active 0 s' \<and>
      (\<forall>i. i \<noteq> 0 \<longrightarrow> stride_arr s' i = stride_arr s i) \<and> (\<forall>q. q \<noteq> p \<longrightarrow> ptable s' q = ptable s q)"
proof -
  have tot: "share_total s portion = cint (portion + shares s)" using portion by (intro share_total_eq) simp_all
  consider (grant) "portion + shares s \<le> 80" | (refuse) "80 < portion + shares s" "portion + shares s < 2 ^ 31"
    | (over) "2 ^ 31 \<le> portion + shares s" by linarith
  then show ?thesis
  proof cases
    case grant
    define rest where "rest = 100 - (portion + shares s)"
    have r: "20 \<le> rest" "rest \<le> 100" "portion \<le> 80" using grant portion sum by (simp_all add: rest_def)
    have tot': "share_total s portion = portion + shares s" using grant portion sum unfolding tot by (intro cint_id) simp_all
    have call: "share_total s portion \<le> 80" "cint (100 - share_total s portion) = rest" "rest \<noteq> 0"
      using grant r cint_id [of rest] unfolding tot' by (simp_all add: rest_def)
    have d0: "MAXTICKET sdiv rest \<noteq> 0" using r by (auto simp: ticket_div)
    obtain j where j: "find (\<lambda>j. (if j = 0 then MAXTICKET sdiv rest else st_stride (stride_arr s j)) = 0) [0..<NPROC] = Some j"
      using find_upt_ex [of 0 i0 NPROC "\<lambda>j. (if j = 0 then MAXTICKET sdiv rest else st_stride (stride_arr s j)) = 0"] free by auto
    then have jr: "1 \<le> j" "j < NPROC" "\<not> active j s" using d0 by (auto simp: find_upt_Some Suc_le_eq split: if_splits)
    obtain s' where s': "set_cpu_share portion s = Inr (0, s')" "mlfq_wf s'" "\<not> member p s'" "p_isstride (ptable s' p)"
        "p_mystride (ptable s' p) = Some j" "level_of p s' = 3" "\<forall>q. q \<noteq> p \<longrightarrow> ptable s' q = ptable s q"
        "stride_arr s' = stride_arr (grant portion p j rest s)"
      using set_cpu_share_grant [OF wf p single _ call j] portion by auto
    note g = grant_table [OF jr portion(1) r(3) s'(8)]
    have rest: "rest = 100 - shares s'" by (simp add: g(6) rest_def)
    show ?thesis unfolding if_P [OF grant]
      by (intro exI [of _ s'] exI [of _ j] conjI; fact s' jr g(1-3,5-7) g(4) [unfolded rest] r(1) [folded g(4)])
  next
    case refuse
    moreover have "share_total s portion = portion + shares s" unfolding tot using refuse by (intro cint_id) simp_all
    ultimately show ?thesis by (simp add: set_cpu_share_def)
  next
    case over
    note o = grant_overflow [OF over portion(2) sum]
    note c = o(1,3) [folded tot]
    have "find (\<lambda>j. (if j = 0 then MAXTICKET sdiv cint (100 - share_total s portion) else st_stride (stride_arr s j)) = 0) [0..<NPROC] = Some 0"
      by (simp add: find_upt_Some tot o)
    with set_cpu_share_grant [OF wf p single _ c(1) refl c(2)] portion(1) obtain s' where s': "set_cpu_share portion s = Inr (0, s')" "mlfq_wf s'" "\<not> member p s'" "p_isstride (ptable s' p)"
        "p_mystride (ptable s' p) = Some 0" "level_of p s' = 3" "\<forall>q. q \<noteq> p \<longrightarrow> ptable s' q = ptable s q"
        "stride_arr s' = stride_arr (grant portion p 0 (cint (100 - share_total s portion)) s)"
      by auto
    moreover have "\<not> portion + shares s \<le> 80" "\<not> portion + shares s < 2 ^ 31" using over by simp_all
    ultimately show ?thesis by (auto simp: grant_def Let_def o(4))
  qed
qed

text \<open>
  The priority boost: on well-formed queues \<open>boost_priority\<close> returns, every process
  in a queue is then at level 0, the same processes are queued as before, the boost
  clock restarts and no lock is left held.
\<close>

theorem boost_priority_correct:
  assumes "mlfq_wf s" and "LFQ_tick \<notin> set (locks s)"
  shows "\<exists>t. boost_priority s = Inr t \<and> mlfq_wf t \<and> (\<forall>q. member q t = member q s) \<and>
     (\<forall>l q. l < 3 \<longrightarrow> queued l q t \<longrightarrow> l = 0 \<and> level_of q t = 0) \<and> MLFQ_tick t = 0 \<and> locks t = locks s"
proof -
  obtain t where t: "boost_priority s = Inr t" "mlfq_wf t" "MLFQ_tick t = 0" "locks t = locks s"
      "\<forall>q. member q t = member q s" "\<forall>q. member q t \<longrightarrow> level_of q t = 0"
    using boost_priority_ok [OF assms] by blast
  have "l = 0 \<and> level_of q t = 0" if "l < 3" "queued l q t" for l q
    using queued_level [OF t(2) that] t(6) that by (auto simp: member_def)
  then show ?thesis using t by blast
qed

text \<open>
  C26. The requests \<open>set_cpu_share\<close> does not survive although the total is in range and an entry is
  free: a share of zero divides by zero; a single-threaded caller that already has a share, so
  that its level is 3, reads past the three queues; a caller whose process has threads follows
  a null pointer as soon as one of the \<open>NTHRE\<close> worker slots of its master is empty, at any position.
\<close>

theorem set_cpu_share_faults:
  fixes s :: "'a kproc_scheme"
  assumes p: "myproc s = Some p" and tot: "portion + shares s \<le> 80" "0 \<le> portion + shares s"
    and range: "- (2 ^ 31) \<le> portion" "portion < 2 ^ 31" and free: "1 \<le> i0" "i0 < NPROC" "\<not> active i0 s"
  defines "m \<equiv> (case p_master (ptable s p) of None \<Rightarrow> p | Some m \<Rightarrow> m)"
  shows "(portion = 0 \<longrightarrow> set_cpu_share portion s = Inl DivByZero) \<and>
    (portion \<noteq> 0 \<and> \<not> p_isthread (ptable s m) \<and> level_of p s = 3 \<longrightarrow> set_cpu_share portion s = Inl OutOfBounds) \<and>
    (portion \<noteq> 0 \<and> p_isthread (ptable s m) \<and> (\<exists>i < NTHRE. p_workerthread (ptable s m) i = None) \<longrightarrow>
       set_cpu_share portion s = Inl NullDeref)"
proof -
  define rest where "rest = 100 - (portion + shares s)"
  have eq: "share_total s portion = portion + shares s" using tot cint_id [of "portion + shares s"] by (simp add: share_total_eq [OF range])
  have call: "share_total s portion \<le> 80" "cint (100 - share_total s portion) = rest" "rest \<noteq> 0" "0 < rest" "rest \<le> 100"
    using tot cint_id [of rest] unfolding eq by (simp_all add: rest_def)
  obtain j where j: "find (\<lambda>j. (if j = 0 then MAXTICKET sdiv rest else st_stride (stride_arr s j)) = 0) [0..<NPROC] = Some j"
    using find_upt_ex [of 0 i0 NPROC "\<lambda>j. (if j = 0 then MAXTICKET sdiv rest else st_stride (stride_arr s j)) = 0"] free by auto
  note run = set_cpu_share_eq [OF p call(1-3) j]
  let ?g = "grant portion p j rest s"
  have g: "m = (case p_master (ptable ?g p) of None \<Rightarrow> p | Some m \<Rightarrow> m)" "p_isthread (ptable ?g m) = p_isthread (ptable s m)"
      "p_workerthread (ptable ?g m) = p_workerthread (ptable s m)"
    by (simp_all add: m_def)
  have "set_cpu_share portion s = Inl OutOfBounds" if "portion \<noteq> 0" "\<not> p_isthread (ptable s m)" "level_of p s = 3"
  proof -
    have "setthreadtick p ?g = Inr (upd_proc m (\<lambda>q. q\<lparr>p_fqtick := 0\<rparr>) ?g)"
      unfolding setthreadtick_def g(1) [symmetric] Let_def using that(2) g(2) by simp
    then show ?thesis using that by (auto simp: run pop_MLFQ_def Let_def)
  qed
  moreover have "set_cpu_share portion s = Inl NullDeref"
    if "portion \<noteq> 0" "p_isthread (ptable s m)" "i < NTHRE" "p_workerthread (ptable s m) i = None" for i
    using setthreadtick_null [OF _ g(1) that(3)] that g(2,3) by (simp add: run)
  ultimately show ?thesis using run by auto
qed

section \<open>Instances\<close>

text \<open>
  A small machine: process 0 is running, process 1 is runnable, both are at level 0 and
  entry 0 of the stride table stands for the feedback queues.
\<close>

definition demo :: kproc where
  "demo = boot_kproc\<lparr>
     ptable := (\<lambda>_. zero_proc)(0 := zero_proc\<lparr>p_state := RUNNING, p_pid := 1, p_mystride := Some 0\<rparr>,
                               1 := zero_proc\<lparr>p_state := RUNNABLE, p_pid := 2, p_mystride := Some 0\<rparr>),
     myproc := Some 0,
     stride_arr := (\<lambda>_. zero_stride)(0 := zero_stride\<lparr>st_stride := 1000, st_share := 100, st_proc := Some 1\<rparr>),
     MLFQ_queues := (\<lambda>_. zero_FQ)(0 := zero_FQ\<lparr>fq_total := 2,
        fq_holdingproc := (\<lambda>_. None)(0 := Some 0, 1 := Some 1)\<rparr>)\<rparr>"

lemma demo_sel [simp]:
  "ptable demo = (\<lambda>_. zero_proc)(0 := zero_proc\<lparr>p_state := RUNNING, p_pid := 1, p_mystride := Some 0\<rparr>,
                               1 := zero_proc\<lparr>p_state := RUNNABLE, p_pid := 2, p_mystride := Some 0\<rparr>)"
  "myproc demo = Some 0" "locks demo = []" "MLFQ_tick demo = 0"
  "stride_arr demo = (\<lambda>_. zero_stride)(0 := zero_stride\<lparr>st_stride := 1000, st_share := 100, st_proc := Some 1\<rparr>)"
  "MLFQ_queues demo = (\<lambda>_. zero_FQ)(0 := zero_FQ\<lparr>fq_total := 2,
        fq_holdingproc := (\<lambda>_. None)(0 := Some 0, 1 := Some 1)\<rparr>)"
  by (simp_all add: demo_def boot_kproc_def)

lemma demo_wf: "mlfq_wf demo"
  unfolding mlfq_wf_def
proof (intro allI impI queue_wfI, goal_cases)
  case (1 l)
  have "occupied NPROC ((\<lambda>_. None)(0 := Some 0, Suc 0 := Some (Suc 0))) = 2"
    using occupied_fill [of 0 NPROC "\<lambda>_. None" "0 :: nat"]
      occupied_fill [of 1 NPROC "(\<lambda>_. None)(0 := Some 0)" "Suc 0"] by (simp add: occupied_zero)
  moreover have "occupied NPROC (\<lambda>_. None :: nat option) = 0" by (simp add: occupied_zero)
  ultimately show ?case by (simp add: zero_FQ_def)
next
  case (2 l i p)
  then show ?case by (auto simp: zero_FQ_def zero_proc_def split: if_splits)
next
  case (3 l i j p)
  then show ?case by (auto simp: zero_FQ_def split: if_splits)
qed

lemma demo_member: "member 0 demo"
  by (auto simp: member_def queued_def zero_FQ_def intro!: exI [of _ 0])

lemma demo_exec: "\<exists>s'. exec_MLFQ demo = Inr (Some 1, s')"
proof -
  have "find (\<lambda>j. runnable_at 0 (j mod NPROC) demo) [0..<NPROC - 1] = Some 1"
    unfolding find_upt_Some by (auto simp: runnable_at_def zero_FQ_def zero_proc_def params less_Suc_eq)
  then have "exec_scan 0 demo = Some 1" by (simp add: exec_scan_eq zero_FQ_def) (simp add: params)
  then show ?thesis by (simp add: exec_MLFQ_def zero_FQ_def zero_proc_def)
qed

lemma demo_shares: "shares demo = 0"
  by (simp add: shares_def zero_stride_def)

lemma demo_base:
  "\<forall>p. p_curthread (ptable demo p) \<le> NTHRE"
  "\<forall>i < NPROC. active i demo \<longrightarrow> st_proc (stride_arr demo i) \<noteq> None"
  "\<not> active 1 demo" "pass_of 0 demo = 0"
  "p_master (ptable demo 0) = None" "\<not> p_isthread (ptable demo 0)" "level_of 0 demo = 0"
  by (simp_all add: zero_stride_def zero_proc_def)

theorem exec_MLFQ_correct_witness:
  "\<exists>r s'. exec_MLFQ demo = Inr (r, s') \<and> (\<forall>t. r = Some t \<longrightarrow> p_state (ptable s' t) = RUNNABLE)"
  using exec_MLFQ_correct [of demo] demo_wf demo_base(1) by blast

theorem exec_MLFQ_priority_witness:
  "\<exists>s'. exec_MLFQ demo = Inr (Some 1, s') \<and>
     (\<exists>l < 3. \<exists>pos. pos < NPROC \<and> fq_current (MLFQ_queues s' l) = pos + 1)"
proof -
  obtain s' where s': "exec_MLFQ demo = Inr (Some 1, s')" using demo_exec by blast
  show ?thesis using exec_MLFQ_priority [OF demo_wf s'] s' by blast
qed

theorem tick_add_MLFQ_correct_witness:
  "\<exists>r s'. tick_add_MLFQ demo = Inr (r, s') \<and> mlfq_wf s' \<and> r = 0 \<and> level_of 0 s' = 0 \<and> p_fqtick (ptable s' 0) = 1 \<and>
     MLFQ_tick s' = 1 \<and> pass_of 0 s' = 1000"
proof -
  have "p_mystride (ptable demo 0) = Some 0" "p_fqtick (ptable demo 0) = 0" by (simp_all add: zero_proc_def)
  with tick_add_MLFQ_correct [OF demo_wf _ demo_member, of 0] demo_base(6,7)
  show ?thesis by (auto simp: Let_def quantum_def demote_def zero_stride_def cint_id simp del: fun_upd_apply) (auto simp: cint_id)
qed

theorem choose_lowpass_correct_witness:
  "\<exists>r s'. choose_lowpass 0 demo = Inr (r, s') \<and> (\<forall>t. r = Some t \<longrightarrow> p_state (ptable s' t) = RUNNABLE)"
  using choose_lowpass_correct [OF demo_wf demo_base(1,2)] unfolding demo_base(4) by auto

theorem choose_lowpass_wrap_out_of_bounds_witness:
  "\<exists>t. run_ticks 200001 demo = Inr t \<and> pass_of 0 t = 200001000 \<and> choose_lowpass 0 t = Inl OutOfBounds"
proof -
  have "p_mystride (ptable demo 0) = Some 0" "pass_of 0 demo = 0" "st_stride (stride_arr demo 0) = 1000"
      "st_proc (stride_arr demo 0) \<noteq> None" "\<forall>i < NPROC. 0 < i \<longrightarrow> \<not> active i demo"
    by (simp_all add: zero_proc_def zero_stride_def)
  with choose_lowpass_wrap_out_of_bounds [OF demo_wf demo_sel(2) demo_member, of 200001] demo_base(6)
  show ?thesis by auto
qed

text \<open>The machine with a second stride process, which has a share of 10.\<close>

definition shared :: kproc where
  "shared = upd_stride 1 (\<lambda>e. e\<lparr>st_stride := 10000, st_share := 10, st_proc := Some 1\<rparr>) demo"

lemma shared_sel:
  "ptable shared = ptable demo" "MLFQ_queues shared = MLFQ_queues demo" "myproc shared = Some 0"
  "shares shared = 10" "\<not> active 2 shared"
proof -
  have "(\<Sum>i \<in> {1..<NPROC}. if active i shared then st_share (stride_arr shared i) else 0) =
        (\<Sum>i \<in> {1..<NPROC}. if i = 1 then 10 else 0)"
    by (rule sum.cong) (simp_all add: shared_def zero_stride_def)
  then show "shares shared = 10" by (simp add: shares_def sum.delta)
qed (simp_all add: shared_def zero_stride_def)

theorem set_cpu_share_correct_witness:
  "(\<exists>s' j. set_cpu_share 30 shared = Inr (0, s') \<and> st_share (stride_arr s' 0) = 60 \<and> mlfq_wf s' \<and>
     p_mystride (ptable s' 0) = Some j \<and> st_stride (stride_arr s' j) = 3333) \<and>
   set_cpu_share 71 shared = Inr (- 1, shared) \<and>
   (\<exists>s'. set_cpu_share 2147483647 shared = Inr (0, s') \<and> p_mystride (ptable s' 0) = Some 0 \<and> st_stride (stride_arr s' 0) = 0)"
proof -
  have wf: "mlfq_wf shared" by (rule mlfq_wf_frame [OF demo_wf]) (simp_all only: shared_sel)
  have b: "level_of 0 shared < 3" "p_master (ptable shared 0) = None" "\<not> p_isthread (ptable shared 0)"
    unfolding shared_sel using demo_base(5-7) by simp_all
  note c = set_cpu_share_correct [OF wf shared_sel(3) b, of _ 2, unfolded shared_sel(4)]
  have two: "2 < NPROC" by (simp add: params)
  from c [of 30] two shared_sel(5) obtain s' j where "set_cpu_share 30 shared = Inr (0, s')" "mlfq_wf s'"
      "p_mystride (ptable s' 0) = Some j" "st_stride (stride_arr s' j) = MAXTICKET div 30" "shares s' = 40"
      "st_share (stride_arr s' 0) = 100 - shares s'"
    by auto
  then have "\<exists>s' j. set_cpu_share 30 shared = Inr (0, s') \<and> st_share (stride_arr s' 0) = 60 \<and> mlfq_wf s' \<and>
     p_mystride (ptable s' 0) = Some j \<and> st_stride (stride_arr s' j) = 3333"
    by (intro exI [of _ s'] exI [of _ j]) (simp add: params)
  moreover have "set_cpu_share 71 shared = Inr (- 1, shared)" using c [of 71] two shared_sel(5) by simp
  moreover have "\<exists>s'. set_cpu_share 2147483647 shared = Inr (0, s') \<and> p_mystride (ptable s' 0) = Some 0 \<and> st_stride (stride_arr s' 0) = 0"
    using c [of 2147483647] two shared_sel(5) by auto
  ultimately show ?thesis by blast
qed

theorem boost_priority_correct_witness:
  "\<exists>t. boost_priority demo = Inr t \<and> mlfq_wf t \<and> member 0 t \<and> MLFQ_tick t = 0"
  using boost_priority_correct [OF demo_wf] demo_member by auto

text \<open>In the third state process 0 has one thread, in worker slot 0; slot 1 is empty.\<close>

theorem set_cpu_share_faults_witness:
  "set_cpu_share 0 demo = Inl DivByZero \<and>
   set_cpu_share 10 (upd_proc 0 (\<lambda>q. q\<lparr>p_level := 3\<rparr>) demo) = Inl OutOfBounds \<and>
   set_cpu_share 10 (upd_proc 0 (\<lambda>q. q\<lparr>p_isthread := True, p_workerthread := (\<lambda>_. None)(0 := Some 1)\<rparr>) demo) = Inl NullDeref"
proof -
  let ?lv = "upd_proc 0 (\<lambda>q. q\<lparr>p_level := 3\<rparr>) demo"
  let ?th = "upd_proc 0 (\<lambda>q. q\<lparr>p_isthread := True, p_workerthread := (\<lambda>_. None)(0 := Some 1)\<rparr>) demo"
  have z: "shares ?lv = 0" "shares ?th = 0" by (simp_all add: shares_def zero_stride_def)
  have "1 < NTHRE" by (simp add: params)
  then have "set_cpu_share 10 ?th = Inl NullDeref"
    using set_cpu_share_faults [of ?th 0 10 1] z(2) demo_base(3,5) by (auto simp: zero_proc_def)
  moreover have "set_cpu_share 0 demo = Inl DivByZero"
    using set_cpu_share_faults [of demo 0 0 1] demo_shares demo_base(3) by simp
  moreover have "set_cpu_share 10 ?lv = Inl OutOfBounds"
    using set_cpu_share_faults [of ?lv 0 10 1] z(1) demo_base(3,5,6) by (simp add: zero_proc_def)
  ultimately show ?thesis by blast
qed

end
