(* ===== verification/StringLib.thy ===== *)
theory StringLib
  imports Prelude
begin

text \<open>
  The byte and string routines of the kernel (\<^verbatim>\<open>string.c\<close>) and of the user library
  (\<^verbatim>\<open>ulib.c\<close>). Memory is a function from addresses to bytes; \<open>memset\<close>, \<open>memmove\<close> and
  \<open>memcpy\<close> transform it, so that overlapping operands are visible. A routine that only
  reads through a pointer takes the cursor as a function from offsets to bytes, and the
  copying string routines take the destination array and the source cursor apart,
  because their operands are distinct objects at every call. A scan for the
  terminator may run for ever and is a partial function.
\<close>

type_synonym byte = "8 word"
type_synonym bmem = "nat \<Rightarrow> byte"

unbundle bit_operations_syntax

section \<open>Block operations\<close>

text \<open>\<open>stosb\<close> and \<open>stosl\<close> of \<^verbatim>\<open>x86.h\<close>: the repeated store instructions.\<close>

fun stosb :: "nat \<Rightarrow> byte \<Rightarrow> nat \<Rightarrow> bmem \<Rightarrow> bmem" where
  "stosb addr data 0 m = m"
| "stosb addr data (Suc cnt) m = stosb (addr + 1) data cnt (m(addr := data))"

definition wr32 :: "nat \<Rightarrow> 32 word \<Rightarrow> bmem \<Rightarrow> bmem" where
  "wr32 a w m = m(a := ucast w, a + 1 := ucast (drop_bit 8 w),
                  a + 2 := ucast (drop_bit 16 w), a + 3 := ucast (drop_bit 24 w))"

definition rd32 :: "nat \<Rightarrow> bmem \<Rightarrow> 32 word" where
  "rd32 a m = ucast (m a) OR push_bit 8 (ucast (m (a + 1))) OR
              push_bit 16 (ucast (m (a + 2))) OR push_bit 24 (ucast (m (a + 3)))"

fun stosl :: "nat \<Rightarrow> 32 word \<Rightarrow> nat \<Rightarrow> bmem \<Rightarrow> bmem" where
  "stosl addr data 0 m = m"
| "stosl addr data (Suc cnt) m = stosl (addr + 4) data cnt (wr32 addr data m)"

definition memset :: "nat \<Rightarrow> 32 word \<Rightarrow> nat \<Rightarrow> bmem \<Rightarrow> bmem" where
  "memset dst c n m =
     (if dst mod 4 = 0 \<and> n mod 4 = 0
      then let c = c AND 0xFF
           in stosl dst (push_bit 24 c OR push_bit 16 c OR push_bit 8 c OR c) (n div 4) m
      else stosb dst (ucast c) n m)"

fun memcmp :: "(nat \<Rightarrow> byte) \<Rightarrow> (nat \<Rightarrow> byte) \<Rightarrow> nat \<Rightarrow> int" where
  "memcmp s1 s2 0 = 0"
| "memcmp s1 s2 (Suc n) =
     (if s1 0 \<noteq> s2 0 then uint (s1 0) - uint (s2 0)
      else memcmp (\<lambda>i. s1 (Suc i)) (\<lambda>i. s2 (Suc i)) n)"

text \<open>The two loops of \<open>memmove\<close>: towards lower and towards higher addresses.\<close>

fun copy_down :: "nat \<Rightarrow> nat \<Rightarrow> nat \<Rightarrow> bmem \<Rightarrow> bmem" where
  "copy_down d s 0 m = m"
| "copy_down d s (Suc n) m = copy_down d s n (m(d + n := m (s + n)))"

fun copy_up :: "nat \<Rightarrow> nat \<Rightarrow> nat \<Rightarrow> bmem \<Rightarrow> bmem" where
  "copy_up d s 0 m = m"
| "copy_up d s (Suc n) m = copy_up (d + 1) (s + 1) n (m(d := m s))"

definition memmove :: "nat \<Rightarrow> nat \<Rightarrow> nat \<Rightarrow> bmem \<Rightarrow> bmem" where
  "memmove dst src n m =
     (if src < dst \<and> src + n > dst then copy_down dst src n m else copy_up dst src n m)"

definition memcpy :: "nat \<Rightarrow> nat \<Rightarrow> nat \<Rightarrow> bmem \<Rightarrow> bmem" where
  "memcpy dst src n m = memmove dst src n m"

text \<open>The user library's versions: no word stores, and always towards higher addresses.\<close>

definition ulib_memset :: "nat \<Rightarrow> 32 word \<Rightarrow> nat \<Rightarrow> bmem \<Rightarrow> bmem" where
  "ulib_memset dst c n m = stosb dst (ucast c) n m"

definition ulib_memmove :: "nat \<Rightarrow> nat \<Rightarrow> int \<Rightarrow> bmem \<Rightarrow> bmem" where
  "ulib_memmove vdst vsrc n m = copy_up vdst vsrc (nat n) m"

section \<open>Strings\<close>

fun strncmp :: "(nat \<Rightarrow> byte) \<Rightarrow> (nat \<Rightarrow> byte) \<Rightarrow> nat \<Rightarrow> int" where
  "strncmp p q 0 = 0"
| "strncmp p q (Suc n) =
     (if p 0 \<noteq> 0 \<and> p 0 = q 0 then strncmp (\<lambda>i. p (Suc i)) (\<lambda>i. q (Suc i)) n
      else uint (p 0) - uint (q 0))"

text \<open>
  \<open>strncpy\<close>: the first loop copies up to and including the terminator, the second
  fills with zeros what is left of the count. \<open>k\<close> is the offset both cursors have
  reached.
\<close>

fun zero_fill :: "nat \<Rightarrow> nat \<Rightarrow> (nat \<Rightarrow> byte) \<Rightarrow> nat \<Rightarrow> byte" where
  "zero_fill 0 k s = s"
| "zero_fill (Suc n) k s = zero_fill n (k + 1) (s(k := 0))"

fun strncpy_loop :: "nat \<Rightarrow> nat \<Rightarrow> (nat \<Rightarrow> byte) \<Rightarrow> (nat \<Rightarrow> byte) \<Rightarrow> nat \<Rightarrow> byte" where
  "strncpy_loop 0 k s t = s"
| "strncpy_loop (Suc n) k s t =
     (let s = s(k := t k) in if t k \<noteq> 0 then strncpy_loop n (k + 1) s t else zero_fill n (k + 1) s)"

definition strncpy :: "(nat \<Rightarrow> byte) \<Rightarrow> (nat \<Rightarrow> byte) \<Rightarrow> int \<Rightarrow> nat \<Rightarrow> byte" where
  "strncpy s t n = strncpy_loop (nat n) 0 s t"

fun safestrcpy_loop :: "nat \<Rightarrow> nat \<Rightarrow> (nat \<Rightarrow> byte) \<Rightarrow> (nat \<Rightarrow> byte) \<Rightarrow> nat \<Rightarrow> byte" where
  "safestrcpy_loop 0 k s t = s(k := 0)"
| "safestrcpy_loop (Suc n) k s t =
     (let s = s(k := t k)
      in if t k \<noteq> 0 then safestrcpy_loop n (k + 1) s t else s(k + 1 := 0))"

definition safestrcpy :: "(nat \<Rightarrow> byte) \<Rightarrow> (nat \<Rightarrow> byte) \<Rightarrow> int \<Rightarrow> nat \<Rightarrow> byte" where
  "safestrcpy s t n = (if n \<le> 0 then s else safestrcpy_loop (nat n - 1) 0 s t)"

partial_function (option) strlen_from :: "nat \<Rightarrow> (nat \<Rightarrow> byte) \<Rightarrow> nat option" where
  "strlen_from n s = (if s n \<noteq> 0 then strlen_from (n + 1) s else Some n)"

definition strlen :: "(nat \<Rightarrow> byte) \<Rightarrow> nat option" where
  "strlen s = strlen_from 0 s"

partial_function (option) strcpy_from :: "nat \<Rightarrow> (nat \<Rightarrow> byte) \<Rightarrow> (nat \<Rightarrow> byte) \<Rightarrow> (nat \<Rightarrow> byte) option" where
  "strcpy_from k s t = (if t k \<noteq> 0 then strcpy_from (k + 1) (s(k := t k)) t else Some (s(k := t k)))"

definition strcpy :: "(nat \<Rightarrow> byte) \<Rightarrow> (nat \<Rightarrow> byte) \<Rightarrow> (nat \<Rightarrow> byte) option" where
  "strcpy s t = strcpy_from 0 s t"

partial_function (option) strcmp_from :: "nat \<Rightarrow> (nat \<Rightarrow> byte) \<Rightarrow> (nat \<Rightarrow> byte) \<Rightarrow> int option" where
  "strcmp_from k p q =
     (if p k \<noteq> 0 \<and> p k = q k then strcmp_from (k + 1) p q else Some (uint (p k) - uint (q k)))"

definition strcmp :: "(nat \<Rightarrow> byte) \<Rightarrow> (nat \<Rightarrow> byte) \<Rightarrow> int option" where
  "strcmp p q = strcmp_from 0 p q"

text \<open>\<open>strchr\<close> returns the offset it stops at, or the null pointer.\<close>

partial_function (option) strchr_from :: "nat \<Rightarrow> (nat \<Rightarrow> byte) \<Rightarrow> byte \<Rightarrow> nat option option" where
  "strchr_from k s c =
     (if s k \<noteq> 0 then if s k = c then Some (Some k) else strchr_from (k + 1) s c else Some None)"

definition strchr :: "(nat \<Rightarrow> byte) \<Rightarrow> byte \<Rightarrow> nat option option" where
  "strchr s c = strchr_from 0 s c"

text \<open>
  \<open>gets\<close>: the bytes that \<open>read(0, &c, 1)\<close> will deliver are a list; the empty list is
  end of file. The result is the buffer and the input that is left.
\<close>

fun gets_loop :: "nat \<Rightarrow> nat \<Rightarrow> byte list \<Rightarrow> (nat \<Rightarrow> byte) \<Rightarrow> (nat \<Rightarrow> byte) \<times> byte list" where
  "gets_loop 0 i input buf = (buf(i := 0), input)"
| "gets_loop (Suc n) i input buf =
     (case input of
        [] \<Rightarrow> (buf(i := 0), [])
      | c # rest \<Rightarrow>
          let buf = buf(i := c)
          in if c = 10 \<or> c = 13 then (buf(i + 1 := 0), rest) else gets_loop n (i + 1) rest buf)"

definition gets :: "(nat \<Rightarrow> byte) \<Rightarrow> int \<Rightarrow> byte list \<Rightarrow> (nat \<Rightarrow> byte) \<times> byte list" where
  "gets buf limit input = gets_loop (nat (limit - 1)) 0 input buf"

text \<open>\<open>atoi\<close>, in 32-bit arithmetic.\<close>

partial_function (option) atoi_from :: "nat \<Rightarrow> (nat \<Rightarrow> byte) \<Rightarrow> 32 word \<Rightarrow> 32 word option" where
  "atoi_from k s n =
     (if 48 \<le> s k \<and> s k \<le> 57 then atoi_from (k + 1) s (n * 10 + ucast (s k) - 48) else Some n)"

definition atoi :: "(nat \<Rightarrow> byte) \<Rightarrow> 32 word option" where
  "atoi s = atoi_from 0 s 0"

section \<open>Block operations: lemmas\<close>

lemma stosb_eq: "stosb a d n m = (\<lambda>x. if a \<le> x \<and> x < a + n then d else m x)"
  by (induction n arbitrary: a m) (auto simp: fun_eq_iff)

lemma rd32_cong: "(\<And>i. i < 4 \<Longrightarrow> m (a + i) = m' (a + i)) \<Longrightarrow> rd32 a m = rd32 a m'"
proof -
  assume "\<And>i. i < 4 \<Longrightarrow> m (a + i) = m' (a + i)"
  from this [of 0] this [of 1] this [of 2] this [of 3] show ?thesis by (simp add: rd32_def)
qed

lemma rd32_bytes:
  fixes w :: "32 word"
  shows "(ucast (ucast w :: byte) :: 32 word) OR push_bit 8 (ucast (ucast (drop_bit 8 w) :: byte)) OR
         push_bit 16 (ucast (ucast (drop_bit 16 w) :: byte)) OR push_bit 24 (ucast (ucast (drop_bit 24 w) :: byte)) = w"
proof (rule bit_word_eqI)
  fix n assume "n < LENGTH(32)"
  then have n: "n < 32" by simp
  have b: "bit (push_bit j (ucast (ucast (drop_bit j w) :: byte) :: 32 word)) n \<longleftrightarrow> j \<le> n \<and> n - j < 8 \<and> bit w n"
    if "j \<le> 24" for j
    using n that by (auto simp: bit_push_bit_iff bit_ucast_iff bit_drop_bit_eq)
  have "n < 8 \<or> 8 \<le> n \<and> n - 8 < 8 \<or> 16 \<le> n \<and> n - 16 < 8 \<or> 24 \<le> n \<and> n - 24 < 8" using n by linarith
  then show "bit ((ucast (ucast w :: byte) :: 32 word) OR push_bit 8 (ucast (ucast (drop_bit 8 w) :: byte)) OR
         push_bit 16 (ucast (ucast (drop_bit 16 w) :: byte)) OR push_bit 24 (ucast (ucast (drop_bit 24 w) :: byte))) n
       = bit w n"
    using b [of 0, simplified] b [of 8] b [of 16] b [of 24] unfolding bit_or_iff by simp blast
qed

lemma rd32_wr32 [simp]: "rd32 a (wr32 a w m) = w"
  by (simp add: rd32_def wr32_def rd32_bytes)

lemma wr32_other: "x < a \<or> a + 4 \<le> x \<Longrightarrow> wr32 a w m x = m x"
  by (auto simp: wr32_def)

lemma rd32_wr32_other: "a + 4 \<le> b \<or> b + 4 \<le> a \<Longrightarrow> rd32 a (wr32 b w m) = rd32 a m"
  by (intro rd32_cong wr32_other) auto

lemma wr32_bytes:
  assumes "\<And>i. i \<in> {0, 8, 16, 24} \<Longrightarrow> ucast (drop_bit i w) = (b :: byte)"
  shows "wr32 a w m = (\<lambda>x. if a \<le> x \<and> x < a + 4 then b else m x)"
proof -
  have "ucast w = b" using assms [of 0] by simp
  moreover have "ucast (drop_bit 8 w) = b" "ucast (drop_bit 16 w) = b" "ucast (drop_bit 24 w) = b"
    using assms by simp_all
  ultimately show ?thesis by (auto simp: wr32_def fun_eq_iff)
qed

lemma stosl_eq:
  assumes "\<And>i. i \<in> {0, 8, 16, 24} \<Longrightarrow> ucast (drop_bit i w) = (b :: byte)"
  shows "stosl a w n m = (\<lambda>x. if a \<le> x \<and> x < a + 4 * n then b else m x)"
proof -
  have wr: "wr32 a w m = (\<lambda>x. if a \<le> x \<and> x < a + 4 then b else m x)" for a m
    by (rule wr32_bytes) (rule assms)
  show ?thesis by (induction n arbitrary: a m) (auto simp: fun_eq_iff wr)
qed

lemma replicated_byte:
  fixes c :: "32 word"
  defines "d \<equiv> c AND 0xFF"
  assumes "i \<in> {0, 8, 16, 24}"
  shows "ucast (drop_bit i (push_bit 24 d OR push_bit 16 d OR push_bit 8 d OR d)) = (ucast c :: byte)"
proof (rule bit_word_eqI)
  fix n assume n: "n < LENGTH(8)"
  have "d = take_bit 8 c" by (simp add: d_def take_bit_eq_mask mask_eq_exp_minus_1)
  then have d: "bit d k \<longleftrightarrow> k < 8 \<and> bit c k" for k by (simp add: bit_take_bit_iff)
  define X where "X = push_bit 24 d OR push_bit 16 d OR push_bit 8 d OR d"
  have sh: "bit (push_bit j d) k \<longleftrightarrow> j \<le> k \<and> k - j < 8 \<and> bit c (k - j)" if "k < 32" for j k
    using that unfolding bit_push_bit_iff d by (simp add: conj_ac)
  have X: "bit X k \<longleftrightarrow> bit c (k mod 8)" if "k < 32" for k
  proof -
    have or: "bit X k \<longleftrightarrow> bit (push_bit 24 d) k \<or> bit (push_bit 16 d) k \<or> bit (push_bit 8 d) k \<or> bit d k"
      unfolding X_def bit_or_iff by blast
    consider "k < 8" | "8 \<le> k" "k < 16" | "16 \<le> k" "k < 24" | "24 \<le> k" by linarith
    then show ?thesis
    proof cases
      case 1 then show ?thesis unfolding or sh [OF that] d by simp
    next
      case 2
      then have "k mod 8 = k - 8" by (simp add: mod_if)
      moreover have "k - 8 < 8" using 2 by simp
      ultimately show ?thesis using 2 unfolding or sh [OF that] d by simp
    next
      case 3
      then have "k mod 8 = k - 16" by (simp add: mod_if)
      moreover have "k - 16 < 8 \<and> \<not> k - 8 < 8" using 3 by linarith
      ultimately show ?thesis using 3 unfolding or sh [OF that] d by simp
    next
      case 4
      then have "k mod 8 = k - 24" using that by (simp add: mod_if)
      moreover have "k - 24 < 8 \<and> \<not> k - 8 < 8 \<and> \<not> k - 16 < 8" using that 4 by linarith
      ultimately show ?thesis using 4 unfolding or sh [OF that] d by simp
    qed
  qed
  have "bit (ucast (drop_bit i X) :: byte) n = bit X (i + n)" using n
    by (simp add: bit_ucast_iff bit_drop_bit_eq)
  also have "\<dots> = bit c n"
  proof -
    have i: "i mod 8 = 0" "i < 25" using assms(2) by auto
    have "(i + n) mod 8 = n" using mod_add_left_eq [of i 8 n] n by (simp add: i(1))
    moreover have "i + n < 32" using i(2) n by simp
    ultimately show ?thesis using X by simp
  qed
  also have "\<dots> = bit (ucast c :: byte) n" using n by (simp add: bit_ucast_iff)
  finally show "bit (ucast (drop_bit i (push_bit 24 d OR push_bit 16 d OR push_bit 8 d OR d)) :: byte) n
        = bit (ucast c :: byte) n" unfolding X_def .
qed

lemma copy_up_eq:
  assumes "\<not> (s < d \<and> d < s + n)"
  shows "copy_up d s n m = (\<lambda>x. if d \<le> x \<and> x < d + n then m (s + (x - d)) else m x)"
  using assms
proof (induction n arbitrary: d s m)
  case (Suc n)
  have "copy_up d s (Suc n) m =
     (\<lambda>x. if d + 1 \<le> x \<and> x < d + 1 + n then (m(d := m s)) (s + 1 + (x - (d + 1))) else (m(d := m s)) x)"
    unfolding copy_up.simps by (rule Suc.IH) (use Suc.prems in linarith)
  also have "\<dots> = (\<lambda>x. if d \<le> x \<and> x < d + Suc n then m (s + (x - d)) else m x)"
    using Suc.prems by (auto simp: fun_eq_iff intro!: arg_cong [of _ _ m])
  finally show ?case .
qed (auto simp: fun_eq_iff)

lemma copy_down_eq:
  assumes "s < d"
  shows "copy_down d s n m = (\<lambda>x. if d \<le> x \<and> x < d + n then m (s + (x - d)) else m x)"
proof (induction n arbitrary: m)
  case (Suc n)
  then show ?case using assms by (auto simp: fun_eq_iff less_Suc_eq intro!: arg_cong [of _ _ m])
qed (auto simp: fun_eq_iff)

text \<open>
  C27. \<open>memmove\<close> gives the destination the bytes the source held before the call, and
  changes nothing else, for every overlap of the two ranges.
\<close>

theorem memmove_correct:
  "memmove dst src n m = (\<lambda>x. if dst \<le> x \<and> x < dst + n then m (src + (x - dst)) else m x)"
  by (simp add: memmove_def copy_down_eq copy_up_eq)

lemma memset_eq:
  "memset dst c n m = (\<lambda>x. if dst \<le> x \<and> x < dst + n then ucast c else m x)"
proof -
  have "stosl dst (push_bit 24 (c AND 0xFF) OR push_bit 16 (c AND 0xFF) OR push_bit 8 (c AND 0xFF) OR (c AND 0xFF)) k m
      = (\<lambda>x. if dst \<le> x \<and> x < dst + 4 * k then ucast c else m x)" for k
    by (rule stosl_eq) (rule replicated_byte)
  then show ?thesis by (auto simp: memset_def Let_def stosb_eq fun_eq_iff)
qed

text \<open>
  The word-at-a-time path of \<open>memset\<close> and its byte path agree: the range is filled
  with the low byte of \<open>c\<close> and nothing else changes.
\<close>

theorem memset_correct:
  "memset dst c n m = (\<lambda>x. if dst \<le> x \<and> x < dst + n then ucast c else m x)"
  by (rule memset_eq)

lemma copy_up_below: "a < d \<Longrightarrow> copy_up d s n m a = m a"
  by (induction n arbitrary: d s m) auto

lemma copy_up_final:
  assumes "s < d" "d \<le> x" "x < d + n"
  shows "copy_up d s n m x = copy_up d s n m (x - (d - s))"
  using assms
proof (induction n arbitrary: d s m)
  case (Suc n)
  show ?case
  proof (cases "x = d")
    case True
    then show ?thesis using Suc.prems by (simp add: copy_up_below)
  next
    case False
    then show ?thesis using Suc.prems Suc.IH [of "s + 1" "d + 1" "m(d := m s)"] by (simp del: fun_upd_apply)
  qed
qed simp

text \<open>
  The user library's \<open>memmove\<close> only copies upwards: it agrees with the kernel's
  unless the destination starts inside the source, and then it repeats the bytes before
  the overlap periodically.
\<close>

theorem ulib_memmove_overlap:
  assumes "src < dst" and "dst \<le> x" and "x < dst + nat n"
  shows "ulib_memmove dst src n m x = m (src + (x - dst) mod (dst - src)) \<and>
    (dst \<ge> src + nat n \<longrightarrow> ulib_memmove dst src n m x = memmove dst src (nat n) m x)"
proof -
  have "copy_up dst src (nat n) m x = m (src + (x - dst) mod (dst - src))"
    using assms(2,3)
  proof (induction x rule: less_induct)
    case (less x)
    let ?y = "x - (dst - src)"
    have step: "copy_up dst src (nat n) m x = copy_up dst src (nat n) m ?y"
      using copy_up_final assms(1) less.prems by blast
    show ?case
    proof (cases "?y < dst")
      case True
      then have "(x - dst) mod (dst - src) = x - dst" using less.prems assms(1) by (intro mod_less) simp
      then show ?thesis using True step less.prems assms(1) by (simp add: copy_up_below add.commute)
    next
      case False
      then have "x - dst = ?y - dst + (dst - src)" using less.prems assms(1) by simp
      then have "(x - dst) mod (dst - src) = (?y - dst) mod (dst - src)" by simp
      moreover have "copy_up dst src (nat n) m ?y = m (src + (?y - dst) mod (dst - src))"
        using less.IH [of ?y] False less.prems assms(1) by simp
      ultimately show ?thesis using step by simp
    qed
  qed
  moreover have "(x - dst) mod (dst - src) = x - dst" if "dst \<ge> src + nat n"
    using that assms by (intro mod_less) simp
  ultimately show ?thesis using assms by (simp add: ulib_memmove_def memmove_def copy_up_eq)
qed

theorem ulib_memmove_overlap_witness:
  "ulib_memmove 2 0 5 (\<lambda>a. of_nat a) 6 = 0 \<and> memmove 2 0 5 (\<lambda>a. of_nat a) 6 = (4 :: byte)"
  using ulib_memmove_overlap [of 0 2 6 5 "\<lambda>a. of_nat a"] by (simp add: memmove_def copy_down_eq)

section \<open>Strings: lemmas\<close>

lemma zero_fill_eq: "zero_fill n k s = (\<lambda>i. if k \<le> i \<and> i < k + n then 0 else s i)"
  by (induction n arbitrary: k s) (auto simp: fun_eq_iff)

text \<open>The bytes of \<open>t\<close> up to its terminator, then zeros.\<close>

definition padded :: "(nat \<Rightarrow> byte) \<Rightarrow> nat \<Rightarrow> byte" where
  "padded t i = (if \<exists>j < i. t j = 0 then 0 else t i)"

lemma strncpy_loop_eq:
  assumes "\<forall>j < k. t j \<noteq> 0"
  shows "strncpy_loop n k s t = (\<lambda>i. if k \<le> i \<and> i < k + n then padded t i else s i)"
  using assms
proof (induction n arbitrary: k s)
  case (Suc n)
  show ?case
  proof (cases "t k = 0")
    case True
    then show ?thesis using Suc.prems by (auto simp: Let_def zero_fill_eq padded_def fun_eq_iff)
  next
    case False
    then have "\<forall>j < k + 1. t j \<noteq> 0" using Suc.prems by (auto simp: less_Suc_eq)
    from Suc.IH [OF this, of "s(k := t k)"] False
    have "strncpy_loop (Suc n) k s t =
        (\<lambda>i. if k + 1 \<le> i \<and> i < k + 1 + n then padded t i else (s(k := t k)) i)"
      unfolding strncpy_loop.simps Let_def by (simp only: if_True not_False_eq_True)
    then show ?thesis using Suc.prems by (auto simp: padded_def fun_eq_iff)
  qed
qed (auto simp: fun_eq_iff)

lemma strncpy_eq: "strncpy s t n = (\<lambda>i. if i < nat n then padded t i else s i)"
  by (simp add: strncpy_def strncpy_loop_eq)

lemma strncmp_zero:
  "strncmp p q n = 0 \<longleftrightarrow> (\<forall>i < n. (\<forall>j < i. p j \<noteq> 0) \<longrightarrow> p i = q i)"
proof (induction n arbitrary: p q)
  case (Suc n)
  show ?case
  proof (cases "p 0 \<noteq> 0 \<and> p 0 = q 0")
    case True
    then have t: "p 0 \<noteq> 0" "q 0 = p 0" by metis+
    have "(\<forall>i < Suc n. (\<forall>j < i. p j \<noteq> 0) \<longrightarrow> p i = q i) \<longleftrightarrow>
        (\<forall>i < n. (\<forall>j < i. p (Suc j) \<noteq> 0) \<longrightarrow> p (Suc i) = q (Suc i))"
      using t by (simp add: All_less_Suc2)
    then show ?thesis using t Suc.IH [of "\<lambda>i. p (Suc i)" "\<lambda>i. q (Suc i)"] by simp
  next
    case False
    then show ?thesis by (auto simp: All_less_Suc2 simp flip: word_uint_eq_iff unsigned_0)
  qed
qed simp

lemma strncmp_zero_padded: "strncmp p q n = 0 \<longleftrightarrow> (\<forall>i < n. padded p i = padded q i)"
proof -
  have "(\<forall>i < n. (\<forall>j < i. p j \<noteq> 0) \<longrightarrow> p i = q i) \<longleftrightarrow> (\<forall>i < n. padded p i = padded q i)"
  proof (induction n)
    case (Suc n)
    have "((\<forall>j < n. p j \<noteq> 0) \<longrightarrow> p n = q n) \<longleftrightarrow> padded p n = padded q n"
      if e: "\<forall>i < n. (\<forall>j < i. p j \<noteq> 0) \<longrightarrow> p i = q i"
    proof (cases "\<forall>j < n. p j \<noteq> 0")
      case True
      then have "\<forall>j < n. q j \<noteq> 0" using e by (metis less_trans)
      then show ?thesis using True by (auto simp: padded_def)
    next
      case False
      define z where "z = (LEAST j. p j = 0)"
      have z: "p z = 0" "z < n" "\<forall>j < z. p j \<noteq> 0"
        using False unfolding z_def by (meson LeastI, meson LeastI Least_le le_less_trans, meson not_less_Least)
      then have "q z = 0" using e by metis
      then show ?thesis using False z by (auto simp: padded_def)
    qed
    then show ?case using Suc by (auto simp: less_Suc_eq)
  qed simp
  then show ?thesis by (simp add: strncmp_zero)
qed

lemma padded_cong: "(\<And>j. j \<le> i \<Longrightarrow> f j = g j) \<Longrightarrow> padded f i = padded g i"
  unfolding padded_def by (metis less_imp_le order_refl)

lemma padded_padded: "padded (padded t) = padded t"
proof
  fix i
  have "(\<exists>j < i. padded t j = 0) \<longleftrightarrow> (\<exists>j < i. t j = 0)"
    unfolding padded_def by (metis (full_types) less_trans)
  then show "padded (padded t) i = padded t i"
    unfolding padded_def [of "padded t" i] by (auto simp: padded_def)
qed

text \<open>
  A name stored by \<open>strncpy\<close> into a field of \<open>n\<close> bytes compares equal, by \<open>strncmp\<close>
  over \<open>n\<close> bytes, with exactly the names that agree with it up to their terminators
  or up to \<open>n\<close> bytes, and bytes past the field are untouched.
\<close>

theorem strncpy_strncmp_roundtrip:
  "(strncmp q (strncpy s t (int n)) n = 0 \<longleftrightarrow> strncmp q t n = 0) \<and>
   strncmp t (strncpy s t (int n)) n = 0 \<and> (\<forall>i. strncpy s t (int n) i = (if i < n then padded t i else s i))"
proof -
  have "padded (strncpy s t (int n)) i = padded t i" if "i < n" for i
    using padded_cong [of i "strncpy s t (int n)" "padded t"] that by (simp add: strncpy_eq padded_padded)
  then have "strncmp q (strncpy s t (int n)) n = 0 \<longleftrightarrow> strncmp q t n = 0" for q
    unfolding strncmp_zero_padded by simp
  moreover have "strncmp t t n = 0" by (simp add: strncmp_zero)
  ultimately show ?thesis by (simp add: strncpy_eq)
qed

lemma safestrcpy_loop_spec:
  "(\<forall>i. i < k \<or> k + n < i \<longrightarrow> safestrcpy_loop n k s t i = s i) \<and>
   (\<exists>l. k \<le> l \<and> l \<le> k + n \<and> safestrcpy_loop n k s t l = 0 \<and> (l < k + n \<longrightarrow> t l = 0) \<and>
        (\<forall>i. k \<le> i \<and> i < l \<longrightarrow> safestrcpy_loop n k s t i = t i \<and> t i \<noteq> 0))"
proof (induction n arbitrary: k s)
  case 0
  then show ?case by auto
next
  case (Suc n)
  show ?case
  proof (cases "t k = 0")
    case True
    then show ?thesis by (auto simp: Let_def intro!: exI [of _ k])
  next
    case False
    define s1 where "s1 = s(k := t k)"
    have eq: "safestrcpy_loop (Suc n) k s t = safestrcpy_loop n (k + 1) s1 t"
      using False by (simp add: Let_def s1_def)
    from Suc.IH [of "k + 1" s1] obtain l where l: "k + 1 \<le> l" "l \<le> k + 1 + n" "safestrcpy_loop n (k + 1) s1 t l = 0"
        "l < k + 1 + n \<longrightarrow> t l = 0"
        "\<forall>i. k + 1 \<le> i \<and> i < l \<longrightarrow> safestrcpy_loop n (k + 1) s1 t i = t i \<and> t i \<noteq> 0"
      and out: "\<forall>i. i < k + 1 \<or> k + 1 + n < i \<longrightarrow> safestrcpy_loop n (k + 1) s1 t i = s1 i" by blast
    have "safestrcpy_loop n (k + 1) s1 t i = t i \<and> t i \<noteq> 0" if "k \<le> i" "i < l" for i
      using that l(5) out False by (cases "i = k") (auto simp: s1_def)
    then show ?thesis unfolding eq using l out by (auto simp: s1_def intro!: exI [of _ l])
  qed
qed

lemma safestrcpy_spec:
  assumes "0 < n"
  shows "(\<forall>i \<ge> nat n. safestrcpy s t n i = s i) \<and>
    (\<exists>l < nat n. safestrcpy s t n l = 0 \<and> (l < nat n - 1 \<longrightarrow> t l = 0) \<and>
       (\<forall>i < l. safestrcpy s t n i = t i \<and> t i \<noteq> 0))"
proof -
  have n: "nat n - 1 < nat n" "safestrcpy s t n = safestrcpy_loop (nat n - 1) 0 s t"
    using assms by (simp_all add: safestrcpy_def)
  from safestrcpy_loop_spec [of 0 "nat n - 1" s t] obtain l where l:
    "l \<le> nat n - 1" "safestrcpy s t n l = 0" "l < nat n - 1 \<longrightarrow> t l = 0"
    "\<forall>i < l. safestrcpy s t n i = t i \<and> t i \<noteq> 0" "\<forall>i. nat n - 1 < i \<longrightarrow> safestrcpy s t n i = s i"
    unfolding n(2) by auto
  have "l < nat n" "\<forall>i \<ge> nat n. nat n - 1 < i" using l(1) n(1) by simp_all
  then show ?thesis using l by (intro conjI exI [of _ l]) simp_all
qed

lemma strlen_from_eq:
  assumes "s k = 0" and "\<forall>j < k. s j \<noteq> 0" and "n \<le> k"
  shows "strlen_from n s = Some k"
  using assms(3)
proof (induction "k - n" arbitrary: n)
  case 0
  then show ?case using assms by (simp add: strlen_from.simps)
next
  case (Suc d)
  then have "s n \<noteq> 0" using assms(2) by auto
  then show ?case using Suc(1) [of "n + 1"] Suc(2,3) by (subst strlen_from.simps) simp
qed

lemma strlen_eq: "s k = 0 \<Longrightarrow> \<forall>j < k. s j \<noteq> 0 \<Longrightarrow> strlen s = Some k"
  by (simp add: strlen_def strlen_from_eq)

text \<open>
  \<open>safestrcpy\<close> with a positive count stays inside the \<open>n\<close> bytes of the destination and
  always leaves a terminated string there: the longest prefix of the source that fits.
\<close>

theorem safestrcpy_correct:
  assumes "0 < n"
  shows "\<exists>l < nat n. strlen (safestrcpy s t n) = Some l \<and> (\<forall>i < l. safestrcpy s t n i = t i) \<and>
     (strlen t = Some l \<or> l = nat n - 1) \<and> (\<forall>i \<ge> nat n. safestrcpy s t n i = s i)"
proof -
  obtain l where l: "l < nat n" "safestrcpy s t n l = 0" "l < nat n - 1 \<longrightarrow> t l = 0"
      "\<forall>i < l. safestrcpy s t n i = t i \<and> t i \<noteq> 0" and out: "\<forall>i \<ge> nat n. safestrcpy s t n i = s i"
    using safestrcpy_spec [OF assms, of s t] by blast
  have "strlen (safestrcpy s t n) = Some l" using l(2,4) by (intro strlen_eq) auto
  moreover have "strlen t = Some l" if "l \<noteq> nat n - 1" using that l by (intro strlen_eq) auto
  ultimately show ?thesis using l out by (intro exI [of _ l]) blast
qed

theorem safestrcpy_correct_witness:
  "\<exists>l < 4. strlen (safestrcpy (\<lambda>_. 7) (\<lambda>_. 65) 4) = Some l"
  using safestrcpy_correct [of 4 "\<lambda>_. 7" "\<lambda>_. 65"] by auto

lemma atoi_from_digits:
  assumes "\<And>i. i < n \<Longrightarrow> 48 \<le> s (k + i) \<and> s (k + i) \<le> 57" and "\<not> (48 \<le> s (k + n) \<and> s (k + n) \<le> 57)"
  shows "atoi_from k s a = Some (fold (\<lambda>i a. a * 10 + ucast (s i) - 48) [k..<k + n] a)"
  using assms
proof (induction n arbitrary: k a)
  case 0
  then show ?case by (subst atoi_from.simps) auto
next
  case (Suc n)
  have IH: "atoi_from (k + 1) s b = Some (fold (\<lambda>i a. a * 10 + ucast (s i) - 48) [k + 1..<k + 1 + n] b)" for b
  proof (rule Suc.IH)
    show "48 \<le> s (k + 1 + i) \<and> s (k + 1 + i) \<le> 57" if "i < n" for i
      using Suc.prems(1) [of "Suc i"] that by simp
    show "\<not> (48 \<le> s (k + 1 + n) \<and> s (k + 1 + n) \<le> 57)" using Suc.prems(2) by simp
  qed
  have "48 \<le> s k \<and> s k \<le> 57" using Suc.prems(1) [of 0] by simp
  then have "atoi_from k s a = atoi_from (k + 1) s (a * 10 + ucast (s k) - 48)"
    by (subst atoi_from.simps) (simp only: if_True simp_thms)
  moreover have "[k..<k + Suc n] = k # [k + 1..<k + 1 + n]" by (simp add: upt_conv_Cons)
  ultimately show ?case by (simp only: IH fold.simps o_apply)
qed

end
