(* ===== verification/Printf.thy ===== *)
theory Printf
  imports StringLib
begin

text \<open>
  Formatted output: \<open>printint\<close> and \<open>printf\<close> of the user library (\<^verbatim>\<open>printf.c\<close>) and
  \<open>printint\<close> and \<open>cprintf\<close> of the console (\<^verbatim>\<open>console.c\<close>). The bytes handed to \<^verbatim>\<open>putc\<close>
  or \<^verbatim>\<open>consputc\<close> are the result; the variadic arguments are a list of words, and reading
  past it is an uninitialised read. The buffer of \<open>printint\<close> has 16 bytes: the first
  argument of the digit loop is the room left in it.
\<close>

definition INTBUF :: nat where "INTBUF = 16"

text \<open>\<^verbatim>\<open>"0123456789ABCDEF"\<close> and \<^verbatim>\<open>"0123456789abcdef"\<close>.\<close>

definition digits_upper :: "byte list" where
  "digits_upper = [48, 49, 50, 51, 52, 53, 54, 55, 56, 57, 65, 66, 67, 68, 69, 70]"

definition digits_lower :: "byte list" where
  "digits_lower = [48, 49, 50, 51, 52, 53, 54, 55, 56, 57, 97, 98, 99, 100, 101, 102]"

fun digit_loop :: "byte list \<Rightarrow> nat \<Rightarrow> 32 word \<Rightarrow> 32 word \<Rightarrow> byte list res" where
  "digit_loop digits 0 x base = Inl OutOfBounds"
| "digit_loop digits (Suc room) x base =
     (if base = 0 then Inl DivByZero
      else if unat (x mod base) \<ge> length digits then Inl OutOfBounds
      else let d = digits ! unat (x mod base); x = x div base
           in if x \<noteq> 0 then bindR (digit_loop digits room x base) (\<lambda>ds. Inr (d # ds)) else Inr [d])"

text \<open>
  The characters are stored least significant first, then the sign, and printed in
  reverse.
\<close>

definition printint :: "byte list \<Rightarrow> 32 word \<Rightarrow> 32 word \<Rightarrow> bool \<Rightarrow> byte list res" where
  "printint digits xx base sign =
     (let neg = (sign \<and> sint xx < 0); x = (if neg then - xx else xx)
      in bindR (digit_loop digits INTBUF x base) (\<lambda>buf.
         if neg then if length buf < INTBUF then Inr (rev (buf @ [45])) else Inl OutOfBounds
         else Inr (rev buf)))"

text \<open>The string at a non-null pointer, or \<^verbatim>\<open>"(null)"\<close>.\<close>

definition print_string :: "bmem \<Rightarrow> 32 word \<Rightarrow> byte list res" where
  "print_string m a =
     (if a = 0 then Inr [40, 110, 117, 108, 108, 41]
      else case strlen (\<lambda>i. m (unat a + i)) of
             None \<Rightarrow> Inl Diverges
           | Some n \<Rightarrow> Inr (map (\<lambda>i. m (unat a + i)) [0..<n]))"

definition next_arg :: "32 word list \<Rightarrow> (32 word \<times> 32 word list) res" where
  "next_arg ap = (case ap of [] \<Rightarrow> Inl Uninitialised | a # ap \<Rightarrow> Inr (a, ap))"

text \<open>
  \<open>printf\<close>: the boolean is the variable \<^verbatim>\<open>state\<close>, true after a percent sign; the format
  is the list of its bytes before the terminator.
\<close>

fun printf_loop :: "bmem \<Rightarrow> bool \<Rightarrow> byte list \<Rightarrow> 32 word list \<Rightarrow> byte list res" where
  "printf_loop m state [] ap = Inr []"
| "printf_loop m False (c # fmt) ap =
     (if c = 37 then printf_loop m True fmt ap
      else bindR (printf_loop m False fmt ap) (\<lambda>out. Inr (c # out)))"
| "printf_loop m True (c # fmt) ap =
     bindR (if c = 100 then bindR (next_arg ap) (\<lambda>(a, ap). bindR (printint digits_upper a 10 True) (\<lambda>o1. Inr (o1, ap)))
            else if c = 120 \<or> c = 112 then
              bindR (next_arg ap) (\<lambda>(a, ap). bindR (printint digits_upper a 16 False) (\<lambda>o1. Inr (o1, ap)))
            else if c = 115 then bindR (next_arg ap) (\<lambda>(a, ap). bindR (print_string m a) (\<lambda>o1. Inr (o1, ap)))
            else if c = 99 then bindR (next_arg ap) (\<lambda>(a, ap). Inr ([ucast a], ap))
            else if c = 37 then Inr ([c], ap)
            else Inr ([37, c], ap)) (\<lambda>(o1, ap).
     bindR (printf_loop m False fmt ap) (\<lambda>out. Inr (o1 @ out)))"

definition printf :: "bmem \<Rightarrow> byte list \<Rightarrow> 32 word list \<Rightarrow> byte list res" where
  "printf m fmt ap = printf_loop m False fmt ap"

text \<open>\<open>cprintf\<close> reads the character after the percent sign in the same iteration.\<close>

fun cprintf_loop :: "bmem \<Rightarrow> byte list \<Rightarrow> 32 word list \<Rightarrow> byte list res" where
  "cprintf_loop m [] argp = Inr []"
| "cprintf_loop m [c] argp = (if c \<noteq> 37 then Inr [c] else Inr [])"
| "cprintf_loop m (c # d # fmt) argp =
     (if c \<noteq> 37 then bindR (cprintf_loop m (d # fmt) argp) (\<lambda>out. Inr (c # out))
      else
       bindR (if d = 100 then bindR (next_arg argp) (\<lambda>(a, ap). bindR (printint digits_lower a 10 True) (\<lambda>o1. Inr (o1, ap)))
              else if d = 120 \<or> d = 112 then
                bindR (next_arg argp) (\<lambda>(a, ap). bindR (printint digits_lower a 16 False) (\<lambda>o1. Inr (o1, ap)))
              else if d = 115 then bindR (next_arg argp) (\<lambda>(a, ap). bindR (print_string m a) (\<lambda>o1. Inr (o1, ap)))
              else if d = 37 then Inr ([37], argp)
              else Inr ([37, d], argp)) (\<lambda>(o1, argp).
       bindR (cprintf_loop m fmt argp) (\<lambda>out. Inr (o1 @ out))))"

definition cprintf :: "bmem \<Rightarrow> byte list option \<Rightarrow> 32 word list \<Rightarrow> byte list res" where
  "cprintf m fmt argp =
     (case fmt of None \<Rightarrow> Inl (Kpanic ''null fmt'') | Some f \<Rightarrow> cprintf_loop m f argp)"

section \<open>Lemmas\<close>

lemma digit_loop_total:
  assumes "1 < unat base" "unat base \<le> length digits" "unat x < unat base ^ k" "0 < k" "k \<le> room"
  shows "\<exists>ds. digit_loop digits room x base = Inr ds \<and> length ds \<le> k"
  using assms(3-5)
proof (induction room arbitrary: x k)
  case (Suc room)
  have ix: "unat (x mod base) < length digits"
  proof -
    have "unat x mod unat base < unat base" using assms(1) by simp
    then show ?thesis using assms(2) by (simp add: unat_mod_distrib)
  qed
  show ?case
  proof (cases "x div base = 0")
    case True
    then show ?thesis using ix assms(1) Suc.prems(2) by (auto simp: Let_def)
  next
    case False
    then have k1: "k \<noteq> 1"
    proof (intro notI)
      assume "k = 1"
      then have "unat (x div base) = 0" using Suc.prems by (simp add: unat_div_distrib)
      then show False using False by (simp add: unat_eq_0)
    qed
    then obtain k' where k': "k = Suc k'" "0 < k'" using Suc.prems(2) by (cases k) auto
    have "unat (x div base) < unat base ^ k'"
      using Suc.prems(1) assms(1) by (simp add: unat_div_distrib k' less_mult_imp_div_less mult.commute)
    then obtain ds where "digit_loop digits room (x div base) base = Inr ds" "length ds \<le> k'"
      using Suc.IH [of "x div base" k'] k' Suc.prems(3) by auto
    then show ?thesis using False ix assms(1) k' by (auto simp: Let_def)
  qed
qed simp

lemma digit_loop_nonempty: "digit_loop digits room x base = Inr ds \<Longrightarrow> ds \<noteq> []"
  by (cases room) (auto simp: Let_def bindR_eq_Inr split: if_splits)

lemma printint_total:
  assumes "base = 10 \<or> base = 16" "length digits = 16"
  shows "\<exists>out. printint digits xx base sign = Inr out \<and> out \<noteq> [] \<and> length out \<le> 11"
proof -
  define x where "x = (if sign \<and> sint xx < 0 then - xx else xx)"
  have "unat x < 2 ^ 32" using unsigned_less [of x] by simp
  then have "unat x < unat base ^ 10" using assms(1) by (elim disjE) simp_all
  then obtain ds where "digit_loop digits INTBUF x base = Inr ds" "length ds \<le> 10"
    using digit_loop_total [of base digits x 10 INTBUF] assms by (auto simp: INTBUF_def)
  moreover from this(1) have "ds \<noteq> []" by (rule digit_loop_nonempty)
  ultimately show ?thesis by (auto simp: printint_def x_def [symmetric] Let_def INTBUF_def)
qed

lemma digit_value:
  assumes "digits = digits_upper \<or> digits = digits_lower" "n < 10"
  shows "ucast (digits ! n) - 48 = (of_nat n :: 32 word) \<and> 48 \<le> digits ! n \<and> digits ! n \<le> 57"
proof -
  have "n \<in> {0, 1, 2, 3, 4, 5, 6, 7, 8, 9}" using assms(2) by auto
  then show ?thesis using assms(1) by (elim disjE insertE) (simp_all add: digits_upper_def digits_lower_def)
qed

lemma digit_loop_value:
  assumes "digits = digits_upper \<or> digits = digits_lower"
    and "digit_loop digits room x 10 = Inr ds"
  shows "fold (\<lambda>b a. a * 10 + ucast b - 48) (rev ds) 0 = x \<and> (\<forall>b \<in> set ds. 48 \<le> b \<and> b \<le> 57)"
  using assms(2)
proof (induction room arbitrary: x ds)
  case (Suc room)
  let ?d = "digits ! unat (x mod 10)"
  have "unat (x mod 10) < 10" by (simp add: unat_mod_distrib)
  from digit_value [OF assms(1) this]
  have d: "ucast ?d - 48 = x mod (10 :: 32 word)" "48 \<le> ?d \<and> ?d \<le> 57" by simp_all
  have split: "x div 10 * 10 + x mod 10 = x" by (rule div_mult_mod_eq)
  show ?case
  proof (cases "x div 10 = 0")
    case True
    then have "ds = [?d]" using Suc.prems by (simp add: Let_def split: if_splits)
    then show ?thesis using d split True by simp
  next
    case False
    then obtain ds' where ds': "digit_loop digits room (x div 10) 10 = Inr ds'" "ds = ?d # ds'"
      using Suc.prems by (auto simp: Let_def bindR_eq_Inr split: if_splits)
    have "fold (\<lambda>b a. a * 10 + ucast b - 48) (rev ds) 0 = x div 10 * 10 + (ucast ?d - 48)"
      using Suc.IH [OF ds'(1)] ds'(2) by (simp add: diff_add_eq add_diff_eq)
    then show ?thesis using Suc.IH [OF ds'(1)] ds'(2) d split by simp
  qed
qed simp

lemma fold_nth: "fold (\<lambda>i. f (xs ! i)) [0..<length xs] a = fold f xs a"
proof -
  have "fold f (map ((!) xs) [0..<length xs]) a = fold (\<lambda>i. f (xs ! i)) [0..<length xs] a"
    by (simp add: fold_map o_def)
  then show ?thesis by (simp add: map_nth)
qed

lemma atoi_list:
  assumes "\<forall>b \<in> set bs. 48 \<le> b \<and> b \<le> 57"
  shows "atoi (\<lambda>i. (bs @ [0]) ! i) = Some (fold (\<lambda>b a. a * 10 + ucast b - 48) bs 0)"
proof -
  have nth: "(bs @ [0]) ! i = bs ! i" if "i < length bs" for i using that by (simp add: nth_append)
  have "atoi_from 0 (\<lambda>i. (bs @ [0]) ! i) 0 =
      Some (fold (\<lambda>i a. a * 10 + ucast ((bs @ [0]) ! i) - 48) [0..<0 + length bs] 0)"
    by (rule atoi_from_digits) (use assms nth in \<open>auto simp: word_le_nat_alt\<close>)
  also have "fold (\<lambda>i a. a * 10 + ucast ((bs @ [0]) ! i) - 48) [0..<0 + length bs] 0 =
      fold (\<lambda>i a. a * 10 + ucast (bs ! i) - 48) [0..<length bs] (0 :: 32 word)"
    by (rule fold_cong) (simp_all add: nth)
  also have "\<dots> = fold (\<lambda>b a. a * 10 + ucast b - 48) bs 0"
    using fold_nth [of "\<lambda>b a. a * 10 + ucast b - 48" bs 0] .
  finally show ?thesis by (simp add: atoi_def)
qed

text \<open>
  C28. Printing a non-negative number with \<^verbatim>\<open>%d\<close> and reading the digits back with \<open>atoi\<close>
  gives the number, in the console's and in the user library's version alike; for every
  argument, negative ones and the least integer included, the text fits the 16-byte
  buffer.
\<close>

theorem printint_atoi_roundtrip:
  assumes "digits = digits_upper \<or> digits = digits_lower"
  shows "\<exists>out. printint digits xx 10 True = Inr out \<and> length out \<le> 11 \<and>
     (sint xx < 0 \<longrightarrow> (\<exists>t. out = 45 # t \<and> atoi (\<lambda>i. (t @ [0]) ! i) = Some (- xx))) \<and>
     (0 \<le> sint xx \<longrightarrow> atoi (\<lambda>i. (out @ [0]) ! i) = Some xx)"
proof -
  have len: "length digits = 16" using assms by (auto simp: digits_upper_def digits_lower_def)
  define x where "x = (if sint xx < 0 then - xx else xx)"
  obtain out where out: "printint digits xx 10 True = Inr out" "length out \<le> 11"
    using printint_total [of 10 digits xx True] len by auto
  obtain ds where ds: "digit_loop digits INTBUF x 10 = Inr ds" "out = (if sint xx < 0 then 45 # rev ds else rev ds)"
    using out(1) unfolding printint_def Let_def x_def [symmetric] simp_thms
    by (auto simp: bindR_eq_Inr x_def split: if_splits)
  have "atoi (\<lambda>i. (rev ds @ [0]) ! i) = Some x"
    using digit_loop_value [OF assms ds(1)] atoi_list [of "rev ds"] by simp
  then show ?thesis using out ds(2) by (auto simp: x_def)
qed

theorem printint_atoi_roundtrip_witness:
  "\<exists>out. printint digits_upper 4095 10 True = Inr out \<and> atoi (\<lambda>i. (out @ [0]) ! i) = Some 4095"
  using printint_atoi_roundtrip [of digits_upper 4095] by auto

text \<open>
  A format without percent signs is printed as it is, and a format that ends in a
  percent sign prints nothing for it, in both printers.
\<close>

theorem printf_plain:
  assumes "37 \<notin> set fmt"
  shows "printf m fmt ap = Inr fmt \<and> cprintf m (Some fmt) ap = Inr fmt \<and>
    printf m (fmt @ [37]) ap = Inr fmt \<and> cprintf m (Some (fmt @ [37])) ap = Inr fmt"
proof -
  have a: "printf_loop m False (fmt @ r) ap = bindR (printf_loop m False r ap) (\<lambda>out. Inr (fmt @ out))" for r
    using assms by (induction fmt) auto
  have b: "cprintf_loop m (fmt @ r) ap = bindR (cprintf_loop m r ap) (\<lambda>out. Inr (fmt @ out))" for r
    using assms
  proof (induction fmt)
    case (Cons c fmt)
    then show ?case by (cases "fmt @ r") auto
  qed simp
  show ?thesis using a [of "[]"] a [of "[37]"] b [of "[]"] b [of "[37]"]
    by (simp add: printf_def cprintf_def)
qed

theorem printf_plain_witness:
  "printf (\<lambda>_. 0) [72, 105] [] = Inr [72, 105] \<and> cprintf (\<lambda>_. 0) (Some [72, 105, 37]) [] = Inr [72, 105]"
  using printf_plain [of "[72, 105]" "\<lambda>_. 0" "[]"] by simp

end
