(* ===== verification/Kalloc.thy ===== *)
theory Kalloc
  imports Ptable StringLib
begin

text \<open>
  The physical page allocator (\<^verbatim>\<open>kalloc.c\<close>). Memory is the bytes at kernel virtual
  addresses; the free list is threaded through the free pages themselves, each holding
  the address of the next in its first word. Addresses are naturals below
  \<open>2 ^ 32\<close>, null is 0; \<open>kend\<close> is the linker's symbol \<^verbatim>\<open>end\<close>.
\<close>

record kmem = kproc +
  mem :: bmem
  use_lock :: bool
  freelist :: nat
  kend :: nat

text \<open>The state of a machine with zeroed memory whose kernel ends at \<open>e\<close>.\<close>

definition boot_kmem :: "nat \<Rightarrow> kmem" where
  "boot_kmem e = kproc.extend boot_kproc (kmem.fields (\<lambda>_. 0) False 0 e)"

lemma boot_kmem_sel [simp]:
  "mem (boot_kmem e) = (\<lambda>_. 0)" "use_lock (boot_kmem e) = False" "freelist (boot_kmem e) = 0" "kend (boot_kmem e) = e"
  "locks (boot_kmem e) = []" "ptable (boot_kmem e) = (\<lambda>_. zero_proc)" "myproc (boot_kmem e) = None"
  by (simp_all add: boot_kmem_def kproc.defs kmem.defs boot_kproc_def)

definition V2P :: "nat \<Rightarrow> nat" where
  "V2P a = (a + 2 ^ 32 - KERNBASE) mod 2 ^ 32"

definition P2V :: "nat \<Rightarrow> nat" where
  "P2V a = (a + KERNBASE) mod 2 ^ 32"

definition PGROUNDUP :: "nat \<Rightarrow> nat" where
  "PGROUNDUP sz = (sz + PGSIZE - 1) mod 2 ^ 32 div PGSIZE * PGSIZE"

definition PGROUNDDOWN :: "nat \<Rightarrow> nat" where
  "PGROUNDDOWN a = a div PGSIZE * PGSIZE"

definition kfree :: "nat \<Rightarrow> 'a kmem_scheme \<Rightarrow> 'a kmem_scheme res" where
  "kfree v s =
     (if v mod PGSIZE \<noteq> 0 \<or> v < kend s \<or> V2P v \<ge> PHYSTOP then Inl (Kpanic ''kfree 1'')
      else
        let s = s\<lparr>mem := memset v 1 PGSIZE (mem s)\<rparr>
        in bindR (if use_lock s then acquire Lkmem s else Inr s) (\<lambda>s.
           let s = s\<lparr>mem := wr32 v (of_nat (freelist s)) (mem s), freelist := v\<rparr>
           in if use_lock s then release Lkmem s else Inr s))"

definition kalloc :: "'a kmem_scheme \<Rightarrow> (nat \<times> 'a kmem_scheme) res" where
  "kalloc s =
     bindR (if use_lock s then acquire Lkmem s else Inr s) (\<lambda>s.
     let r = freelist s;
         s = (if r \<noteq> 0 then s\<lparr>freelist := unat (rd32 r (mem s))\<rparr> else s)
     in bindR (if use_lock s then release Lkmem s else Inr s) (\<lambda>s. Inr (r, s)))"

function freerange_loop :: "nat \<Rightarrow> nat \<Rightarrow> 'a kmem_scheme \<Rightarrow> 'a kmem_scheme res" where
  "freerange_loop p vend s =
     (if p + PGSIZE \<le> vend then bindR (kfree p s) (freerange_loop (p + PGSIZE) vend) else Inr s)"
  by pat_completeness auto
termination
  by (relation "measure (\<lambda>(p, vend, s). Suc vend - p)") (auto simp: params)

definition freerange :: "nat \<Rightarrow> nat \<Rightarrow> 'a kmem_scheme \<Rightarrow> 'a kmem_scheme res" where
  "freerange vstart vend s = freerange_loop (PGROUNDUP vstart) vend s"

definition kinit1 :: "nat \<Rightarrow> nat \<Rightarrow> 'a kmem_scheme \<Rightarrow> 'a kmem_scheme res" where
  "kinit1 vstart vend s = freerange vstart vend (s\<lparr>use_lock := False\<rparr>)"

definition kinit2 :: "nat \<Rightarrow> nat \<Rightarrow> 'a kmem_scheme \<Rightarrow> 'a kmem_scheme res" where
  "kinit2 vstart vend s = bindR (freerange vstart vend s) (\<lambda>s. Inr (s\<lparr>use_lock := True\<rparr>))"

declare freerange_loop.simps [simp del]

section \<open>The free list as a list of pages\<close>

fun chain :: "bmem \<Rightarrow> nat \<Rightarrow> nat list \<Rightarrow> bool" where
  "chain m h [] \<longleftrightarrow> h = 0"
| "chain m h (p # ps) \<longleftrightarrow> h = p \<and> chain m (unat (rd32 p m)) ps"

definition page_ok :: "nat \<Rightarrow> nat \<Rightarrow> bool" where
  "page_ok e p \<longleftrightarrow> p mod PGSIZE = 0 \<and> e \<le> p \<and> KERNBASE \<le> p \<and> p < KERNBASE + PHYSTOP"

definition free_wf :: "nat list \<Rightarrow> 'a kmem_scheme \<Rightarrow> bool" where
  "free_wf ps s \<longleftrightarrow> chain (mem s) (freelist s) ps \<and> distinct ps \<and> (\<forall>p \<in> set ps. page_ok (kend s) p)"

text \<open>A state from which the allocator can be called: its lock is free if it uses one.\<close>

definition can_lock :: "'a kmem_scheme \<Rightarrow> bool" where
  "can_lock s \<longleftrightarrow> (use_lock s \<longrightarrow> Lkmem \<notin> set (locks s))"

lemma V2P_kernel:
  assumes "KERNBASE \<le> p" "p < 2 ^ 32"
  shows "V2P p = p - KERNBASE"
proof -
  have "p + 2 ^ 32 - KERNBASE = (p - KERNBASE) + 2 ^ 32" using assms by simp
  then show ?thesis using assms unfolding V2P_def by (metis mod_add_self2 mod_less less_imp_diff_less)
qed

lemma page_ok_bounds:
  assumes "page_ok e p"
  shows "p \<noteq> 0" "p + PGSIZE \<le> 2 ^ 32" "p mod PGSIZE = 0" "V2P p = p - KERNBASE" "P2V (V2P p) = p" "V2P p < PHYSTOP"
proof -
  show "p \<noteq> 0" "p + PGSIZE \<le> 2 ^ 32" "p mod PGSIZE = 0" using assms by (auto simp: page_ok_def params)
  show v: "V2P p = p - KERNBASE" using assms by (intro V2P_kernel) (auto simp: page_ok_def params)
  then show "P2V (V2P p) = p" "V2P p < PHYSTOP" using assms by (auto simp: page_ok_def params P2V_def)
qed

lemma pages_apart:
  assumes "p mod PGSIZE = 0" "q mod PGSIZE = 0" "p \<noteq> q"
  shows "p + PGSIZE \<le> q \<or> q + PGSIZE \<le> p"
proof -
  obtain a b where ab: "p = PGSIZE * a" "q = PGSIZE * b" using assms(1,2) by (auto simp: mod_eq_0_iff_dvd elim!: dvdE)
  then have "a < b \<or> b < a" using assms(3) by auto
  then have "PGSIZE * Suc a \<le> PGSIZE * b \<or> PGSIZE * Suc b \<le> PGSIZE * a"
    by (metis Suc_leI mult_le_mono2)
  then show ?thesis by (simp add: ab add.commute)
qed

lemma chain_frame:
  assumes "chain m h ps" and "\<And>p i. p \<in> set ps \<Longrightarrow> i < 4 \<Longrightarrow> m' (p + i) = m (p + i)"
  shows "chain m' h ps"
  using assms
proof (induction ps arbitrary: h)
  case (Cons p ps)
  have "rd32 p m' = rd32 p m" using Cons.prems(2) by (intro rd32_cong) simp
  then show ?case using Cons by simp
qed simp

text \<open>Writing inside one page leaves a free list that does not contain the page intact.\<close>

lemma free_wf_frame:
  assumes "free_wf ps s" and "q mod PGSIZE = 0" "q \<notin> set ps"
    and "\<And>a. a < q \<or> q + PGSIZE \<le> a \<Longrightarrow> mem t a = mem s a" "freelist t = freelist s" "kend t = kend s"
  shows "free_wf ps t"
proof -
  have "mem t (p + i) = mem s (p + i)" if p: "p \<in> set ps" "i < 4" for p i
  proof -
    have "p mod PGSIZE = 0" "p \<noteq> q" using p assms(1,3) by (auto simp: free_wf_def page_ok_def)
    then have "p + PGSIZE \<le> q \<or> q + PGSIZE \<le> p" using pages_apart [of p q] assms(2) by simp
    then show ?thesis using assms(4) [of "p + i"] p(2) by (auto simp: params)
  qed
  then show ?thesis using assms chain_frame [of "mem s" "freelist s" ps "mem t"] by (auto simp: free_wf_def)
qed

lemma kalloc_ok:
  assumes wf: "free_wf ps s" and lk: "can_lock s"
  shows "case ps of
      [] \<Rightarrow> kalloc s = Inr (0, s)
    | p # rest \<Rightarrow> \<exists>s'. kalloc s = Inr (p, s') \<and> free_wf rest s' \<and> page_ok (kend s) p \<and> p \<notin> set rest \<and>
        s' = s\<lparr>freelist := freelist s'\<rparr>"
proof (cases ps)
  case Nil
  then show ?thesis using assms
    by (auto simp: free_wf_def kalloc_def can_lock_def release_def holding_def)
next
  case (Cons p rest)
  then have "freelist s = p" "p \<noteq> 0" using wf by (auto simp: free_wf_def dest: page_ok_bounds)
  then have "kalloc s = Inr (p, s\<lparr>freelist := unat (rd32 p (mem s))\<rparr>)" using lk
    by (auto simp: kalloc_def can_lock_def Let_def release_def holding_def)
  moreover have "free_wf rest (s\<lparr>freelist := unat (rd32 p (mem s))\<rparr>)" "page_ok (kend s) p" "p \<notin> set rest"
    using wf Cons by (auto simp: free_wf_def)
  ultimately show ?thesis unfolding Cons list.case by (intro exI conjI) (assumption | simp)+
qed

lemma kfree_ok:
  assumes wf: "free_wf ps s" and lk: "can_lock s" and v: "page_ok (kend s) v" "v \<notin> set ps"
  shows "\<exists>s'. kfree v s = Inr s' \<and> free_wf (v # ps) s' \<and>
    (\<forall>a. a < v \<or> v + PGSIZE \<le> a \<longrightarrow> mem s' a = mem s a) \<and> s' = s\<lparr>mem := mem s', freelist := v\<rparr>"
proof -
  define m where "m = wr32 v (of_nat (freelist s)) (memset v 1 PGSIZE (mem s))"
  define s' where "s' = s\<lparr>mem := m, freelist := v\<rparr>"
  have out: "m a = mem s a" if "a < v \<or> v + PGSIZE \<le> a" for a
    using that unfolding m_def by (subst wr32_other) (auto simp: memset_eq params)
  have call: "kfree v s = Inr s'"
    using lk page_ok_bounds [OF v(1)] v(1)
    by (auto simp: kfree_def can_lock_def Let_def release_def holding_def s'_def m_def page_ok_def)
  have head: "freelist s < 2 ^ 32"
    using wf by (cases ps) (auto simp: free_wf_def page_ok_def params)
  have "unat (rd32 v m) = freelist s"
    using head unfolding m_def by (simp add: unat_of_nat)
  moreover have "free_wf ps (s\<lparr>mem := m\<rparr>)"
    by (rule free_wf_frame [OF wf page_ok_bounds(3) [OF v(1)] v(2)]) (simp_all add: out)
  ultimately have "free_wf (v # ps) s'" using v by (auto simp: free_wf_def s'_def)
  then show ?thesis using call out by (intro exI [of _ s']) (simp add: s'_def)
qed

lemma kfree_bad:
  "v mod PGSIZE \<noteq> 0 \<or> v < kend s \<or> V2P v \<ge> PHYSTOP \<Longrightarrow> kfree v s = Inl (Kpanic ''kfree 1'')"
  by (auto simp: kfree_def)

section \<open>The contract of a page allocator\<close>

text \<open>
  What the rest of the kernel relies on: \<open>pool\<close> is the set of pages that may be handed
  out, \<open>ready\<close> the states in which the allocator may be called.
\<close>

locale page_pool =
  fixes ready :: "'s \<Rightarrow> bool" and pool :: "'s \<Rightarrow> nat set"
    and alloc :: "'s \<Rightarrow> (nat \<times> 's) res" and give :: "nat \<Rightarrow> 's \<Rightarrow> 's res" and valid :: "nat \<Rightarrow> 's \<Rightarrow> bool"
  assumes finite_pool: "ready s \<Longrightarrow> finite (pool s)"
    and alloc_empty: "ready s \<Longrightarrow> pool s = {} \<Longrightarrow> alloc s = Inr (0, s)"
    and alloc_page: "ready s \<Longrightarrow> pool s \<noteq> {} \<Longrightarrow>
      \<exists>p s'. alloc s = Inr (p, s') \<and> p \<noteq> 0 \<and> p \<in> pool s \<and> pool s' = pool s - {p} \<and> ready s' \<and>
             (\<forall>q. valid q s' = valid q s) \<and> valid p s"
    and give_page: "ready s \<Longrightarrow> valid p s \<Longrightarrow> p \<notin> pool s \<Longrightarrow>
      \<exists>s'. give p s = Inr s' \<and> ready s' \<and> pool s' = insert p (pool s) \<and> (\<forall>q. valid q s' = valid q s)"
begin

fun alloc_n :: "nat \<Rightarrow> 's \<Rightarrow> (nat list \<times> 's) res" where
  "alloc_n 0 s = Inr ([], s)"
| "alloc_n (Suc n) s = bindR (alloc s) (\<lambda>(p, s). bindR (alloc_n n s) (\<lambda>(ps, s). Inr (p # ps, s)))"

lemma alloc_n_ok:
  assumes "ready s" and "n \<le> card (pool s)"
  shows "\<exists>ps s'. alloc_n n s = Inr (ps, s') \<and> length ps = n \<and> distinct ps \<and> set ps \<subseteq> pool s \<and>
     0 \<notin> set ps \<and> pool s' = pool s - set ps \<and> ready s' \<and> (\<forall>q. valid q s' = valid q s) \<and> (\<forall>p \<in> set ps. valid p s)"
  using assms
proof (induction n arbitrary: s)
  case (Suc n)
  then have "pool s \<noteq> {}" by auto
  then obtain p s1 where p: "alloc s = Inr (p, s1)" "p \<noteq> 0" "p \<in> pool s" "pool s1 = pool s - {p}" "ready s1"
      "\<forall>q. valid q s1 = valid q s" "valid p s"
    using alloc_page [OF Suc.prems(1)] by blast
  have "n \<le> card (pool s1)" using Suc.prems p finite_pool by (simp add: card_Diff_singleton)
  from Suc.IH [OF p(5) this] obtain ps s2 where
    "alloc_n n s1 = Inr (ps, s2)" "length ps = n" "distinct ps" "set ps \<subseteq> pool s1" "0 \<notin> set ps"
    "pool s2 = pool s1 - set ps" "ready s2" "\<forall>q. valid q s2 = valid q s1" "\<forall>p \<in> set ps. valid p s1" by blast
  then show ?case using p by (intro exI [of _ "p # ps"] exI [of _ s2]) auto
qed simp

lemma give_back:
  assumes "ready s" "pool s \<noteq> {}"
  shows "\<exists>p s1 s2. alloc s = Inr (p, s1) \<and> give p s1 = Inr s2 \<and> pool s2 = pool s \<and> ready s2"
proof -
  obtain p s1 where p: "alloc s = Inr (p, s1)" "p \<in> pool s" "pool s1 = pool s - {p}" "ready s1" "valid p s1"
    using alloc_page [OF assms] by blast
  then show ?thesis using give_page [OF p(4,5)] by auto
qed

end

definition free_pages :: "'a kmem_scheme \<Rightarrow> nat set" where
  "free_pages s = {p. \<exists>ps. free_wf ps s \<and> p \<in> set ps}"

definition alloc_ready :: "'a kmem_scheme \<Rightarrow> bool" where
  "alloc_ready s \<longleftrightarrow> can_lock s \<and> (\<exists>ps. free_wf ps s)"

lemma chain_unique: "chain m h ps \<Longrightarrow> chain m h qs \<Longrightarrow> 0 \<notin> set ps \<Longrightarrow> 0 \<notin> set qs \<Longrightarrow> ps = qs"
proof (induction ps arbitrary: h qs)
  case Nil
  then show ?case by (cases qs) auto
next
  case (Cons p ps)
  then show ?case by (cases qs) auto
qed

lemma free_wf_zero: "free_wf ps s \<Longrightarrow> 0 \<notin> set ps"
  by (auto simp: free_wf_def dest: page_ok_bounds(1))

lemma free_pages_eq: "free_wf ps s \<Longrightarrow> free_pages s = set ps"
  using chain_unique free_wf_zero unfolding free_pages_def free_wf_def by blast

interpretation kpool: page_pool alloc_ready free_pages kalloc kfree "\<lambda>p s. page_ok (kend s) p"
proof (unfold_locales, goal_cases)
  case (1 s)
  then show ?case by (auto simp: alloc_ready_def free_pages_eq)
next
  case (2 s)
  then obtain ps where "free_wf ps s" "can_lock s" by (auto simp: alloc_ready_def)
  then show ?case using 2 kalloc_ok [of ps s] by (simp add: free_pages_eq)
next
  case (3 s)
  then obtain ps where ps: "free_wf ps s" "can_lock s" by (auto simp: alloc_ready_def)
  then obtain p rest where eq: "ps = p # rest" using 3 by (cases ps) (auto simp: free_pages_eq)
  obtain s' where s': "kalloc s = Inr (p, s')" "free_wf rest s'" "page_ok (kend s) p" "p \<notin> set rest"
      "s' = s\<lparr>freelist := freelist s'\<rparr>"
    using kalloc_ok [OF ps] unfolding eq list.case by blast
  have "use_lock s' = use_lock s" "locks s' = locks s" "kend s' = kend s"
    by (subst s'(5), simp)+
  then have "can_lock s'" "kend s' = kend s" using ps(2) by (simp_all add: can_lock_def)
  then show ?case using s' ps(1) free_pages_eq [OF ps(1)] free_pages_eq [OF s'(2)] page_ok_bounds(1) [OF s'(3)]
    by (intro exI [of _ p] exI [of _ s']) (auto simp: eq alloc_ready_def)
next
  case (4 s p)
  then obtain ps where ps: "free_wf ps s" "can_lock s" by (auto simp: alloc_ready_def)
  then have "p \<notin> set ps" using 4 by (simp add: free_pages_eq)
  from kfree_ok [OF ps 4(2) this] obtain s' where
    s': "kfree p s = Inr s'" "free_wf (p # ps) s'" "s' = s\<lparr>mem := mem s', freelist := p\<rparr>" by blast
  have "use_lock s' = use_lock s" "locks s' = locks s" "kend s' = kend s"
    by (subst s'(3), simp)+
  then have "can_lock s'" "kend s' = kend s" using ps(2) by (simp_all add: can_lock_def)
  then show ?case using s' free_pages_eq [OF ps(1)] free_pages_eq [OF s'(2)]
    by (intro exI [of _ s']) (auto simp: alloc_ready_def)
qed

section \<open>Properties\<close>

text \<open>The whole pages of \<open>[p, vend)\<close>, in ascending order.\<close>

definition pages_of :: "nat \<Rightarrow> nat \<Rightarrow> nat list" where
  "pages_of p vend = map (\<lambda>i. p + i * PGSIZE) [0..<(vend - p) div PGSIZE]"

lemma pages_of_step:
  "pages_of p vend = (if p + PGSIZE \<le> vend then p # pages_of (p + PGSIZE) vend else [])"
proof (cases "p + PGSIZE \<le> vend")
  case True
  then have n: "(vend - p) div PGSIZE = Suc ((vend - (p + PGSIZE)) div PGSIZE)"
    using div_if [of "vend - p" PGSIZE] by (simp add: params)
  have "map (\<lambda>i. p + i * PGSIZE) [0..<Suc k] = p # map (\<lambda>i. (p + PGSIZE) + i * PGSIZE) [0..<k]" for k
    by (simp add: upt_conv_Cons map_Suc_upt [symmetric] o_def add.assoc del: upt_Suc)
  then show ?thesis using True unfolding pages_of_def n by simp
next
  case False
  then show ?thesis by (simp add: pages_of_def params)
qed

lemma freerange_loop_ok:
  assumes "free_wf ps s" "can_lock s" "p mod PGSIZE = 0" "kend s \<le> p" "KERNBASE \<le> p"
    "vend \<le> KERNBASE + PHYSTOP" "\<forall>q \<in> set ps. q < p \<or> vend \<le> q"
  shows "\<exists>s'. freerange_loop p vend s = Inr s' \<and> free_wf (rev (pages_of p vend) @ ps) s' \<and>
    s' = s\<lparr>mem := mem s', freelist := freelist s'\<rparr>"
  using assms
proof (induction p vend s arbitrary: ps rule: freerange_loop.induct)
  case (1 p vend s)
  show ?case
  proof (cases "p + PGSIZE \<le> vend")
    case True
    have pk: "page_ok (kend s) p" using 1(4-8) True by (auto simp: page_ok_def params)
    have "p \<notin> set ps" using 1(8) True by (auto simp: params)
    from kfree_ok [OF 1(2,3) pk this] obtain s1 where
      s1: "kfree p s = Inr s1" "free_wf (p # ps) s1" "s1 = s\<lparr>mem := mem s1, freelist := p\<rparr>" by blast
    have eq: "use_lock s1 = use_lock s" "locks s1 = locks s" "kend s1 = kend s"
      by (subst s1(3), simp)+
    have "\<exists>s'. freerange_loop (p + PGSIZE) vend s1 = Inr s' \<and>
        free_wf (rev (pages_of (p + PGSIZE) vend) @ (p # ps)) s' \<and> s' = s1\<lparr>mem := mem s', freelist := freelist s'\<rparr>"
    proof (rule "1.IH" [OF True s1(1) s1(2)])
      show "\<forall>q \<in> set (p # ps). q < p + PGSIZE \<or> vend \<le> q" using 1(8) by (auto simp: params)
    qed (use 1(3-7) eq in \<open>simp_all add: can_lock_def\<close>)
    then obtain s' where s': "freerange_loop (p + PGSIZE) vend s1 = Inr s'"
      "free_wf (rev (pages_of (p + PGSIZE) vend) @ (p # ps)) s'" "s' = s1\<lparr>mem := mem s', freelist := freelist s'\<rparr>" by blast
    have "s' = s\<lparr>mem := mem s', freelist := freelist s'\<rparr>"
      by (subst s'(3), subst s1(3)) simp
    then show ?thesis using True s1(1) s' pages_of_step [of p vend]
      by (intro exI [of _ s']) (simp add: freerange_loop.simps [of p vend s])
  next
    case False
    then show ?thesis using 1(2) pages_of_step [of p vend]
      by (intro exI [of _ s]) (simp add: freerange_loop.simps [of p vend s])
  qed
qed

lemma PGROUNDUP_props:
  assumes "a + PGSIZE \<le> 2 ^ 32"
  shows "PGROUNDUP a mod PGSIZE = 0" "a \<le> PGROUNDUP a" "PGROUNDUP a < a + PGSIZE"
proof -
  have eq: "PGROUNDUP a = (a + PGSIZE - 1) div PGSIZE * PGSIZE"
    using assms unfolding PGROUNDUP_def by (simp add: params)
  show "PGROUNDUP a mod PGSIZE = 0" by (simp add: eq)
  have "(a + PGSIZE - 1) div PGSIZE * PGSIZE + (a + PGSIZE - 1) mod PGSIZE = a + PGSIZE - 1"
    by (rule div_mult_mod_eq)
  moreover have "(a + PGSIZE - 1) mod PGSIZE < PGSIZE" by (simp add: params)
  ultimately show "a \<le> PGROUNDUP a" "PGROUNDUP a < a + PGSIZE" unfolding eq by (auto simp: params)
qed

text \<open>
  \<open>kinit1\<close> on a kernel whose free list is empty: every whole page of the range, and no
  other page, is put on the free list exactly once, and nothing else of the kernel's
  state changes but memory.
\<close>

theorem kinit1_correct:
  assumes "freelist s = 0" "kend s \<le> vstart" "KERNBASE \<le> vstart" "vstart < KERNBASE + PHYSTOP"
    "vend \<le> KERNBASE + PHYSTOP"
  shows "\<exists>s'. kinit1 vstart vend s = Inr s' \<and> free_wf (rev (pages_of (PGROUNDUP vstart) vend)) s' \<and>
     s' = s\<lparr>use_lock := False, mem := mem s', freelist := freelist s'\<rparr>"
proof -
  let ?s = "s\<lparr>use_lock := False\<rparr>"
  have r: "PGROUNDUP vstart mod PGSIZE = 0" "vstart \<le> PGROUNDUP vstart"
    using PGROUNDUP_props [of vstart] assms(4) by (simp_all add: params)
  have "free_wf [] ?s" "can_lock ?s" using assms(1) by (simp_all add: free_wf_def can_lock_def)
  from freerange_loop_ok [OF this r(1), of vend] obtain s' where
    "freerange_loop (PGROUNDUP vstart) vend ?s = Inr s'" "free_wf (rev (pages_of (PGROUNDUP vstart) vend)) s'"
    "s' = ?s\<lparr>mem := mem s', freelist := freelist s'\<rparr>"
    using r(2) assms by auto
  then show ?thesis by (intro exI [of _ s']) (simp add: kinit1_def freerange_def)
qed

theorem kinit1_correct_witness:
  "\<exists>s'. kinit1 (KERNBASE + 0x3FF800) (KERNBASE + 0x402000) (boot_kmem KERNBASE) = Inr s' \<and>
     free_wf [KERNBASE + 0x401000, KERNBASE + 0x400000] s'"
proof -
  have "pages_of (PGROUNDUP (KERNBASE + 0x3FF800)) (KERNBASE + 0x402000) = [KERNBASE + 0x400000, KERNBASE + 0x401000]"
    by (simp add: pages_of_def PGROUNDUP_def params upt_rec)
  then show ?thesis
    using kinit1_correct [of "boot_kmem KERNBASE" "KERNBASE + 0x3FF800" "KERNBASE + 0x402000"]
    by (auto simp: params)
qed

text \<open>
  C14. Allocation and release: from a well-formed pool with pages, \<open>kalloc\<close> hands out one of
  its pages and removes exactly it; releasing that page puts the pool back as it was; two
  pages in a row are different; an empty pool gives the null pointer and changes nothing.
\<close>

theorem kalloc_kfree_contract:
  assumes "alloc_ready s"
  shows "(free_pages s = {} \<longrightarrow> kalloc s = Inr (0, s)) \<and>
    (free_pages s \<noteq> {} \<longrightarrow> (\<exists>p s1 s2. kalloc s = Inr (p, s1) \<and> p \<in> free_pages s \<and> p \<noteq> 0 \<and>
        free_pages s1 = free_pages s - {p} \<and> kfree p s1 = Inr s2 \<and> free_pages s2 = free_pages s \<and> alloc_ready s2 \<and>
        (\<forall>q s3. kalloc s1 = Inr (q, s3) \<longrightarrow> q \<noteq> p)))"
proof (intro conjI impI)
  assume "free_pages s = {}"
  then show "kalloc s = Inr (0, s)" using kpool.alloc_empty assms by blast
next
  assume "free_pages s \<noteq> {}"
  then obtain p s1 where p: "kalloc s = Inr (p, s1)" "p \<noteq> 0" "p \<in> free_pages s" "free_pages s1 = free_pages s - {p}"
      "alloc_ready s1" "page_ok (kend s1) p"
    using kpool.alloc_page [OF assms] by blast
  have "p \<notin> free_pages s1" using p(4) by simp
  from kpool.give_page [OF p(5,6) this] obtain s2 where
    s2: "kfree p s1 = Inr s2" "alloc_ready s2" "free_pages s2 = insert p (free_pages s1)" by blast
  have "q \<noteq> p" if "kalloc s1 = Inr (q, s3)" for q s3
  proof (cases "free_pages s1 = {}")
    case True
    then show ?thesis using kpool.alloc_empty [OF p(5)] that p(2) by auto
  next
    case False
    then show ?thesis using kpool.alloc_page [OF p(5)] that p(4) by auto
  qed
  then show "\<exists>p s1 s2. kalloc s = Inr (p, s1) \<and> p \<in> free_pages s \<and> p \<noteq> 0 \<and>
        free_pages s1 = free_pages s - {p} \<and> kfree p s1 = Inr s2 \<and> free_pages s2 = free_pages s \<and> alloc_ready s2 \<and>
        (\<forall>q s3. kalloc s1 = Inr (q, s3) \<longrightarrow> q \<noteq> p)"
    using p s2 by (intro exI [of _ p] exI [of _ s1] exI [of _ s2]) auto
qed

text \<open>A free list of one page, the fourth megabyte boundary of the kernel's half.\<close>

definition one_page :: kmem where
  "one_page = (boot_kmem KERNBASE)\<lparr>freelist := KERNBASE + 0x400000\<rparr>"

lemma one_page_wf: "free_wf [KERNBASE + 0x400000] one_page"
  by (simp add: free_wf_def one_page_def page_ok_def params rd32_def)

lemma one_page_ready: "alloc_ready one_page"
  using one_page_wf by (auto simp: alloc_ready_def can_lock_def one_page_def)

theorem kalloc_kfree_contract_witness:
  "\<exists>p s1 s2. kalloc one_page = Inr (p, s1) \<and> kfree p s1 = Inr s2 \<and> free_pages s2 = {KERNBASE + 0x400000}"
  using kalloc_kfree_contract [OF one_page_ready] free_pages_eq [OF one_page_wf] by auto

end
