(* ===== verification/Vm.thy ===== *)
theory Vm
  imports Kalloc
begin

text \<open>
  Page tables (\<^verbatim>\<open>vm.c\<close>): the two-level table in memory, walked, extended, copied and
  released by the functions of the source. A page directory is the kernel address of
  its page; entries are 32-bit words read from and written to memory. The counting loops
  take the number of pages of the address space as their bound, which no run exceeds.
  Console messages are not part of the state.
\<close>

record kvm = kmem +
  kpgdir :: nat
  cr3 :: nat
  esp0 :: nat
  kdata :: nat

definition PTE_P :: "32 word" where [params]: "PTE_P = 1"
definition PTE_W :: "32 word" where [params]: "PTE_W = 2"
definition PTE_U :: "32 word" where [params]: "PTE_U = 4"
definition KERNLINK :: nat where [params]: "KERNLINK = KERNBASE + EXTMEM"

definition PDX :: "nat \<Rightarrow> nat" where "PDX va = va div 2 ^ 22 mod 1024"
definition PTX :: "nat \<Rightarrow> nat" where "PTX va = va div 2 ^ 12 mod 1024"

definition PGADDR :: "nat \<Rightarrow> nat \<Rightarrow> nat \<Rightarrow> nat" where
  "PGADDR d t off = (d * 2 ^ 22 + t * 2 ^ 12 + off) mod 2 ^ 32"

definition PTE_ADDR :: "32 word \<Rightarrow> nat" where "PTE_ADDR pte = unat (pte AND NOT 0xFFF)"
definition PTE_FLAGS :: "32 word \<Rightarrow> 32 word" where "PTE_FLAGS pte = pte AND 0xFFF"

text \<open>The number of pages of the address space, the bound of the page loops.\<close>

definition NPAGES :: nat where [params]: "NPAGES = 2 ^ 20"

definition walkpgdir :: "nat \<Rightarrow> nat \<Rightarrow> bool \<Rightarrow> 'a kmem_scheme \<Rightarrow> (nat \<times> 'a kmem_scheme) res" where
  "walkpgdir pgdir va alloc s =
     (let pde = pgdir + 4 * PDX va
      in if rd32 pde (mem s) AND PTE_P \<noteq> 0
         then Inr (P2V (PTE_ADDR (rd32 pde (mem s))) + 4 * PTX va, s)
         else if \<not> alloc then Inr (0, s)
         else bindR (kalloc s) (\<lambda>(pgtab, s).
              if pgtab = 0 then Inr (0, s)
              else let s = s\<lparr>mem := memset pgtab 0 PGSIZE (mem s)\<rparr>;
                       s = s\<lparr>mem := wr32 pde (of_nat (V2P pgtab) OR PTE_P OR PTE_W OR PTE_U) (mem s)\<rparr>
                   in Inr (pgtab + 4 * PTX va, s)))"

fun mappages_loop :: "nat \<Rightarrow> nat \<Rightarrow> nat \<Rightarrow> nat \<Rightarrow> nat \<Rightarrow> 32 word \<Rightarrow> 'a kmem_scheme \<Rightarrow> (int \<times> 'a kmem_scheme) res" where
  "mappages_loop 0 pgdir a lastp pa perm s = Inl Diverges"
| "mappages_loop (Suc n) pgdir a lastp pa perm s =
     bindR (walkpgdir pgdir a True s) (\<lambda>(pte, s).
     if pte = 0 then Inr (- 1, s)
     else if rd32 pte (mem s) AND PTE_P \<noteq> 0 then Inl (Kpanic ''remap'')
     else let s = s\<lparr>mem := wr32 pte (of_nat pa OR perm OR PTE_P) (mem s)\<rparr>
          in if a = lastp then Inr (0, s)
             else mappages_loop n pgdir ((a + PGSIZE) mod 2 ^ 32) lastp ((pa + PGSIZE) mod 2 ^ 32) perm s)"

definition mappages :: "nat \<Rightarrow> nat \<Rightarrow> nat \<Rightarrow> nat \<Rightarrow> 32 word \<Rightarrow> 'a kmem_scheme \<Rightarrow> (int \<times> 'a kmem_scheme) res" where
  "mappages pgdir va len pa perm s =
     mappages_loop NPAGES pgdir (PGROUNDDOWN va) (PGROUNDDOWN ((va + len + 2 ^ 32 - 1) mod 2 ^ 32)) pa perm s"

fun deallocuvm_loop :: "nat \<Rightarrow> nat \<Rightarrow> nat \<Rightarrow> nat \<Rightarrow> 'a kmem_scheme \<Rightarrow> 'a kmem_scheme res" where
  "deallocuvm_loop 0 pgdir a oldsz s = Inl Diverges"
| "deallocuvm_loop (Suc n) pgdir a oldsz s =
     (if a < oldsz then
        bindR (walkpgdir pgdir a False s) (\<lambda>(pte, s).
        if pte = 0 then deallocuvm_loop n pgdir (PGADDR (PDX a + 1) 0 0) oldsz s
        else bindR (if rd32 pte (mem s) AND PTE_P \<noteq> 0
                    then let pa = PTE_ADDR (rd32 pte (mem s))
                         in if pa = 0 then Inl (Kpanic ''kfree'')
                            else bindR (kfree (P2V pa) s) (\<lambda>s. Inr (s\<lparr>mem := wr32 pte 0 (mem s)\<rparr>))
                    else Inr s) (\<lambda>s.
             deallocuvm_loop n pgdir ((a + PGSIZE) mod 2 ^ 32) oldsz s))
      else Inr s)"

definition deallocuvm :: "nat \<Rightarrow> nat \<Rightarrow> nat \<Rightarrow> 'a kmem_scheme \<Rightarrow> (nat \<times> 'a kmem_scheme) res" where
  "deallocuvm pgdir oldsz newsz s =
     (if newsz \<ge> oldsz then Inr (oldsz, s)
      else bindR (deallocuvm_loop (NPAGES + 1) pgdir (PGROUNDUP newsz) oldsz s) (\<lambda>s. Inr (newsz, s)))"

definition freevm :: "nat \<Rightarrow> 'a kmem_scheme \<Rightarrow> 'a kmem_scheme res" where
  "freevm pgdir s =
     (if pgdir = 0 then Inl (Kpanic ''freevm: no pgdir'')
      else bindR (deallocuvm pgdir KERNBASE 0 s) (\<lambda>(_, s).
           bindR (foldR (\<lambda>i s. if rd32 (pgdir + 4 * i) (mem s) AND PTE_P \<noteq> 0
                               then kfree (P2V (PTE_ADDR (rd32 (pgdir + 4 * i) (mem s)))) s
                               else Inr s) [0..<NPDENTRIES] s) (\<lambda>s.
           kfree pgdir s)))"

text \<open>\<open>kmap\<close>: virtual address, physical start and end, permissions.\<close>

definition kmap :: "nat \<Rightarrow> (nat \<times> nat \<times> nat \<times> 32 word) list" where
  "kmap kdat =
     [(KERNBASE, 0, EXTMEM, PTE_W),
      (KERNLINK, V2P KERNLINK, V2P kdat, 0),
      (kdat, V2P kdat, PHYSTOP, PTE_W),
      (DEVSPACE, DEVSPACE, 0, PTE_W)]"

fun setupkvm_loop :: "nat \<Rightarrow> (nat \<times> nat \<times> nat \<times> 32 word) list \<Rightarrow> 'a kmem_scheme \<Rightarrow> (nat \<times> 'a kmem_scheme) res" where
  "setupkvm_loop pgdir [] s = Inr (pgdir, s)"
| "setupkvm_loop pgdir ((virt, phys_start, phys_end, perm) # ks) s =
     bindR (mappages pgdir virt ((phys_end + 2 ^ 32 - phys_start) mod 2 ^ 32) phys_start perm s) (\<lambda>(r, s).
     if r < 0 then bindR (freevm pgdir s) (\<lambda>s. Inr (0, s)) else setupkvm_loop pgdir ks s)"

definition setupkvm :: "'a kvm_scheme \<Rightarrow> (nat \<times> 'a kvm_scheme) res" where
  "setupkvm s =
     bindR (kalloc s) (\<lambda>(pgdir, s).
     if pgdir = 0 then Inr (0, s)
     else let s = s\<lparr>mem := memset pgdir 0 PGSIZE (mem s)\<rparr>
          in if P2V PHYSTOP > DEVSPACE then Inl (Kpanic ''PHYSTOP too high'')
             else setupkvm_loop pgdir (kmap (kdata s)) s)"

definition switchkvm :: "'a kvm_scheme \<Rightarrow> 'a kvm_scheme" where
  "switchkvm s = s\<lparr>cr3 := V2P (kpgdir s)\<rparr>"

definition kvmalloc :: "'a kvm_scheme \<Rightarrow> 'a kvm_scheme res" where
  "kvmalloc s = bindR (setupkvm s) (\<lambda>(p, s). Inr (switchkvm (s\<lparr>kpgdir := p\<rparr>)))"

text \<open>\<open>switchuvm\<close>: of the task-state segment only the kernel stack pointer is kept.\<close>

definition switchuvm :: "nat option \<Rightarrow> 'a kvm_scheme \<Rightarrow> 'a kvm_scheme res" where
  "switchuvm p s = (case p of None \<Rightarrow> Inl (Kpanic ''switchuvm: no process'')
     | Some p \<Rightarrow>
        if p_kstack (ptable s p) = 0 then Inl (Kpanic ''switchuvm: no kstack'')
        else if p_pgdir (ptable s p) = 0 then Inl (Kpanic ''switchuvm: no pgdir'')
        else Inr (s\<lparr>esp0 := p_kstack (ptable s p) + KSTACKSIZE, cr3 := V2P (p_pgdir (ptable s p))\<rparr>))"

definition inituvm :: "nat \<Rightarrow> byte list \<Rightarrow> 'a kmem_scheme \<Rightarrow> 'a kmem_scheme res" where
  "inituvm pgdir init s =
     (if length init \<ge> PGSIZE then Inl (Kpanic ''inituvm: more than a page'')
      else bindR (kalloc s) (\<lambda>(mm, s).
           if mm = 0 then Inl NullDeref
           else let s = s\<lparr>mem := memset mm 0 PGSIZE (mem s)\<rparr>
                in bindR (mappages pgdir 0 PGSIZE (V2P mm) (PTE_W OR PTE_U) s) (\<lambda>(_, s).
                   Inr (s\<lparr>mem := (\<lambda>a. if mm \<le> a \<and> a < mm + length init then init ! (a - mm) else mem s a)\<rparr>))))"

fun allocuvm_loop :: "nat \<Rightarrow> nat \<Rightarrow> nat \<Rightarrow> nat \<Rightarrow> nat \<Rightarrow> 'a kmem_scheme \<Rightarrow> (nat \<times> 'a kmem_scheme) res" where
  "allocuvm_loop 0 pgdir a oldsz newsz s = Inl Diverges"
| "allocuvm_loop (Suc n) pgdir a oldsz newsz s =
     (if a < newsz then
        bindR (kalloc s) (\<lambda>(mm, s).
        if mm = 0 then bindR (deallocuvm pgdir newsz oldsz s) (\<lambda>(_, s). Inr (0, s))
        else let s = s\<lparr>mem := memset mm 0 PGSIZE (mem s)\<rparr>
             in bindR (mappages pgdir a PGSIZE (V2P mm) (PTE_W OR PTE_U) s) (\<lambda>(r, s).
                if r < 0 then bindR (deallocuvm pgdir newsz oldsz s) (\<lambda>(_, s). bindR (kfree mm s) (\<lambda>s. Inr (0, s)))
                else allocuvm_loop n pgdir ((a + PGSIZE) mod 2 ^ 32) oldsz newsz s))
      else Inr (newsz, s))"

definition allocuvm :: "nat \<Rightarrow> nat \<Rightarrow> nat \<Rightarrow> 'a kmem_scheme \<Rightarrow> (nat \<times> 'a kmem_scheme) res" where
  "allocuvm pgdir oldsz newsz s =
     (if newsz \<ge> KERNBASE then Inr (0, s)
      else if newsz < oldsz then Inr (oldsz, s)
      else allocuvm_loop (NPAGES + 1) pgdir (PGROUNDUP oldsz) oldsz newsz s)"

definition clearpteu :: "nat \<Rightarrow> nat \<Rightarrow> 'a kmem_scheme \<Rightarrow> 'a kmem_scheme res" where
  "clearpteu pgdir uva s =
     bindR (walkpgdir pgdir uva False s) (\<lambda>(pte, s).
     if pte = 0 then Inl (Kpanic ''clearpteu'')
     else Inr (s\<lparr>mem := wr32 pte (rd32 pte (mem s) AND NOT PTE_U) (mem s)\<rparr>))"

fun copyuvm_loop :: "nat \<Rightarrow> nat \<Rightarrow> nat \<Rightarrow> nat \<Rightarrow> nat \<Rightarrow> 'a kmem_scheme \<Rightarrow> (nat \<times> 'a kmem_scheme) res" where
  "copyuvm_loop 0 pgdir d i sz s = Inl Diverges"
| "copyuvm_loop (Suc n) pgdir d i sz s =
     (if i < sz then
        bindR (walkpgdir pgdir i False s) (\<lambda>(pte, s).
        if pte = 0 then Inl (Kpanic ''copyuvm: pte should exist'')
        else if rd32 pte (mem s) AND PTE_P = 0 then Inl (Kpanic ''copyuvm: page not present'')
        else let pa = PTE_ADDR (rd32 pte (mem s)); flags = PTE_FLAGS (rd32 pte (mem s))
             in bindR (kalloc s) (\<lambda>(mm, s).
                if mm = 0 then bindR (freevm d s) (\<lambda>s. Inr (0, s))
                else let s = s\<lparr>mem := memmove mm (P2V pa) PGSIZE (mem s)\<rparr>
                     in bindR (mappages d i PGSIZE (V2P mm) flags s) (\<lambda>(r, s).
                        if r < 0 then bindR (kfree mm s) (\<lambda>s. bindR (freevm d s) (\<lambda>s. Inr (0, s)))
                        else copyuvm_loop n pgdir d ((i + PGSIZE) mod 2 ^ 32) sz s)))
      else Inr (d, s))"

definition copyuvm :: "nat \<Rightarrow> nat \<Rightarrow> 'a kvm_scheme \<Rightarrow> (nat \<times> 'a kvm_scheme) res" where
  "copyuvm pgdir sz s =
     bindR (setupkvm s) (\<lambda>(d, s).
     if d = 0 then Inr (0, s) else copyuvm_loop (NPAGES + 1) pgdir d 0 sz s)"

text \<open>\<open>uva2ka\<close> dereferences the entry without testing it for null.\<close>

definition uva2ka :: "nat \<Rightarrow> nat \<Rightarrow> 'a kmem_scheme \<Rightarrow> nat res" where
  "uva2ka pgdir uva s =
     bindR (walkpgdir pgdir uva False s) (\<lambda>(pte, s).
     if pte = 0 then Inl NullDeref
     else if rd32 pte (mem s) AND PTE_P = 0 then Inr 0
     else if rd32 pte (mem s) AND PTE_U = 0 then Inr 0
     else Inr (P2V (PTE_ADDR (rd32 pte (mem s)))))"

text \<open>\<open>copyout\<close>: the bytes to copy are the kernel buffer's, given as a list.\<close>

function copyout :: "nat \<Rightarrow> nat \<Rightarrow> byte list \<Rightarrow> 'a kmem_scheme \<Rightarrow> (int \<times> 'a kmem_scheme) res" where
  "copyout pgdir va buf s =
     (if buf = [] then Inr (0, s)
      else let va0 = PGROUNDDOWN va
           in bindR (uva2ka pgdir va0 s) (\<lambda>pa0.
              if pa0 = 0 then Inr (- 1, s)
              else let n = min (PGSIZE - (va - va0)) (length buf);
                       dst = pa0 + (va - va0);
                       s = s\<lparr>mem := (\<lambda>a. if dst \<le> a \<and> a < dst + n then buf ! (a - dst) else mem s a)\<rparr>
                   in copyout pgdir ((va0 + PGSIZE) mod 2 ^ 32) (drop n buf) s))"
  by pat_completeness auto
termination
proof (relation "measure (\<lambda>(pgdir, va, buf, s). length buf)", goal_cases)
  case (2 pgdir va buf s va0 pa0 n dst t)
  have "va - PGROUNDDOWN va < PGSIZE"
    using minus_div_mult_eq_mod [of va PGSIZE] by (simp add: PGROUNDDOWN_def params)
  then show ?case using 2 by simp
qed simp

declare copyout.simps [simp del]

section \<open>Entries and their bits\<close>

lemma and_1_iff: "(w AND PTE_P \<noteq> 0) \<longleftrightarrow> bit w 0" for w :: "32 word"
  by (simp add: PTE_P_def and_one_eq odd_iff_mod_2_eq_one bit_0)

lemma and_1_zero: "w AND PTE_P = 0 \<longleftrightarrow> \<not> bit w 0" for w :: "32 word"
  using and_1_iff [of w] by blast

lemma low_bits_clear:
  assumes "x mod 4096 = 0" "n < 12"
  shows "\<not> bit (of_nat x :: 32 word) n"
proof -
  have "take_bit 12 x = 0" using assms(1) by (simp add: take_bit_eq_mod)
  then have "\<not> bit x n" using assms(2) bit_take_bit_iff [of 12 x n] by simp
  then show ?thesis by (simp add: bit_of_nat_iff)
qed

lemma mask_bits: "bit (0xFFF :: 32 word) n \<longleftrightarrow> n < 12"
proof -
  have eq: "(0xFFF :: 32 word) = mask 12" by (simp add: mask_eq_exp_minus_1)
  show ?thesis unfolding eq bit_mask_iff by auto
qed

lemma high_clear:
  assumes "f AND NOT 0xFFF = (0 :: 32 word)" "bit f n"
  shows "n < 12"
proof (rule ccontr)
  assume "\<not> n < 12"
  moreover have "n < 32" using assms(2) bit_imp_le_length [of f n] by simp
  ultimately have "bit (f AND NOT 0xFFF) n" using assms(2)
    unfolding bit_and_iff bit_not_iff mask_bits by simp
  then show False using assms(1) by simp
qed

text \<open>An entry made of a page address and flags gives both back.\<close>

lemma entry_split:
  assumes "x mod 4096 = 0" "x < 2 ^ 32" "f AND NOT 0xFFF = (0 :: 32 word)"
  shows "PTE_ADDR (of_nat x OR f) = x" "PTE_FLAGS (of_nat x OR f) = f"
proof -
  have lo: "bit (of_nat x :: 32 word) n \<Longrightarrow> \<not> n < 12" for n using low_bits_clear [OF assms(1)] by blast
  have hi: "bit f n \<Longrightarrow> n < 12" for n using high_clear [OF assms(3)] by blast
  have "(of_nat x OR f) AND NOT 0xFFF = (of_nat x :: 32 word)"
  proof (rule bit_word_eqI)
    fix n assume "n < LENGTH(32)"
    then show "bit ((of_nat x OR f) AND NOT 0xFFF) n = bit (of_nat x :: 32 word) n"
      using lo [of n] hi [of n] unfolding bit_and_iff bit_or_iff bit_not_iff mask_bits by auto
  qed
  then show "PTE_ADDR (of_nat x OR f) = x" using assms(2) by (simp add: PTE_ADDR_def unat_of_nat)
  show "PTE_FLAGS (of_nat x OR f) = f" unfolding PTE_FLAGS_def
  proof (rule bit_word_eqI)
    fix n assume "n < LENGTH(32)"
    then show "bit ((of_nat x OR f) AND 0xFFF) n = bit f n"
      using lo [of n] hi [of n] unfolding bit_and_iff bit_or_iff mask_bits by blast
  qed
qed

lemma PDX_less [simp]: "PDX va < 1024" and PTX_less [simp]: "PTX va < 1024"
  by (simp_all add: PDX_def PTX_def)

lemma page_index:
  assumes "va < 2 ^ 32" "vb < 2 ^ 32"
  shows "PDX va = PDX vb \<and> PTX va = PTX vb \<longleftrightarrow> va div PGSIZE = vb div PGSIZE"
proof -
  have d: "PDX v = v div PGSIZE div 1024" if "v < 2 ^ 32" for v
  proof -
    have "v div PGSIZE div 1024 = v div 2 ^ 22" by (simp add: params div_mult2_eq [symmetric])
    moreover have "v div 2 ^ 22 < 1024" using that by (simp add: less_mult_imp_div_less)
    ultimately show ?thesis by (simp add: PDX_def)
  qed
  have t: "PTX v = v div PGSIZE mod 1024" for v by (simp add: PTX_def params)
  show ?thesis using d [OF assms(1)] d [OF assms(2)] t by (metis div_mult_mod_eq)
qed

lemma entries_apart:
  assumes "p mod PGSIZE = 0" "q mod PGSIZE = 0" "i < 1024" "k < 1024" "p \<noteq> q \<or> i \<noteq> k"
  shows "p + 4 * i + 4 \<le> q + 4 * k \<or> q + 4 * k + 4 \<le> p + 4 * i"
proof (cases "p = q")
  case True
  then show ?thesis using assms(5) by auto
next
  case False
  then show ?thesis using pages_apart [OF assms(1,2)] assms(3,4) by (auto simp: params)
qed

section \<open>Well-formed page tables\<close>

definition pde :: "'a kmem_scheme \<Rightarrow> nat \<Rightarrow> nat \<Rightarrow> 32 word" where
  "pde s D i = rd32 (D + 4 * i) (mem s)"

definition tab :: "'a kmem_scheme \<Rightarrow> nat \<Rightarrow> nat \<Rightarrow> nat" where
  "tab s D i = P2V (PTE_ADDR (pde s D i))"

abbreviation present :: "32 word \<Rightarrow> bool" where
  "present w \<equiv> bit w 0"

text \<open>The entry the hardware finds for an address; 0, which is not present, without a table.\<close>

definition translate :: "'a kmem_scheme \<Rightarrow> nat \<Rightarrow> nat \<Rightarrow> 32 word" where
  "translate s D va = (if present (pde s D (PDX va)) then rd32 (tab s D (PDX va) + 4 * PTX va) (mem s) else 0)"

definition tables_ok :: "nat \<Rightarrow> nat list \<Rightarrow> 'a kmem_scheme \<Rightarrow> bool" where
  "tables_ok D ps s \<longleftrightarrow> (\<forall>i < 1024. present (pde s D i) \<longrightarrow>
      page_ok (kend s) (tab s D i) \<and> tab s D i \<notin> set ps \<and> tab s D i \<noteq> D)"

definition tables_inj :: "nat \<Rightarrow> 'a kmem_scheme \<Rightarrow> bool" where
  "tables_inj D s \<longleftrightarrow> (\<forall>i < 1024. \<forall>j < 1024. present (pde s D i) \<and> present (pde s D j) \<and> tab s D i = tab s D j \<longrightarrow> i = j)"

definition pt_wf :: "nat \<Rightarrow> nat list \<Rightarrow> 'a kmem_scheme \<Rightarrow> bool" where
  "pt_wf D ps s \<longleftrightarrow> free_wf ps s \<and> page_ok (kend s) D \<and> D \<notin> set ps \<and> tables_ok D ps s \<and> tables_inj D s"

lemma tables_okD:
  assumes "tables_ok D ps s" "i < 1024" "present (pde s D i)"
  shows "page_ok (kend s) (tab s D i)" "tab s D i \<notin> set ps" "tab s D i \<noteq> D" "tab s D i mod PGSIZE = 0"
  using assms page_ok_bounds(3) by (auto simp: tables_ok_def)

lemma tables_injD:
  "tables_inj D s \<Longrightarrow> i < 1024 \<Longrightarrow> j < 1024 \<Longrightarrow> present (pde s D i) \<Longrightarrow> present (pde s D j) \<Longrightarrow>
     tab s D i = tab s D j \<Longrightarrow> i = j"
  by (simp add: tables_inj_def)

text \<open>
  The pages a table occupies, the number of directory slots without a page table, and what a
  change of a table leaves alone: a page table is taken from the free pages exactly when a
  slot is filled, and no page is written that is neither free nor part of the table.
\<close>

definition ptpages :: "nat \<Rightarrow> 'a kmem_scheme \<Rightarrow> nat set" where
  "ptpages D s = insert D (tab s D ` {i. i < 1024 \<and> present (pde s D i)})"

definition absent :: "nat \<Rightarrow> 'a kmem_scheme \<Rightarrow> nat" where
  "absent D s = card {i. i < 1024 \<and> \<not> present (pde s D i)}"

definition same_page :: "'a kmem_scheme \<Rightarrow> 'a kmem_scheme \<Rightarrow> nat \<Rightarrow> bool" where
  "same_page s t q \<longleftrightarrow> (\<forall>i < PGSIZE. mem t (q + i) = mem s (q + i))"

definition pt_step :: "nat \<Rightarrow> nat list \<Rightarrow> 'a kmem_scheme \<Rightarrow> nat list \<Rightarrow> 'a kmem_scheme \<Rightarrow> bool" where
  "pt_step D ps s ps' t \<longleftrightarrow> set ps' \<subseteq> set ps \<and> ptpages D s \<subseteq> ptpages D t \<and> ptpages D t \<subseteq> ptpages D s \<union> set ps \<and>
     length ps' + absent D s = length ps + absent D t \<and>
     (\<forall>q. q mod PGSIZE = 0 \<and> q \<notin> set ps \<and> q \<notin> ptpages D s \<longrightarrow> same_page s t q)"

lemma pt_step_refl [simp]: "pt_step D ps s ps s"
  by (simp add: pt_step_def same_page_def)

lemma pt_step_trans:
  assumes "pt_step D ps s ps' t" "pt_step D ps' t ps'' u"
  shows "pt_step D ps s ps'' u"
proof -
  have "same_page s u q" if "q mod PGSIZE = 0" "q \<notin> set ps" "q \<notin> ptpages D s" for q
  proof -
    have "q \<notin> set ps'" "q \<notin> ptpages D t" using assms(1) that by (auto simp: pt_step_def)
    then have "same_page t u q" "same_page s t q" using assms that by (simp_all add: pt_step_def)
    then show ?thesis by (simp add: same_page_def)
  qed
  then show ?thesis using assms by (auto simp: pt_step_def)
qed

lemma absent_le: "absent D s \<le> 1024"
proof -
  have "card {i. i < 1024 \<and> \<not> present (pde s D i)} \<le> card {..<1024 :: nat}" by (intro card_mono) auto
  then show ?thesis by (simp add: absent_def)
qed

lemma rd32_memset_other:
  assumes "p mod PGSIZE = 0" "q mod PGSIZE = 0" "q \<noteq> p" "k < 1024"
  shows "rd32 (q + 4 * k) (memset p c PGSIZE m) = rd32 (q + 4 * k) m"
  using pages_apart [OF assms(2,1,3)] assms(4)
  by (intro rd32_cong) (auto simp: memset_eq params)

lemma rd32_memset_same: "k < 1024 \<Longrightarrow> rd32 (p + 4 * k) (memset p 0 PGSIZE m) = 0"
  by (simp add: rd32_def memset_eq params)

lemma rd32_entry_other:
  "p mod PGSIZE = 0 \<Longrightarrow> q mod PGSIZE = 0 \<Longrightarrow> i < 1024 \<Longrightarrow> k < 1024 \<Longrightarrow> p \<noteq> q \<or> i \<noteq> k \<Longrightarrow>
     rd32 (p + 4 * i) (wr32 (q + 4 * k) w m) = rd32 (p + 4 * i) m"
  by (rule rd32_wr32_other) (rule entries_apart)

lemma wr32_in_page:
  "k < 1024 \<Longrightarrow> a < q \<or> q + PGSIZE \<le> a \<Longrightarrow> wr32 (q + 4 * k) w m a = m a"
  by (rule wr32_other) (auto simp: params)

lemma page_entry:
  assumes "page_ok e p"
  shows "PTE_ADDR (of_nat (V2P p) OR PTE_P OR PTE_W OR PTE_U) = V2P p"
    and "present (of_nat (V2P p) OR PTE_P OR PTE_W OR PTE_U)"
proof -
  have "V2P p mod 4096 = 0" "V2P p < 2 ^ 32"
    using assms page_ok_bounds(4) [OF assms] by (auto simp: page_ok_def params mod_eq_0_iff_dvd intro: dvd_diff_nat)
  moreover have "(PTE_P OR PTE_W OR PTE_U) AND NOT 0xFFF = 0" by (simp add: params)
  ultimately have "PTE_ADDR (of_nat (V2P p) OR (PTE_P OR PTE_W OR PTE_U)) = V2P p" by (rule entry_split(1))
  then show "PTE_ADDR (of_nat (V2P p) OR PTE_P OR PTE_W OR PTE_U) = V2P p" by (simp add: or.assoc)
  show "present (of_nat (V2P p) OR PTE_P OR PTE_W OR PTE_U)" unfolding bit_or_iff PTE_P_def by simp
qed

text \<open>Hanging a cleared page into an empty directory slot changes no translation.\<close>

lemma new_table:
  assumes wf: "pt_wf D (p # rest) s" and i0: "i0 < 1024" "\<not> present (pde s D i0)"
    and s1: "free_wf rest s1" "mem s1 = mem s" "kend s1 = kend s"
    and t: "t = s1\<lparr>mem := wr32 (D + 4 * i0) (of_nat (V2P p) OR PTE_P OR PTE_W OR PTE_U) (memset p 0 PGSIZE (mem s1))\<rparr>"
  shows "pt_wf D rest t \<and> (\<forall>va. translate t D va = translate s D va) \<and> present (pde t D i0) \<and> tab t D i0 = p \<and>
    pt_step D (p # rest) s rest t"
proof -
  have pk: "page_ok (kend s) p" "page_ok (kend s) D" "D \<noteq> p" "p \<notin> set rest" "D \<notin> set rest"
    using wf by (auto simp: pt_wf_def free_wf_def)
  note al = page_ok_bounds(3) [OF pk(1)] page_ok_bounds(3) [OF pk(2)]
  have pd: "pde t D i = (if i = i0 then of_nat (V2P p) OR PTE_P OR PTE_W OR PTE_U else pde s D i)" if "i < 1024" for i
    using that al pk(3) i0(1) by (simp add: pde_def t s1(2) rd32_entry_other rd32_memset_other)
  have tb: "tab t D i = (if i = i0 then p else tab s D i)" if "i < 1024" for i
    using page_entry(1) [OF pk(1)] page_ok_bounds(5) [OF pk(1)] pd [OF that] by (simp add: tab_def)
  have tok: "tables_ok D (p # rest) s" and tinj: "tables_inj D s" using wf by (simp_all add: pt_wf_def)
  have tr: "translate t D va = translate s D va" for va
  proof (cases "PDX va = i0")
    case True
    have "rd32 (p + 4 * PTX va) (mem t) = 0"
      using al pk(3) i0(1) by (simp add: t rd32_entry_other rd32_memset_same)
    then show ?thesis using True i0 pd tb by (simp add: translate_def)
  next
    case False
    have "rd32 (tab s D (PDX va) + 4 * PTX va) (mem t) = rd32 (tab s D (PDX va) + 4 * PTX va) (mem s)"
      if "present (pde s D (PDX va))"
      using tables_okD [OF tok PDX_less that] al i0(1) by (simp add: t s1(2) rd32_entry_other rd32_memset_other)
    then show ?thesis using False pd tb by (simp add: translate_def)
  qed
  have "free_wf rest (s1\<lparr>mem := memset p 0 PGSIZE (mem s1)\<rparr>)"
    by (rule free_wf_frame [OF s1(1) al(1) pk(4)]) (auto simp: memset_eq)
  then have fr: "free_wf rest t"
    by (rule free_wf_frame [OF _ al(2) pk(5)]) (use i0 in \<open>simp_all add: t wr32_in_page\<close>)
  have ke: "kend t = kend s" by (simp add: t s1(3))
  have "tables_ok D rest t" unfolding tables_ok_def
    using pk tables_okD [OF tok] by (auto simp: pd tb ke)
  moreover have "tables_inj D t" unfolding tables_inj_def
  proof (intro allI impI, elim conjE)
    fix i j assume ij: "i < 1024" "j < 1024" "present (pde t D i)" "present (pde t D j)" "tab t D i = tab t D j"
    show "i = j"
      using ij tables_okD(2) [OF tok, of i] tables_okD(2) [OF tok, of j] tables_injD [OF tinj ij(1,2)]
      by (cases "i = i0"; cases "j = i0") (auto simp: pd tb)
  qed
  moreover have "pt_step D (p # rest) s rest t"
  proof -
    have "{i. i < 1024 \<and> present (pde t D i)} = insert i0 {i. i < 1024 \<and> present (pde s D i)}"
      using pd i0 page_entry(2) [OF pk(1)] by (auto split: if_splits)
    then have "ptpages D t = insert p (ptpages D s)" using tb i0 by (auto simp: ptpages_def)
    moreover have "{i. i < 1024 \<and> \<not> present (pde s D i)} = insert i0 {i. i < 1024 \<and> \<not> present (pde t D i)}"
      using pd i0 page_entry(2) [OF pk(1)] by (auto split: if_splits)
    then have "absent D s = Suc (absent D t)" using pd [OF i0(1)] page_entry(2) [OF pk(1)] by (simp add: absent_def)
    moreover have "same_page s t q" if "q mod PGSIZE = 0" "q \<noteq> p" "q \<noteq> D" for q
      using pages_apart [OF that(1) al(1) that(2)] pages_apart [OF that(1) al(2) that(3)] i0(1)
      by (auto simp: same_page_def t s1(2) wr32_in_page memset_eq)
    ultimately show ?thesis by (auto simp: pt_step_def ptpages_def)
  qed
  ultimately show ?thesis using fr pk tr pd [OF i0(1)] tb [OF i0(1)] page_entry(2) [OF pk(1)] by (simp add: pt_wf_def ke)
qed

text \<open>Writing one entry of a page table changes the translation of that page only.\<close>

lemma set_entry:
  assumes wf: "pt_wf D ps s" and i0: "i0 < 1024" "present (pde s D i0)" "k0 < 1024"
    and t: "t = s\<lparr>mem := wr32 (tab s D i0 + 4 * k0) w (mem s)\<rparr>"
  shows "pt_wf D ps t \<and> (\<forall>va. translate t D va = (if PDX va = i0 \<and> PTX va = k0 then w else translate s D va)) \<and>
    pt_step D ps s ps t"
proof -
  have tok: "tables_ok D ps s" and tinj: "tables_inj D s" and pk: "page_ok (kend s) D" using wf by (simp_all add: pt_wf_def)
  note T = tables_okD [OF tok i0(1,2)]
  have pd: "pde t D i = pde s D i" if "i < 1024" for i
    using that T i0(3) page_ok_bounds(3) [OF pk] by (simp add: pde_def t rd32_entry_other)
  then have tb: "tab t D i = tab s D i" if "i < 1024" for i using that by (simp add: tab_def)
  have tr: "translate t D va = (if PDX va = i0 \<and> PTX va = k0 then w else translate s D va)" for va
  proof (cases "PDX va = i0 \<and> PTX va = k0")
    case True
    then show ?thesis using i0 pd tb by (simp add: translate_def t)
  next
    case False
    have "rd32 (tab s D (PDX va) + 4 * PTX va) (mem t) = rd32 (tab s D (PDX va) + 4 * PTX va) (mem s)"
      if pr: "present (pde s D (PDX va))"
    proof -
      have "tab s D (PDX va) \<noteq> tab s D i0 \<or> PTX va \<noteq> k0"
        using False tables_injD [OF tinj PDX_less i0(1) pr i0(2)] by blast
      then show ?thesis using T(4) tables_okD(4) [OF tok PDX_less pr] i0(3) by (simp add: t rd32_entry_other)
    qed
    then show ?thesis unfolding if_not_P [OF False] using pd tb by (simp add: translate_def)
  qed
  have "free_wf ps s" using wf by (simp add: pt_wf_def)
  then have "free_wf ps t"
    by (rule free_wf_frame [OF _ T(4,2)]) (use i0(3) in \<open>simp_all add: t wr32_in_page\<close>)
  moreover have ke: "kend t = kend s" by (simp add: t)
  moreover have "tables_ok D ps t" using tok by (simp add: tables_ok_def pd tb ke)
  moreover have "tables_inj D t" using tinj by (simp add: tables_inj_def pd tb)
  moreover have "pt_step D ps s ps t"
  proof -
    have "{i. i < 1024 \<and> present (pde t D i)} = {i. i < 1024 \<and> present (pde s D i)}"
      "{i. i < 1024 \<and> \<not> present (pde t D i)} = {i. i < 1024 \<and> \<not> present (pde s D i)}" using pd by auto
    then have "ptpages D t = ptpages D s" "absent D t = absent D s" using tb by (auto simp: ptpages_def absent_def)
    moreover have "same_page s t q" if "q mod PGSIZE = 0" "q \<notin> ptpages D s" for q
    proof -
      have "q \<noteq> tab s D i0" using i0(1,2) that(2) by (auto simp: ptpages_def)
      from pages_apart [OF that(1) T(4) this] show ?thesis using i0(3) by (auto simp: same_page_def t wr32_in_page)
    qed
    ultimately show ?thesis by (simp add: pt_step_def)
  qed
  ultimately show ?thesis using wf tr by (simp add: pt_wf_def)
qed

lemma walkpgdir_found:
  "present (pde s D (PDX va)) \<Longrightarrow> walkpgdir D va al s = Inr (tab s D (PDX va) + 4 * PTX va, s)"
  by (simp add: walkpgdir_def Let_def and_1_iff pde_def tab_def)

lemma walkpgdir_missing:
  "\<not> present (pde s D (PDX va)) \<Longrightarrow> walkpgdir D va False s = Inr (0, s)"
  by (simp add: walkpgdir_def Let_def and_1_iff pde_def)

lemma walkpgdir_alloc:
  assumes wf: "pt_wf D ps s" and lk: "can_lock s" and np: "\<not> present (pde s D (PDX va))"
  shows "case ps of [] \<Rightarrow> walkpgdir D va True s = Inr (0, s)
    | p # rest \<Rightarrow> \<exists>t. walkpgdir D va True s = Inr (p + 4 * PTX va, t) \<and> pt_wf D rest t \<and>
        (\<forall>vb. translate t D vb = translate s D vb) \<and> present (pde t D (PDX va)) \<and> tab t D (PDX va) = p \<and>
        t = s\<lparr>mem := mem t, freelist := freelist t\<rparr> \<and> pt_step D ps s rest t"
proof -
  have fw: "free_wf ps s" using wf by (simp add: pt_wf_def)
  show ?thesis
  proof (cases ps)
    case Nil
    then show ?thesis using kalloc_ok [OF fw lk] np by (simp add: walkpgdir_def Let_def and_1_iff pde_def)
  next
    case (Cons p rest)
    obtain s1 where s1: "kalloc s = Inr (p, s1)" "free_wf rest s1" "s1 = s\<lparr>freelist := freelist s1\<rparr>" "page_ok (kend s) p"
      using kalloc_ok [OF fw lk] unfolding Cons list.case by blast
    have eq: "mem s1 = mem s" "kend s1 = kend s" by (subst s1(3), simp)+
    let ?t = "s1\<lparr>mem := wr32 (D + 4 * PDX va) (of_nat (V2P p) OR PTE_P OR PTE_W OR PTE_U) (memset p 0 PGSIZE (mem s1))\<rparr>"
    have "walkpgdir D va True s = Inr (p + 4 * PTX va, ?t)"
      using np s1(1) page_ok_bounds(1) [OF s1(4)] by (simp add: walkpgdir_def Let_def and_1_iff pde_def)
    moreover have "?t = s\<lparr>mem := mem ?t, freelist := freelist ?t\<rparr>" by (subst s1(3)) simp
    ultimately show ?thesis
      using new_table [OF wf [unfolded Cons] PDX_less np s1(2) eq refl] unfolding Cons list.case by blast
  qed
qed

lemma map_step:
  assumes wf: "pt_wf D ps s" and lk: "can_lock s" and a: "a < 2 ^ 32" and np: "\<not> present (translate s D a)"
  shows "(ps = [] \<and> walkpgdir D a True s = Inr (0, s)) \<or>
    (\<exists>pte t ps'. walkpgdir D a True s = Inr (pte, t) \<and> pte \<noteq> 0 \<and> \<not> present (rd32 pte (mem t)) \<and> set ps' \<subseteq> set ps \<and>
       t = s\<lparr>mem := mem t, freelist := freelist t\<rparr> \<and>
       (\<forall>w. pt_wf D ps' (t\<lparr>mem := wr32 pte w (mem t)\<rparr>) \<and>
            (\<forall>va < 2 ^ 32. translate (t\<lparr>mem := wr32 pte w (mem t)\<rparr>) D va =
                 (if va div PGSIZE = a div PGSIZE then w else translate s D va)) \<and>
            pt_step D ps s ps' (t\<lparr>mem := wr32 pte w (mem t)\<rparr>)))"
proof -
  have entry: "tab t D (PDX a) + 4 * PTX a \<noteq> 0 \<and> \<not> present (rd32 (tab t D (PDX a) + 4 * PTX a) (mem t)) \<and>
      (\<forall>w. pt_wf D ps' (t\<lparr>mem := wr32 (tab t D (PDX a) + 4 * PTX a) w (mem t)\<rparr>) \<and>
            (\<forall>va < 2 ^ 32. translate (t\<lparr>mem := wr32 (tab t D (PDX a) + 4 * PTX a) w (mem t)\<rparr>) D va =
                 (if va div PGSIZE = a div PGSIZE then w else translate s D va)) \<and>
            pt_step D ps s ps' (t\<lparr>mem := wr32 (tab t D (PDX a) + 4 * PTX a) w (mem t)\<rparr>))"
    if t: "pt_wf D ps' t" "present (pde t D (PDX a))" "\<forall>vb. translate t D vb = translate s D vb" "pt_step D ps s ps' t" for t ps'
  proof -
    have "page_ok (kend t) (tab t D (PDX a))" using tables_okD(1) [OF _ PDX_less t(2)] t(1)
      unfolding pt_wf_def by blast
    then have "tab t D (PDX a) \<noteq> 0" by (rule page_ok_bounds(1))
    moreover have "rd32 (tab t D (PDX a) + 4 * PTX a) (mem t) = translate s D a"
      using t(2) t(3) [rule_format, of a, symmetric] by (simp add: translate_def)
    moreover have "PDX va = PDX a \<and> PTX va = PTX a \<longleftrightarrow> va div PGSIZE = a div PGSIZE" if "va < 2 ^ 32" for va
      using page_index [OF that a] .
    moreover have "pt_step D ps s ps' (t\<lparr>mem := wr32 (tab t D (PDX a) + 4 * PTX a) w (mem t)\<rparr>)" for w
      using pt_step_trans [OF t(4)] set_entry [OF t(1) PDX_less t(2) PTX_less refl] by blast
    ultimately show ?thesis using set_entry [OF t(1) PDX_less t(2) PTX_less refl] t(3) np by simp
  qed
  show ?thesis
  proof (cases "present (pde s D (PDX a))")
    case True
    then show ?thesis using entry [OF wf True _ pt_step_refl] walkpgdir_found [OF True, of True]
      by (intro disjI2 exI [of _ "tab s D (PDX a) + 4 * PTX a"] exI [of _ s] exI [of _ ps]) simp
  next
    case False
    show ?thesis
    proof (cases ps)
      case Nil
      then show ?thesis using walkpgdir_alloc [OF wf lk False] by simp
    next
      case (Cons p rest)
      obtain t where t: "walkpgdir D a True s = Inr (p + 4 * PTX a, t)" "pt_wf D rest t"
          "\<forall>vb. translate t D vb = translate s D vb" "present (pde t D (PDX a))" "tab t D (PDX a) = p"
          "t = s\<lparr>mem := mem t, freelist := freelist t\<rparr>" "pt_step D ps s rest t"
        using walkpgdir_alloc [OF wf lk False] unfolding Cons list.case by blast
      show ?thesis
        by (intro disjI2 exI [of _ "p + 4 * PTX a"] exI [of _ t] exI [of _ rest])
          (use entry [OF t(2,4,3,7), unfolded t(5)] t(1,6) Cons in auto)
    qed
  qed
qed

definition map_entry :: "nat \<Rightarrow> nat \<Rightarrow> 32 word \<Rightarrow> nat \<Rightarrow> 32 word" where
  "map_entry a pa perm va = of_nat (pa + (PGROUNDDOWN va - a)) OR perm OR PTE_P"

lemma of_nat_mod32: "(of_nat (x mod 2 ^ 32 + y) :: 32 word) = of_nat (x + y)"
  by (simp add: word_of_nat_eq_iff take_bit_eq_mod mod_add_left_eq)

lemma page_same:
  assumes "a mod PGSIZE = 0"
  shows "va div PGSIZE = a div PGSIZE \<longleftrightarrow> a \<le> va \<and> va < a + PGSIZE"
proof -
  obtain k where k: "a = PGSIZE * k" using assms(1) by (auto simp: mod_eq_0_iff_dvd elim!: dvdE)
  have "va div PGSIZE = k \<longleftrightarrow> a \<le> va \<and> va < a + PGSIZE"
  proof
    assume "va div PGSIZE = k"
    then have "va = PGSIZE * k + va mod PGSIZE" by (metis mult_div_mod_eq)
    moreover have "va mod PGSIZE < PGSIZE" by (simp add: params)
    ultimately show "a \<le> va \<and> va < a + PGSIZE" using k by linarith
  next
    assume "a \<le> va \<and> va < a + PGSIZE"
    then show "va div PGSIZE = k" using k by (intro div_nat_eqI) simp_all
  qed
  moreover have "a div PGSIZE = k" using k by (simp add: params)
  ultimately show ?thesis by simp
qed

text \<open>
  The loop of \<open>mappages\<close> from \<open>a\<close> to the page \<open>k\<close> pages further on. It either maps the whole
  range or runs out of pages for tables; pages outside the range are never touched.
\<close>

lemma mappages_loop_ok:
  assumes "pt_wf D ps s" "can_lock s" "a mod PGSIZE = 0" "b = a + k * PGSIZE" "b < 2 ^ 32" "k < n"
    "\<forall>va. a \<le> va \<and> va < b + PGSIZE \<longrightarrow> \<not> present (translate s D va)"
  shows "\<exists>r t ps'. mappages_loop n D a b pa perm s = Inr (r, t) \<and> pt_wf D ps' t \<and> set ps' \<subseteq> set ps \<and>
    (r = 0 \<or> r = - 1) \<and> t = s\<lparr>mem := mem t, freelist := freelist t\<rparr> \<and> (r = - 1 \<longrightarrow> ps' = []) \<and>
    (\<forall>va < 2 ^ 32. \<not> (a \<le> va \<and> va < b + PGSIZE) \<longrightarrow> translate t D va = translate s D va) \<and>
    (r = 0 \<longrightarrow> (\<forall>va < 2 ^ 32. a \<le> va \<and> va < b + PGSIZE \<longrightarrow> translate t D va = map_entry a pa perm va)) \<and>
    pt_step D ps s ps' t"
  using assms
proof (induction n arbitrary: a pa s ps k)
  case (Suc n)
  have bm: "b mod PGSIZE = 0" "a \<le> b" using Suc.prems(3,4) by (auto simp: mod_eq_0_iff_dvd)
  note same = page_same [OF Suc.prems(3)]
  have a32: "a < 2 ^ 32" using bm(2) Suc.prems(5) by simp
  have np: "\<not> present (translate s D a)" using Suc.prems(7) bm(2) by (simp add: params)
  show ?case
  proof (cases "walkpgdir D a True s = Inr (0, s) \<and> ps = []")
    case True
    then show ?thesis using Suc.prems(1) by (intro exI [of _ "- 1"] exI [of _ s] exI [of _ ps]) simp
  next
    case False
    then obtain pte t ps' where t: "walkpgdir D a True s = Inr (pte, t)" "pte \<noteq> 0" "\<not> present (rd32 pte (mem t))"
        "set ps' \<subseteq> set ps" "t = s\<lparr>mem := mem t, freelist := freelist t\<rparr>"
      and w: "\<And>w. pt_wf D ps' (t\<lparr>mem := wr32 pte w (mem t)\<rparr>)"
        "\<And>w va. va < 2 ^ 32 \<Longrightarrow> translate (t\<lparr>mem := wr32 pte w (mem t)\<rparr>) D va =
                 (if va div PGSIZE = a div PGSIZE then w else translate s D va)"
        "\<And>w. pt_step D ps s ps' (t\<lparr>mem := wr32 pte w (mem t)\<rparr>)"
      using map_step [OF Suc.prems(1,2) a32 np] by blast
    define w0 where "w0 = of_nat pa OR perm OR PTE_P"
    define u where "u = t\<lparr>mem := wr32 pte w0 (mem t)\<rparr>"
    have u: "pt_wf D ps' u" "\<And>va. va < 2 ^ 32 \<Longrightarrow> translate u D va = (if va div PGSIZE = a div PGSIZE then w0 else translate s D va)"
      "pt_step D ps s ps' u" using w by (simp_all add: u_def)
    have uf: "u = s\<lparr>mem := mem u, freelist := freelist u\<rparr>" unfolding u_def by (subst t(5)) simp
    have lk: "can_lock u" using Suc.prems(2) by (subst uf) (simp add: can_lock_def)
    have ga: "a div PGSIZE * PGSIZE = a" using Suc.prems(3) div_mult_mod_eq [of a PGSIZE] by simp
    have here: "map_entry a pa perm va = w0" if "va div PGSIZE = a div PGSIZE" for va
      unfolding map_entry_def w0_def PGROUNDDOWN_def that ga by simp
    have step: "mappages_loop (Suc n) D a b pa perm s = (if a = b then Inr (0, u)
        else mappages_loop n D ((a + PGSIZE) mod 2 ^ 32) b ((pa + PGSIZE) mod 2 ^ 32) perm u)"
      using t(1-3) by (simp add: and_1_iff w0_def u_def)
    show ?thesis
    proof (cases "a = b")
      case True
      have only: "a \<le> va \<and> va < b + PGSIZE \<longleftrightarrow> va div PGSIZE = a div PGSIZE" for va using same [of va] True by auto
      show ?thesis using step True u t(4) uf here only
        by (intro exI [of _ "0 :: int"] exI [of _ u] exI [of _ ps']) auto
    next
      case False
      then obtain k' where k': "k = Suc k'" using Suc.prems(4) by (cases k) auto
      have a': "a + PGSIZE \<le> b" using Suc.prems(4) k' by simp
      have amod: "(a + PGSIZE) mod 2 ^ 32 = a + PGSIZE" using a' Suc.prems(5) by simp
      have free: "\<forall>va. a + PGSIZE \<le> va \<and> va < b + PGSIZE \<longrightarrow> \<not> present (translate u D va)"
      proof (intro allI impI)
        fix va assume va: "a + PGSIZE \<le> va \<and> va < b + PGSIZE"
        have "b + PGSIZE \<le> 2 ^ 32" using bm(1) Suc.prems(5) pages_apart [of b "2 ^ 32"] by (simp add: params)
        then have "va < 2 ^ 32" using va by simp
        moreover have "va div PGSIZE \<noteq> a div PGSIZE" using same [of va] va by simp
        ultimately show "\<not> present (translate u D va)" using u(2) Suc.prems(7) va by simp
      qed
      have "(a + PGSIZE) mod PGSIZE = 0" "b = a + PGSIZE + k' * PGSIZE" "k' < n"
        using Suc.prems(3,4,6) k' by simp_all
      from Suc.IH [OF u(1) lk this(1,2) Suc.prems(5) this(3) free, of "(pa + PGSIZE) mod 2 ^ 32"]
      obtain r v ps2 where v: "mappages_loop n D (a + PGSIZE) b ((pa + PGSIZE) mod 2 ^ 32) perm u = Inr (r, v)"
          "pt_wf D ps2 v" "set ps2 \<subseteq> set ps'" "r = 0 \<or> r = - 1" "v = u\<lparr>mem := mem v, freelist := freelist v\<rparr>"
          "r = - 1 \<longrightarrow> ps2 = []"
          "\<forall>va < 2 ^ 32. \<not> (a + PGSIZE \<le> va \<and> va < b + PGSIZE) \<longrightarrow> translate v D va = translate u D va"
          "r = 0 \<longrightarrow> (\<forall>va < 2 ^ 32. a + PGSIZE \<le> va \<and> va < b + PGSIZE \<longrightarrow>
               translate v D va = map_entry (a + PGSIZE) ((pa + PGSIZE) mod 2 ^ 32) perm va)" "pt_step D ps' u ps2 v"
        by blast
      have shift: "map_entry (a + PGSIZE) ((pa + PGSIZE) mod 2 ^ 32) perm va = map_entry a pa perm va" if "a + PGSIZE \<le> va" for va
      proof -
        have "(a + PGSIZE) div PGSIZE * PGSIZE \<le> va div PGSIZE * PGSIZE" using that by (intro mult_le_mono1 div_le_mono)
        moreover have "(a + PGSIZE) div PGSIZE * PGSIZE = a + PGSIZE"
          using div_mult_mod_eq [of "a + PGSIZE" PGSIZE] Suc.prems(3) by simp
        ultimately have "a + PGSIZE \<le> PGROUNDDOWN va" by (simp add: PGROUNDDOWN_def)
        then have "pa + PGSIZE + (PGROUNDDOWN va - (a + PGSIZE)) = pa + (PGROUNDDOWN va - a)" by simp
        then show ?thesis unfolding map_entry_def of_nat_mod32 by (simp only:)
      qed
      have vf: "v = s\<lparr>mem := mem v, freelist := freelist v\<rparr>" by (subst v(5), subst uf) simp
      have rest: "\<forall>va < 2 ^ 32. \<not> (a \<le> va \<and> va < b + PGSIZE) \<longrightarrow> translate v D va = translate s D va"
        using v(7) u(2) same a' by auto
      have mapped: "\<forall>va < 2 ^ 32. a \<le> va \<and> va < b + PGSIZE \<longrightarrow> translate v D va = map_entry a pa perm va" if "r = 0"
      proof (intro allI impI)
        fix va :: nat assume va: "va < 2 ^ 32" "a \<le> va \<and> va < b + PGSIZE"
        show "translate v D va = map_entry a pa perm va"
        proof (cases "a + PGSIZE \<le> va")
          case True
          then show ?thesis using v(8) that va shift by simp
        next
          case False
          then show ?thesis using v(7) va u(2) [OF va(1)] same [of va] here by simp
        qed
      qed
      show ?thesis using step False amod v(1-4,6) vf rest mapped t(4) pt_step_trans [OF u(3) v(9)]
        by (intro exI [of _ r] exI [of _ v] exI [of _ ps2]) auto
    qed
  qed
qed simp

lemma mappages_ok:
  assumes wf: "pt_wf D ps s" and lk: "can_lock s" and len: "0 < len" "va + len \<le> 2 ^ 32"
    and free: "\<forall>a. PGROUNDDOWN va \<le> a \<and> a < PGROUNDDOWN (va + len - 1) + PGSIZE \<longrightarrow> \<not> present (translate s D a)"
  shows "\<exists>r t ps'. mappages D va len pa perm s = Inr (r, t) \<and> pt_wf D ps' t \<and> set ps' \<subseteq> set ps \<and>
    (r = 0 \<or> r = - 1 \<and> ps' = []) \<and> t = s\<lparr>mem := mem t, freelist := freelist t\<rparr> \<and> pt_step D ps s ps' t \<and>
    (\<forall>a < 2 ^ 32. if PGROUNDDOWN va \<le> a \<and> a < PGROUNDDOWN (va + len - 1) + PGSIZE
        then r = 0 \<longrightarrow> translate t D a = of_nat (pa + (PGROUNDDOWN a - PGROUNDDOWN va)) OR perm OR PTE_P
        else translate t D a = translate s D a)"
proof -
  define a b where "a = PGROUNDDOWN va" and "b = PGROUNDDOWN (va + len - 1)"
  define k where "k = (va + len - 1) div PGSIZE - va div PGSIZE"
  have am: "a mod PGSIZE = 0" by (simp add: a_def PGROUNDDOWN_def)
  have "va div PGSIZE \<le> (va + len - 1) div PGSIZE" using len by (intro div_le_mono) simp
  then have bk: "b = a + k * PGSIZE" by (simp add: a_def b_def k_def PGROUNDDOWN_def algebra_simps flip: add_mult_distrib)
  have "b \<le> va + len - 1" unfolding b_def PGROUNDDOWN_def by (rule div_times_less_eq_dividend)
  then have b32: "b < 2 ^ 32" using len by linarith
  have "(va + len - 1) div PGSIZE < 2 ^ 20" using len by (intro less_mult_imp_div_less) (simp add: params)
  then have "k < NPAGES" by (simp add: k_def params)
  moreover have call: "mappages D va len pa perm s = mappages_loop NPAGES D a b pa perm s"
  proof -
    have "(va + len + 2 ^ 32 - 1) mod 2 ^ 32 = va + len - 1"
    proof -
      have "va + len + 2 ^ 32 - 1 = (va + len - 1) + 2 ^ 32" using len by simp
      then show ?thesis using len by (simp only: mod_add_self2) (simp add: len)
    qed
    then show ?thesis by (simp add: mappages_def a_def b_def)
  qed
  ultimately show ?thesis
    using mappages_loop_ok [OF wf lk am bk b32 _ free [folded a_def b_def], of NPAGES pa perm]
    unfolding call map_entry_def a_def [symmetric] b_def [symmetric] by (metis (no_types, lifting))
qed

text \<open>
  C15. \<open>mappages\<close> on a well-formed table and an unmapped range: if it returns 0 every page of
  the range translates to the corresponding physical page with the permissions and the
  present bit; if it returns -1 there was no page left for a page table; in both cases no
  address outside the range changes its translation and the table stays well formed.
\<close>

theorem mappages_correct:
  assumes wf: "pt_wf D ps s" and lk: "can_lock s" and len: "0 < len" "va + len \<le> 2 ^ 32"
    and free: "\<forall>a. PGROUNDDOWN va \<le> a \<and> a < PGROUNDDOWN (va + len - 1) + PGSIZE \<longrightarrow> \<not> present (translate s D a)"
  shows "\<exists>r t ps'. mappages D va len pa perm s = Inr (r, t) \<and> pt_wf D ps' t \<and> set ps' \<subseteq> set ps \<and>
    (r = 0 \<or> r = - 1 \<and> ps' = []) \<and>
    (\<forall>a < 2 ^ 32. if PGROUNDDOWN va \<le> a \<and> a < PGROUNDDOWN (va + len - 1) + PGSIZE
        then r = 0 \<longrightarrow> translate t D a = of_nat (pa + (PGROUNDDOWN a - PGROUNDDOWN va)) OR perm OR PTE_P
        else translate t D a = translate s D a)"
  using mappages_ok [OF assms, of pa perm] by blast

lemma one_page_pt: "pt_wf (KERNBASE + 0x401000) [KERNBASE + 0x400000] one_page"
  using one_page_wf
  by (simp add: pt_wf_def tables_ok_def tables_inj_def pde_def one_page_def page_ok_def rd32_def params)

theorem mappages_correct_witness:
  "\<exists>t. mappages (KERNBASE + 0x401000) 0x1000 PGSIZE 0x5000 6 one_page = Inr (0, t) \<and>
     translate t (KERNBASE + 0x401000) 0x1234 = 0x5007"
proof -
  let ?D = "KERNBASE + 0x401000"
  have tr: "translate one_page ?D va = 0" for va
    by (simp add: translate_def pde_def one_page_def rd32_def)
  have lk: "can_lock one_page" using one_page_ready by (simp add: alloc_ready_def)
  have "\<exists>t. walkpgdir ?D 0x1000 True one_page = Inr (KERNBASE + 0x400000 + 4, t)"
    using walkpgdir_alloc [OF one_page_pt lk, where va = "0x1000"]
    by (auto simp: pde_def one_page_def rd32_def PTX_def)
  then obtain t0 where t0: "walkpgdir ?D 0x1000 True one_page = Inr (KERNBASE + 0x400000 + 4, t0)" by blast
  obtain n where n: "NPAGES = Suc n" by (cases NPAGES) (simp_all add: params)
  have "mappages ?D 0x1000 PGSIZE 0x5000 6 one_page = mappages_loop (Suc n) ?D 0x1000 0x1000 0x5000 6 one_page"
    unfolding mappages_def n by (simp add: PGROUNDDOWN_def PGSIZE_def)
  then have r0: "r = 0" if "mappages ?D 0x1000 PGSIZE 0x5000 6 one_page = Inr (r, t)" for r t
    using that t0 by (simp add: Let_def split: if_splits)
  obtain r t where "mappages ?D 0x1000 PGSIZE 0x5000 6 one_page = Inr (r, t)"
      "\<forall>a < 2 ^ 32. if PGROUNDDOWN 0x1000 \<le> a \<and> a < PGROUNDDOWN (0x1000 + PGSIZE - 1) + PGSIZE
        then r = 0 \<longrightarrow> translate t ?D a = of_nat (0x5000 + (PGROUNDDOWN a - PGROUNDDOWN 0x1000)) OR 6 OR PTE_P
        else translate t ?D a = translate one_page ?D a"
    using mappages_correct [OF one_page_pt lk, where len = PGSIZE and va = "0x1000" and pa = "0x5000" and perm = 6] tr by (auto simp: params)
  then show ?thesis using r0
    by (auto simp: PGROUNDDOWN_def params dest!: spec [of _ "0x1234"])
qed

section \<open>Copying to user memory\<close>

definition user_ok :: "'a kmem_scheme \<Rightarrow> nat \<Rightarrow> nat \<Rightarrow> bool" where
  "user_ok s D va \<longleftrightarrow> present (translate s D va) \<and> translate s D va AND PTE_U \<noteq> 0"

definition frame :: "'a kmem_scheme \<Rightarrow> nat \<Rightarrow> nat \<Rightarrow> nat" where
  "frame s D va = P2V (PTE_ADDR (translate s D va))"

text \<open>The byte a user program reads at an address.\<close>

definition ubyte :: "'a kmem_scheme \<Rightarrow> nat \<Rightarrow> nat \<Rightarrow> byte" where
  "ubyte s D va = mem s (frame s D va + va mod PGSIZE)"

text \<open>User pages lie in frames of their own, apart from the page tables.\<close>

definition frames_apart :: "nat \<Rightarrow> 'a kmem_scheme \<Rightarrow> bool" where
  "frames_apart D s \<longleftrightarrow>
     (\<forall>va < 2 ^ 32. user_ok s D va \<longrightarrow> frame s D va \<noteq> 0 \<and> frame s D va mod PGSIZE = 0 \<and> frame s D va \<noteq> D \<and>
        (\<forall>i < 1024. present (pde s D i) \<longrightarrow> frame s D va \<noteq> tab s D i))"

definition frames_inj :: "nat \<Rightarrow> 'a kmem_scheme \<Rightarrow> bool" where
  "frames_inj D s \<longleftrightarrow>
     (\<forall>va < 2 ^ 32. \<forall>vb < 2 ^ 32. user_ok s D va \<and> user_ok s D vb \<and> frame s D va = frame s D vb \<longrightarrow>
        va div PGSIZE = vb div PGSIZE)"

definition frames_ok :: "nat \<Rightarrow> 'a kmem_scheme \<Rightarrow> bool" where
  "frames_ok D s \<longleftrightarrow> frames_apart D s \<and> frames_inj D s"

lemma frames_okD:
  assumes "frames_ok D s" "va < 2 ^ 32" "user_ok s D va"
  shows "frame s D va \<noteq> 0" "frame s D va mod PGSIZE = 0" "frame s D va \<noteq> D"
    "i < 1024 \<Longrightarrow> present (pde s D i) \<Longrightarrow> tab s D i \<noteq> frame s D va"
    "vb < 2 ^ 32 \<Longrightarrow> user_ok s D vb \<Longrightarrow> frame s D va = frame s D vb \<Longrightarrow> va div PGSIZE = vb div PGSIZE"
  using assms(1) [unfolded frames_ok_def, THEN conjunct1, unfolded frames_apart_def, rule_format, OF assms(2,3)]
    assms(1) [unfolded frames_ok_def, THEN conjunct2, unfolded frames_inj_def, rule_format, OF assms(2), of vb] assms(3)
  by auto

lemma translate_page: "va < 2 ^ 32 \<Longrightarrow> vb < 2 ^ 32 \<Longrightarrow> va div PGSIZE = vb div PGSIZE \<Longrightarrow> translate s D va = translate s D vb"
  using page_index [of va vb] by (simp add: translate_def)

lemma uva2ka_eq:
  assumes "present (pde s D (PDX va))" "pt_wf D ps s"
  shows "uva2ka D va s = Inr (if user_ok s D va then frame s D va else 0)"
proof -
  have "tab s D (PDX va) \<noteq> 0"
    using tables_okD(1) [OF _ PDX_less assms(1)] assms(2) page_ok_bounds(1) unfolding pt_wf_def by blast
  then show ?thesis using assms(1)
    by (auto simp: uva2ka_def walkpgdir_found and_1_zero user_ok_def frame_def translate_def)
qed

lemma user_ok_pde: "user_ok s D va \<Longrightarrow> present (pde s D (PDX va))"
  by (auto simp: user_ok_def translate_def split: if_splits)

lemma write_frame:
  assumes wf: "pt_wf D ps s" and fo: "frames_ok D s" and va: "va < 2 ^ 32" "user_ok s D va"
    and m: "\<And>a. a < frame s D va \<or> frame s D va + PGSIZE \<le> a \<Longrightarrow> m a = mem s a"
    and fresh: "frame s D va \<notin> set ps"
  shows "translate (s\<lparr>mem := m\<rparr>) D x = translate s D x" "pt_wf D ps (s\<lparr>mem := m\<rparr>)" "frames_ok D (s\<lparr>mem := m\<rparr>)"
proof -
  let ?f = "frame s D va"
  have f: "?f mod PGSIZE = 0" "?f \<noteq> D" "\<And>i. i < 1024 \<Longrightarrow> present (pde s D i) \<Longrightarrow> tab s D i \<noteq> ?f"
    using frames_okD [OF fo va] by simp_all
  have rd: "rd32 (p + 4 * i) m = rd32 (p + 4 * i) (mem s)" if "p mod PGSIZE = 0" "p \<noteq> ?f" "i < 1024" for p i
    using pages_apart [OF that(1) f(1) that(2)] that(3) m by (intro rd32_cong m) (auto simp: params)
  have tok: "tables_ok D ps s" and D: "D mod PGSIZE = 0"
    using wf page_ok_bounds(3) by (auto simp: pt_wf_def)
  have pd: "pde (s\<lparr>mem := m\<rparr>) D i = pde s D i" if "i < 1024" for i
    using rd [OF D] f(2) that by (simp add: pde_def)
  then have tb: "tab (s\<lparr>mem := m\<rparr>) D i = tab s D i" if "i < 1024" for i using that by (simp add: tab_def)
  have tr: "translate (s\<lparr>mem := m\<rparr>) D x = translate s D x" for x
    using pd tb rd tables_okD(4) [OF tok PDX_less] f(3) by (simp add: translate_def)
  then show "translate (s\<lparr>mem := m\<rparr>) D x = translate s D x" .
  have "free_wf ps s" using wf by (simp add: pt_wf_def)
  then have "free_wf ps (s\<lparr>mem := m\<rparr>)"
    by (rule free_wf_frame [OF _ f(1) fresh]) (simp_all add: m)
  then show "pt_wf D ps (s\<lparr>mem := m\<rparr>)" using wf
    by (simp add: pt_wf_def tables_ok_def tables_inj_def pd tb)
  have uo: "user_ok (s\<lparr>mem := m\<rparr>) D x = user_ok s D x" "frame (s\<lparr>mem := m\<rparr>) D x = frame s D x" for x
    by (simp_all add: user_ok_def frame_def tr)
  have "frames_apart D (s\<lparr>mem := m\<rparr>)" using fo pd tb unfolding frames_ok_def frames_apart_def uo by simp
  moreover have "frames_inj D (s\<lparr>mem := m\<rparr>)" using fo unfolding frames_ok_def frames_inj_def uo by (rule conjunct2)
  ultimately show "frames_ok D (s\<lparr>mem := m\<rparr>)" by (simp add: frames_ok_def)
qed

text \<open>The addresses of the bytes at \<open>n\<close> user addresses from \<open>va\<close> on.\<close>

definition phys :: "'a kmem_scheme \<Rightarrow> nat \<Rightarrow> nat \<Rightarrow> nat \<Rightarrow> nat set" where
  "phys s D va n = {frame s D (va + i) + (va + i) mod PGSIZE | i. i < n}"

lemma copyout_ok:
  assumes "pt_wf D ps s" "frames_ok D s" "va + length buf \<le> 2 ^ 32"
    "\<forall>i < length buf. user_ok s D (va + i) \<and> frame s D (va + i) \<notin> set ps"
  shows "\<exists>t. copyout D va buf s = Inr (0, t) \<and> (\<forall>x. translate t D x = translate s D x) \<and> pt_wf D ps t \<and>
    (\<forall>x < 2 ^ 32. user_ok s D x \<longrightarrow>
       ubyte t D x = (if va \<le> x \<and> x < va + length buf then buf ! (x - va) else ubyte s D x)) \<and>
    (\<exists>m. t = s\<lparr>mem := m\<rparr> \<and> (\<forall>a. a \<notin> phys s D va (length buf) \<longrightarrow> m a = mem s a))"
  using assms
proof (induction "length buf" arbitrary: va buf s rule: less_induct)
  case less
  show ?case
  proof (cases "buf = []")
    case True
    then show ?thesis using less.prems(1) by (subst copyout.simps) (auto intro: exI [of _ "mem s"])
  next
    case False
    let ?va0 = "PGROUNDDOWN va" and ?f = "frame s D va"
    have off: "va - ?va0 = va mod PGSIZE" "?va0 \<le> va" by (simp_all add: PGROUNDDOWN_def minus_div_mult_eq_mod)
    have pos: "0 < length buf" using False by simp
    have va: "va < 2 ^ 32" using pos less.prems(3) by linarith
    note va = this less.prems(4) [rule_format, OF pos, simplified, THEN conjunct1]
      less.prems(4) [rule_format, OF pos, simplified, THEN conjunct2]
    have same: "?va0 div PGSIZE = va div PGSIZE" by (simp add: PGROUNDDOWN_def params)
    have tr0: "translate s D ?va0 = translate s D va" using translate_page [OF _ va(1) same, of s D] off(2) va(1) by simp
    have u0: "uva2ka D ?va0 s = Inr ?f"
      using uva2ka_eq [OF user_ok_pde less.prems(1), of ?va0] va(2) tr0 by (simp add: user_ok_def frame_def)
    define n where "n = min (PGSIZE - va mod PGSIZE) (length buf)"
    define dst where "dst = ?f + va mod PGSIZE"
    define m where "m = (\<lambda>a. if dst \<le> a \<and> a < dst + n then buf ! (a - dst) else mem s a)"
    define t where "t = s\<lparr>mem := m\<rparr>"
    have md: "va mod PGSIZE < PGSIZE" by (simp add: params)
    have n: "0 < n" "n \<le> length buf" "va mod PGSIZE + n \<le> PGSIZE" using False md by (auto simp: n_def)
    have f: "?f \<noteq> 0" using frames_okD(1) [OF less.prems(2) va(1,2)] .
    have mout: "m a = mem s a" if "a < ?f \<or> ?f + PGSIZE \<le> a" for a using that n(3) by (auto simp: m_def dst_def)
    note wf = write_frame [OF less.prems(1,2) va(1,2) mout va(3), folded t_def]
    have call: "copyout D va buf s = copyout D ((?va0 + PGSIZE) mod 2 ^ 32) (drop n buf) t"
      using False u0 f by (subst copyout.simps) (simp add: Let_def off(1) n_def [symmetric] dst_def [symmetric] m_def t_def)
    have uo: "user_ok t D x = user_ok s D x" "frame t D x = frame s D x" for x using wf(1) by (simp_all add: user_ok_def frame_def)
    have next_va: "drop n buf = [] \<or> (?va0 + PGSIZE) mod 2 ^ 32 = va + n"
    proof (cases "n = length buf")
      case nb: False
      then have "n = PGSIZE - va mod PGSIZE" by (auto simp: n_def min_def split: if_splits)
      then have "?va0 + PGSIZE = va + n" using off md by linarith
      moreover have "va + n < 2 ^ 32" using less.prems(3) n(2) nb by linarith
      ultimately show ?thesis by simp
    qed simp
    have ub: "ubyte t D x = (if va \<le> x \<and> x < va + n then buf ! (x - va) else ubyte s D x)"
      if x: "x < 2 ^ 32" "user_ok s D x" for x
    proof -
      have xv: "x = x div PGSIZE * PGSIZE + x mod PGSIZE" "va = va div PGSIZE * PGSIZE + va mod PGSIZE" by simp_all
      have xm: "x mod PGSIZE < PGSIZE" by (simp add: params)
      have bt: "ubyte t D x = m (frame s D x + x mod PGSIZE)" using uo(2) by (simp add: ubyte_def t_def)
      show ?thesis
      proof (cases "x div PGSIZE = va div PGSIZE")
        case True
        then have "frame s D x = ?f" using translate_page [OF x(1) va(1), of s D] by (simp add: frame_def)
        moreover have "dst \<le> ?f + x mod PGSIZE \<and> ?f + x mod PGSIZE < dst + n \<longleftrightarrow> va \<le> x \<and> x < va + n"
            "?f + x mod PGSIZE - dst = x - va"
        proof -
          obtain q where q: "x = q + x mod PGSIZE" "va = q + va mod PGSIZE" using xv True by metis
          show "dst \<le> ?f + x mod PGSIZE \<and> ?f + x mod PGSIZE < dst + n \<longleftrightarrow> va \<le> x \<and> x < va + n"
            unfolding dst_def using q by (intro iffI conjI) linarith+
          show "?f + x mod PGSIZE - dst = x - va" unfolding dst_def using q by linarith
        qed
        ultimately show ?thesis unfolding bt by (simp add: m_def ubyte_def)
      next
        case False
        then have "frame s D x \<noteq> ?f" using frames_okD(5) [OF less.prems(2) x va(1,2)] by blast
        then have "frame s D x + PGSIZE \<le> ?f \<or> ?f + PGSIZE \<le> frame s D x"
          using pages_apart frames_okD(2) [OF less.prems(2) x] frames_okD(2) [OF less.prems(2) va(1,2)] by simp
        then have "m (frame s D x + x mod PGSIZE) = mem s (frame s D x + x mod PGSIZE)"
          using xm by (intro mout) auto
        moreover have "\<not> (va \<le> x \<and> x < va + n)"
        proof
          assume "va \<le> x \<and> x < va + n"
          then have "va div PGSIZE * PGSIZE \<le> x \<and> x < va div PGSIZE * PGSIZE + PGSIZE" using xv n(3) by linarith
          then have "x div PGSIZE = va div PGSIZE" by (intro div_nat_eqI) (simp_all add: mult.commute)
          then show False using False by simp
        qed
        ultimately show ?thesis unfolding bt by (simp only: if_False ubyte_def)
      qed
    qed
    have "\<exists>u. copyout D ((?va0 + PGSIZE) mod 2 ^ 32) (drop n buf) t = Inr (0, u) \<and> (\<forall>x. translate u D x = translate t D x) \<and> pt_wf D ps u \<and>
       (\<forall>x < 2 ^ 32. user_ok t D x \<longrightarrow> ubyte u D x =
          (if va + n \<le> x \<and> x < va + n + length (drop n buf) then drop n buf ! (x - (va + n)) else ubyte t D x)) \<and>
       (\<exists>m'. u = t\<lparr>mem := m'\<rparr> \<and> (\<forall>a. a \<notin> phys t D (va + n) (length (drop n buf)) \<longrightarrow> m' a = mem t a))"
    proof (cases "drop n buf = []")
      case True
      then show ?thesis using wf(2) by (subst copyout.simps) (auto intro: exI [of _ "mem t"])
    next
      case nb: False
      have "length (drop n buf) < length buf" using n False by simp
      from less.hyps [OF this wf(2,3), of "va + n"] less.prems(3,4) n(2) uo next_va nb
      show ?thesis by (simp add: add.assoc)
    qed
    then obtain u where u: "copyout D va buf s = Inr (0, u)" "\<forall>x. translate u D x = translate s D x" "pt_wf D ps u"
       "\<forall>x < 2 ^ 32. user_ok s D x \<longrightarrow> ubyte u D x =
          (if va + n \<le> x \<and> x < va + n + length (drop n buf) then drop n buf ! (x - (va + n)) else ubyte t D x)"
       "\<exists>m'. u = t\<lparr>mem := m'\<rparr> \<and> (\<forall>a. a \<notin> phys t D (va + n) (length (drop n buf)) \<longrightarrow> m' a = mem t a)"
      using call uo wf(1) by auto
    from u(5) obtain m' where m': "u = t\<lparr>mem := m'\<rparr>" "\<And>a. a \<notin> phys t D (va + n) (length (drop n buf)) \<Longrightarrow> m' a = mem t a" by blast
    have rest: "m' a = mem s a" if a: "a \<notin> phys s D va (length buf)" for a
    proof -
      have "a \<notin> phys t D (va + n) (length (drop n buf))"
        using a n(2) unfolding phys_def uo(2) by (auto simp: add.assoc)
      moreover have "\<not> (dst \<le> a \<and> a < dst + n)"
      proof
        assume i: "dst \<le> a \<and> a < dst + n"
        define i where "i = a - dst"
        have i: "i < n" "a = dst + i" using i by (auto simp: i_def)
        have "va mod PGSIZE + i < PGSIZE" using i(1) n(3) by linarith
        moreover have q: "va = va div PGSIZE * PGSIZE + va mod PGSIZE" by simp
        ultimately have "va div PGSIZE * PGSIZE \<le> va + i \<and> va + i < va div PGSIZE * PGSIZE + PGSIZE" by linarith
        then have d: "(va + i) div PGSIZE = va div PGSIZE" by (intro div_nat_eqI) (simp_all add: mult.commute)
        then have p: "(va + i) mod PGSIZE = va mod PGSIZE + i" "(va + i) div PGSIZE = va div PGSIZE"
          using q div_mult_mod_eq [of "va + i" PGSIZE, unfolded d] d by linarith+
        have "va + i < 2 ^ 32" using less.prems(3) i(1) n(2) by linarith
        then have "frame s D (va + i) = ?f" using translate_page [OF _ va(1) p(2), of s D] by (simp add: frame_def)
        then have "a = frame s D (va + i) + (va + i) mod PGSIZE" using i(2) p(1) by (simp add: dst_def)
        then show False using a i(1) n(2) unfolding phys_def by auto
      qed
      ultimately show ?thesis using m'(2) by (auto simp: t_def m_def)
    qed
    have "u = s\<lparr>mem := m'\<rparr>" using m'(1) by (simp add: t_def)
    then show ?thesis using u(1-4) ub n(2) rest by (intro exI [of _ u]) auto
  qed
qed

text \<open>
  C17. \<open>copyout\<close> to a range that is mapped for the user, whatever pages it straddles, in a state
  where the page tables and the free list \<open>ps\<close> are well formed and the frames of the user pages
  are apart from each other, from the page tables and, in the range, from the free pages: it
  returns 0, the user reads the copied bytes in the range and the old bytes at every other user
  address, no translation changes, the page tables and the free list stay well formed, and in
  the whole state only the bytes of physical memory behind the range can differ.
\<close>

theorem copyout_correct:
  assumes "pt_wf D ps s" "frames_ok D s" "va + length buf \<le> 2 ^ 32"
    "\<forall>i < length buf. user_ok s D (va + i) \<and> frame s D (va + i) \<notin> set ps"
  shows "\<exists>t. copyout D va buf s = Inr (0, t) \<and> (\<forall>x. translate t D x = translate s D x) \<and> pt_wf D ps t \<and>
    (\<forall>x < 2 ^ 32. user_ok s D x \<longrightarrow>
       ubyte t D x = (if va \<le> x \<and> x < va + length buf then buf ! (x - va) else ubyte s D x)) \<and>
    (\<exists>m. t = s\<lparr>mem := m\<rparr> \<and> (\<forall>a. a \<notin> phys s D va (length buf) \<longrightarrow> m a = mem s a))"
  by (rule copyout_ok [OF assms])

text \<open>One page table with one user page, mapped at address 0.\<close>

definition user_page :: kmem where
  "user_page = (boot_kmem KERNBASE)\<lparr>mem := wr32 (KERNBASE + 0x402000) 0x403007
     (wr32 (KERNBASE + 0x401000) 0x402007 (\<lambda>_. 0))\<rparr>"

lemma user_page_walk:
  "i < 1024 \<Longrightarrow> pde user_page (KERNBASE + 0x401000) i = (if i = 0 then 0x402007 else 0)"
  "tab user_page (KERNBASE + 0x401000) 0 = KERNBASE + 0x402000"
  "translate user_page (KERNBASE + 0x401000) va = (if PDX va = 0 \<and> PTX va = 0 then 0x403007 else 0)"
proof -
  have zero: "rd32 a (\<lambda>_. 0) = 0" for a by (simp add: rd32_def)
  have al: "(KERNBASE + 0x401000) mod PGSIZE = 0" "(KERNBASE + 0x402000) mod PGSIZE = 0" by (simp_all add: params)
  have e: "rd32 (KERNBASE + 0x401000 + 4 * i) (mem user_page) = (if i = 0 then 0x402007 else 0)" if "i < 1024" for i
    using rd32_entry_other [OF al(1,2) that, of 0] rd32_entry_other [OF al(1,1) that, of 0]
    by (simp add: user_page_def zero)
  then show p: "pde user_page (KERNBASE + 0x401000) i = (if i = 0 then 0x402007 else 0)" if "i < 1024" for i
    using that by (simp add: pde_def)
  show t: "tab user_page (KERNBASE + 0x401000) 0 = KERNBASE + 0x402000"
    using p [of 0] by (simp add: tab_def PTE_ADDR_def P2V_def params)
  have q: "rd32 (KERNBASE + 0x402000 + 4 * k) (mem user_page) = (if k = 0 then 0x403007 else 0)" if "k < 1024" for k
    using rd32_entry_other [OF al(2,2) that, of 0] rd32_entry_other [OF al(2,1) that, of 0]
    by (simp add: user_page_def zero)
  show "translate user_page (KERNBASE + 0x401000) va = (if PDX va = 0 \<and> PTX va = 0 then 0x403007 else 0)"
    using q [of 0] q [of "PTX va"] p [of "PDX va"] t by (simp add: translate_def)
qed

lemma user_page_ok:
  "pt_wf (KERNBASE + 0x401000) [] user_page" "frames_ok (KERNBASE + 0x401000) user_page"
  "va < PGSIZE \<Longrightarrow> user_ok user_page (KERNBASE + 0x401000) va"
proof -
  have k: "kend user_page = KERNBASE" "freelist user_page = 0" by (simp_all add: user_page_def)
  have only: "user_ok user_page (KERNBASE + 0x401000) va \<longleftrightarrow> PDX va = 0 \<and> PTX va = 0" for va
    unfolding user_ok_def user_page_walk(3) by (simp add: PTE_U_def)
  have fr: "frame user_page (KERNBASE + 0x401000) va = KERNBASE + 0x403000" if "PDX va = 0 \<and> PTX va = 0" for va
    using that unfolding frame_def user_page_walk(3) by (simp add: PTE_ADDR_def P2V_def params)
  show "pt_wf (KERNBASE + 0x401000) [] user_page"
    by (simp add: pt_wf_def free_wf_def k tables_ok_def tables_inj_def user_page_walk(1,2)) (simp add: page_ok_def params)
  have "frames_apart (KERNBASE + 0x401000) user_page" unfolding frames_apart_def only
    by (auto simp: fr user_page_walk(1,2) split: if_splits) (simp_all add: params)
  moreover have "frames_inj (KERNBASE + 0x401000) user_page" unfolding frames_inj_def only
    using page_index by (metis (no_types, lifting))
  ultimately show "frames_ok (KERNBASE + 0x401000) user_page" by (simp add: frames_ok_def)
  show "user_ok user_page (KERNBASE + 0x401000) va" if "va < PGSIZE" for va
    using that unfolding only PDX_def PTX_def by (simp add: params)
qed

text \<open>
  A second user page, at 0x1000, whose frame does not follow the first one, and a free page.
\<close>

definition two_pages :: kmem where
  "two_pages = user_page\<lparr>mem := wr32 (KERNBASE + 0x402000 + 4 * 1) 0x405007 (mem user_page), freelist := KERNBASE + 0x406000\<rparr>"

lemma two_pages_walk:
  "i < 1024 \<Longrightarrow> pde two_pages (KERNBASE + 0x401000) i = (if i = 0 then 0x402007 else 0)"
  "tab two_pages (KERNBASE + 0x401000) 0 = KERNBASE + 0x402000"
  "translate two_pages (KERNBASE + 0x401000) va = (if PDX va \<noteq> 0 then 0 else if PTX va = 0 then 0x403007 else if PTX va = 1 then 0x405007 else 0)"
proof -
  let ?D = "KERNBASE + 0x401000" and ?T = "KERNBASE + 0x402000"
  have al: "?D mod PGSIZE = 0" "?T mod PGSIZE = 0" "?D \<noteq> ?T" by (simp_all add: params)
  have "rd32 (?D + 4 * i) (mem two_pages) = rd32 (?D + 4 * i) (mem user_page)" if "i < 1024" for i
    using rd32_entry_other [OF al(1,2) that, of 1] al(3) by (simp add: two_pages_def)
  then show p: "pde two_pages ?D i = (if i = 0 then 0x402007 else 0)" if "i < 1024" for i
    using user_page_walk(1) [OF that] that by (simp add: pde_def)
  show t: "tab two_pages ?D 0 = ?T" using p [of 0] by (simp add: tab_def PTE_ADDR_def P2V_def params)
  have "translate user_page ?D (4096 * k) = (if k = 0 then 0x403007 else 0)" if "k < 1024" for k
    using that unfolding user_page_walk(3) by (auto simp: PDX_def PTX_def params)
  moreover have "translate user_page ?D (4096 * k) = rd32 (?T + 4 * k) (mem user_page)" if "k < 1024" for k
  proof -
    have "PDX (4096 * k) = 0" "PTX (4096 * k) = k" using that by (simp_all add: PDX_def PTX_def)
    then show ?thesis using user_page_walk(1) [of 0] by (simp add: translate_def user_page_walk(2))
  qed
  ultimately have "rd32 (?T + 4 * k) (mem user_page) = (if k = 0 then 0x403007 else 0)" if "k < 1024" for k using that by simp
  then have q: "rd32 (?T + 4 * k) (mem two_pages) = (if k = 0 then 0x403007 else if k = 1 then 0x405007 else 0)" if "k < 1024" for k
    using rd32_entry_other [OF al(2,2) that, of 1] that by (cases "k = 1") (simp_all add: two_pages_def)
  show "translate two_pages ?D va = (if PDX va \<noteq> 0 then 0 else if PTX va = 0 then 0x403007 else if PTX va = 1 then 0x405007 else 0)"
    using q [OF PTX_less [of va]] p [OF PDX_less [of va]] t by (simp add: translate_def)
qed

lemma two_pages_ok:
  "pt_wf (KERNBASE + 0x401000) [KERNBASE + 0x406000] two_pages" "frames_ok (KERNBASE + 0x401000) two_pages"
  "va < 2 * PGSIZE \<Longrightarrow> user_ok two_pages (KERNBASE + 0x401000) va \<and> frame two_pages (KERNBASE + 0x401000) va \<notin> set [KERNBASE + 0x406000]"
proof -
  let ?D = "KERNBASE + 0x401000"
  have k: "kend two_pages = KERNBASE" "freelist two_pages = KERNBASE + 0x406000" by (simp_all add: two_pages_def user_page_def)
  have only: "user_ok two_pages ?D va \<longleftrightarrow> PDX va = 0 \<and> (PTX va = 0 \<or> PTX va = 1)" for va
    unfolding user_ok_def two_pages_walk(3) by (simp add: PTE_U_def)
  have fr: "frame two_pages ?D va = (if PTX va = 0 then KERNBASE + 0x403000 else KERNBASE + 0x405000)" if "PDX va = 0 \<and> (PTX va = 0 \<or> PTX va = 1)" for va
    using that unfolding frame_def two_pages_walk(3) by (auto simp: PTE_ADDR_def P2V_def params)
  have "rd32 (KERNBASE + 0x406000) (mem two_pages) = 0"
    by (simp add: two_pages_def user_page_def rd32_def wr32_def params)
  then show "pt_wf ?D [KERNBASE + 0x406000] two_pages"
    by (simp add: pt_wf_def free_wf_def k tables_ok_def tables_inj_def two_pages_walk(1,2)) (simp add: page_ok_def params)
  have "frames_apart ?D two_pages" unfolding frames_apart_def only
    by (auto simp: fr two_pages_walk(1,2) split: if_splits) (simp_all add: params)
  moreover have "frames_inj ?D two_pages" unfolding frames_inj_def only
  proof (intro allI impI)
    fix va vb :: nat
    assume v: "va < 2 ^ 32" "vb < 2 ^ 32" "(PDX va = 0 \<and> (PTX va = 0 \<or> PTX va = 1)) \<and> (PDX vb = 0 \<and> (PTX vb = 0 \<or> PTX vb = 1)) \<and> frame two_pages ?D va = frame two_pages ?D vb"
    then have "PTX va = PTX vb" using fr [of va] fr [of vb] by (auto split: if_splits)
    then show "va div PGSIZE = vb div PGSIZE" using page_index [OF v(1,2)] v(3) by simp
  qed
  ultimately show "frames_ok ?D two_pages" by (simp add: frames_ok_def)
  show "user_ok two_pages ?D va \<and> frame two_pages ?D va \<notin> set [KERNBASE + 0x406000]" if "va < 2 * PGSIZE"
  proof -
    have "PDX va = 0 \<and> (PTX va = 0 \<or> PTX va = 1)" using that by (auto simp: PDX_def PTX_def params)
    then show ?thesis using only fr by simp
  qed
qed

text \<open>Four bytes across the boundary of the two pages.\<close>

theorem copyout_correct_witness:
  "\<exists>t. copyout (KERNBASE + 0x401000) 4094 [1, 2, 3, 4] two_pages = Inr (0, t) \<and>
      ubyte t (KERNBASE + 0x401000) 4095 = 2 \<and> ubyte t (KERNBASE + 0x401000) 4096 = 3 \<and>
      frame t (KERNBASE + 0x401000) 4095 = KERNBASE + 0x403000 \<and> frame t (KERNBASE + 0x401000) 4096 = KERNBASE + 0x405000"
proof -
  let ?D = "KERNBASE + 0x401000" and ?b = "[1, 2, 3, 4 :: byte]"
  have "\<forall>i < length ?b. user_ok two_pages ?D (4094 + i) \<and> frame two_pages ?D (4094 + i) \<notin> set [KERNBASE + 0x406000]"
    by (intro allI impI two_pages_ok(3)) (simp add: params)
  from copyout_correct [OF two_pages_ok(1,2) _ this] obtain t where
    t: "copyout ?D 4094 ?b two_pages = Inr (0, t)" "\<forall>x. translate t ?D x = translate two_pages ?D x"
    "\<forall>x < 2 ^ 32. user_ok two_pages ?D x \<longrightarrow> ubyte t ?D x =
       (if 4094 \<le> x \<and> x < 4094 + length ?b then ?b ! (x - 4094) else ubyte two_pages ?D x)" by auto
  have "ubyte t ?D 4095 = 2" "ubyte t ?D 4096 = 3"
    using t(3) two_pages_ok(3) [of 4095] two_pages_ok(3) [of 4096] by (auto simp: params dest: spec [of _ 4095] spec [of _ 4096])
  moreover have "frame t ?D 4095 = KERNBASE + 0x403000" "frame t ?D 4096 = KERNBASE + 0x405000"
    using t(2) unfolding frame_def two_pages_walk(3) by (simp_all add: PDX_def PTX_def PTE_ADDR_def P2V_def params)
  ultimately show ?thesis using t(1) by blast
qed

text \<open>
  \<open>uva2ka\<close> dereferences the null pointer that \<open>walkpgdir\<close> returns when the directory has
  no table for the address, and so does \<open>copyout\<close> of at least one byte to that page.
\<close>

theorem copyout_no_table:
  assumes "\<not> present (pde s D (PDX va))" "va < 2 ^ 32" "buf \<noteq> []"
  shows "uva2ka D va s = Inl NullDeref \<and> copyout D va buf s = Inl NullDeref"
proof -
  have "PGROUNDDOWN va div PGSIZE = va div PGSIZE" "PGROUNDDOWN va \<le> va" by (simp_all add: PGROUNDDOWN_def params)
  then have "PDX (PGROUNDDOWN va) = PDX va" using page_index [of "PGROUNDDOWN va" va] assms(2) by simp
  then show ?thesis using assms
    by (subst copyout.simps) (simp add: uva2ka_def walkpgdir_missing Let_def)
qed

theorem copyout_no_table_witness:
  "copyout (KERNBASE + 0x401000) 0x400000 [1] user_page = Inl NullDeref"
  using copyout_no_table [of user_page "KERNBASE + 0x401000" "0x400000" "[1]"]
  by (simp add: user_page_walk(1) PDX_def)

end
