(* ===== verification/Bio.thy ===== *)
theory Bio
  imports Vm
begin

text \<open>
  The buffer cache (\<^verbatim>\<open>bio.c\<close>), the sleep locks of its buffers (\<^verbatim>\<open>sleeplock.c\<close>) and the
  synchronous disk driver (\<^verbatim>\<open>memide.c\<close>). Buffers are the indices \<open>0 ..< NBUF\<close> of the
  table \<open>bcache\<close>; index \<open>NBUF\<close> is \<^verbatim>\<open>bcache.head\<close>, so that \<^verbatim>\<open>prev\<close> and \<^verbatim>\<open>next\<close> form the same ring
  as in the source. A block is its array of bytes. A step that would have to wait for a
  sleep lock is the fault \<open>WouldSleep\<close>. The field \<open>dtrace\<close> is a ghost: the disk writes so
  far, oldest first; no operation reads it.
\<close>

type_synonym block = "nat \<Rightarrow> byte"

record sleeplock =
  sl_locked :: bool
  sl_pid :: int

record buf =
  b_valid :: bool
  b_dirty :: bool
  b_dev :: nat
  b_blockno :: nat
  b_lock :: sleeplock
  b_refcnt :: nat
  b_prev :: nat
  b_next :: nat
  b_data :: block

record kbio = kvm +
  bcache :: "nat \<Rightarrow> buf"
  disk :: "nat \<Rightarrow> block"
  disksize :: nat
  dtrace :: "(nat \<times> block) list"

definition upd_buf :: "nat \<Rightarrow> (buf \<Rightarrow> buf) \<Rightarrow> 'a kbio_scheme \<Rightarrow> 'a kbio_scheme" where
  "upd_buf b f s = s\<lparr>bcache := (bcache s)(b := f (bcache s b))\<rparr>"

definition curpid :: "'a kproc_scheme \<Rightarrow> int res" where
  "curpid s = (case myproc s of None \<Rightarrow> Inl NullDeref | Some p \<Rightarrow> Inr (p_pid (ptable s p)))"

section \<open>Sleep locks\<close>

definition initsleeplock :: sleeplock where
  "initsleeplock = \<lparr>sl_locked = False, sl_pid = 0\<rparr>"

definition acquiresleep :: "int \<Rightarrow> sleeplock \<Rightarrow> sleeplock res" where
  "acquiresleep pid lk = (if sl_locked lk then Inl WouldSleep else Inr \<lparr>sl_locked = True, sl_pid = pid\<rparr>)"

definition releasesleep :: "sleeplock \<Rightarrow> sleeplock" where
  "releasesleep lk = lk\<lparr>sl_locked := False, sl_pid := 0\<rparr>"

definition holdingsleep :: "int \<Rightarrow> sleeplock \<Rightarrow> bool" where
  "holdingsleep pid lk \<longleftrightarrow> sl_locked lk \<and> sl_pid lk = pid"

section \<open>The disk driver\<close>

definition iderw :: "nat \<Rightarrow> 'a kbio_scheme \<Rightarrow> 'a kbio_scheme res" where
  "iderw b s =
     bindR (curpid s) (\<lambda>pid.
     if \<not> holdingsleep pid (b_lock (bcache s b)) then Inl (Kpanic ''iderw: buf not locked'')
     else if b_valid (bcache s b) \<and> \<not> b_dirty (bcache s b) then Inl (Kpanic ''iderw: nothing to do'')
     else if b_dev (bcache s b) \<noteq> 1 then Inl (Kpanic ''iderw: request not for disk 1'')
     else if b_blockno (bcache s b) \<ge> disksize s then Inl (Kpanic ''iderw: block out of range'')
     else
       let p = b_blockno (bcache s b)
       in Inr (if b_dirty (bcache s b)
               then upd_buf b (\<lambda>x. x\<lparr>b_dirty := False, b_valid := True\<rparr>)
                      (s\<lparr>disk := (disk s)(p := b_data (bcache s b)),
                         dtrace := dtrace s @ [(p, b_data (bcache s b))]\<rparr>)
               else upd_buf b (\<lambda>x. x\<lparr>b_data := disk s p, b_valid := True\<rparr>) s))"

section \<open>The buffer cache\<close>

definition zero_buf :: buf where
  "zero_buf = \<lparr>b_valid = False, b_dirty = False, b_dev = 0, b_blockno = 0, b_lock = initsleeplock,
     b_refcnt = 0, b_prev = 0, b_next = 0, b_data = (\<lambda>_. 0)\<rparr>"

text \<open>Putting a buffer right after the head of the ring.\<close>

definition link_front :: "nat \<Rightarrow> 'a kbio_scheme \<Rightarrow> 'a kbio_scheme" where
  "link_front b s =
     (let s = upd_buf b (\<lambda>x. x\<lparr>b_next := b_next (bcache s NBUF), b_prev := NBUF\<rparr>) s;
          s = upd_buf (b_next (bcache s NBUF)) (\<lambda>x. x\<lparr>b_prev := b\<rparr>) s
      in upd_buf NBUF (\<lambda>x. x\<lparr>b_next := b\<rparr>) s)"

definition binit :: "'a kbio_scheme \<Rightarrow> 'a kbio_scheme" where
  "binit s =
     fold (\<lambda>b s. link_front b (upd_buf b (\<lambda>x. x\<lparr>b_lock := initsleeplock\<rparr>) s)) [0..<NBUF]
       (upd_buf NBUF (\<lambda>x. x\<lparr>b_prev := NBUF, b_next := NBUF\<rparr>) s)"

text \<open>
  The two scans of \<open>bget\<close> along the ring: forwards for the block, backwards for a buffer
  to recycle. The first argument bounds the walk by the number of buffers.
\<close>

fun bget_find :: "nat \<Rightarrow> nat \<Rightarrow> nat \<Rightarrow> nat \<Rightarrow> 'a kbio_scheme \<Rightarrow> nat option res" where
  "bget_find 0 b dev blockno s = (if b \<noteq> NBUF then Inl Diverges else Inr None)"
| "bget_find (Suc n) b dev blockno s =
     (if b \<noteq> NBUF then
        if b_dev (bcache s b) = dev \<and> b_blockno (bcache s b) = blockno then Inr (Some b)
        else bget_find n (b_next (bcache s b)) dev blockno s
      else Inr None)"

fun bget_recycle :: "nat \<Rightarrow> nat \<Rightarrow> 'a kbio_scheme \<Rightarrow> nat option res" where
  "bget_recycle 0 b s = (if b \<noteq> NBUF then Inl Diverges else Inr None)"
| "bget_recycle (Suc n) b s =
     (if b \<noteq> NBUF then
        if b_refcnt (bcache s b) = 0 \<and> \<not> b_dirty (bcache s b) then Inr (Some b)
        else bget_recycle n (b_prev (bcache s b)) s
      else Inr None)"

definition lock_buf :: "nat \<Rightarrow> 'a kbio_scheme \<Rightarrow> 'a kbio_scheme res" where
  "lock_buf b s =
     bindR (curpid s) (\<lambda>pid.
     bindR (acquiresleep pid (b_lock (bcache s b))) (\<lambda>lk.
     Inr (upd_buf b (\<lambda>x. x\<lparr>b_lock := lk\<rparr>) s)))"

definition bget :: "nat \<Rightarrow> nat \<Rightarrow> 'a kbio_scheme \<Rightarrow> (nat \<times> 'a kbio_scheme) res" where
  "bget dev blockno s =
     bindR (acquire Lbcache s) (\<lambda>s.
     bindR (bget_find NBUF (b_next (bcache s NBUF)) dev blockno s) (\<lambda>found.
     case found of
       Some b \<Rightarrow>
         bindR (release Lbcache (upd_buf b (\<lambda>x. x\<lparr>b_refcnt := b_refcnt x + 1\<rparr>) s)) (\<lambda>s.
         bindR (lock_buf b s) (\<lambda>s. Inr (b, s)))
     | None \<Rightarrow>
         bindR (bget_recycle NBUF (b_prev (bcache s NBUF)) s) (\<lambda>r.
         case r of
           None \<Rightarrow> Inl (Kpanic ''bget: no buffers'')
         | Some b \<Rightarrow>
             bindR (release Lbcache (upd_buf b (\<lambda>x. x\<lparr>b_dev := dev, b_blockno := blockno,
                      b_valid := False, b_dirty := False, b_refcnt := 1\<rparr>) s)) (\<lambda>s.
             bindR (lock_buf b s) (\<lambda>s. Inr (b, s))))))"

definition bread :: "nat \<Rightarrow> nat \<Rightarrow> 'a kbio_scheme \<Rightarrow> (nat \<times> 'a kbio_scheme) res" where
  "bread dev blockno s =
     bindR (bget dev blockno s) (\<lambda>(b, s).
     if \<not> b_valid (bcache s b) then bindR (iderw b s) (\<lambda>s. Inr (b, s)) else Inr (b, s))"

definition bwrite :: "nat \<Rightarrow> 'a kbio_scheme \<Rightarrow> 'a kbio_scheme res" where
  "bwrite b s =
     bindR (curpid s) (\<lambda>pid.
     if \<not> holdingsleep pid (b_lock (bcache s b)) then Inl (Kpanic ''bwrite'')
     else iderw b (upd_buf b (\<lambda>x. x\<lparr>b_dirty := True\<rparr>) s))"

definition unlink_buf :: "nat \<Rightarrow> 'a kbio_scheme \<Rightarrow> 'a kbio_scheme" where
  "unlink_buf b s =
     (let s = upd_buf (b_next (bcache s b)) (\<lambda>x. x\<lparr>b_prev := b_prev (bcache s b)\<rparr>) s
      in upd_buf (b_prev (bcache s b)) (\<lambda>x. x\<lparr>b_next := b_next (bcache s b)\<rparr>) s)"

definition brelse :: "nat \<Rightarrow> 'a kbio_scheme \<Rightarrow> 'a kbio_scheme res" where
  "brelse b s =
     bindR (curpid s) (\<lambda>pid.
     if \<not> holdingsleep pid (b_lock (bcache s b)) then Inl (Kpanic ''brelse'')
     else
       bindR (wakeup (Some (ChBuf b)) (upd_buf b (\<lambda>x. x\<lparr>b_lock := releasesleep (b_lock x)\<rparr>) s)) (\<lambda>s.
       bindR (acquire Lbcache s) (\<lambda>s.
       let s = upd_buf b (\<lambda>x. x\<lparr>b_refcnt := b_refcnt x - 1\<rparr>) s;
           s = (if b_refcnt (bcache s b) = 0 then link_front b (unlink_buf b s) else s)
       in release Lbcache s)))"

section \<open>The ring of buffers\<close>

text \<open>
  \<open>seg nx pv a xs b\<close>: starting at \<open>a\<close> the next pointers run through \<open>xs\<close> and end at \<open>b\<close>, and
  the previous pointers run back.
\<close>

fun seg :: "(nat \<Rightarrow> nat) \<Rightarrow> (nat \<Rightarrow> nat) \<Rightarrow> nat \<Rightarrow> nat list \<Rightarrow> nat \<Rightarrow> bool" where
  "seg nx pv a [] b \<longleftrightarrow> nx a = b \<and> pv b = a"
| "seg nx pv a (x # xs) b \<longleftrightarrow> nx a = x \<and> pv x = a \<and> seg nx pv x xs b"

definition ring :: "(nat \<Rightarrow> nat) \<Rightarrow> (nat \<Rightarrow> nat) \<Rightarrow> nat \<Rightarrow> nat list \<Rightarrow> bool" where
  "ring nx pv h xs \<longleftrightarrow> seg nx pv h xs h \<and> distinct (h # xs)"

lemma seg_append: "seg nx pv a (xs @ y # ys) b \<longleftrightarrow> seg nx pv a xs y \<and> seg nx pv y ys b"
  by (induction xs arbitrary: a) auto

lemma seg_cong:
  assumes "\<And>x. x \<in> set (a # xs) \<Longrightarrow> nx' x = nx x" "\<And>x. x \<in> set (xs @ [b]) \<Longrightarrow> pv' x = pv x"
  shows "seg nx' pv' a xs b = seg nx pv a xs b"
  using assms by (induction xs arbitrary: a) auto

text \<open>Redirecting the end of a segment.\<close>

lemma seg_retarget:
  assumes "seg nx pv a xs y" "distinct (a # xs)" "b \<notin> set xs"
  shows "seg (nx(last (a # xs) := b)) (pv(b := last (a # xs))) a xs b"
  using assms
proof (induction xs arbitrary: a)
  case (Cons x xs)
  have IH: "seg (nx(last (x # xs) := b)) (pv(b := last (x # xs))) x xs b"
    by (rule Cons.IH) (use Cons.prems in auto)
  have a: "a \<noteq> last (x # xs)" using Cons.prems(2) by (metis distinct.simps(2) last_in_set list.distinct(1))
  have l: "last (a # x # xs) = last (x # xs)" by simp
  show ?case unfolding l seg.simps
  proof (intro conjI)
    show "(nx(last (x # xs) := b)) a = x" using a Cons.prems(1) by simp
    show "(pv(b := last (x # xs))) x = a" using Cons.prems(1,3) by simp
  qed (rule IH)
qed simp

lemma ring_push:
  assumes "ring nx pv h xs" "b \<notin> set (h # xs)"
  shows "ring (nx(b := nx h, h := b)) (pv(b := h, nx h := b)) h (b # xs)"
proof (cases xs)
  case Nil
  then show ?thesis using assms by (auto simp: ring_def)
next
  case (Cons x ys)
  then have x: "nx h = x" "seg nx pv x ys h" "distinct (h # x # ys)" using assms by (auto simp: ring_def)
  have "seg (nx(b := nx h, h := b)) (pv(b := h, nx h := b)) x ys h = seg nx pv x ys h"
    using x assms(2) Cons by (intro seg_cong) auto
  then show ?thesis using x assms(2) Cons by (auto simp: ring_def)
qed

lemma ring_unlink:
  assumes "ring nx pv h (xs @ b # ys)"
  shows "ring (nx(pv b := nx b)) (pv(nx b := pv b)) h (xs @ ys)"
proof -
  have s: "seg nx pv h xs b" "seg nx pv b ys h" "distinct (h # xs @ b # ys)"
    using assms by (auto simp: ring_def seg_append)
  have last: "seg nx pv a zs y \<Longrightarrow> pv y = last (a # zs)" for a zs y by (induction zs arbitrary: a) auto
  have p: "pv b = last (h # xs)" using last [OF s(1)] .
  have n: "nx b = hd (ys @ [h])" using s(2) by (cases ys) auto
  have left: "seg (nx(pv b := nx b)) (pv(nx b := pv b)) h xs (nx b)"
    unfolding p using s by (intro seg_retarget [OF s(1)]) (cases ys; auto simp: n)+
  have "last (h # xs) \<in> set (h # xs)" by simp
  then have pin: "pv b \<in> set (h # xs)" using p by simp
  show ?thesis
  proof (cases ys)
    case Nil
    then show ?thesis using left s(3) n by (simp add: ring_def)
  next
    case (Cons y zs)
    then have y: "nx b = y" "seg nx pv y zs h" using s(2) by auto
    have "seg (nx(pv b := nx b)) (pv(nx b := pv b)) y zs h = seg nx pv y zs h"
      using pin s(3) y(1) Cons by (intro seg_cong) auto
    then show ?thesis using left y s(3) Cons by (simp add: ring_def seg_append)
  qed
qed

lemma ring_next_in: "ring nx pv h xs \<Longrightarrow> x \<in> set (h # xs) \<Longrightarrow> nx x \<in> set (h # xs) \<and> pv x \<in> set (h # xs)"
proof -
  have "seg nx pv a xs b \<Longrightarrow> x \<in> set (a # xs) \<Longrightarrow> nx x \<in> set (xs @ [b])" for a b
    by (induction xs arbitrary: a) auto
  moreover have "seg nx pv a xs b \<Longrightarrow> x \<in> set (xs @ [b]) \<Longrightarrow> pv x \<in> set (a # xs)" for a b
    by (induction xs arbitrary: a) auto
  ultimately show "ring nx pv h xs \<Longrightarrow> x \<in> set (h # xs) \<Longrightarrow> nx x \<in> set (h # xs) \<and> pv x \<in> set (h # xs)"
    unfolding ring_def by fastforce
qed

section \<open>Selectors\<close>

lemma upd_buf_sel [simp]:
  "bcache (upd_buf b f s) = (bcache s)(b := f (bcache s b))"
  "disk (upd_buf b f s) = disk s" "disksize (upd_buf b f s) = disksize s" "dtrace (upd_buf b f s) = dtrace s"
  "locks (upd_buf b f s) = locks s" "myproc (upd_buf b f s) = myproc s" "ptable (upd_buf b f s) = ptable s"
  by (simp_all add: upd_buf_def)

lemma upd_buf_twice [simp]: "upd_buf b g (upd_buf b f s) = upd_buf b (\<lambda>x. g (f x)) s"
  by (simp add: upd_buf_def)

lemma curpid_upd_buf [simp]: "curpid (upd_buf b f s) = curpid s"
  by (simp add: curpid_def split: option.split)

lemma curpid_frame [simp]:
  "curpid (s\<lparr>bcache := c\<rparr>) = curpid s" "curpid (s\<lparr>disk := d\<rparr>) = curpid s" "curpid (s\<lparr>dtrace := e\<rparr>) = curpid s"
  "curpid (u\<lparr>locks := l\<rparr>) = curpid u"
  by (simp_all add: curpid_def split: option.split)

lemma locks_restore: "locks s = l \<Longrightarrow> s\<lparr>locks := l\<rparr> = s"
  by simp

text \<open>Selectors of \<open>wakeup\<close> beyond the process table: it leaves the rest of the state alone.\<close>

lemma wakeup_ok:
  assumes "Lptable \<notin> set (locks s)"
  shows "wakeup ch s = Inr (s\<lparr>ptable := ptable (wakeup1 ch s)\<rparr>)"
  using assms by (simp add: wakeup_def wakeup1_eq release_def holding_def cong: if_cong)

lemma wakeup1_pid [simp]: "p_pid (ptable (wakeup1 ch s) q) = p_pid (ptable s q)"
  by (simp add: wakeup1_eq)

section \<open>The list view of the ring\<close>

definition lru :: "nat list \<Rightarrow> 'a kbio_scheme \<Rightarrow> bool" where
  "lru xs s \<longleftrightarrow> ring (\<lambda>b. b_next (bcache s b)) (\<lambda>b. b_prev (bcache s b)) NBUF xs \<and> set xs = {..<NBUF}"

lemma bget_find_seg:
  assumes "seg (\<lambda>b. b_next (bcache s b)) (\<lambda>b. b_prev (bcache s b)) a xs NBUF" "NBUF \<notin> set xs" "length xs \<le> n"
  shows "bget_find n (b_next (bcache s a)) dev blk s =
    Inr (find (\<lambda>b. b_dev (bcache s b) = dev \<and> b_blockno (bcache s b) = blk) xs)"
  using assms
proof (induction xs arbitrary: a n)
  case Nil
  then show ?case by (cases n) auto
next
  case (Cons x xs)
  then obtain m where n: "n = Suc m" by (cases n) auto
  have "x \<noteq> NBUF" "b_next (bcache s a) = x" using Cons.prems by auto
  then show ?case using Cons.IH [of x m] Cons.prems n by auto
qed

lemma bget_recycle_seg:
  assumes "seg (\<lambda>b. b_next (bcache s b)) (\<lambda>b. b_prev (bcache s b)) NBUF xs a" "NBUF \<notin> set xs" "length xs \<le> n"
  shows "bget_recycle n (b_prev (bcache s a)) s =
    Inr (find (\<lambda>b. b_refcnt (bcache s b) = 0 \<and> \<not> b_dirty (bcache s b)) (rev xs))"
  using assms
proof (induction xs arbitrary: a n rule: rev_induct)
  case Nil
  then show ?case by (cases n) auto
next
  case (snoc x xs)
  then obtain m where n: "n = Suc m" by (cases n) auto
  have "x \<noteq> NBUF" "b_prev (bcache s a) = x" "seg (\<lambda>b. b_next (bcache s b)) (\<lambda>b. b_prev (bcache s b)) NBUF xs x"
    using snoc.prems by (auto simp: seg_append)
  then show ?case using snoc.IH [of x m] snoc.prems n by auto
qed

lemma lru_length: "lru xs s \<Longrightarrow> length xs = NBUF \<and> NBUF \<notin> set xs \<and> distinct xs"
  using distinct_card [of xs] by (auto simp: lru_def ring_def)

lemma lru_frame:
  "(\<And>b. b_next (bcache t b) = b_next (bcache s b) \<and> b_prev (bcache t b) = b_prev (bcache s b)) \<Longrightarrow> lru xs t = lru xs s"
  by (simp add: lru_def)

lemma link_front_lru:
  assumes "ring (\<lambda>b. b_next (bcache s b)) (\<lambda>b. b_prev (bcache s b)) NBUF xs" "b \<notin> set (NBUF # xs)"
  shows "ring (\<lambda>c. b_next (bcache (link_front b s) c)) (\<lambda>c. b_prev (bcache (link_front b s) c)) NBUF (b # xs)"
proof -
  let ?n = "b_next (bcache s NBUF)"
  have "(\<lambda>c. b_next (bcache (link_front b s) c)) = (\<lambda>c. b_next (bcache s c))(b := ?n, NBUF := b)"
    using assms(2) by (auto simp: link_front_def Let_def fun_eq_iff)
  moreover have "(\<lambda>c. b_prev (bcache (link_front b s) c)) = (\<lambda>c. b_prev (bcache s c))(b := NBUF, ?n := b)"
    using assms(2) by (auto simp: link_front_def Let_def fun_eq_iff)
  ultimately show ?thesis using ring_push [OF assms] by simp
qed

lemma unlink_lru:
  assumes "ring (\<lambda>b. b_next (bcache s b)) (\<lambda>b. b_prev (bcache s b)) NBUF (xs @ b # ys)"
  shows "ring (\<lambda>c. b_next (bcache (unlink_buf b s) c)) (\<lambda>c. b_prev (bcache (unlink_buf b s) c)) NBUF (xs @ ys)"
proof -
  have b: "b \<noteq> NBUF" "distinct (NBUF # xs @ b # ys)" using assms by (auto simp: ring_def)
  have "b_next (bcache s b) \<noteq> b"
    using assms b(2) by (cases ys) (auto simp: ring_def seg_append)
  then have "(\<lambda>c. b_next (bcache (unlink_buf b s) c)) = (\<lambda>c. b_next (bcache s c))(b_prev (bcache s b) := b_next (bcache s b))"
      "(\<lambda>c. b_prev (bcache (unlink_buf b s) c)) = (\<lambda>c. b_prev (bcache s c))(b_next (bcache s b) := b_prev (bcache s b))"
    by (auto simp: unlink_buf_def Let_def fun_eq_iff)
  then show ?thesis using ring_unlink [OF assms] by simp
qed

text \<open>Apart from the two pointers, moving a buffer in the ring changes no buffer.\<close>

definition core :: "buf \<Rightarrow> buf" where
  "core x = x\<lparr>b_prev := 0, b_next := 0\<rparr>"

lemma coreD:
  assumes "core x = core y"
  shows "b_valid x = b_valid y" "b_dirty x = b_dirty y" "b_dev x = b_dev y" "b_blockno x = b_blockno y"
    "b_lock x = b_lock y" "b_refcnt x = b_refcnt y" "b_data x = b_data y"
  using arg_cong [OF assms, of b_valid] arg_cong [OF assms, of b_dirty] arg_cong [OF assms, of b_dev]
    arg_cong [OF assms, of b_blockno] arg_cong [OF assms, of b_lock] arg_cong [OF assms, of b_refcnt]
    arg_cong [OF assms, of b_data] by (simp_all add: core_def)

lemma core_ptr: "core (x\<lparr>b_prev := p\<rparr>) = core x" "core (x\<lparr>b_next := n\<rparr>) = core x"
  by (simp_all add: core_def)

lemma core_upd_buf: "(\<And>x. core (f x) = core x) \<Longrightarrow> core (bcache (upd_buf b f s) c) = core (bcache s c)"
  by simp

lemma core_link_front: "core (bcache (link_front b s) c) = core (bcache s c)"
  unfolding link_front_def Let_def by (simp only: core_upd_buf core_ptr)

lemma core_unlink: "core (bcache (unlink_buf b s) c) = core (bcache s c)"
  unfolding unlink_buf_def Let_def by (simp only: core_upd_buf core_ptr)

lemma relink_sel [simp]:
  "disk (link_front b s) = disk s" "disksize (link_front b s) = disksize s" "dtrace (link_front b s) = dtrace s"
  "locks (link_front b s) = locks s" "myproc (link_front b s) = myproc s" "ptable (link_front b s) = ptable s"
  "disk (unlink_buf b s) = disk s" "disksize (unlink_buf b s) = disksize s" "dtrace (unlink_buf b s) = dtrace s"
  "locks (unlink_buf b s) = locks s" "myproc (unlink_buf b s) = myproc s" "ptable (unlink_buf b s) = ptable s"
  by (simp_all add: link_front_def unlink_buf_def Let_def)

section \<open>The invariant and the contents of a block\<close>

definition buf_ok :: "int \<Rightarrow> (nat \<Rightarrow> block) \<Rightarrow> nat \<Rightarrow> buf \<Rightarrow> bool" where
  "buf_ok pid d n x \<longleftrightarrow>
     (b_dirty x \<longrightarrow> b_valid x \<and> b_dev x = 1) \<and>
     (b_dev x = 1 \<and> b_valid x \<and> \<not> b_dirty x \<and> \<not> sl_locked (b_lock x) \<longrightarrow> b_data x = d (b_blockno x)) \<and>
     b_refcnt x = (if sl_locked (b_lock x) then 1 else 0) \<and>
     (sl_locked (b_lock x) \<longrightarrow> sl_pid (b_lock x) = pid \<and> b_dev x = 1 \<and> b_valid x) \<and>
     (b_dev x = 1 \<longrightarrow> b_blockno x < n \<and> b_valid x)"

definition uniq :: "'a kbio_scheme \<Rightarrow> bool" where
  "uniq s \<longleftrightarrow> inj_on (\<lambda>b. b_blockno (bcache s b)) {b. b < NBUF \<and> b_dev (bcache s b) = 1}"

text \<open>
  The cache between two system calls of one process, or inside one: no spin lock is held
  and every locked buffer is locked by the running process.
\<close>

definition bio_wf :: "int \<Rightarrow> 'a kbio_scheme \<Rightarrow> bool" where
  "bio_wf pid s \<longleftrightarrow> (\<exists>xs. lru xs s) \<and> uniq s \<and> (\<forall>b < NBUF. buf_ok pid (disk s) (disksize s) (bcache s b)) \<and>
     locks s = [] \<and> curpid s = Inr pid"

definition holds :: "nat \<Rightarrow> nat \<Rightarrow> 'a kbio_scheme \<Rightarrow> bool" where
  "holds n b s \<longleftrightarrow> b < NBUF \<and> b_dev (bcache s b) = 1 \<and> b_blockno (bcache s b) = n \<and> b_valid (bcache s b)"

definition view :: "'a kbio_scheme \<Rightarrow> nat \<Rightarrow> block" where
  "view s n = (case find (\<lambda>b. holds n b s) [0..<NBUF] of Some b \<Rightarrow> b_data (bcache s b) | None \<Rightarrow> disk s n)"

definition held :: "'a kbio_scheme \<Rightarrow> nat set" where
  "held s = {n. \<exists>b. holds n b s \<and> sl_locked (b_lock (bcache s b))}"

definition dirty :: "'a kbio_scheme \<Rightarrow> nat set" where
  "dirty s = {n. \<exists>b. holds n b s \<and> b_dirty (bcache s b)}"

lemma bio_wfD:
  assumes "bio_wf pid s"
  shows "b < NBUF \<Longrightarrow> buf_ok pid (disk s) (disksize s) (bcache s b)" "uniq s" "locks s = []" "curpid s = Inr pid"
    "\<exists>xs. lru xs s"
  using assms by (auto simp: bio_wf_def)

lemma uniqD:
  "uniq s \<Longrightarrow> b < NBUF \<Longrightarrow> c < NBUF \<Longrightarrow> b_dev (bcache s b) = 1 \<Longrightarrow> b_dev (bcache s c) = 1 \<Longrightarrow>
     b_blockno (bcache s b) = b_blockno (bcache s c) \<Longrightarrow> b = c"
  by (auto simp: uniq_def dest: inj_onD)

lemma holds_unique: "uniq s \<Longrightarrow> holds n b s \<Longrightarrow> holds n c s \<Longrightarrow> b = c"
  unfolding holds_def using uniqD [of s b c] by simp

lemma view_cached:
  assumes "uniq s" "holds n b s"
  shows "view s n = b_data (bcache s b)"
proof -
  have "b < NBUF" using assms(2) by (simp add: holds_def)
  then obtain c where c: "find (\<lambda>b. holds n b s) [0..<NBUF] = Some c"
    using find_upt_ex [of 0 b NBUF "\<lambda>b. holds n b s"] assms(2) by auto
  then have "holds n c s" by (simp add: find_upt_Some)
  then have "c = b" using holds_unique assms by blast
  then show ?thesis using c by (simp add: view_def)
qed

lemma view_uncached: "(\<And>b. \<not> holds n b s) \<Longrightarrow> view s n = disk s n"
proof -
  assume "\<And>b. \<not> holds n b s"
  then have "find (\<lambda>b. holds n b s) [0..<NBUF] = None" by (simp add: find_upt_None)
  then show ?thesis by (simp add: view_def)
qed

lemma held_iff:
  assumes "uniq s" "holds n b s"
  shows "n \<in> held s \<longleftrightarrow> sl_locked (b_lock (bcache s b))" "n \<in> dirty s \<longleftrightarrow> b_dirty (bcache s b)"
  using assms holds_unique [OF assms(1)] by (auto simp: held_def dirty_def)

lemma view_clean:
  assumes "bio_wf pid s" "n \<notin> held s" "n \<notin> dirty s"
  shows "view s n = disk s n"
proof (cases "\<exists>b. holds n b s")
  case True
  then obtain b where b: "holds n b s" by blast
  then have "buf_ok pid (disk s) (disksize s) (bcache s b)" using assms(1) by (simp add: bio_wfD(1) holds_def)
  then show ?thesis
    using view_cached [OF bio_wfD(2) [OF assms(1)] b] held_iff [OF bio_wfD(2) [OF assms(1)] b] assms(2,3) b
    by (simp add: buf_ok_def holds_def)
next
  case False
  then show ?thesis by (intro view_uncached) blast
qed

section \<open>Changing one buffer\<close>

text \<open>A buffer that keeps its block: only the contents of that block may change.\<close>

lemma same_block:
  assumes "uniq s" "holds n b s" and t: "bcache t = (bcache s)(b := x)"
    and x: "b_dev x = 1" "b_blockno x = n" "b_valid x" and d: "\<And>m. m \<noteq> n \<Longrightarrow> disk t m = disk s m"
  shows "uniq t" "holds m c t = holds m c s" "view t = (view s)(n := b_data x)"
    "held t = (if sl_locked (b_lock x) then insert n (held s) else held s - {n})"
    "dirty t = (if b_dirty x then insert n (dirty s) else dirty s - {n})"
proof -
  have b: "b_dev (bcache s b) = 1" "b_blockno (bcache s b) = n" "b_valid (bcache s b)" "b < NBUF"
    using assms(2) by (simp_all add: holds_def)
  have "b_dev (bcache t c) = b_dev (bcache s c)" "b_blockno (bcache t c) = b_blockno (bcache s c)"
     "b_valid (bcache t c) = b_valid (bcache s c)" for c
    using b x by (simp_all add: t)
  note same = this
  have h: "holds m c t = holds m c s" for m c by (simp add: holds_def same)
  then show "holds m c t = holds m c s" .
  show u: "uniq t" using assms(1) by (simp add: uniq_def same)
  show "view t = (view s)(n := b_data x)"
  proof
    fix m
    show "view t m = ((view s)(n := b_data x)) m"
    proof (cases "\<exists>c. holds m c s")
      case True
      then obtain c where c: "holds m c s" by blast
      have "c = b" if "m = n" using holds_unique [OF assms(1) c] assms(2) that by simp
      moreover have "m = n" if "c = b" using c b that by (simp add: holds_def)
      ultimately show ?thesis using view_cached [OF assms(1) c] view_cached [OF u, of m c] c h by (auto simp: t)
    next
      case False
      then have "m \<noteq> n" using assms(2) by blast
      then show ?thesis using False h view_uncached [of m s] view_uncached [of m t] d by simp
    qed
  qed
  have in_iff: "(m \<in> held t) = (if m = n then sl_locked (b_lock x) else m \<in> held s)"
      "(m \<in> dirty t) = (if m = n then b_dirty x else m \<in> dirty s)" for m
  proof -
    have "(m \<in> held t) = (if m = n then sl_locked (b_lock x) else m \<in> held s) \<and>
      (m \<in> dirty t) = (if m = n then b_dirty x else m \<in> dirty s)"
    proof (cases "m = n")
      case True
      have "holds n b t" using h assms(2) by simp
      then show ?thesis using True held_iff [OF u, of n b] by (simp add: t)
    next
      case mn: False
      have "bcache t c = bcache s c" if "holds m c s" for c
        using that mn b(2) by (auto simp: holds_def t)
      then show ?thesis using mn h unfolding held_def dirty_def by (simp cong: conj_cong)
    qed
    then show "(m \<in> held t) = (if m = n then sl_locked (b_lock x) else m \<in> held s)"
      "(m \<in> dirty t) = (if m = n then b_dirty x else m \<in> dirty s)" by blast+
  qed
  show "held t = (if sl_locked (b_lock x) then insert n (held s) else held s - {n})"
    by (rule set_eqI) (simp add: in_iff)
  show "dirty t = (if b_dirty x then insert n (dirty s) else dirty s - {n})"
    by (rule set_eqI) (simp add: in_iff)
qed

lemma bio_wf_upd:
  assumes "bio_wf pid s" "b < NBUF" "bcache t = (bcache s)(b := x)"
    "b_next x = b_next (bcache s b)" "b_prev x = b_prev (bcache s b)" "uniq t"
    "locks t = []" "curpid t = Inr pid" "disksize t = disksize s" "buf_ok pid (disk t) (disksize s) x"
    "\<And>c. c < NBUF \<Longrightarrow> c \<noteq> b \<Longrightarrow> buf_ok pid (disk s) (disksize s) (bcache s c) \<Longrightarrow> buf_ok pid (disk t) (disksize s) (bcache s c)"
  shows "bio_wf pid t"
proof -
  obtain xs where "lru xs s" using assms(1) by (auto simp: bio_wf_def)
  then have "lru xs t" using lru_frame [of t s xs] assms(3-5) by simp
  then show ?thesis using assms by (auto simp: bio_wf_def)
qed

text \<open>A recycled buffer: its old block was clean, so no contents change.\<close>

lemma recycle:
  assumes wf: "bio_wf pid s" and b: "b < NBUF" "b_refcnt (bcache s b) = 0" "\<not> b_dirty (bcache s b)"
    and new: "\<And>c. c < NBUF \<Longrightarrow> b_dev (bcache s c) = 1 \<Longrightarrow> b_blockno (bcache s c) \<noteq> n"
    and t: "bcache t = (bcache s)(b := x)" "disk t = disk s"
    and x: "b_dev x = 1" "b_blockno x = n" "b_valid x" "b_data x = disk s n" "sl_locked (b_lock x)" "\<not> b_dirty x"
  shows "uniq t" "holds n b t" "view t = view s" "held t = insert n (held s)" "dirty t = dirty s"
    "\<And>m c. c \<noteq> b \<Longrightarrow> holds m c t = holds m c s"
proof -
  have u: "uniq s" using wf by (rule bio_wfD)
  have unl: "\<not> sl_locked (b_lock (bcache s b))" using bio_wfD(1) [OF wf b(1)] b(2) by (auto simp: buf_ok_def split: if_splits)
  have hb: "holds m b t \<longleftrightarrow> m = n" for m using x b(1) by (auto simp: holds_def t)
  then show "holds n b t" by simp
  show hc: "holds m c t = holds m c s" if "c \<noteq> b" for m c using that by (simp add: holds_def t)
  have none: "\<not> holds n c s" for c using new by (auto simp: holds_def)
  show ut: "uniq t" unfolding uniq_def
  proof (rule inj_onI)
    fix c d assume c: "c \<in> {b. b < NBUF \<and> b_dev (bcache t b) = 1}" and d: "d \<in> {b. b < NBUF \<and> b_dev (bcache t b) = 1}"
      and eq: "b_blockno (bcache t c) = b_blockno (bcache t d)"
    consider "c = b" "d = b" | "c = b" "d \<noteq> b" | "c \<noteq> b" "d = b" | "c \<noteq> b" "d \<noteq> b" by blast
    then show "c = d"
    proof cases
      case 2
      then show ?thesis using d eq x(2) new [of d] by (simp add: t)
    next
      case 3
      then show ?thesis using c eq x(2) new [of c] by (simp add: t)
    next
      case 4
      then show ?thesis using c d eq uniqD [OF u, of c d] by (simp add: t)
    qed simp
  qed
  have clean: "b_data (bcache s b) = disk s m" if "holds m b s" for m
    using bio_wfD(1) [OF wf b(1)] that b(3) unl by (auto simp: buf_ok_def holds_def)
  show "view t = view s"
  proof
    fix m
    show "view t m = view s m"
    proof (cases "m = n")
      case True
      then show ?thesis using view_cached [OF ut, of n b] hb view_uncached [of n s] none x(4) by (simp add: t)
    next
      case False
      show ?thesis
      proof (cases "\<exists>c. c \<noteq> b \<and> holds m c s")
        case True
        then obtain c where "c \<noteq> b" "holds m c s" by blast
        then show ?thesis using view_cached [OF u, of m c] view_cached [OF ut, of m c] hc by (simp add: t)
      next
        case none': False
        then have "\<not> holds m c t" for c using hb hc False by metis
        then have "view t m = disk s m" using view_uncached [of m t] t(2) by simp
        moreover have "view s m = disk s m"
          using none' view_uncached [of m s] view_cached [OF u, of m b] clean [of m] by (cases "holds m b s") metis+
        ultimately show ?thesis by simp
      qed
    qed
  qed
  show "held t = insert n (held s)"
  proof (intro equalityI subsetI)
    fix m assume "m \<in> held t"
    then obtain c where "holds m c t" "sl_locked (b_lock (bcache t c))" by (auto simp: held_def)
    then show "m \<in> insert n (held s)" using hb hc by (cases "c = b") (auto simp: held_def t)
  next
    fix m assume "m \<in> insert n (held s)"
    then consider "m = n" | c where "holds m c s" "sl_locked (b_lock (bcache s c))" by (auto simp: held_def)
    then show "m \<in> held t"
    proof cases
      case 1
      then show ?thesis using hb x(5) by (auto simp: held_def t intro!: exI [of _ b])
    next
      case 2
      then have "c \<noteq> b" using unl by auto
      then show ?thesis using 2 hc by (auto simp: held_def t intro!: exI [of _ c])
    qed
  qed
  show "dirty t = dirty s"
  proof (intro equalityI subsetI)
    fix m assume "m \<in> dirty t"
    then obtain c where "holds m c t" "b_dirty (bcache t c)" by (auto simp: dirty_def)
    then show "m \<in> dirty s" using hc x(6) by (cases "c = b") (auto simp: dirty_def t)
  next
    fix m assume "m \<in> dirty s"
    then obtain c where "holds m c s" "b_dirty (bcache s c)" by (auto simp: dirty_def)
    moreover from this have "c \<noteq> b" using b(3) by auto
    ultimately show "m \<in> dirty t" using hc by (auto simp: dirty_def t intro!: exI [of _ c])
  qed
qed

section \<open>The operations of the cache\<close>

definition room :: "'a kbio_scheme \<Rightarrow> nat" where
  "room s = NBUF - card (held s \<union> dirty s)"

lemma finite_busy: "finite (held s \<union> dirty s)"
proof -
  have "held s \<union> dirty s \<subseteq> (\<lambda>b. b_blockno (bcache s b)) ` {..<NBUF}"
    by (auto simp: held_def dirty_def holds_def)
  then show ?thesis by (rule finite_subset) simp
qed

lemma find_SomeD: "find P xs = Some x \<Longrightarrow> P x \<and> x \<in> set xs"
  by (induction xs) (auto split: if_splits)

lemma room_ex:
  assumes wf: "bio_wf pid s" and "0 < room s"
  shows "\<exists>b < NBUF. b_refcnt (bcache s b) = 0 \<and> \<not> b_dirty (bcache s b)"
proof (rule ccontr)
  assume none: "\<not> ?thesis"
  have busy: "b_dev (bcache s b) = 1 \<and> b_blockno (bcache s b) \<in> held s \<union> dirty s" if "b < NBUF" for b
  proof -
    have "sl_locked (b_lock (bcache s b)) \<or> b_dirty (bcache s b)"
      using none that bio_wfD(1) [OF wf that] by (auto simp: buf_ok_def split: if_splits)
    then show ?thesis using bio_wfD(1) [OF wf that] that by (auto simp: buf_ok_def held_def dirty_def holds_def)
  qed
  have "inj_on (\<lambda>b. b_blockno (bcache s b)) {..<NBUF}"
    by (rule inj_onI) (use uniqD [OF bio_wfD(2) [OF wf]] busy in auto)
  then have "card ((\<lambda>b. b_blockno (bcache s b)) ` {..<NBUF}) = NBUF" by (simp add: card_image)
  moreover have "(\<lambda>b. b_blockno (bcache s b)) ` {..<NBUF} \<subseteq> held s \<union> dirty s" using busy by auto
  ultimately have "NBUF \<le> card (held s \<union> dirty s)" using card_mono [OF finite_busy] by metis
  then show False using assms(2) by (simp add: room_def)
qed

lemma lock_buf_ok:
  "curpid s = Inr pid \<Longrightarrow> \<not> sl_locked (b_lock (bcache s b)) \<Longrightarrow>
     lock_buf b s = Inr (upd_buf b (\<lambda>x. x\<lparr>b_lock := \<lparr>sl_locked = True, sl_pid = pid\<rparr>\<rparr>) s)"
  by (simp add: lock_buf_def acquiresleep_def)

lemma bget_scan:
  assumes "lru xs s"
  shows "bget_find NBUF (b_next (bcache s NBUF)) dev blk s =
      Inr (find (\<lambda>b. b_dev (bcache s b) = dev \<and> b_blockno (bcache s b) = blk) xs)"
    "bget_recycle NBUF (b_prev (bcache s NBUF)) s =
      Inr (find (\<lambda>b. b_refcnt (bcache s b) = 0 \<and> \<not> b_dirty (bcache s b)) (rev xs))"
  using bget_find_seg [of s NBUF xs NBUF] bget_recycle_seg [of s xs NBUF NBUF] lru_length [OF assms] assms
  by (simp_all add: lru_def ring_def)

lemma bget_hit:
  assumes wf: "bio_wf pid s" and h: "holds n b s" and "n \<notin> held s"
  shows "bget 1 n s = Inr (b, upd_buf b (\<lambda>x. x\<lparr>b_refcnt := 1, b_lock := \<lparr>sl_locked = True, sl_pid = pid\<rparr>\<rparr>) s)"
proof -
  obtain xs where xs: "lru xs s" using wf by (auto simp: bio_wf_def)
  let ?P = "\<lambda>b. b_dev (bcache s b) = 1 \<and> b_blockno (bcache s b) = n"
  have b: "b < NBUF" "?P b" using h by (auto simp: holds_def)
  have "find ?P xs \<noteq> None" using b xs by (auto simp: find_None_iff lru_def)
  then obtain c where c: "find ?P xs = Some c" by blast
  then have "?P c" "c \<in> set xs" using find_SomeD [OF c] by simp_all
  then have "c = b" using b xs uniqD [OF bio_wfD(2) [OF wf], of c b] by (auto simp: lru_def)
  moreover have nl: "\<not> sl_locked (b_lock (bcache s b))" using held_iff(1) [OF bio_wfD(2) [OF wf] h] assms(3) by simp
  moreover have "b_refcnt (bcache s b) = 0" using bio_wfD(1) [OF wf b(1)] nl by (simp add: buf_ok_def)
  moreover have lk: "lru xs (s\<lparr>locks := [Lbcache]\<rparr>)" using xs by (simp add: lru_def)
  ultimately show ?thesis
    using c bget_scan(1) [OF lk, of 1 n] bio_wfD(3,4) [OF wf]
    by (simp add: bget_def lock_buf_ok release_def holding_def upd_buf_def locks_restore)
qed

lemma bget_miss:
  assumes wf: "bio_wf pid s" and none: "\<And>c. c < NBUF \<Longrightarrow> b_dev (bcache s c) = 1 \<Longrightarrow> b_blockno (bcache s c) \<noteq> n"
    and "0 < room s"
  shows "\<exists>b < NBUF. b_refcnt (bcache s b) = 0 \<and> \<not> b_dirty (bcache s b) \<and>
    bget 1 n s = Inr (b, upd_buf b (\<lambda>x. x\<lparr>b_dev := 1, b_blockno := n, b_valid := False, b_dirty := False,
      b_refcnt := 1, b_lock := \<lparr>sl_locked = True, sl_pid = pid\<rparr>\<rparr>) s)"
proof -
  obtain xs where xs: "lru xs s" using wf by (auto simp: bio_wf_def)
  have f1: "find (\<lambda>b. b_dev (bcache s b) = 1 \<and> b_blockno (bcache s b) = n) xs = None"
    using none xs by (auto simp: find_None_iff lru_def)
  let ?P = "\<lambda>b. b_refcnt (bcache s b) = 0 \<and> \<not> b_dirty (bcache s b)"
  have "find ?P (rev xs) \<noteq> None" using room_ex [OF wf assms(3)] xs by (auto simp: find_None_iff lru_def)
  then obtain b where f2: "find ?P (rev xs) = Some b" by blast
  then have P: "?P b" and "b \<in> set (rev xs)" using find_SomeD [OF f2] by simp_all
  then have b: "b < NBUF" using xs by (auto simp: lru_def)
  have nl: "\<not> sl_locked (b_lock (bcache s b))"
    using P bio_wfD(1) [OF wf b] by (auto simp: buf_ok_def split: if_splits)
  have lk: "lru xs (s\<lparr>locks := [Lbcache]\<rparr>)" using xs by (simp add: lru_def)
  show ?thesis
    using f1 f2 P b nl bget_scan(1) [OF lk, of 1 n] bget_scan(2) [OF lk] bio_wfD(3,4) [OF wf]
    by (intro exI [of _ b]) (simp add: bget_def lock_buf_ok release_def holding_def upd_buf_def locks_restore)
qed

text \<open>\<open>bread\<close> returns the block, locked, and changes the contents of no block.\<close>

lemma bread_ok:
  assumes wf: "bio_wf pid s" and n: "n < disksize s" "n \<notin> held s" and room: "n \<in> dirty s \<or> 0 < room s"
  shows "\<exists>b t. bread 1 n s = Inr (b, t) \<and> bio_wf pid t \<and> holds n b t \<and> sl_locked (b_lock (bcache t b)) \<and>
    b_data (bcache t b) = view s n \<and> view t = view s \<and> held t = insert n (held s) \<and> dirty t = dirty s \<and>
    t = s\<lparr>bcache := bcache t\<rparr> \<and> (\<forall>m c. holds m c s \<and> m \<in> held s \<longrightarrow> bcache t c = bcache s c)"
proof (cases "\<exists>b. holds n b s")
  case True
  then obtain b where h: "holds n b s" by blast
  note u = bio_wfD(2) [OF wf]
  have b: "b < NBUF" using h by (simp add: holds_def)
  let ?x = "(bcache s b)\<lparr>b_refcnt := 1, b_lock := \<lparr>sl_locked = True, sl_pid = pid\<rparr>\<rparr>"
  let ?t = "upd_buf b (\<lambda>x. x\<lparr>b_refcnt := 1, b_lock := \<lparr>sl_locked = True, sl_pid = pid\<rparr>\<rparr>) s"
  have x: "b_dev ?x = 1" "b_blockno ?x = n" "b_valid ?x" using h by (simp_all add: holds_def)
  note sb = same_block [OF u h, of ?t ?x, OF _ x]
  have call: "bread 1 n s = Inr (b, ?t)" using bget_hit [OF wf h n(2)] x(3) by (simp add: bread_def)
  have wt: "bio_wf pid ?t"
    by (rule bio_wf_upd [OF wf b, of ?t ?x]) (use bio_wfD(3,4) [OF wf] b x n(1) sb(1) in \<open>simp_all add: buf_ok_def\<close>)
  have "c \<noteq> b" if "holds m c s" "m \<in> held s" for m c using that n(2) h by (auto simp: holds_def)
  then show ?thesis using call wt sb h view_cached [OF u h] held_iff(2) [OF u h]
    by (intro exI [of _ b] exI [of _ ?t]) (auto simp: upd_buf_def)
next
  case False
  have none: "b_blockno (bcache s c) \<noteq> n" if "c < NBUF" "b_dev (bcache s c) = 1" for c
    using False that bio_wfD(1) [OF wf that(1)] by (auto simp: holds_def buf_ok_def)
  moreover have room: "0 < room s" using room False by (auto simp: dirty_def)
  ultimately obtain b where b: "b < NBUF" "b_refcnt (bcache s b) = 0" "\<not> b_dirty (bcache s b)"
    and g: "bget 1 n s = Inr (b, upd_buf b (\<lambda>x. x\<lparr>b_dev := 1, b_blockno := n, b_valid := False, b_dirty := False,
      b_refcnt := 1, b_lock := \<lparr>sl_locked = True, sl_pid = pid\<rparr>\<rparr>) s)"
    using bget_miss [OF wf _ room] by blast
  let ?x = "(bcache s b)\<lparr>b_dev := 1, b_blockno := n, b_dirty := False, b_refcnt := 1,
      b_lock := \<lparr>sl_locked = True, sl_pid = pid\<rparr>, b_data := disk s n, b_valid := True\<rparr>"
  let ?t = "s\<lparr>bcache := (bcache s)(b := ?x)\<rparr>"
  have call: "bread 1 n s = Inr (b, ?t)"
    using g n(1) bio_wfD(4) [OF wf] by (simp add: bread_def iderw_def holdingsleep_def Let_def upd_buf_def)
  note rc = recycle [OF wf b none, of ?t ?x]
  have wt: "bio_wf pid ?t"
    by (rule bio_wf_upd [OF wf b(1), of ?t ?x]) (use bio_wfD(3,4) [OF wf] n rc(1) in \<open>simp_all add: buf_ok_def\<close>)
  have "c \<noteq> b" if "holds m c s" "m \<in> held s" for m c
    using held_iff(1) [OF bio_wfD(2) [OF wf] that(1)] that(2) b(2) bio_wfD(1) [OF wf b(1)] by (auto simp: buf_ok_def)
  then show ?thesis using call wt rc view_uncached [of n s] False
    by (intro exI [of _ b] exI [of _ ?t]) auto
qed

text \<open>A caller that holds the lock may replace the data, and may mark the buffer dirty.\<close>

definition set_data :: "nat \<Rightarrow> block \<Rightarrow> 'a kbio_scheme \<Rightarrow> 'a kbio_scheme" where
  "set_data b d s = upd_buf b (\<lambda>x. x\<lparr>b_data := d\<rparr>) s"

definition set_dirty :: "nat \<Rightarrow> 'a kbio_scheme \<Rightarrow> 'a kbio_scheme" where
  "set_dirty b s = upd_buf b (\<lambda>x. x\<lparr>b_dirty := True\<rparr>) s"

lemma held_buf:
  assumes "bio_wf pid s" "holds n b s" "n \<in> held s"
  shows "b < NBUF" "b_dev (bcache s b) = 1" "b_blockno (bcache s b) = n" "b_valid (bcache s b)"
    "b_lock (bcache s b) = \<lparr>sl_locked = True, sl_pid = pid\<rparr>" "b_refcnt (bcache s b) = 1" "n < disksize s"
proof -
  show h: "b < NBUF" "b_dev (bcache s b) = 1" "b_blockno (bcache s b) = n" "b_valid (bcache s b)"
    using assms(2) by (simp_all add: holds_def)
  have l: "sl_locked (b_lock (bcache s b))" using held_iff(1) [OF bio_wfD(2) [OF assms(1)] assms(2)] assms(3) by simp
  note k = bio_wfD(1) [OF assms(1) h(1)]
  then show "b_lock (bcache s b) = \<lparr>sl_locked = True, sl_pid = pid\<rparr>" using l by (simp add: buf_ok_def)
  show "b_refcnt (bcache s b) = 1" "n < disksize s" using k l h by (simp_all add: buf_ok_def)
qed

lemma set_data_ok:
  assumes wf: "bio_wf pid s" and h: "holds n b s" "n \<in> held s"
  shows "bio_wf pid (set_data b d s)" "view (set_data b d s) = (view s)(n := d)" "held (set_data b d s) = held s"
    "dirty (set_data b d s) = dirty s" "holds m c (set_data b d s) = holds m c s"
proof -
  let ?x = "(bcache s b)\<lparr>b_data := d\<rparr>"
  note u = bio_wfD(2) [OF wf] and hb = held_buf [OF wf h]
  note sb = same_block [OF u h(1), of "set_data b d s" ?x]
  have t: "bcache (set_data b d s) = (bcache s)(b := ?x)" "disk (set_data b d s) = disk s" by (simp_all add: set_data_def)
  show "bio_wf pid (set_data b d s)"
    by (rule bio_wf_upd [OF wf hb(1) t(1)])
      (use bio_wfD(3,4) [OF wf] bio_wfD(1) [OF wf hb(1)] hb sb(1) t in \<open>simp_all add: buf_ok_def set_data_def\<close>)
  show "view (set_data b d s) = (view s)(n := d)" "holds m c (set_data b d s) = holds m c s"
    using sb(2,3) t hb by simp_all
  show "held (set_data b d s) = held s" using sb(4) t hb h(2) by auto
  show "dirty (set_data b d s) = dirty s" using sb(5) t hb held_iff(2) [OF u h(1)] by auto
qed

lemma set_dirty_ok:
  assumes wf: "bio_wf pid s" and h: "holds n b s" "n \<in> held s"
  shows "bio_wf pid (set_dirty b s)" "view (set_dirty b s) = view s" "held (set_dirty b s) = held s"
    "dirty (set_dirty b s) = insert n (dirty s)" "holds m c (set_dirty b s) = holds m c s"
proof -
  let ?x = "(bcache s b)\<lparr>b_dirty := True\<rparr>"
  note u = bio_wfD(2) [OF wf] and hb = held_buf [OF wf h]
  note sb = same_block [OF u h(1), of "set_dirty b s" ?x]
  have t: "bcache (set_dirty b s) = (bcache s)(b := ?x)" "disk (set_dirty b s) = disk s" by (simp_all add: set_dirty_def)
  show "bio_wf pid (set_dirty b s)"
    by (rule bio_wf_upd [OF wf hb(1) t(1)])
      (use bio_wfD(3,4) [OF wf] bio_wfD(1) [OF wf hb(1)] hb sb(1) t in \<open>simp_all add: buf_ok_def set_dirty_def\<close>)
  show "view (set_dirty b s) = view s" using sb(3) t hb view_cached [OF u h(1)] by (simp add: fun_upd_idem)
  show "holds m c (set_dirty b s) = holds m c s" using sb(2) t hb by simp
  show "held (set_dirty b s) = held s" using sb(4) t hb h(2) by auto
  show "dirty (set_dirty b s) = insert n (dirty s)" using sb(5) t hb by auto
qed

lemma bwrite_ok:
  assumes wf: "bio_wf pid s" and h: "holds n b s" "n \<in> held s"
  shows "\<exists>t. bwrite b s = Inr t \<and> bio_wf pid t \<and> view t = view s \<and> held t = held s \<and> dirty t = dirty s - {n} \<and>
    disk t = (disk s)(n := view s n) \<and> dtrace t = dtrace s @ [(n, view s n)] \<and> (\<forall>m c. holds m c t = holds m c s) \<and>
    t = s\<lparr>bcache := bcache t, disk := disk t, dtrace := dtrace t\<rparr>"
proof -
  let ?x = "(bcache s b)\<lparr>b_dirty := False, b_valid := True\<rparr>"
  let ?d = "b_data (bcache s b)"
  let ?t = "s\<lparr>bcache := (bcache s)(b := ?x), disk := (disk s)(n := ?d), dtrace := dtrace s @ [(n, ?d)]\<rparr>"
  note u = bio_wfD(2) [OF wf] and hb = held_buf [OF wf h]
  note vw = view_cached [OF u h(1)]
  note sb = same_block [OF u h(1), of ?t ?x]
  have call: "bwrite b s = Inr ?t"
    using hb bio_wfD(4) [OF wf] by (simp add: bwrite_def iderw_def holdingsleep_def Let_def upd_buf_def)
  have other: "b_dev (bcache s c) = 1 \<longrightarrow> b_blockno (bcache s c) \<noteq> n" if "c < NBUF" "c \<noteq> b" for c
    using uniqD [OF u, of c b] that hb by auto
  have wt: "bio_wf pid ?t"
  proof (rule bio_wf_upd [OF wf hb(1), of ?t ?x])
    show "buf_ok pid (disk ?t) (disksize s) (bcache s c)"
      if "c < NBUF" "c \<noteq> b" "buf_ok pid (disk s) (disksize s) (bcache s c)" for c
      using that other [OF that(1,2)] by (auto simp: buf_ok_def)
  qed (use bio_wfD(3,4) [OF wf] bio_wfD(1) [OF wf hb(1)] hb sb(1) in \<open>simp_all add: buf_ok_def\<close>)
  have hd: "held ?t = held s" "dirty ?t = dirty s - {n}" using sb(4,5) hb h(2) by auto
  show ?thesis using call wt sb(2,3) hd vw hb
    by (intro exI [of _ ?t]) (simp add: fun_upd_idem)
qed

text \<open>Two states whose buffers differ in the ring pointers only.\<close>

lemma core_cong:
  assumes "\<And>c. core (bcache t c) = core (bcache s c)" "disk t = disk s"
  shows "holds m c t = holds m c s" "view t = view s" "held t = held s" "dirty t = dirty s" "uniq t = uniq s"
    "buf_ok pid d n (bcache t c) = buf_ok pid d n (bcache s c)"
proof -
  note e = coreD [OF assms(1)]
  show h: "holds m c t = holds m c s" for m c by (simp add: holds_def e)
  show "view t = view s" by (rule ext) (simp add: view_def h e(7) assms(2) split: option.split)
  show "held t = held s" "dirty t = dirty s" by (simp_all add: held_def dirty_def h e)
  show "uniq t = uniq s" by (simp add: uniq_def e)
  show "buf_ok pid d n (bcache t c) = buf_ok pid d n (bcache s c)" by (simp add: buf_ok_def e)
qed

lemma relink_outward:
  "upd_buf b f (s\<lparr>locks := l\<rparr>) = (upd_buf b f s)\<lparr>locks := l\<rparr>"
  "unlink_buf b (s\<lparr>locks := l\<rparr>) = (unlink_buf b s)\<lparr>locks := l\<rparr>"
  "link_front b (s\<lparr>locks := l\<rparr>) = (link_front b s)\<lparr>locks := l\<rparr>"
  "upd_buf b f (s\<lparr>ptable := p\<rparr>) = (upd_buf b f s)\<lparr>ptable := p\<rparr>"
  "unlink_buf b (s\<lparr>ptable := p\<rparr>) = (unlink_buf b s)\<lparr>ptable := p\<rparr>"
  "link_front b (s\<lparr>ptable := p\<rparr>) = (link_front b s)\<lparr>ptable := p\<rparr>"
  by (simp_all add: upd_buf_def unlink_buf_def link_front_def Let_def)

lemma relink_lru:
  assumes "lru xs s" "b < NBUF"
  shows "lru (b # remove1 b xs) (link_front b (unlink_buf b s))"
proof -
  have b: "b \<in> set xs" using assms by (simp add: lru_def)
  then obtain as bs where xs: "xs = as @ b # bs" by (auto dest: split_list)
  have r: "ring (\<lambda>b. b_next (bcache s b)) (\<lambda>b. b_prev (bcache s b)) NBUF (as @ b # bs)" and d: "distinct (NBUF # as @ b # bs)"
    using assms(1) by (auto simp: lru_def ring_def xs)
  have rm: "remove1 b xs = as @ bs" using d by (simp add: xs remove1_append)
  have "ring (\<lambda>c. b_next (bcache (link_front b (unlink_buf b s)) c)) (\<lambda>c. b_prev (bcache (link_front b (unlink_buf b s)) c))
      NBUF (b # as @ bs)"
    by (rule link_front_lru [OF unlink_lru [OF r]]) (use d in auto)
  moreover have "set (b # as @ bs) = {..<NBUF}" using assms(1) xs by (auto simp: lru_def)
  ultimately show ?thesis by (simp add: lru_def rm)
qed

lemma brelse_ok:
  assumes wf: "bio_wf pid s" and h: "holds n b s" "n \<in> held s" and cl: "n \<in> dirty s \<or> view s n = disk s n"
  shows "\<exists>t. brelse b s = Inr t \<and> bio_wf pid t \<and> view t = view s \<and> held t = held s - {n} \<and> dirty t = dirty s \<and>
    (\<forall>m c. holds m c t = holds m c s) \<and> t = s\<lparr>bcache := bcache t, ptable := ptable (wakeup1 (Some (ChBuf b)) s)\<rparr> \<and>
    (\<forall>xs. lru xs s \<longrightarrow> lru (b # remove1 b xs) t)"
proof -
  note u = bio_wfD(2) [OF wf] and hb = held_buf [OF wf h] and lk = bio_wfD(3) [OF wf]
  let ?f = "\<lambda>x. x\<lparr>b_lock := (b_lock x)\<lparr>sl_locked := False, sl_pid := 0\<rparr>, b_refcnt := b_refcnt x - 1\<rparr>"
  let ?pt = "ptable (wakeup1 (Some (ChBuf b)) s)"
  define s1 where "s1 = (upd_buf b ?f s)\<lparr>ptable := ?pt\<rparr>"
  define t where "t = link_front b (unlink_buf b s1)"
  have c1: "bcache s1 = (bcache s)(b := ?f (bcache s b))" "disk s1 = disk s" "disksize s1 = disksize s" "locks s1 = []"
      "curpid s1 = Inr pid"
    using lk bio_wfD(4) [OF wf] by (simp_all add: s1_def curpid_def split: option.splits)
  have w1: "wakeup1 ch (upd_buf b g s) = (upd_buf b g s)\<lparr>ptable := ptable (wakeup1 ch s)\<rparr>" for ch g
    by (simp add: wakeup1_eq cong: if_cong)
  have call: "brelse b s = Inr t"
    using hb lk bio_wfD(4) [OF wf]
    by (simp add: brelse_def holdingsleep_def releasesleep_def wakeup_ok w1 Let_def release_def holding_def
        relink_outward t_def s1_def locks_restore)
  note sb = same_block [OF u h(1) c1(1)]
  have x: "b_dev (?f (bcache s b)) = 1" "b_blockno (?f (bcache s b)) = n" "b_valid (?f (bcache s b))" using hb by simp_all
  have co: "core (bcache t c) = core (bcache s1 c)" for c by (simp add: t_def core_link_front core_unlink)
  have td: "disk t = disk s" "disksize t = disksize s" "locks t = []" by (simp_all add: t_def c1)
  note cc = core_cong [of t s1, OF co]
  have v: "view t = view s" "held t = held s - {n}" "dirty t = dirty s" "holds m c t = holds m c s" for m c
    using cc(1-4) sb(2-5) x td(1) c1(2) view_cached [OF u h(1)] held_iff(2) [OF u h(1)] by (auto simp: fun_upd_idem)
  have ok: "buf_ok pid (disk t) (disksize t) (bcache t c)" if "c < NBUF" for c
    using bio_wfD(1) [OF wf that] hb cl cc(6) td c1(2) view_cached [OF u h(1)] held_iff(2) [OF u h(1)]
    by (cases "c = b") (auto simp: c1(1) buf_ok_def)
  have lr: "lru (b # remove1 b xs) t" if "lru xs s" for xs
  proof -
    have "lru xs s1" using that lru_frame [of s1 s xs] by (simp add: c1(1))
    then show ?thesis unfolding t_def using relink_lru hb(1) by blast
  qed
  have "curpid t = Inr pid" using c1(5) by (simp add: t_def curpid_def split: option.splits)
  then have "bio_wf pid t" using lr bio_wfD(5) [OF wf] cc(5) sb(1) x td(1,3) c1(2) ok by (auto simp: bio_wf_def)
  moreover have "t = s\<lparr>bcache := bcache t, ptable := ?pt\<rparr>"
    by (simp add: t_def s1_def link_front_def unlink_buf_def upd_buf_def Let_def)
  ultimately show ?thesis using call v lr by blast
qed

section \<open>Initialisation\<close>

text \<open>The buffers of a machine that has just started, before and after \<open>binit\<close>.\<close>

definition fresh_buf :: "buf \<Rightarrow> bool" where
  "fresh_buf x \<longleftrightarrow> b_dev x \<noteq> 1 \<and> \<not> b_dirty x \<and> b_refcnt x = 0"

lemma ring_frame: "(\<And>b. nx' b = nx b \<and> pv' b = pv b) \<Longrightarrow> ring nx pv h xs \<Longrightarrow> ring nx' pv' h xs"
  by (simp add: ring_def cong: seg_cong)

lemma link_front_frame: "link_front b s = s\<lparr>bcache := bcache (link_front b s)\<rparr>"
  unfolding link_front_def Let_def by (simp add: upd_buf_def)

lemma binit_loop:
  fixes s :: "'a kbio_scheme" and n :: nat
  defines "t \<equiv> fold (\<lambda>b s. link_front b (upd_buf b (\<lambda>x. x\<lparr>b_lock := initsleeplock\<rparr>) s)) [0..<n]
     (upd_buf NBUF (\<lambda>x. x\<lparr>b_prev := NBUF, b_next := NBUF\<rparr>) s)"
  assumes "n \<le> NBUF"
  shows "ring (\<lambda>b. b_next (bcache t b)) (\<lambda>b. b_prev (bcache t b)) NBUF (rev [0..<n]) \<and>
    (\<forall>c. core (bcache t c) = core (if c < n then (bcache s c)\<lparr>b_lock := initsleeplock\<rparr> else bcache s c)) \<and>
    t = s\<lparr>bcache := bcache t\<rparr>"
  using assms(2) unfolding t_def
proof (induction n)
  case 0
  have "core (bcache (upd_buf NBUF (\<lambda>x. x\<lparr>b_prev := NBUF, b_next := NBUF\<rparr>) s) c) = core (bcache s c)" for c
    by (rule core_upd_buf) (simp only: core_ptr)
  moreover have "upd_buf NBUF f s = s\<lparr>bcache := bcache (upd_buf NBUF f s)\<rparr>" for f by (simp add: upd_buf_def)
  ultimately show ?case by (simp add: ring_def del: upd_buf_sel(1)) simp
next
  case (Suc n)
  define u where "u = fold (\<lambda>b s. link_front b (upd_buf b (\<lambda>x. x\<lparr>b_lock := initsleeplock\<rparr>) s)) [0..<n]
     (upd_buf NBUF (\<lambda>x. x\<lparr>b_prev := NBUF, b_next := NBUF\<rparr>) s)"
  define v where "v = upd_buf n (\<lambda>x. x\<lparr>b_lock := initsleeplock\<rparr>) u"
  have IH: "ring (\<lambda>b. b_next (bcache u b)) (\<lambda>b. b_prev (bcache u b)) NBUF (rev [0..<n])"
    "\<And>c. core (bcache u c) = core (if c < n then (bcache s c)\<lparr>b_lock := initsleeplock\<rparr> else bcache s c)"
    "u = s\<lparr>bcache := bcache u\<rparr>"
    using Suc unfolding u_def by simp_all
  have "ring (\<lambda>b. b_next (bcache v b)) (\<lambda>b. b_prev (bcache v b)) NBUF (rev [0..<n])"
    by (rule ring_frame [OF _ IH(1)]) (simp_all add: v_def)
  then have r: "ring (\<lambda>b. b_next (bcache (link_front n v) b)) (\<lambda>b. b_prev (bcache (link_front n v) b)) NBUF (n # rev [0..<n])"
    by (rule link_front_lru) (use Suc.prems in auto)
  have "core (bcache (link_front n v) c) = core (if c < Suc n then (bcache s c)\<lparr>b_lock := initsleeplock\<rparr> else bcache s c)" for c
  proof (cases "c = n")
    case True
    have "core (x\<lparr>b_lock := l\<rparr>) = (core x)\<lparr>b_lock := l\<rparr>" for x l by (simp add: core_def)
    then show ?thesis using True IH(2) [of n] by (simp add: core_link_front v_def)
  next
    case False
    then show ?thesis using IH(2) [of c] by (auto simp: core_link_front v_def less_Suc_eq)
  qed
  moreover have "link_front n v = s\<lparr>bcache := bcache (link_front n v)\<rparr>"
  proof -
    have 1: "link_front n v = v\<lparr>bcache := bcache (link_front n v)\<rparr>" by (rule link_front_frame)
    have 2: "v = u\<lparr>bcache := bcache v\<rparr>" unfolding v_def by (simp add: upd_buf_def)
    show ?thesis by (subst 1, subst 2, subst IH(3)) simp
  qed
  ultimately show ?case using r by (simp add: u_def [symmetric] v_def [symmetric])
qed

lemma binit_ok:
  assumes "\<forall>b < NBUF. fresh_buf (bcache s b)" "locks s = []" "curpid s = Inr pid"
  shows "bio_wf pid (binit s)" "lru (rev [0..<NBUF]) (binit s)" "held (binit s) = {}" "dirty (binit s) = {}"
    "view (binit s) = disk s" "binit s = s\<lparr>bcache := bcache (binit s)\<rparr>"
proof -
  have b: "ring (\<lambda>b. b_next (bcache (binit s) b)) (\<lambda>b. b_prev (bcache (binit s) b)) NBUF (rev [0..<NBUF])"
     "\<And>c. core (bcache (binit s) c) = core (if c < NBUF then (bcache s c)\<lparr>b_lock := initsleeplock\<rparr> else bcache s c)"
     "binit s = s\<lparr>bcache := bcache (binit s)\<rparr>"
    using binit_loop [OF order_refl, of s] by (simp_all add: binit_def)
  show "binit s = s\<lparr>bcache := bcache (binit s)\<rparr>" by (rule b(3))
  show l: "lru (rev [0..<NBUF]) (binit s)" using b(1) by (auto simp: lru_def)
  have fr: "fresh_buf (bcache (binit s) c) \<and> b_lock (bcache (binit s) c) = initsleeplock" if "c < NBUF" for c
    using coreD [OF b(2), of c] assms(1) that by (auto simp: fresh_buf_def)
  have no: "\<not> holds m c (binit s)" for m c using fr by (auto simp: holds_def fresh_buf_def)
  then show "held (binit s) = {}" "dirty (binit s) = {}" by (simp_all add: held_def dirty_def)
  have d: "disk (binit s) = disk s" "locks (binit s) = locks s" "curpid (binit s) = curpid s" by (subst b(3), simp)+
  show "view (binit s) = disk s" using view_uncached [of _ "binit s"] no d(1) by auto
  have "{b. b < NBUF \<and> b_dev (bcache (binit s) b) = 1} = {}" using fr by (auto simp: fresh_buf_def)
  then have "uniq (binit s)" unfolding uniq_def by (simp only: inj_on_empty)
  moreover have "buf_ok pid dd n (bcache (binit s) c)" if "c < NBUF" for c n dd
    using fr [OF that] by (auto simp: buf_ok_def fresh_buf_def initsleeplock_def)
  ultimately show "bio_wf pid (binit s)" using l d assms(2,3) by (auto simp: bio_wf_def)
qed

text \<open>A machine whose only process runs, with a disk \<open>d\<close> of \<open>n\<close> blocks and an empty cache.\<close>

definition boot_kbio :: "(nat \<Rightarrow> block) \<Rightarrow> nat \<Rightarrow> kbio" where
  "boot_kbio d n = (kvm.extend (kmem.extend (boot_kmem KERNBASE) (kvm.fields 0 0 0 0))
     (kbio.fields (\<lambda>_. zero_buf) d n []))\<lparr>myproc := Some 0\<rparr>"

lemma boot_kbio_sel [simp]:
  "bcache (boot_kbio d n) = (\<lambda>_. zero_buf)" "disk (boot_kbio d n) = d" "disksize (boot_kbio d n) = n"
  "locks (boot_kbio d n) = []" "curpid (boot_kbio d n) = Inr 0" "dtrace (boot_kbio d n) = []"
  by (simp_all add: boot_kbio_def boot_kmem_def kproc.defs kmem.defs kvm.defs kbio.defs boot_kproc_def curpid_def zero_proc_def)

lemma zero_buf_fresh [simp]: "fresh_buf zero_buf"
  by (simp add: fresh_buf_def zero_buf_def)

lemmas boot_binit = binit_ok [of "boot_kbio d n" 0 for d n, simplified]

text \<open>The same machine when every buffer holds a dirty block.\<close>

definition all_dirty :: kbio where
  "all_dirty = (binit (boot_kbio (\<lambda>_ _. 0) 100))\<lparr>bcache := \<lambda>b. (bcache (binit (boot_kbio (\<lambda>_ _. 0) 100)) b)
     \<lparr>b_valid := True, b_dirty := True, b_dev := 1, b_blockno := b, b_lock := initsleeplock, b_refcnt := 0\<rparr>\<rparr>"

lemma all_dirty_wf: "bio_wf 0 all_dirty"
proof -
  have f: "binit (boot_kbio (\<lambda>_ _. 0) 100) = (boot_kbio (\<lambda>_ _. 0) 100)\<lparr>bcache := bcache (binit (boot_kbio (\<lambda>_ _. 0) 100))\<rparr>"
    by (rule boot_binit(6))
  have "lru (rev [0..<NBUF]) all_dirty"
    using lru_frame [of all_dirty "binit (boot_kbio (\<lambda>_ _. 0) 100)"] boot_binit(2) by (simp add: all_dirty_def)
  moreover have "uniq all_dirty" unfolding uniq_def all_dirty_def by (rule inj_onI) simp
  moreover have "locks all_dirty = []" "curpid all_dirty = Inr 0" "disksize all_dirty = 100"
    unfolding all_dirty_def by (subst f, simp)+
  moreover have "b < NBUF \<Longrightarrow> buf_ok 0 d 100 (bcache all_dirty b)" for b d
    by (simp add: all_dirty_def buf_ok_def initsleeplock_def params)
  ultimately show ?thesis unfolding bio_wf_def by auto
qed

section \<open>Properties\<close>

text \<open>
  \<open>binit\<close> links every buffer into the ring, the last one initialised first, and the
  cache it leaves is well formed and shows the contents of the disk.
\<close>

theorem binit_correct:
  assumes "\<forall>b < NBUF. fresh_buf (bcache s b)" "locks s = []" "curpid s = Inr pid"
  shows "lru (rev [0..<NBUF]) (binit s) \<and> bio_wf pid (binit s) \<and> view (binit s) = disk s"
  using binit_ok [OF assms] by simp

theorem binit_correct_witness:
  "bio_wf 0 (binit (boot_kbio (\<lambda>_ _. 7) 100)) \<and> view (binit (boot_kbio (\<lambda>_ _. 7) 100)) 5 3 = 7"
  using binit_correct [of "boot_kbio (\<lambda>_ _. 7) 100" 0] by simp

text \<open>
  C19. \<open>bread\<close> of a block no one holds, with a buffer to spare, returns a locked buffer with
  the contents of the block (the cached ones if it is cached, the disk's otherwise), and
  neither it nor the recycling of a buffer changes the contents of any block; releasing the
  buffer gives it up and moves it to the front of the ring.
\<close>

theorem bread_brelse_correct:
  assumes wf: "bio_wf pid s" and n: "n < disksize s" "n \<notin> held s" and room: "0 < room s"
  shows "\<exists>b t u. bread 1 n s = Inr (b, t) \<and> bio_wf pid t \<and> b_data (bcache t b) = view s n \<and>
    held t = insert n (held s) \<and> view t = view s \<and> disk t = disk s \<and>
    brelse b t = Inr u \<and> bio_wf pid u \<and> held u = held s \<and> view u = view s \<and> disk u = disk s \<and>
    (\<forall>xs. lru xs t \<longrightarrow> lru (b # remove1 b xs) u)"
proof -
  obtain b t where t: "bread 1 n s = Inr (b, t)" "bio_wf pid t" "holds n b t" "b_data (bcache t b) = view s n"
      "view t = view s" "held t = insert n (held s)" "dirty t = dirty s" "t = s\<lparr>bcache := bcache t\<rparr>"
    using bread_ok [OF wf n disjI2 [OF room]] by blast
  have d: "disk t = disk s" by (subst t(8)) simp
  have "n \<in> dirty t \<or> view t n = disk t n" using t(5,7) d view_clean [OF wf n(2)] by auto
  moreover have "n \<in> held t" using t(6) by simp
  ultimately obtain u where u: "brelse b t = Inr u" "bio_wf pid u" "view u = view t" "held u = held t - {n}"
      "u = t\<lparr>bcache := bcache u, ptable := ptable (wakeup1 (Some (ChBuf b)) t)\<rparr>"
      "\<forall>xs. lru xs t \<longrightarrow> lru (b # remove1 b xs) u"
    using brelse_ok [OF t(2,3)] by blast
  have "disk u = disk t" by (subst u(5)) simp
  then show ?thesis using t u d n(2) by (intro exI [of _ b] exI [of _ t] exI [of _ u]) auto
qed

theorem bread_brelse_correct_witness:
  "\<exists>b t u. bread 1 5 (binit (boot_kbio (\<lambda>_ _. 7) 100)) = Inr (b, t) \<and> b_data (bcache t b) 3 = 7 \<and>
     brelse b t = Inr u \<and> held u = {}"
proof -
  let ?s = "binit (boot_kbio (\<lambda>_ _. 7) 100)"
  have "disksize ?s = 100" by (subst boot_binit(6)) simp
  moreover have "0 < room ?s" by (simp add: room_def boot_binit(3,4) params)
  ultimately show ?thesis
    using bread_brelse_correct [of 0 ?s 5] boot_binit(1,3,5) by auto
qed

text \<open>
  When every buffer is locked or dirty and the block is not cached, \<open>bread\<close> panics:
  a transaction that has dirtied all \<open>NBUF\<close> buffers cannot read another block.
\<close>

theorem bread_no_buffers:
  assumes wf: "bio_wf pid s" and busy: "\<forall>b < NBUF. b_refcnt (bcache s b) \<noteq> 0 \<or> b_dirty (bcache s b)"
    and new: "\<forall>b < NBUF. b_dev (bcache s b) = 1 \<longrightarrow> b_blockno (bcache s b) \<noteq> n"
  shows "bread 1 n s = Inl (Kpanic ''bget: no buffers'')"
proof -
  obtain xs where xs: "lru xs s" using wf by (auto simp: bio_wf_def)
  then have lk: "lru xs (s\<lparr>locks := [Lbcache]\<rparr>)" by (simp add: lru_def)
  have "find (\<lambda>b. b_dev (bcache s b) = 1 \<and> b_blockno (bcache s b) = n) xs = None"
    "find (\<lambda>b. b_refcnt (bcache s b) = 0 \<and> \<not> b_dirty (bcache s b)) (rev xs) = None"
    using busy new xs by (auto simp: find_None_iff lru_def)
  then show ?thesis using bget_scan(1) [OF lk, of 1 n] bget_scan(2) [OF lk] bio_wfD(3) [OF wf]
    by (simp add: bread_def bget_def)
qed

theorem bread_no_buffers_witness: "bread 1 77 all_dirty = Inl (Kpanic ''bget: no buffers'')"
proof -
  have "b \<noteq> 77" if "b < NBUF" for b using that by (auto simp: params)
  then show ?thesis using bread_no_buffers [OF all_dirty_wf, of 77] by (simp add: all_dirty_def)
qed

end
