(* ===== verification/Log.thy ===== *)
theory Log
  imports Bio
begin

text \<open>
  The write-ahead log (\<^verbatim>\<open>log.c\<close>) with its delayed commit and \<^verbatim>\<open>sync\<close>, over the buffer cache.
  The log occupies the blocks \<open>lg_start ..< lg_start + lg_size\<close>: the header first, then the
  logged blocks. \<open>lg_n\<close> and \<open>lg_block\<close> are \<^verbatim>\<open>log.lh\<close>; the on-disk header is read and written
  through the little-endian words of the block. The part on recovery follows the disk
  writes recorded by the ghost \<open>dtrace\<close>: a crash after any of them leaves the disk with a
  prefix of the writes applied.
\<close>

section \<open>State\<close>

record superblock =
  sb_size :: "32 word"
  sb_nblocks :: "32 word"
  sb_ninodes :: "32 word"
  sb_nlog :: "32 word"
  sb_logstart :: "32 word"
  sb_inodestart :: "32 word"
  sb_bmapstart :: "32 word"

record klog = kbio +
  lg_start :: nat
  lg_size :: int
  lg_outstanding :: int
  lg_committing :: bool
  lg_dev :: nat
  lg_n :: int
  lg_block :: "nat \<Rightarrow> nat"

section \<open>The code\<close>

text \<open>\<open>readsb\<close> of \<^verbatim>\<open>fs.c\<close>, which \<open>initlog\<close> calls.\<close>

definition sb_of_bytes :: "block \<Rightarrow> superblock" where
  "sb_of_bytes d = \<lparr>sb_size = rd32 0 d, sb_nblocks = rd32 4 d, sb_ninodes = rd32 8 d, sb_nlog = rd32 12 d,
     sb_logstart = rd32 16 d, sb_inodestart = rd32 20 d, sb_bmapstart = rd32 24 d\<rparr>"

definition readsb :: "nat \<Rightarrow> 'a kbio_scheme \<Rightarrow> (superblock \<times> 'a kbio_scheme) res" where
  "readsb dev s =
     bindR (bread dev 1 s) (\<lambda>(bp, s).
     let sb = sb_of_bytes (b_data (bcache s bp))
     in bindR (brelse bp s) (\<lambda>s. Inr (sb, s)))"

text \<open>The body of \<open>install_trans\<close>: copy a log block to its home location.\<close>

definition install_one :: "nat \<Rightarrow> 'a klog_scheme \<Rightarrow> 'a klog_scheme res" where
  "install_one tail s =
     bindR (bread (lg_dev s) (lg_start s + tail + 1) s) (\<lambda>(lbuf, s).
     bindR (bread (lg_dev s) (lg_block s tail) s) (\<lambda>(dbuf, s).
     bindR (bwrite dbuf (set_data dbuf (b_data (bcache s lbuf)) s)) (\<lambda>s.
     bindR (brelse lbuf s) (brelse dbuf))))"

definition install_trans :: "'a klog_scheme \<Rightarrow> 'a klog_scheme res" where
  "install_trans s = foldR install_one [0..<nat (lg_n s)] s"

text \<open>A header with more than \<open>LOGSIZE\<close> entries would be copied past the end of \<^verbatim>\<open>log.lh.block\<close>.\<close>

definition read_head :: "'a klog_scheme \<Rightarrow> 'a klog_scheme res" where
  "read_head s =
     bindR (bread (lg_dev s) (lg_start s) s) (\<lambda>(bp, s).
     let lh = b_data (bcache s bp); n = sint (rd32 0 lh) in
     if n > int LOGSIZE then Inl OutOfBounds
     else brelse bp (s\<lparr>lg_n := n,
            lg_block := \<lambda>i. if int i < n then unat (rd32 (4 + 4 * i) lh) else lg_block s i\<rparr>))"

definition head_bytes :: "int \<Rightarrow> (nat \<Rightarrow> nat) \<Rightarrow> block \<Rightarrow> block" where
  "head_bytes n blk d =
     fold (\<lambda>i d. wr32 (4 + 4 * i) (word_of_nat (blk i)) d) [0..<nat n] (wr32 0 (word_of_int n) d)"

definition write_head :: "'a klog_scheme \<Rightarrow> 'a klog_scheme res" where
  "write_head s =
     bindR (bread (lg_dev s) (lg_start s) s) (\<lambda>(bp, s).
     bindR (bwrite bp (set_data bp (head_bytes (lg_n s) (lg_block s) (b_data (bcache s bp))) s)) (brelse bp))"

definition recover_from_log :: "'a klog_scheme \<Rightarrow> 'a klog_scheme res" where
  "recover_from_log s =
     bindR (read_head s) (\<lambda>s.
     bindR (install_trans s) (\<lambda>s. write_head (s\<lparr>lg_n := 0\<rparr>)))"

definition initlog :: "nat \<Rightarrow> 'a klog_scheme \<Rightarrow> 'a klog_scheme res" where
  "initlog dev s =
     (if 4 + 4 * LOGSIZE \<ge> BSIZE then Inl (Kpanic ''initlog: too big logheader'')
      else bindR (readsb dev s) (\<lambda>(sb, s).
        recover_from_log (s\<lparr>lg_start := unat (sb_logstart sb), lg_size := sint (sb_nlog sb), lg_dev := dev\<rparr>)))"

text \<open>\<open>begin_op\<close> waits, here the fault \<open>WouldSleep\<close>, while a commit runs or the log might overflow.\<close>

definition begin_op :: "'a klog_scheme \<Rightarrow> 'a klog_scheme res" where
  "begin_op s =
     bindR (acquire Llog s) (\<lambda>s.
     if lg_committing s then Inl WouldSleep
     else if lg_n s + (lg_outstanding s + 1) * int MAXOPBLOCKS > int LOGSIZE then Inl WouldSleep
     else release Llog (s\<lparr>lg_outstanding := lg_outstanding s + 1\<rparr>))"

definition write_log_one :: "nat \<Rightarrow> 'a klog_scheme \<Rightarrow> 'a klog_scheme res" where
  "write_log_one tail s =
     bindR (bread (lg_dev s) (lg_start s + tail + 1) s) (\<lambda>(to, s).
     bindR (bread (lg_dev s) (lg_block s tail) s) (\<lambda>(from, s).
     bindR (bwrite to (set_data to (b_data (bcache s from)) s)) (\<lambda>s.
     bindR (brelse from s) (brelse to))))"

definition write_log :: "'a klog_scheme \<Rightarrow> 'a klog_scheme res" where
  "write_log s = foldR write_log_one [0..<nat (lg_n s)] s"

definition commit :: "'a klog_scheme \<Rightarrow> 'a klog_scheme res" where
  "commit s =
     (if lg_n s > 0 then
        bindR (write_log s) (\<lambda>s.
        bindR (write_head s) (\<lambda>s.
        bindR (install_trans s) (\<lambda>s. write_head (s\<lparr>lg_n := 0\<rparr>))))
      else Inr s)"

definition end_op :: "'a klog_scheme \<Rightarrow> 'a klog_scheme res" where
  "end_op s =
     bindR (acquire Llog s) (\<lambda>s.
     let s = s\<lparr>lg_outstanding := lg_outstanding s - 1\<rparr> in
     if lg_committing s then Inl (Kpanic ''log.committing'')
     else if lg_outstanding s = 0 \<and> lg_n s > lg_size s div 2 then
       bindR (release Llog (s\<lparr>lg_committing := True\<rparr>)) (\<lambda>s.
       bindR (commit s) (\<lambda>s.
       bindR (acquire Llog s) (\<lambda>s.
       bindR (wakeup (Some ChLog) (s\<lparr>lg_committing := False\<rparr>)) (release Llog))))
     else bindR (wakeup (Some ChLog) s) (release Llog))"

definition log_write :: "nat \<Rightarrow> 'a klog_scheme \<Rightarrow> 'a klog_scheme res" where
  "log_write b s =
     (if lg_n s \<ge> int LOGSIZE \<or> lg_n s \<ge> lg_size s - 1 then Inl (Kpanic ''too big a transaction'')
      else if lg_outstanding s < 1 then Inl (Kpanic ''log_write outside of trans'')
      else
        bindR (acquire Llog s) (\<lambda>s.
        let i = (case find (\<lambda>i. lg_block s i = b_blockno (bcache s b)) [0..<nat (lg_n s)] of
                   Some i \<Rightarrow> i | None \<Rightarrow> nat (lg_n s));
            s = s\<lparr>lg_n := (if i = nat (lg_n s) then lg_n s + 1 else lg_n s),
                  lg_block := (lg_block s)(i := b_blockno (bcache s b))\<rparr>
        in release Llog (set_dirty b s)))"

definition sys_sync :: "'a klog_scheme \<Rightarrow> (int \<times> 'a klog_scheme) res" where
  "sys_sync s = bindR (commit s) (\<lambda>s. Inr (if lg_n s = 0 then 0 else - 1, s))"

definition sys_get_log_num :: "'a klog_scheme \<Rightarrow> int" where
  "sys_get_log_num s = lg_n s"

section \<open>What an operation of the cache may change\<close>

definition bio_step :: "'a kbio_scheme \<Rightarrow> 'a kbio_scheme \<Rightarrow> bool" where
  "bio_step s t \<longleftrightarrow> t = s\<lparr>ptable := ptable t, bcache := bcache t, disk := disk t, dtrace := dtrace t\<rparr>"

lemma bio_step_refl [simp]: "bio_step s s"
  by (simp add: bio_step_def)

lemma bio_step_trans: "bio_step s t \<Longrightarrow> bio_step t u \<Longrightarrow> bio_step s u"
proof -
  assume 1: "bio_step s t" and 2: "bio_step t u"
  have "u = (s\<lparr>ptable := ptable t, bcache := bcache t, disk := disk t, dtrace := dtrace t\<rparr>)
      \<lparr>ptable := ptable u, bcache := bcache u, disk := disk u, dtrace := dtrace u\<rparr>"
    using 1 [unfolded bio_step_def] 2 [unfolded bio_step_def] by (rule subst)
  then show ?thesis unfolding bio_step_def by simp
qed

lemma bio_stepI:
  "t = s\<lparr>bcache := c\<rparr> \<Longrightarrow> bio_step s t"
  "t = s\<lparr>bcache := c, disk := d, dtrace := e\<rparr> \<Longrightarrow> bio_step s t"
  "t = s\<lparr>bcache := c, ptable := p\<rparr> \<Longrightarrow> bio_step s t"
  by (simp_all add: bio_step_def)

lemma bio_step_sel:
  assumes "bio_step s t"
  shows "disksize t = disksize s" "locks t = locks s" "myproc t = myproc s" "mem t = mem s" "freelist t = freelist s"
  by (subst assms [unfolded bio_step_def], simp)+

lemma bio_step_log:
  fixes s t :: "'a klog_scheme"
  assumes "bio_step s t"
  shows "lg_start t = lg_start s" "lg_size t = lg_size s" "lg_outstanding t = lg_outstanding s"
    "lg_committing t = lg_committing s" "lg_dev t = lg_dev s" "lg_n t = lg_n s" "lg_block t = lg_block s"
  by (subst assms [unfolded bio_step_def], simp)+

text \<open>The observations of the cache depend on its own fields only.\<close>

lemma obs_cong:
  assumes "bcache t = bcache s" "disk t = disk s"
  shows "held t = held s" "view t = view s" "dirty t = dirty s" "room t = room s" "holds n b t = holds n b s"
  using assms by (auto simp: held_def dirty_def room_def holds_def view_def intro!: ext cong: option.case_cong)

lemma bio_wf_cong:
  assumes "bcache t = bcache s" "disk t = disk s" "disksize t = disksize s" "locks t = locks s" "curpid t = curpid s"
  shows "bio_wf pid t = bio_wf pid s"
  using assms by (simp add: bio_wf_def lru_def uniq_def)

lemma curpid_log [simp]:
  fixes s :: "'a klog_scheme"
  shows "curpid (s\<lparr>lg_n := k\<rparr>) = curpid s" "curpid (s\<lparr>lg_block := k'\<rparr>) = curpid s"
    "curpid (s\<lparr>lg_outstanding := k\<rparr>) = curpid s" "curpid (s\<lparr>lg_committing := c\<rparr>) = curpid s"
  by (simp_all add: curpid_def split: option.split)

lemma obs_log [simp]:
  fixes s :: "'a klog_scheme"
  shows "bio_wf pid (s\<lparr>lg_n := k\<rparr>) = bio_wf pid s" "held (s\<lparr>lg_n := k\<rparr>) = held s" "view (s\<lparr>lg_n := k\<rparr>) = view s"
    "dirty (s\<lparr>lg_n := k\<rparr>) = dirty s" "room (s\<lparr>lg_n := k\<rparr>) = room s" "holds n b (s\<lparr>lg_n := k\<rparr>) = holds n b s"
    "bio_wf pid (s\<lparr>lg_block := k'\<rparr>) = bio_wf pid s" "held (s\<lparr>lg_block := k'\<rparr>) = held s"
    "view (s\<lparr>lg_block := k'\<rparr>) = view s" "dirty (s\<lparr>lg_block := k'\<rparr>) = dirty s" "room (s\<lparr>lg_block := k'\<rparr>) = room s"
    "holds n b (s\<lparr>lg_block := k'\<rparr>) = holds n b s"
    "bio_wf pid (s\<lparr>lg_outstanding := k\<rparr>) = bio_wf pid s" "held (s\<lparr>lg_outstanding := k\<rparr>) = held s"
    "view (s\<lparr>lg_outstanding := k\<rparr>) = view s" "dirty (s\<lparr>lg_outstanding := k\<rparr>) = dirty s"
    "bio_wf pid (s\<lparr>lg_committing := c\<rparr>) = bio_wf pid s" "held (s\<lparr>lg_committing := c\<rparr>) = held s"
    "view (s\<lparr>lg_committing := c\<rparr>) = view s" "dirty (s\<lparr>lg_committing := c\<rparr>) = dirty s"
  by (rule bio_wf_cong obs_cong; simp)+

section \<open>Sequences of disk writes\<close>

definition apply_writes :: "(nat \<times> block) list \<Rightarrow> (nat \<Rightarrow> block) \<Rightarrow> nat \<Rightarrow> block" where
  "apply_writes ws d = fold (\<lambda>(n, x) d. d(n := x)) ws d"

lemma apply_writes_simps [simp]:
  "apply_writes [] d = d" "apply_writes ((n, x) # ws) d = apply_writes ws (d(n := x))"
  "apply_writes (ws @ vs) d = apply_writes vs (apply_writes ws d)"
  by (simp_all add: apply_writes_def)

lemma apply_writes_other: "n \<notin> fst ` set ws \<Longrightarrow> apply_writes ws d n = d n"
  by (induction ws arbitrary: d) auto

lemma apply_writes_map:
  assumes "inj_on f (set xs)" "x \<in> set xs" "distinct xs"
  shows "apply_writes (map (\<lambda>i. (f i, g i)) xs) d (f x) = g x"
  using assms
proof (induction xs arbitrary: d)
  case (Cons a xs)
  have a: "f a \<notin> f ` set xs" using Cons.prems by (auto simp: inj_on_def)
  show ?case
  proof (cases "x = a")
    case True
    have "f a \<notin> fst ` set (map (\<lambda>i. (f i, g i)) xs)" using a by auto
    then show ?thesis using True by (simp add: apply_writes_other)
  next
    case False
    then show ?thesis using Cons by (simp add: inj_on_def)
  qed
qed simp

text \<open>\<open>wrote pid ws s t\<close>: from \<open>s\<close> to \<open>t\<close> exactly the blocks of \<open>ws\<close> were written, in that order.\<close>

definition wrote :: "int \<Rightarrow> (nat \<times> block) list \<Rightarrow> 'a kbio_scheme \<Rightarrow> 'a kbio_scheme \<Rightarrow> bool" where
  "wrote pid ws s t \<longleftrightarrow> bio_wf pid t \<and> held t = {} \<and> view t = apply_writes ws (view s) \<and>
     disk t = apply_writes ws (disk s) \<and> dtrace t = dtrace s @ ws \<and> dirty t = dirty s - fst ` set ws \<and> bio_step s t"

lemma wrote_refl: "bio_wf pid s \<Longrightarrow> held s = {} \<Longrightarrow> wrote pid [] s s"
  by (simp add: wrote_def)

lemma wrote_trans: "wrote pid ws s t \<Longrightarrow> wrote pid vs t u \<Longrightarrow> wrote pid (ws @ vs) s u"
  by (auto simp: wrote_def intro: bio_step_trans)

lemma wrote_loop:
  assumes "bio_wf pid s" "held s = {}"
    and step: "\<And>i u. i < m \<Longrightarrow> wrote pid (map w [0..<i]) s u \<Longrightarrow> \<exists>t. f i u = Inr t \<and> wrote pid [w i] u t"
  shows "\<exists>t. foldR f [0..<m] s = Inr t \<and> wrote pid (map w [0..<m]) s t"
  using step
proof (induction m)
  case 0
  then show ?case using wrote_refl assms by simp
next
  case (Suc m)
  then obtain u where u: "foldR f [0..<m] s = Inr u" "wrote pid (map w [0..<m]) s u" by fastforce
  then obtain t where "f m u = Inr t" "wrote pid [w m] u t" using Suc.prems [of m u] by auto
  then show ?case using u wrote_trans [of pid _ s u "[w m]" t] by (simp add: foldR_append)
qed

text \<open>The two loops of the log copy one block onto another.\<close>

lemma room_read: "0 < room s \<longleftrightarrow> card (held s \<union> dirty s) < NBUF"
  by (auto simp: room_def)

lemma write_held:
  assumes wf: "bio_wf pid s" and h: "holds n b s" "n \<in> held s"
  shows "\<exists>t. bwrite b (set_data b d s) = Inr t \<and> bio_wf pid t \<and> view t = (view s)(n := d) \<and> held t = held s \<and>
    dirty t = dirty s - {n} \<and> disk t = (disk s)(n := d) \<and> dtrace t = dtrace s @ [(n, d)] \<and>
    (\<forall>m c. holds m c t = holds m c s) \<and> bio_step s t"
proof -
  note sd = set_data_ok [OF wf h, where d = d]
  have h': "holds n b (set_data b d s)" "n \<in> held (set_data b d s)" using sd h by auto
  obtain t where t: "bwrite b (set_data b d s) = Inr t" "bio_wf pid t" "view t = view (set_data b d s)"
      "held t = held (set_data b d s)" "dirty t = dirty (set_data b d s) - {n}"
      "disk t = (disk (set_data b d s))(n := view (set_data b d s) n)"
      "dtrace t = dtrace (set_data b d s) @ [(n, view (set_data b d s) n)]"
      "\<forall>m c. holds m c t = holds m c (set_data b d s)"
      "t = (set_data b d s)\<lparr>bcache := bcache t, disk := disk t, dtrace := dtrace t\<rparr>"
    using bwrite_ok [OF sd(1) h'] by blast
  have "bio_step s (set_data b d s)" by (simp add: set_data_def upd_buf_def bio_step_def)
  then have "bio_step s t" using bio_stepI(2) [OF t(9)] by (rule bio_step_trans)
  moreover have "disk (set_data b d s) = disk s" "dtrace (set_data b d s) = dtrace s" by (simp_all add: set_data_def)
  ultimately show ?thesis using t sd by (intro exI [of _ t]) simp
qed

text \<open>Two blocks are read, in either order.\<close>

lemma bread_both:
  assumes wf: "bio_wf pid s" and none: "held s = {}" and ne: "x \<noteq> y" and lt: "x < disksize s" "y < disksize s"
    and room: "x \<in> dirty s \<or> card (dirty s) < NBUF" "y \<in> dirty s \<or> card (insert x (dirty s)) < NBUF"
  shows "\<exists>X Y t u. bread 1 x s = Inr (X, t) \<and> bread 1 y t = Inr (Y, u) \<and> bio_step s t \<and> bio_step s u \<and> bio_wf pid u \<and>
    holds x X u \<and> holds y Y u \<and> held u = {x, y} \<and> view u = view s \<and> dirty u = dirty s \<and> disk u = disk s \<and>
    dtrace u = dtrace s"
proof -
  have "x \<in> dirty s \<or> 0 < room s" using room(1) by (simp add: room_read none)
  then obtain X t where t: "bread 1 x s = Inr (X, t)" "bio_wf pid t" "holds x X t" "view t = view s"
      "held t = {x}" "dirty t = dirty s" "t = s\<lparr>bcache := bcache t\<rparr>"
    using bread_ok [OF wf lt(1)] none by auto
  have f: "disksize t = disksize s" "disk t = disk s" "dtrace t = dtrace s" by (subst t(7), simp)+
  have "y \<in> dirty t \<or> 0 < room t" using room(2) by (simp add: room_read t(5,6))
  moreover have "y < disksize t" "y \<notin> held t" using lt ne f t(5) by auto
  ultimately obtain Y u where u: "bread 1 y t = Inr (Y, u)" "bio_wf pid u" "holds y Y u" "view u = view t"
      "held u = insert y (held t)" "dirty u = dirty t" "u = t\<lparr>bcache := bcache u\<rparr>"
      "\<forall>m c. holds m c t \<and> m \<in> held t \<longrightarrow> bcache u c = bcache t c"
    using bread_ok [OF t(2), of y] by blast
  have g: "disk u = disk t" "dtrace u = dtrace t" by (subst u(7), simp)+
  have "bcache u X = bcache t X" using u(8) t(3,5) by blast
  then have "holds x X u" using t(3) by (simp add: holds_def)
  moreover have st: "bio_step s t" using t(7) by (rule bio_stepI(1))
  moreover have "bio_step s u" using st bio_stepI(1) [OF u(7)] by (rule bio_step_trans)
  ultimately show ?thesis using t u f g by (intro exI [of _ X] exI [of _ Y] exI [of _ t] exI [of _ u]) auto
qed

text \<open>One of them is copied onto the other and both are released.\<close>

lemma copy_held:
  assumes wf: "bio_wf pid u" and h: "holds to A u" "holds from C u" "held u = {to, from}" "to \<noteq> from"
    and cl: "from \<in> dirty u \<or> view u from = disk u from"
  shows "\<exists>t. bindR (bwrite A (set_data A (b_data (bcache u C)) u)) (\<lambda>s. bindR (brelse C s) (brelse A)) = Inr t \<and>
    wrote pid [(to, view u from)] u t"
proof -
  have d: "b_data (bcache u C) = view u from" using view_cached [OF bio_wfD(2) [OF wf] h(2)] by simp
  have in': "to \<in> held u" using h(3) by simp
  obtain v where v: "bwrite A (set_data A (b_data (bcache u C)) u) = Inr v" "bio_wf pid v"
      "view v = (view u)(to := view u from)" "held v = held u" "dirty v = dirty u - {to}"
      "disk v = (disk u)(to := view u from)" "dtrace v = dtrace u @ [(to, view u from)]"
      "\<forall>m c. holds m c v = holds m c u" "bio_step u v"
    using write_held [OF wf h(1) in', of "view u from"] unfolding d by blast
  have "holds from C v" "from \<in> held v" "from \<in> dirty v \<or> view v from = disk v from" using v h cl by auto
  then obtain w where w: "brelse C v = Inr w" "bio_wf pid w" "view w = view v" "held w = held v - {from}"
      "dirty w = dirty v" "\<forall>m c. holds m c w = holds m c v"
      "w = v\<lparr>bcache := bcache w, ptable := ptable (wakeup1 (Some (ChBuf C)) v)\<rparr>"
    using brelse_ok [OF v(2), of "from" C] by blast
  have fw: "disk w = disk v" "dtrace w = dtrace v" by (subst w(7), simp)+
  have "holds to A w" "to \<in> held w" "to \<in> dirty w \<or> view w to = disk w to" using v w h fw by auto
  then obtain x where x: "brelse A w = Inr x" "bio_wf pid x" "view x = view w" "held x = held w - {to}"
      "dirty x = dirty w" "x = w\<lparr>bcache := bcache x, ptable := ptable (wakeup1 (Some (ChBuf A)) w)\<rparr>"
    using brelse_ok [OF w(2), of to A] by blast
  have fx: "disk x = disk w" "dtrace x = dtrace w" by (subst x(6), simp)+
  have "bio_step u x" using v(9) bio_stepI(3) [OF w(7)] bio_stepI(3) [OF x(6)] by (blast intro: bio_step_trans)
  moreover have "held x = {}" using x w v h by auto
  ultimately show ?thesis using v w x fx fw by (intro exI [of _ x]) (auto simp: wrote_def)
qed

lemma wrote_step:
  assumes "bio_step s u" "view u = view s" "dirty u = dirty s" "disk u = disk s" "dtrace u = dtrace s" "wrote pid ws u t"
  shows "wrote pid ws s t"
  using assms by (auto simp: wrote_def intro: bio_step_trans)

section \<open>The header\<close>


lemma head_n: "- (2 ^ 31) \<le> n \<Longrightarrow> n < 2 ^ 31 \<Longrightarrow> sint (rd32 0 (head_bytes n blk d)) = n"
proof -
  assume n: "- (2 ^ 31) \<le> n" "n < 2 ^ 31"
  have "rd32 0 (fold (\<lambda>i d. wr32 (4 + 4 * i) (word_of_nat (blk i)) d) [0..<m] d) = rd32 0 d" for m d
    by (induction m) (simp_all add: rd32_wr32_other)
  then have "rd32 0 (head_bytes n blk d) = word_of_int n" by (simp add: head_bytes_def)
  then show ?thesis using n by (simp add: sint_sbintrunc' signed_take_bit_int_eq_self)
qed

lemma head_block: "i < nat n \<Longrightarrow> blk i < 2 ^ 32 \<Longrightarrow> unat (rd32 (4 + 4 * i) (head_bytes n blk d)) = blk i"
proof -
  assume i: "i < nat n" "blk i < 2 ^ 32"
  have "i < m \<Longrightarrow> rd32 (4 + 4 * i) (fold (\<lambda>i d. wr32 (4 + 4 * i) (word_of_nat (blk i)) d) [0..<m] d) = word_of_nat (blk i)" for m d
    by (induction m) (auto simp: rd32_wr32_other less_Suc_eq)
  then have "rd32 (4 + 4 * i) (head_bytes n blk d) = word_of_nat (blk i)" using i(1) by (simp add: head_bytes_def)
  then show ?thesis using i(2) by (simp add: unat_of_nat take_bit_nat_eq_self)
qed

lemma head_zero: "sint (rd32 0 (head_bytes 0 blk d)) = 0"
  by (rule head_n) simp_all

section \<open>The steps of the log\<close>

lemma write_log_one_ok:
  fixes s :: "'a klog_scheme"
  assumes wf: "bio_wf pid s" "held s = {}" "lg_dev s = 1" and d: "lg_block s i \<in> dirty s" "lg_block s i < disksize s"
    and a: "lg_start s + i + 1 < disksize s" "lg_start s + i + 1 \<noteq> lg_block s i" and room: "card (dirty s) < NBUF"
  shows "\<exists>t. write_log_one i s = Inr t \<and> wrote pid [(lg_start s + i + 1, view s (lg_block s i))] s t"
proof -
  obtain X Y t u where u: "bread 1 (lg_start s + i + 1) s = Inr (X, t)" "bread 1 (lg_block s i) t = Inr (Y, u)"
     "bio_step s t" "bio_step s u" "bio_wf pid u" "holds (lg_start s + i + 1) X u" "holds (lg_block s i) Y u"
     "held u = {lg_start s + i + 1, lg_block s i}" "view u = view s" "dirty u = dirty s" "disk u = disk s" "dtrace u = dtrace s"
    using bread_both [OF wf(1,2) a(2,1) d(2)] room d(1) by blast
  obtain v where v: "bindR (bwrite X (set_data X (b_data (bcache u Y)) u)) (\<lambda>s. bindR (brelse Y s) (brelse X)) = Inr v"
      "wrote pid [(lg_start s + i + 1, view u (lg_block s i))] u v"
    using copy_held [OF u(5,6,7,8) a(2)] d(1) u(10) by auto
  have "write_log_one i s = Inr v" using u(1,2) v(1) wf(3) bio_step_log [OF u(3)] by (simp add: write_log_one_def)
  then show ?thesis using wrote_step [OF u(4,9,10,11,12) v(2)] u(9) by auto
qed

lemma install_one_ok:
  fixes s :: "'a klog_scheme"
  assumes wf: "bio_wf pid s" "held s = {}" "lg_dev s = 1" and d: "lg_block s i < disksize s" "lg_start s + i + 1 \<notin> dirty s"
    and a: "lg_start s + i + 1 < disksize s" "lg_start s + i + 1 \<noteq> lg_block s i"
    and room: "card (dirty s) < NBUF" "lg_block s i \<in> dirty s \<or> Suc (card (dirty s)) < NBUF"
  shows "\<exists>t. install_one i s = Inr t \<and> wrote pid [(lg_block s i, view s (lg_start s + i + 1))] s t"
proof -
  have "card (insert (lg_start s + i + 1) (dirty s)) = Suc (card (dirty s))"
    using finite_busy [of s] d(2) by simp
  then obtain X Y t u where u: "bread 1 (lg_start s + i + 1) s = Inr (X, t)" "bread 1 (lg_block s i) t = Inr (Y, u)"
     "bio_step s t" "bio_step s u" "bio_wf pid u" "holds (lg_start s + i + 1) X u" "holds (lg_block s i) Y u"
     "held u = {lg_start s + i + 1, lg_block s i}" "view u = view s" "dirty u = dirty s" "disk u = disk s" "dtrace u = dtrace s"
    using bread_both [OF wf(1,2) a(2,1) d(1)] room by (metis (no_types, lifting))
  have cl: "view u (lg_start s + i + 1) = disk u (lg_start s + i + 1)"
    using view_clean [OF wf(1) _ d(2)] wf(2) u(9,11) by simp
  have h: "held u = {lg_block s i, lg_start s + i + 1}" using u(8) by auto
  obtain v where v: "bindR (bwrite Y (set_data Y (b_data (bcache u X)) u)) (\<lambda>s. bindR (brelse X s) (brelse Y)) = Inr v"
      "wrote pid [(lg_block s i, view u (lg_start s + i + 1))] u v"
    using copy_held [OF u(5,7,6) h] a(2) cl by metis
  have "install_one i s = Inr v" using u(1,2) v(1) wf(3) bio_step_log [OF u(3)] by (simp add: install_one_def)
  then show ?thesis using wrote_step [OF u(4,9,10,11,12) v(2)] u(9) by auto
qed

lemma write_head_ok:
  fixes s :: "'a klog_scheme"
  assumes wf: "bio_wf pid s" "held s = {}" "lg_dev s = 1" and a: "lg_start s < disksize s"
    and room: "card (dirty s) < NBUF"
  shows "\<exists>t. write_head s = Inr t \<and> wrote pid [(lg_start s, head_bytes (lg_n s) (lg_block s) (view s (lg_start s)))] s t"
proof -
  let ?n = "lg_start s"
  let ?d = "head_bytes (lg_n s) (lg_block s) (view s ?n)"
  have nh: "?n \<notin> held s" "?n \<in> dirty s \<or> 0 < room s" using room wf(2) by (simp_all add: room_read)
  obtain b t where t: "bread 1 ?n s = Inr (b, t)" "bio_wf pid t" "holds ?n b t" "b_data (bcache t b) = view s ?n"
      "view t = view s" "held t = insert ?n (held s)" "dirty t = dirty s" "t = s\<lparr>bcache := bcache t\<rparr>"
    using bread_ok [OF wf(1) a nh] by blast
  have f: "disk t = disk s" "dtrace t = dtrace s" by (subst t(8), simp)+
  have st: "bio_step s t" using t(8) by (rule bio_stepI(1))
  have in': "?n \<in> held t" using t(6) by simp
  obtain v where v: "bwrite b (set_data b ?d t) = Inr v" "bio_wf pid v" "view v = (view t)(?n := ?d)" "held v = held t"
      "dirty v = dirty t - {?n}" "disk v = (disk t)(?n := ?d)" "dtrace v = dtrace t @ [(?n, ?d)]"
      "\<forall>m c. holds m c v = holds m c t" "bio_step t v"
    using write_held [OF t(2,3) in'] by blast
  have "holds ?n b v" "?n \<in> held v" "?n \<in> dirty v \<or> view v ?n = disk v ?n" using v t(3) in' by auto
  then obtain w where w: "brelse b v = Inr w" "bio_wf pid w" "view w = view v" "held w = held v - {?n}"
      "dirty w = dirty v" "w = v\<lparr>bcache := bcache w, ptable := ptable (wakeup1 (Some (ChBuf b)) v)\<rparr>"
    using brelse_ok [OF v(2)] by blast
  have fw: "disk w = disk v" "dtrace w = dtrace v" by (subst w(6), simp)+
  have "bio_step s w" using st v(9) bio_stepI(3) [OF w(6)] by (blast intro: bio_step_trans)
  moreover have "write_head s = Inr w"
    using t(1,4) v(1) w(1) wf(3) bio_step_log [OF st] by (simp add: write_head_def)
  moreover have "held w = {}" using w v t wf(2) by auto
  ultimately show ?thesis using v w f fw t by (intro exI [of _ w]) (simp add: wrote_def)
qed

lemma read_ok:
  assumes wf: "bio_wf pid s" and n: "n < disksize s" "n \<notin> held s" and room: "n \<in> dirty s \<or> 0 < room s"
  shows "\<exists>b t. bread 1 n s = Inr (b, t) \<and> b_data (bcache t b) = view s n \<and> bio_wf pid t \<and> holds n b t \<and> n \<in> held t \<and>
    (n \<in> dirty t \<or> view t n = disk t n) \<and>
    view t = view s \<and> held t = insert n (held s) \<and> dirty t = dirty s \<and> disk t = disk s \<and> dtrace t = dtrace s \<and> bio_step s t \<and>
    (\<forall>m c. holds m c s \<and> m \<in> held s \<longrightarrow> holds m c t)"
proof -
  obtain b t where t: "bread 1 n s = Inr (b, t)" "bio_wf pid t" "holds n b t" "b_data (bcache t b) = view s n"
      "view t = view s" "held t = insert n (held s)" "dirty t = dirty s" "t = s\<lparr>bcache := bcache t\<rparr>"
      "\<forall>m c. holds m c s \<and> m \<in> held s \<longrightarrow> bcache t c = bcache s c"
    using bread_ok [OF wf n room] by blast
  have f: "disk t = disk s" "dtrace t = dtrace s" by (subst t(8), simp)+
  have "n \<in> dirty t \<or> view t n = disk t n" using view_clean [OF wf n(2)] t f by auto
  moreover have "holds m c t" if "holds m c s" "m \<in> held s" for m c using that t(9) by (simp add: holds_def)
  ultimately show ?thesis using t f bio_stepI(1) [OF t(8)] by (intro exI [of _ b] exI [of _ t]) simp
qed

lemma release_ok:
  assumes wf: "bio_wf pid s" and h: "holds n b s" "n \<in> held s" and cl: "n \<in> dirty s \<or> view s n = disk s n"
  shows "\<exists>t. brelse b s = Inr t \<and> bio_wf pid t \<and> view t = view s \<and> held t = held s - {n} \<and> dirty t = dirty s \<and>
    disk t = disk s \<and> dtrace t = dtrace s \<and> (\<forall>m c. holds m c t = holds m c s) \<and> bio_step s t"
proof -
  obtain t where t: "brelse b s = Inr t" "bio_wf pid t" "view t = view s" "held t = held s - {n}"
      "dirty t = dirty s" "\<forall>m c. holds m c t = holds m c s"
      "t = s\<lparr>bcache := bcache t, ptable := ptable (wakeup1 (Some (ChBuf b)) s)\<rparr>"
    using brelse_ok [OF wf h cl] by blast
  have f: "disk t = disk s" "dtrace t = dtrace s" by (subst t(7), simp)+
  show ?thesis using t f bio_stepI(3) [OF t(7)] by (intro exI [of _ t]) simp
qed

text \<open>\<open>read_head\<close> leaves everything but the in-memory header alone.\<close>

lemma read_head_ok:
  fixes s :: "'a klog_scheme"
  assumes wf: "bio_wf pid s" "held s = {}" "lg_dev s = 1" and a: "lg_start s < disksize s"
    and room: "card (dirty s) < NBUF" and n: "sint (rd32 0 (view s (lg_start s))) \<le> int LOGSIZE"
  defines "n' \<equiv> sint (rd32 0 (view s (lg_start s)))"
    and "blk \<equiv> \<lambda>i. if int i < sint (rd32 0 (view s (lg_start s))) then unat (rd32 (4 + 4 * i) (view s (lg_start s))) else lg_block s i"
  shows "\<exists>t. read_head s = Inr t \<and> wrote pid [] (s\<lparr>lg_n := n', lg_block := blk\<rparr>) t"
proof -
  let ?n = "lg_start s"
  have "?n \<notin> held s" "?n \<in> dirty s \<or> 0 < room s" using room wf(2) by (simp_all add: room_read)
  then obtain b t where t: "bread 1 ?n s = Inr (b, t)" "b_data (bcache t b) = view s ?n" "bio_wf pid t" "holds ?n b t"
      "?n \<in> held t" "?n \<in> dirty t \<or> view t ?n = disk t ?n"
      "view t = view s" "held t = insert ?n (held s)" "dirty t = dirty s" "disk t = disk s" "dtrace t = dtrace s" "bio_step s t"
    using read_ok [OF wf(1) a] by blast
  let ?t = "t\<lparr>lg_n := n', lg_block := blk\<rparr>"
  have "\<exists>u. brelse b ?t = Inr u \<and> bio_wf pid u \<and> view u = view ?t \<and> held u = held ?t - {?n} \<and> dirty u = dirty ?t \<and>
    disk u = disk ?t \<and> dtrace u = dtrace ?t \<and> (\<forall>m c. holds m c u = holds m c ?t) \<and> bio_step ?t u"
    by (rule release_ok) (use t in simp_all)
  then obtain u where u: "brelse b ?t = Inr u" "bio_wf pid u" "view u = view ?t" "held u = held ?t - {?n}"
    "dirty u = dirty ?t" "disk u = disk ?t" "dtrace u = dtrace ?t" "bio_step ?t u" by blast
  have "bio_step (s\<lparr>lg_n := n', lg_block := blk\<rparr>) ?t"
    unfolding bio_step_def by (subst t(12) [unfolded bio_step_def]) simp
  then have "bio_step (s\<lparr>lg_n := n', lg_block := blk\<rparr>) u" using u(8) by (rule bio_step_trans)
  moreover have "read_head s = Inr u"
    using t(1,2) u(1) n wf(3) bio_step_log(7) [OF t(12)] by (simp add: read_head_def Let_def n'_def blk_def cong: if_cong)
  ultimately show ?thesis using u t wf(2) by (intro exI [of _ u]) (auto simp: wrote_def)
qed

section \<open>The invariant of the log\<close>

definition logged :: "'a klog_scheme \<Rightarrow> nat list" where
  "logged s = map (lg_block s) [0..<nat (lg_n s)]"

definition log_area :: "'a klog_scheme \<Rightarrow> nat set" where
  "log_area s = {lg_start s ..< lg_start s + nat (lg_size s)}"

text \<open>
  Between the steps of a transaction: the dirty blocks are the logged ones, each listed once
  and outside the log, there is room in the log and in the cache for all of them, and the
  header on disk is empty.
\<close>

definition log_wf :: "int \<Rightarrow> 'a klog_scheme \<Rightarrow> bool" where
  "log_wf pid s \<longleftrightarrow> bio_wf pid s \<and> lg_dev s = 1 \<and> 0 \<le> lg_n s \<and> lg_n s < lg_size s \<and> lg_size s \<le> int LOGSIZE \<and>
     inj_on (lg_block s) {..<nat (lg_n s)} \<and> set (logged s) = dirty s \<and> dirty s \<inter> log_area s = {} \<and>
     (\<forall>n \<in> dirty s. n < disksize s) \<and>
     lg_start s + nat (lg_size s) \<le> disksize s \<and> disksize s \<le> 2 ^ 32 \<and> sint (rd32 0 (disk s (lg_start s))) = 0 \<and>
     lg_start s \<notin> held s"

lemma log_wfD:
  assumes "log_wf pid s"
  shows "bio_wf pid s" "lg_dev s = 1" "0 \<le> lg_n s" "lg_n s < lg_size s" "lg_size s \<le> int LOGSIZE"
    "inj_on (lg_block s) {..<nat (lg_n s)}" "set (logged s) = dirty s" "dirty s \<inter> log_area s = {}"
    "\<And>n. n \<in> dirty s \<Longrightarrow> n < disksize s"
    "lg_start s + nat (lg_size s) \<le> disksize s" "disksize s \<le> 2 ^ 32" "sint (rd32 0 (disk s (lg_start s))) = 0"
    "lg_start s \<notin> held s"
  using assms by (simp_all add: log_wf_def)

text \<open>What the invariant says of the entry \<open>i\<close> of the header.\<close>

lemma log_entry:
  assumes wf: "log_wf pid s" and i: "i < nat (lg_n s)"
  shows "lg_block s i \<in> dirty s" "lg_block s i < disksize s" "lg_start s + i + 1 \<in> log_area s"
    "lg_start s + i + 1 < disksize s" "lg_block s i \<notin> log_area s" "lg_start s + i + 1 \<notin> dirty s" "lg_block s i < 2 ^ 32"
proof -
  note w = log_wfD [OF wf]
  show d: "lg_block s i \<in> dirty s" using i w(7) by (auto simp: logged_def)
  show l: "lg_block s i < disksize s" using w(9) d by blast
  then show "lg_block s i < 2 ^ 32" using w(11) by linarith
  have "i + 1 < nat (lg_size s)" using i w(3,4) by linarith
  then show a: "lg_start s + i + 1 \<in> log_area s" "lg_start s + i + 1 < disksize s" using w(10) by (auto simp: log_area_def)
  show "lg_block s i \<notin> log_area s" "lg_start s + i + 1 \<notin> dirty s" using w(8) d a by auto
qed

lemma log_card:
  assumes wf: "log_wf pid s"
  shows "card (dirty s) = nat (lg_n s)" "card (dirty s) < NBUF"
proof -
  note w = log_wfD [OF wf]
  have "distinct (logged s)" using w(6) by (simp add: logged_def distinct_map atLeast0LessThan)
  then show "card (dirty s) = nat (lg_n s)" using w(7) distinct_card by (fastforce simp: logged_def)
  then show "card (dirty s) < NBUF" using w(3,4,5) by (simp add: params)
qed

lemma start_in_area: "log_wf pid s \<Longrightarrow> lg_start s \<in> log_area s \<and> lg_start s < disksize s \<and> lg_start s \<notin> dirty s"
proof -
  assume wf: "log_wf pid s"
  note w = log_wfD [OF wf]
  have "0 < nat (lg_size s)" using w(3,4) by linarith
  then have "lg_start s \<in> log_area s" "lg_start s < disksize s" using w(10) by (auto simp: log_area_def)
  then show ?thesis using w(8) by blast
qed

section \<open>Commit\<close>

text \<open>The disk writes of a commit, in order.\<close>

definition log_writes :: "'a klog_scheme \<Rightarrow> (nat \<times> block) list" where
  "log_writes s = map (\<lambda>i. (lg_start s + i + 1, view s (lg_block s i))) [0..<nat (lg_n s)]"

definition home_writes :: "'a klog_scheme \<Rightarrow> (nat \<times> block) list" where
  "home_writes s = map (\<lambda>i. (lg_block s i, view s (lg_block s i))) [0..<nat (lg_n s)]"

definition full_head :: "'a klog_scheme \<Rightarrow> block" where
  "full_head s = head_bytes (lg_n s) (lg_block s) (view s (lg_start s))"

definition commit_writes :: "'a klog_scheme \<Rightarrow> (nat \<times> block) list" where
  "commit_writes s = log_writes s @ (lg_start s, full_head s) # home_writes s @
     [(lg_start s, head_bytes 0 (lg_block s) (full_head s))]"

lemma fst_writes:
  "fst ` set (log_writes s) = (\<lambda>i. lg_start s + i + 1) ` {..<nat (lg_n s)}"
  "fst ` set (home_writes s) = set (logged s)"
  by (simp_all add: log_writes_def home_writes_def logged_def image_image atLeast0LessThan)

lemma map_prefix_fst: "fst ` set (map (\<lambda>i. (f i, g i)) [0..<i]) = f ` {..<i}"
  by (simp add: image_image atLeast0LessThan)

lemma write_log_ok:
  fixes s :: "'a klog_scheme"
  assumes wf: "log_wf pid s" and h: "held s = {}"
  shows "\<exists>t. write_log s = Inr t \<and> wrote pid (log_writes s) s t"
  unfolding write_log_def log_writes_def
proof (rule wrote_loop [OF log_wfD(1) [OF wf] h])
  fix i u
  assume i: "i < nat (lg_n s)"
    and w: "wrote pid (map (\<lambda>i. (lg_start s + i + 1, view s (lg_block s i))) [0..<i]) s u"
  let ?ws = "map (\<lambda>i. (lg_start s + i + 1, view s (lg_block s i))) [0..<i]"
  note W = w [unfolded wrote_def]
  note e = log_entry [OF wf i]
  have st: "bio_step s u" using W by simp
  have dis: "fst ` set ?ws \<inter> dirty s = {}"
    unfolding map_prefix_fst using log_entry(6) [OF wf] i by force
  then have du: "dirty u = dirty s" using W by auto
  have vu: "view u (lg_block s i) = view s (lg_block s i)"
  proof -
    have "lg_block s i \<notin> fst ` set ?ws" using dis e(1) by blast
    then show ?thesis using W by (simp add: apply_writes_other)
  qed
  note f = bio_step_log [OF st] bio_step_sel(1) [OF st]
  have "\<exists>t. write_log_one i u = Inr t \<and> wrote pid [(lg_start u + i + 1, view u (lg_block u i))] u t"
    by (rule write_log_one_ok) (use W f e du log_wfD(2) [OF wf] log_card [OF wf] in auto)
  then show "\<exists>t. write_log_one i u = Inr t \<and> wrote pid [(lg_start s + i + 1, view s (lg_block s i))] u t"
    using f vu by simp
qed

text \<open>\<open>install_trans\<close> when the log holds the committed blocks and some of the home blocks are done.\<close>

lemma install_trans_ok:
  fixes s :: "'a klog_scheme"
  assumes wf: "bio_wf pid s" "held s = {}" "lg_dev s = 1"
    and inj: "inj_on (lg_block s) {..<nat (lg_n s)}"
    and home: "\<And>i. i < nat (lg_n s) \<Longrightarrow> lg_block s i < disksize s \<and> lg_block s i \<notin> log_area s"
    and area: "nat (lg_n s) < nat (lg_size s)" "lg_start s + nat (lg_size s) \<le> disksize s" "dirty s \<inter> log_area s = {}"
    and room: "card (dirty s) < NBUF" "\<And>i. i < nat (lg_n s) \<Longrightarrow> lg_block s i \<in> dirty s \<or> Suc (card (dirty s)) < NBUF"
  shows "\<exists>t. install_trans s = Inr t \<and>
    wrote pid (map (\<lambda>i. (lg_block s i, view s (lg_start s + i + 1))) [0..<nat (lg_n s)]) s t"
  unfolding install_trans_def
proof (rule wrote_loop [OF wf(1,2)])
  fix i u
  assume i: "i < nat (lg_n s)"
    and w: "wrote pid (map (\<lambda>i. (lg_block s i, view s (lg_start s + i + 1))) [0..<i]) s u"
  let ?ws = "map (\<lambda>i. (lg_block s i, view s (lg_start s + i + 1))) [0..<i]"
  let ?a = "lg_start s + i + 1"
  note W = w [unfolded wrote_def]
  have st: "bio_step s u" using W by simp
  note f = bio_step_log [OF st] bio_step_sel(1) [OF st]
  have a: "?a \<in> log_area s" "?a < disksize s" using i area by (auto simp: log_area_def)
  have ws: "fst ` set ?ws = lg_block s ` {..<i}" by (rule map_prefix_fst)
  have "?a \<notin> fst ` set ?ws" unfolding ws
  proof
    assume "?a \<in> lg_block s ` {..<i}"
    then obtain j where "j < i" "?a = lg_block s j" by auto
    then show False using home [of j] i a(1) by simp
  qed
  then have vu: "view u ?a = view s ?a" using W by (simp add: apply_writes_other)
  have du: "dirty u = dirty s - lg_block s ` {..<i}" using W ws by simp
  have fin: "finite (dirty s)" using finite_busy [of s] by simp
  have c: "card (dirty u) \<le> card (dirty s)" unfolding du by (intro card_mono fin) auto
  have "lg_block s i \<notin> lg_block s ` {..<i}"
  proof
    assume "lg_block s i \<in> lg_block s ` {..<i}"
    then obtain j where j: "j < i" "lg_block s i = lg_block s j" by auto
    have "i = j" by (rule inj_onD [OF inj j(2)]) (use i j(1) in simp_all)
    then show False using j(1) by simp
  qed
  then have "lg_block s i \<in> dirty u \<or> Suc (card (dirty u)) < NBUF" using room(2) [OF i] c du by auto
  then have "\<exists>t. install_one i u = Inr t \<and> wrote pid [(lg_block u i, view u (lg_start u + i + 1))] u t"
    by (intro install_one_ok) (use W f a home [OF i] wf(3) du area(3) room(1) c in auto)
  then show "\<exists>t. install_one i u = Inr t \<and> wrote pid [(lg_block s i, view s ?a)] u t"
    using f vu by simp
qed

lemma wrote_frame:
  fixes s t :: "'a klog_scheme"
  assumes "wrote pid ws s t"
  shows "lg_start t = lg_start s" "lg_size t = lg_size s" "lg_outstanding t = lg_outstanding s" "locks t = locks s"
    "lg_committing t = lg_committing s" "lg_dev t = lg_dev s" "lg_n t = lg_n s" "lg_block t = lg_block s"
    "disksize t = disksize s" "log_area t = log_area s" "bio_wf pid t" "held t = {}"
proof -
  have st: "bio_step s t" using assms by (simp add: wrote_def)
  show "lg_start t = lg_start s" "lg_size t = lg_size s" "lg_outstanding t = lg_outstanding s" "locks t = locks s"
    "lg_committing t = lg_committing s" "lg_dev t = lg_dev s" "lg_n t = lg_n s" "lg_block t = lg_block s"
    "disksize t = disksize s" "log_area t = log_area s"
    using bio_step_log [OF st] bio_step_sel [OF st] by (simp_all add: log_area_def)
  show "bio_wf pid t" "held t = {}" using assms by (simp_all add: wrote_def)
qed

lemma bio_step_n:
  fixes s t :: "'a klog_scheme"
  assumes "bio_step s t"
  shows "bio_step (s\<lparr>lg_n := k\<rparr>) (t\<lparr>lg_n := k\<rparr>)"
  unfolding bio_step_def by (subst assms [unfolded bio_step_def]) simp

lemma log_writes_view:
  fixes s :: "'a klog_scheme"
  assumes wf: "log_wf pid s"
  shows "n \<notin> log_area s \<Longrightarrow> apply_writes (log_writes s) d n = d n"
    "apply_writes (log_writes s) d (lg_start s) = d (lg_start s)"
    "i < nat (lg_n s) \<Longrightarrow> apply_writes (log_writes s) d (lg_start s + i + 1) = view s (lg_block s i)"
proof -
  show "apply_writes (log_writes s) d n = d n" if "n \<notin> log_area s"
    using that log_entry(3) [OF wf] by (intro apply_writes_other) (auto simp: fst_writes)
  show "apply_writes (log_writes s) d (lg_start s) = d (lg_start s)"
    by (intro apply_writes_other) (auto simp: fst_writes)
  show "apply_writes (log_writes s) d (lg_start s + i + 1) = view s (lg_block s i)" if "i < nat (lg_n s)"
    unfolding log_writes_def using that by (subst apply_writes_map [where f = "\<lambda>i. lg_start s + i + 1"]) (auto simp: inj_on_def)
qed

lemma commit_ok:
  fixes s :: "'a klog_scheme"
  assumes wf: "log_wf pid s" and h: "held s = {}" and n: "0 < lg_n s"
  shows "\<exists>t. commit s = Inr t \<and> lg_n t = 0 \<and> wrote pid (commit_writes s) s (t\<lparr>lg_n := lg_n s\<rparr>)"
proof -
  note w = log_wfD [OF wf] and sa = start_in_area [OF wf]
  obtain t1 where t1: "write_log s = Inr t1" "wrote pid (log_writes s) s t1"
    using write_log_ok [OF wf h] by blast
  note f1 = wrote_frame [OF t1(2)]
  have d1: "dirty t1 = dirty s" using t1(2) w(8) log_entry(3) [OF wf] by (auto simp: wrote_def fst_writes)
  have v1: "view t1 = apply_writes (log_writes s) (view s)" using t1(2) by (simp add: wrote_def)
  obtain t2 where t2: "write_head t1 = Inr t2"
      "wrote pid [(lg_start s, full_head s)] t1 t2"
    using write_head_ok [of pid t1] f1 w(2) sa d1 log_card [OF wf] v1 log_writes_view(2) [OF wf]
    by (auto simp: full_head_def)
  note f2 = wrote_frame [OF t2(2)]
  have d2: "dirty t2 = dirty s" using t2(2) d1 sa by (auto simp: wrote_def)
  have v2: "view t2 = (view t1)(lg_start s := full_head s)" using t2(2) by (simp add: wrote_def)
  have v2': "view t2 (lg_start s + i + 1) = view s (lg_block s i)" if "i < nat (lg_n s)" for i
    using v2 v1 log_writes_view(3) [OF wf that] by simp
  have "\<exists>t. install_trans t2 = Inr t \<and>
     wrote pid (map (\<lambda>i. (lg_block t2 i, view t2 (lg_start t2 + i + 1))) [0..<nat (lg_n t2)]) t2 t"
    by (rule install_trans_ok)
      (use f2 f1 w d2 log_card [OF wf] log_entry [OF wf] in auto)
  moreover have "map (\<lambda>i. (lg_block t2 i, view t2 (lg_start t2 + i + 1))) [0..<nat (lg_n t2)] = home_writes s"
    using f2 f1 v2' by (auto simp: home_writes_def)
  ultimately obtain t3 where t3: "install_trans t2 = Inr t3" "wrote pid (home_writes s) t2 t3" by auto
  note f3 = wrote_frame [OF t3(2)]
  have d3: "dirty t3 = {}" using t3(2) d2 w(7) by (simp add: wrote_def fst_writes)
  have v3: "view t3 (lg_start s) = full_head s"
    using t3(2) v2 w(7) sa by (simp add: wrote_def) (subst apply_writes_other, auto simp: fst_writes)
  let ?t3 = "t3\<lparr>lg_n := 0\<rparr>"
  have "\<exists>t. write_head ?t3 = Inr t \<and>
     wrote pid [(lg_start ?t3, head_bytes (lg_n ?t3) (lg_block ?t3) (view ?t3 (lg_start ?t3)))] ?t3 t"
    by (rule write_head_ok) (use f3 f2 f1 w(2) sa d3 in \<open>simp_all add: params\<close>)
  then obtain t4 where t4: "write_head ?t3 = Inr t4" "wrote pid [(lg_start s, head_bytes 0 (lg_block s) (full_head s))] ?t3 t4"
    using f3 f2 f1 v3 by auto
  have n4: "lg_n t4 = 0" using wrote_frame(7) [OF t4(2)] by simp
  have w4: "wrote pid [(lg_start s, head_bytes 0 (lg_block s) (full_head s))] t3 (t4\<lparr>lg_n := lg_n s\<rparr>)"
  proof -
    have "bio_step (?t3\<lparr>lg_n := lg_n s\<rparr>) (t4\<lparr>lg_n := lg_n s\<rparr>)"
      by (rule bio_step_n) (use t4(2) in \<open>simp add: wrote_def\<close>)
    moreover have "?t3\<lparr>lg_n := lg_n s\<rparr> = t3" using f3(7) f2(7) f1(7) by simp
    ultimately have "bio_step t3 (t4\<lparr>lg_n := lg_n s\<rparr>)" by simp
    then show ?thesis using t4(2) by (simp add: wrote_def)
  qed
  have "wrote pid (commit_writes s) s (t4\<lparr>lg_n := lg_n s\<rparr>)"
    using wrote_trans [OF wrote_trans [OF wrote_trans [OF t1(2) t2(2)] t3(2)] w4] by (simp add: commit_writes_def)
  moreover have "commit s = Inr t4" using n t1(1) t2(1) t3(1) t4(1) by (simp add: commit_def)
  ultimately show ?thesis using n4 by blast
qed

end
