(* ===== verification/LogCrash.thy ===== *)
theory LogCrash
  imports Log
begin

text \<open>
  What recovery does with the log a crash leaves behind: \<open>recover_ok\<close> gives the writes and the
  final disk of \<open>recover_from_log\<close>, and the lemmas on crashes the three disks that a crash
  during a commit can leave.
\<close>

section \<open>Recovery\<close>

text \<open>A machine that has just started: nothing is dirty or locked in the cache.\<close>

definition clean :: "int \<Rightarrow> 'a klog_scheme \<Rightarrow> bool" where
  "clean pid s \<longleftrightarrow> bio_wf pid s \<and> held s = {} \<and> dirty s = {} \<and> lg_dev s = 1"

lemma clean_view: "clean pid s \<Longrightarrow> view s = disk s"
  using view_clean [of pid s] by (auto simp: clean_def)

text \<open>The transaction a log starting at \<open>st\<close> describes on the disk \<open>d\<close>.\<close>

definition rec_n :: "nat \<Rightarrow> (nat \<Rightarrow> block) \<Rightarrow> nat" where
  "rec_n st d = nat (sint (rd32 0 (d st)))"

definition rec_blk :: "nat \<Rightarrow> (nat \<Rightarrow> block) \<Rightarrow> nat \<Rightarrow> nat" where
  "rec_blk st d i = unat (rd32 (4 + 4 * i) (d st))"

definition rec_writes :: "nat \<Rightarrow> (nat \<Rightarrow> block) \<Rightarrow> (nat \<times> block) list" where
  "rec_writes st d = map (\<lambda>i. (rec_blk st d i, d (st + i + 1))) [0..<rec_n st d]"

definition head_ok :: "'a klog_scheme \<Rightarrow> (nat \<Rightarrow> block) \<Rightarrow> bool" where
  "head_ok s d \<longleftrightarrow> int (rec_n (lg_start s) d) < lg_size s \<and> lg_size s \<le> int LOGSIZE \<and>
     lg_start s + nat (lg_size s) \<le> disksize s \<and> inj_on (rec_blk (lg_start s) d) {..<rec_n (lg_start s) d} \<and>
     (\<forall>i < rec_n (lg_start s) d. rec_blk (lg_start s) d i < disksize s \<and> rec_blk (lg_start s) d i \<notin> log_area s)"

definition clear_head :: "block \<Rightarrow> block" where
  "clear_head d = wr32 0 0 d"

lemma head_bytes_0: "head_bytes 0 blk d = clear_head d"
  by (simp add: head_bytes_def clear_head_def)

lemma rec_n_clear: "d st = clear_head x \<Longrightarrow> rec_n st d = 0"
  by (simp add: rec_n_def clear_head_def)

lemma recover_ok:
  fixes r :: "'a klog_scheme"
  assumes cl: "clean pid r" and ok: "head_ok r (disk r)"
  defines "st \<equiv> lg_start r" and "d \<equiv> disk r"
  shows "\<exists>t. recover_from_log r = Inr t \<and> lg_n t = 0 \<and> clean pid t \<and>
    dtrace t = dtrace r @ rec_writes st d @ [(st, clear_head (d st))] \<and>
    disk t = (apply_writes (rec_writes st d) d)(st := clear_head (d st))"
proof -
  have c: "bio_wf pid r" "held r = {}" "dirty r = {}" "lg_dev r = 1" using cl by (simp_all add: clean_def)
  have v: "view r = disk r" using cl by (rule clean_view)
  have o: "int (rec_n st d) < lg_size r" "lg_size r \<le> int LOGSIZE" "st + nat (lg_size r) \<le> disksize r"
      "inj_on (rec_blk st d) {..<rec_n st d}"
      "\<And>i. i < rec_n st d \<Longrightarrow> rec_blk st d i < disksize r \<and> rec_blk st d i \<notin> log_area r"
    using ok unfolding head_ok_def st_def d_def by blast+
  have nb: "sint (rd32 0 (d st)) \<le> int LOGSIZE" using o(1,2) by (simp add: rec_n_def split: if_splits)
  let ?n = "sint (rd32 0 (d st))"
  let ?blk = "\<lambda>i. if int i < ?n then unat (rd32 (4 + 4 * i) (d st)) else lg_block r i"
  have sl: "st < disksize r" using o(1,3) by linarith
  obtain t1 where t1: "read_head r = Inr t1" "wrote pid [] (r\<lparr>lg_n := ?n, lg_block := ?blk\<rparr>) t1"
  proof -
    have "lg_start r < disksize r" "card (dirty r) < NBUF" "sint (rd32 0 (view r (lg_start r))) \<le> int LOGSIZE"
      using sl nb c(3) v by (simp_all add: st_def d_def params)
    from read_head_ok [OF c(1,2,4) this] show ?thesis
      unfolding v st_def [symmetric] d_def [symmetric] by (blast intro: that)
  qed
  have f1: "lg_start t1 = st" "lg_size t1 = lg_size r" "lg_dev t1 = 1" "lg_n t1 = ?n" "lg_block t1 = ?blk"
    "disksize t1 = disksize r" "log_area t1 = log_area r" "dirty t1 = {}" "view t1 = d" "disk t1 = d" "dtrace t1 = dtrace r"
    using wrote_frame [OF t1(2)] t1(2) c v by (simp_all add: wrote_def st_def d_def log_area_def)
  have blk: "lg_block t1 i = rec_blk st d i" if "i < nat (lg_n t1)" for i
    using that f1(4,5) by (auto simp: rec_blk_def)
  have sm: "0 < NBUF" "Suc 0 < NBUF" by (simp_all add: params)
  have nn: "nat (lg_n t1) = rec_n st d" "rec_n st d < nat (lg_size r)"
    using f1(4) o(1) by (simp add: rec_n_def, linarith)
  have inj: "inj_on (lg_block t1) {..<nat (lg_n t1)}"
    using o(4) inj_on_cong [of "{..<nat (lg_n t1)}" "lg_block t1" "rec_blk st d"] blk f1(4) by (simp add: rec_n_def)
  have "\<exists>t. install_trans t1 = Inr t \<and>
     wrote pid (map (\<lambda>i. (lg_block t1 i, view t1 (lg_start t1 + i + 1))) [0..<nat (lg_n t1)]) t1 t"
    by (rule install_trans_ok [OF wrote_frame(11,12) [OF t1(2)] f1(3) inj])
      (use f1(1,2,6,7,8) o nn blk sm in auto)
  moreover have "map (\<lambda>i. (lg_block t1 i, view t1 (lg_start t1 + i + 1))) [0..<nat (lg_n t1)] = rec_writes st d"
    using f1 blk by (auto simp: rec_writes_def rec_n_def)
  ultimately obtain t2 where t2: "install_trans t1 = Inr t2" "wrote pid (rec_writes st d) t1 t2" by auto
  note f2 = wrote_frame [OF t2(2)]
  have "st \<in> log_area r" using o(1) by (auto simp: log_area_def st_def)
  moreover have "x \<notin> log_area r" if "x \<in> fst ` set (rec_writes st d)" for x
    using that o(5) by (auto simp: rec_writes_def)
  ultimately have "st \<notin> fst ` set (rec_writes st d)" by blast
  then have v2: "view t2 st = d st" using t2(2) f1 by (simp add: wrote_def apply_writes_other)
  let ?t2 = "t2\<lparr>lg_n := 0\<rparr>"
  have "\<exists>t. write_head ?t2 = Inr t \<and>
     wrote pid [(lg_start ?t2, head_bytes (lg_n ?t2) (lg_block ?t2) (view ?t2 (lg_start ?t2)))] ?t2 t"
    by (rule write_head_ok) (use f2 f1 sl t2(2) in \<open>simp_all add: params wrote_def\<close>)
  then obtain t3 where t3: "write_head ?t2 = Inr t3" "wrote pid [(st, clear_head (d st))] ?t2 t3"
    using f2 f1 v2 by (auto simp: head_bytes_0)
  have "recover_from_log r = Inr t3" using t1(1) t2(1) t3(1) by (simp add: recover_from_log_def)
  moreover have "lg_n t3 = 0" "lg_dev t3 = 1" using wrote_frame [OF t3(2)] f2 f1 by simp_all
  ultimately show ?thesis using t3(2) t2(2) f1 by (intro exI [of _ t3]) (auto simp: wrote_def clean_def)
qed

section \<open>Crashes\<close>

lemma home_apply:
  assumes wf: "log_wf pid s"
  shows "apply_writes (home_writes s) d b = (if b \<in> dirty s then view s b else d b)"
proof (cases "b \<in> dirty s")
  case True
  then obtain i where i: "i < nat (lg_n s)" "b = lg_block s i" using log_wfD(7) [OF wf, symmetric] by (auto simp: logged_def)
  then show ?thesis unfolding home_writes_def using True log_wfD(6) [OF wf]
    by (simp only: i(2)) (subst apply_writes_map [where f = "lg_block s"], auto simp: atLeast0LessThan)
next
  case False
  then show ?thesis using log_wfD(7) [OF wf] by (simp add: apply_writes_other fst_writes)
qed

lemma home_prefix:
  assumes wf: "log_wf pid s"
  shows "b \<in> log_area s \<Longrightarrow> apply_writes (take j (home_writes s)) d b = d b"
    "b \<notin> dirty s \<Longrightarrow> apply_writes (take j (home_writes s)) d b = d b"
proof -
  have "fst ` set (take j (home_writes s)) \<subseteq> dirty s"
    using fst_writes(2) [of s] log_wfD(7) [OF wf] by (metis image_mono set_take_subset)
  then show "b \<in> log_area s \<Longrightarrow> apply_writes (take j (home_writes s)) d b = d b"
    "b \<notin> dirty s \<Longrightarrow> apply_writes (take j (home_writes s)) d b = d b"
    using log_wfD(8) [OF wf] by (intro apply_writes_other; blast)+
qed

text \<open>The three disks a crash during a commit can leave.\<close>

lemma crash_before:
  fixes s :: "'a klog_scheme" and k :: nat
  assumes wf: "log_wf pid s" and k: "k \<le> nat (lg_n s)"
  defines "d \<equiv> apply_writes (take k (commit_writes s)) (disk s)"
  shows "rec_n (lg_start s) d = 0" "b \<notin> log_area s \<Longrightarrow> d b = disk s b"
proof -
  have t: "take k (commit_writes s) = take k (log_writes s)" using k by (simp add: commit_writes_def log_writes_def)
  have "fst ` set (take k (log_writes s)) \<subseteq> (\<lambda>i. lg_start s + i + 1) ` {..<nat (lg_n s)}"
    using fst_writes(1) [of s] by (metis image_mono set_take_subset)
  then have o: "d b = disk s b" if "b \<notin> (\<lambda>i. lg_start s + i + 1) ` {..<nat (lg_n s)}" for b
    using that unfolding d_def t by (intro apply_writes_other) blast
  have "d (lg_start s) = disk s (lg_start s)" by (rule o) auto
  then show "rec_n (lg_start s) d = 0" using log_wfD(12) [OF wf] by (simp add: rec_n_def)
  show "d b = disk s b" if "b \<notin> log_area s" by (rule o) (use that log_entry(3) [OF wf] in auto)
qed

lemma crash_after:
  fixes s :: "'a klog_scheme" and j :: nat
  assumes wf: "log_wf pid s" and n: "0 < lg_n s"
  defines "d \<equiv> apply_writes (log_writes s @ (lg_start s, full_head s) # take j (home_writes s)) (disk s)"
  shows "rec_n (lg_start s) d = nat (lg_n s)" "i < nat (lg_n s) \<Longrightarrow> rec_blk (lg_start s) d i = lg_block s i"
    "rec_writes (lg_start s) d = home_writes s" "b \<notin> log_area s \<Longrightarrow> b \<notin> dirty s \<Longrightarrow> d b = disk s b"
proof -
  note sa = start_in_area [OF wf]
  have h: "d (lg_start s) = full_head s" using sa home_prefix(1) [OF wf] by (simp add: d_def)
  have "sint (rd32 0 (full_head s)) = lg_n s" unfolding full_head_def
    by (rule head_n) (use log_wfD(3,4,5) [OF wf] in \<open>simp_all add: params\<close>)
  then show 1: "rec_n (lg_start s) d = nat (lg_n s)" using h by (simp add: rec_n_def)
  show 2: "rec_blk (lg_start s) d i = lg_block s i" if "i < nat (lg_n s)" for i
    unfolding rec_blk_def h full_head_def by (rule head_block) (use that log_entry(7) [OF wf] in simp_all)
  have "d (lg_start s + i + 1) = view s (lg_block s i)" if "i < nat (lg_n s)" for i
    using home_prefix(1) [OF wf log_entry(3) [OF wf that]] log_writes_view(3) [OF wf that] by (simp add: d_def)
  then show "rec_writes (lg_start s) d = home_writes s" using 1 2 by (auto simp: rec_writes_def home_writes_def)
  show "d b = disk s b" if "b \<notin> log_area s" "b \<notin> dirty s"
    using that home_prefix(2) [OF wf that(2)] log_writes_view(1) [OF wf that(1)] sa by (auto simp: d_def)
qed

lemma crash_done:
  fixes s :: "'a klog_scheme"
  assumes wf: "log_wf pid s"
  defines "d \<equiv> apply_writes (commit_writes s) (disk s)"
  shows "rec_n (lg_start s) d = 0" "b \<notin> log_area s \<Longrightarrow> d b = (if b \<in> dirty s then view s b else disk s b)"
proof -
  show "rec_n (lg_start s) d = 0"
    by (rule rec_n_clear [of _ _ "full_head s"]) (simp add: d_def commit_writes_def head_bytes_0)
  show "d b = (if b \<in> dirty s then view s b else disk s b)" if "b \<notin> log_area s"
    using that start_in_area [OF wf] log_writes_view(1) [OF wf that]
    by (auto simp: d_def commit_writes_def home_apply [OF wf])
qed

lemma commit_writes_take:
  assumes "nat (lg_n s) < k" "k < length (commit_writes s)"
  shows "take k (commit_writes s) = log_writes s @ (lg_start s, full_head s) # take (k - nat (lg_n s) - 1) (home_writes s)"
proof -
  have l: "length (log_writes s) = nat (lg_n s)" "length (home_writes s) = nat (lg_n s)"
    by (simp_all add: log_writes_def home_writes_def)
  obtain j where j: "k = nat (lg_n s) + Suc j" "j \<le> nat (lg_n s)"
    using assms l less_imp_Suc_add [OF assms(1)] by (auto simp: commit_writes_def)
  then show ?thesis using l by (simp add: commit_writes_def)
qed

lemma head_ok_empty:
  assumes "rec_n (lg_start s) d = 0" "0 < lg_size s" "lg_size s \<le> int LOGSIZE" "lg_start s + nat (lg_size s) \<le> disksize s"
  shows "head_ok s d" "rec_writes (lg_start s) d = []"
  using assms by (simp_all add: head_ok_def rec_writes_def)

end
