(* ===== verification/LogTxn.thy ===== *)
theory LogTxn
  imports LogCrash
begin

text \<open>
  The log as its clients use it: the laws of reading, changing and logging a block inside a
  transaction, the contract \<open>block_store\<close> they give, the state machine of interleaved
  operations, and the properties of commit, recovery, \<open>sync\<close> and admission.
\<close>

section \<open>Transactions\<close>

text \<open>What the operations of a transaction may change.\<close>

definition log_step :: "'a klog_scheme \<Rightarrow> 'a klog_scheme \<Rightarrow> bool" where
  "log_step s t \<longleftrightarrow> t = s\<lparr>ptable := ptable t, bcache := bcache t, disk := disk t, dtrace := dtrace t,
     lg_n := lg_n t, lg_block := lg_block t\<rparr>"

lemma log_step_refl [simp]: "log_step s s"
  by (simp add: log_step_def)

lemma log_step_trans: "log_step s t \<Longrightarrow> log_step t u \<Longrightarrow> log_step s u"
proof -
  assume 1: "log_step s t" and 2: "log_step t u"
  have "u = (s\<lparr>ptable := ptable t, bcache := bcache t, disk := disk t, dtrace := dtrace t, lg_n := lg_n t, lg_block := lg_block t\<rparr>)
      \<lparr>ptable := ptable u, bcache := bcache u, disk := disk u, dtrace := dtrace u, lg_n := lg_n u, lg_block := lg_block u\<rparr>"
    using 1 [unfolded log_step_def] 2 [unfolded log_step_def] by (rule subst)
  then show ?thesis unfolding log_step_def by simp
qed

lemma bio_log_step:
  fixes s t :: "'a klog_scheme"
  assumes "bio_step s t"
  shows "log_step s t"
proof -
  have "t = (s\<lparr>ptable := ptable t, bcache := bcache t, disk := disk t, dtrace := dtrace t\<rparr>)"
    using assms by (simp add: bio_step_def)
  moreover have "lg_n t = lg_n s" "lg_block t = lg_block s" using bio_step_log [OF assms] by auto
  ultimately show ?thesis unfolding log_step_def by simp
qed

lemma log_step_sel:
  assumes "log_step s t"
  shows "disksize t = disksize s" "locks t = locks s" "myproc t = myproc s" "mem t = mem s" "freelist t = freelist s"
    "lg_start t = lg_start s" "lg_size t = lg_size s" "lg_outstanding t = lg_outstanding s"
    "lg_committing t = lg_committing s" "lg_dev t = lg_dev s" "log_area t = log_area s"
  unfolding log_area_def by (subst assms [unfolded log_step_def], simp)+

text \<open>The invariant of the log depends on the cache only through its observations.\<close>

lemma log_wf_bio:
  fixes s t :: "'a klog_scheme"
  assumes "log_wf pid s" "bio_wf pid t" "dirty t = dirty s" "disk t (lg_start s) = disk s (lg_start s)"
    "lg_start s \<notin> held t" "bio_step s t"
  shows "log_wf pid t"
  using assms bio_step_log [OF assms(6)] bio_step_sel [OF assms(6)] by (simp add: log_wf_def log_area_def logged_def)

definition busy :: "'a kbio_scheme \<Rightarrow> nat" where
  "busy s = card (held s \<union> dirty s)"

lemma log_read_ok:
  fixes s :: "'a klog_scheme"
  assumes wf: "log_wf pid s" and n: "n < disksize s" "n \<notin> held s" "n \<noteq> lg_start s" and room: "busy s < NBUF"
  shows "\<exists>b t. bread 1 n s = Inr (b, t) \<and> b_data (bcache t b) = view s n \<and> log_wf pid t \<and> holds n b t \<and> n \<in> held t \<and>
    (n \<in> dirty t \<or> view t n = disk t n) \<and> view t = view s \<and> held t = insert n (held s) \<and> dirty t = dirty s \<and>
    disk t = disk s \<and> dtrace t = dtrace s \<and> bio_step s t \<and> (\<forall>m c. holds m c s \<and> m \<in> held s \<longrightarrow> holds m c t)"
proof -
  have "n \<in> dirty s \<or> 0 < room s" using room by (simp add: room_read busy_def)
  then obtain b t where t: "bread 1 n s = Inr (b, t)" "b_data (bcache t b) = view s n" "bio_wf pid t" "holds n b t" "n \<in> held t"
      "n \<in> dirty t \<or> view t n = disk t n" "view t = view s" "held t = insert n (held s)" "dirty t = dirty s"
      "disk t = disk s" "dtrace t = dtrace s" "bio_step s t"
      "\<forall>m c. holds m c s \<and> m \<in> held s \<longrightarrow> holds m c t"
    using read_ok [OF log_wfD(1) [OF wf] n(1,2)] by blast
  moreover have "log_wf pid t" by (rule log_wf_bio [OF wf]) (use t n(3) log_wfD(13) [OF wf] in auto)
  ultimately show ?thesis by blast
qed

lemma log_release_ok:
  fixes s :: "'a klog_scheme"
  assumes wf: "log_wf pid s" and h: "holds n b s" "n \<in> held s" and cl: "n \<in> dirty s \<or> view s n = disk s n"
  shows "\<exists>t. brelse b s = Inr t \<and> log_wf pid t \<and> view t = view s \<and> held t = held s - {n} \<and> dirty t = dirty s \<and>
    disk t = disk s \<and> dtrace t = dtrace s \<and> (\<forall>m c. holds m c t = holds m c s) \<and> bio_step s t"
proof -
  obtain t where t: "brelse b s = Inr t" "bio_wf pid t" "view t = view s" "held t = held s - {n}" "dirty t = dirty s"
      "disk t = disk s" "dtrace t = dtrace s" "\<forall>m c. holds m c t = holds m c s" "bio_step s t"
    using release_ok [OF log_wfD(1) [OF wf] h cl] by blast
  moreover have "log_wf pid t" by (rule log_wf_bio [OF wf]) (use t log_wfD(13) [OF wf] in auto)
  ultimately show ?thesis by blast
qed

lemma log_set_data_ok:
  fixes s :: "'a klog_scheme"
  assumes wf: "log_wf pid s" and h: "holds n b s" "n \<in> held s"
  shows "log_wf pid (set_data b d s)" "view (set_data b d s) = (view s)(n := d)" "held (set_data b d s) = held s"
    "dirty (set_data b d s) = dirty s" "holds m c (set_data b d s) = holds m c s" "disk (set_data b d s) = disk s"
    "dtrace (set_data b d s) = dtrace s" "bio_step s (set_data b d s)"
proof -
  note sd = set_data_ok [OF log_wfD(1) [OF wf] h]
  show st: "bio_step s (set_data b d s)" by (simp add: set_data_def upd_buf_def bio_step_def)
  show "view (set_data b d s) = (view s)(n := d)" "held (set_data b d s) = held s"
    "dirty (set_data b d s) = dirty s" "holds m c (set_data b d s) = holds m c s" using sd by auto
  show "disk (set_data b d s) = disk s" "dtrace (set_data b d s) = dtrace s" by (simp_all add: set_data_def)
  show "log_wf pid (set_data b d s)"
    by (rule log_wf_bio [OF wf sd(1) sd(4) _ _ st]) (use sd log_wfD(13) [OF wf] in \<open>auto simp: set_data_def\<close>)
qed

text \<open>The slot of the header that \<open>log_write\<close> uses: that of the block, or a new one.\<close>

lemma log_slot:
  fixes s :: "'a klog_scheme" and n :: nat
  assumes wf: "log_wf pid s"
  defines "i \<equiv> case find (\<lambda>i. lg_block s i = n) [0..<nat (lg_n s)] of Some i \<Rightarrow> i | None \<Rightarrow> nat (lg_n s)"
  shows "n \<in> dirty s \<Longrightarrow> i < nat (lg_n s) \<and> lg_block s i = n" "n \<notin> dirty s \<Longrightarrow> i = nat (lg_n s)"
proof -
  note w = log_wfD(7) [OF wf]
  show "i < nat (lg_n s) \<and> lg_block s i = n" if "n \<in> dirty s"
  proof -
    have "n \<in> set (logged s)" using that w by simp
    then obtain j where "j < nat (lg_n s)" "lg_block s j = n" by (auto simp: logged_def)
    then obtain k where "find (\<lambda>i. lg_block s i = n) [0..<nat (lg_n s)] = Some k"
      using find_upt_ex [of 0 j "nat (lg_n s)" "\<lambda>i. lg_block s i = n"] by auto
    then show ?thesis by (simp add: i_def) (simp add: find_upt_Some)
  qed
  show "i = nat (lg_n s)" if "n \<notin> dirty s"
  proof -
    have "lg_block s j \<noteq> n" if "j < nat (lg_n s)" for j using that \<open>n \<notin> dirty s\<close> unfolding w [symmetric] by (auto simp: logged_def)
    then have "find (\<lambda>i. lg_block s i = n) [0..<nat (lg_n s)] = None" by (simp add: find_upt_None)
    then show ?thesis by (simp add: i_def)
  qed
qed

lemma log_write_ok:
  fixes s :: "'a klog_scheme"
  assumes wf: "log_wf pid s" and h: "holds n b s" "n \<in> held s" "n \<notin> log_area s"
    and tr: "1 \<le> lg_outstanding s" "lg_n s < lg_size s - 1"
  shows "\<exists>t. log_write b s = Inr t \<and> log_wf pid t \<and> view t = view s \<and> held t = held s \<and> dirty t = insert n (dirty s) \<and>
    disk t = disk s \<and> dtrace t = dtrace s \<and> (\<forall>m c. holds m c t = holds m c s) \<and> log_step s t \<and>
    lg_n t = (if n \<in> dirty s then lg_n s else lg_n s + 1)"
proof -
  note w = log_wfD [OF wf] and hb = held_buf [OF log_wfD(1) [OF wf] h(1,2)]
  note sd = set_dirty_ok [OF log_wfD(1) [OF wf] h(1,2)]
  let ?N = "nat (lg_n s)"
  define i where "i = (case find (\<lambda>i. lg_block s i = n) [0..<?N] of Some i \<Rightarrow> i | None \<Rightarrow> ?N)"
  define t where "t = (set_dirty b s)\<lparr>lg_n := (if i = ?N then lg_n s + 1 else lg_n s), lg_block := (lg_block s)(i := n)\<rparr>"
  have t': "log_write b s = Inr t"
    using tr w(5) hb(3) bio_wfD(3) [OF w(1)]
    by (simp add: log_write_def Let_def i_def [symmetric] t_def set_dirty_def upd_buf_def cong: option.case_cong if_cong)
  have o: "view t = view s" "held t = held s" "dirty t = insert n (dirty s)" "holds m c t = holds m c s"
    "disk t = disk s" "dtrace t = dtrace s" "bio_wf pid t" for m c
    using sd by (simp_all add: t_def) (simp_all add: set_dirty_def)
  have st: "log_step s t" by (simp add: log_step_def t_def set_dirty_def upd_buf_def)
  have "log_wf pid t \<and> lg_n t = (if n \<in> dirty s then lg_n s else lg_n s + 1)"
  proof (cases "n \<in> dirty s")
    case True
    then have i: "i < ?N" "lg_block s i = n" using log_slot(1) [OF wf, of n] by (simp_all add: i_def)
    then have "lg_block t = lg_block s" "lg_n t = lg_n s" by (auto simp: t_def)
    then show ?thesis using True w o st log_step_sel [OF st] by (auto simp: log_wf_def logged_def insert_absorb)
  next
    case False
    then have i: "i = ?N" using log_slot(2) [OF wf, of n] by (simp add: i_def)
    have b: "lg_block t = (lg_block s)(?N := n)" "lg_n t = lg_n s + 1" using i by (auto simp: t_def)
    have N: "nat (lg_n t) = Suc ?N" using b w(3) by simp
    have lg: "set (logged t) = insert n (set (logged s))" 
    proof -
      have "logged t = logged s @ [n]" unfolding logged_def N b(1) by simp
      then show ?thesis by simp
    qed
    have "inj_on (lg_block t) {..<nat (lg_n t)}"
    proof -
      have "n \<notin> lg_block s ` {..<?N}" using False unfolding w(7) [symmetric] by (auto simp: logged_def)
      moreover have "inj_on (lg_block t) {..<?N}" using w(6) b by (simp add: inj_on_def)
      moreover have "{..<nat (lg_n t)} = insert ?N {..<?N}" using N by auto
      moreover have "lg_block t ` {..<?N} = lg_block s ` {..<?N}" using b by auto
      ultimately show ?thesis using b by auto
    qed
    then show ?thesis using False w o b lg h(3) hb(7) log_step_sel [OF st] tr
      by (auto simp: log_wf_def)
  qed
  then show ?thesis using t' o st by (intro exI [of _ t]) simp
qed

text \<open>A commit empties the log and leaves every block as the cache had it.\<close>

lemma commit_log_ok:
  fixes s :: "'a klog_scheme"
  assumes wf: "log_wf pid s" and h: "held s = {}"
  shows "\<exists>t. commit s = Inr t \<and> log_wf pid t \<and> held t = {} \<and> lg_n t = 0 \<and> log_step s t \<and>
    dtrace t = dtrace s @ (if 0 < lg_n s then commit_writes s else []) \<and>
    (\<forall>b. b \<notin> log_area s \<longrightarrow> view t b = view s b \<and> disk t b = view s b)"
proof (cases "0 < lg_n s")
  case False
  then have n: "lg_n s = 0" using log_wfD(3) [OF wf] by simp
  then have "dirty s = {}" using log_wfD(7) [OF wf] by (simp add: logged_def)
  then have "view s b = disk s b" for b using view_clean [OF log_wfD(1) [OF wf]] h by simp
  moreover have "commit s = Inr s" using n by (simp add: commit_def)
  ultimately show ?thesis using n wf h by (intro exI [of _ s]) simp
next
  case True
  note w = log_wfD [OF wf]
  obtain t where t: "commit s = Inr t" "lg_n t = 0" "wrote pid (commit_writes s) s (t\<lparr>lg_n := lg_n s\<rparr>)"
    using commit_ok [OF wf h True] by blast
  have wt: "bio_wf pid t" "held t = {}" "view t = apply_writes (commit_writes s) (view s)"
      "disk t = apply_writes (commit_writes s) (disk s)" "dtrace t = dtrace s @ commit_writes s"
      "dirty t = dirty s - fst ` set (commit_writes s)" "bio_step s (t\<lparr>lg_n := lg_n s\<rparr>)"
    using t(3) by (simp_all add: wrote_def)
  have d: "dirty t = {}" unfolding wt(6) commit_writes_def using w(7) by (auto simp: image_Un fst_writes)
  have st: "log_step s t"
  proof -
    have "log_step s (t\<lparr>lg_n := lg_n s\<rparr>)" using wt(7) by (rule bio_log_step)
    moreover have "log_step (t\<lparr>lg_n := lg_n s\<rparr>) t" by (simp add: log_step_def)
    ultimately show ?thesis by (rule log_step_trans)
  qed
  note f = log_step_sel [OF st]
  have vw: "view s b = disk s b" if "b \<notin> dirty s" for b using view_clean [OF w(1) _ that] h by simp
  have "disk t b = view s b" if "b \<notin> log_area s" for b
    using crash_done(2) [OF wf that] vw wt(4) by simp
  moreover have "view t b = disk t b" for b using view_clean [OF wt(1)] wt(2) d by simp
  moreover have "log_wf pid t"
  proof -
    have "sint (rd32 0 (disk t (lg_start s))) = 0" by (simp add: wt(4) commit_writes_def head_zero)
    then show ?thesis using wt(1,2) t(2) d w f by (simp add: log_wf_def logged_def)
  qed
  ultimately show ?thesis using t(1,2) wt(2,5) st True by (intro exI [of _ t]) simp
qed

lemma begin_op_eq:
  fixes s :: "'a klog_scheme"
  assumes "locks s = []"
  shows "begin_op s = (if lg_committing s \<or> lg_n s + (lg_outstanding s + 1) * int MAXOPBLOCKS > int LOGSIZE
     then Inl WouldSleep else Inr (s\<lparr>lg_outstanding := lg_outstanding s + 1\<rparr>))"
  using assms by (simp add: begin_op_def)

lemma log_wf_outstanding [simp]:
  "log_wf pid (s\<lparr>lg_outstanding := k\<rparr>) = log_wf pid s" "log_wf pid (s\<lparr>lg_committing := c\<rparr>) = log_wf pid s"
  "log_area (s\<lparr>lg_outstanding := k\<rparr>) = log_area s" "log_area (s\<lparr>lg_committing := c\<rparr>) = log_area s"
  by (simp_all add: log_wf_def log_area_def logged_def)

lemma wakeup_log:
  fixes s :: "'a klog_scheme"
  assumes "locks s = [Llog]"
  shows "bindR (wakeup ch s) (release Llog) = Inr (s\<lparr>locks := [], ptable := ptable (wakeup1 ch s)\<rparr>)"
  using assms by (simp add: wakeup_ok)

lemma curpid_wakeup [simp]: "curpid (s\<lparr>ptable := ptable (wakeup1 ch u)\<rparr>) = curpid s" if "ptable u = ptable s"
  using that by (simp add: curpid_def wakeup1_eq split: option.split)

lemma log_wf_wakeup:
  fixes s :: "'a klog_scheme"
  assumes "log_wf pid s" "ptable u = ptable s"
  shows "log_wf pid (s\<lparr>ptable := ptable (wakeup1 ch u)\<rparr>)"
proof -
  let ?t = "s\<lparr>ptable := ptable (wakeup1 ch u)\<rparr>"
  have "bio_wf pid ?t = bio_wf pid s" by (rule bio_wf_cong) (use assms(2) in simp_all)
  moreover have "held ?t = held s" "dirty ?t = dirty s" by (rule obs_cong; simp)+
  ultimately show ?thesis using assms(1) by (simp add: log_wf_def log_area_def logged_def)
qed

text \<open>
  \<open>end_op\<close>: the last operation commits once more than half of the log is used; otherwise
  nothing is written to the disk.
\<close>

lemma end_op_ok:
  fixes s :: "'a klog_scheme"
  assumes wf: "log_wf pid s" and h: "held s = {}" and c: "\<not> lg_committing s"
  defines "now \<equiv> lg_outstanding s = 1 \<and> lg_n s > lg_size s div 2"
  shows "\<exists>t. end_op s = Inr t \<and> log_wf pid t \<and> held t = {} \<and> \<not> lg_committing t \<and>
    lg_outstanding t = lg_outstanding s - 1 \<and> lg_size t = lg_size s \<and> lg_start t = lg_start s \<and> disksize t = disksize s \<and>
    lg_n t = (if now then 0 else lg_n s) \<and>
    dtrace t = dtrace s @ (if now \<and> 0 < lg_n s then commit_writes s else []) \<and>
    (\<forall>b. b \<notin> log_area s \<longrightarrow> view t b = view s b \<and> disk t b = (if now then view s b else disk s b)) \<and>
    log_step (s\<lparr>lg_outstanding := lg_outstanding s - 1\<rparr>) t"
proof -
  note lk = bio_wfD(3) [OF log_wfD(1) [OF wf]]
  let ?s = "s\<lparr>lg_outstanding := lg_outstanding s - 1\<rparr>"
  show ?thesis
  proof (cases now)
    case False
    let ?t = "?s\<lparr>ptable := ptable (wakeup1 (Some ChLog) ?s)\<rparr>"
    have "end_op s = Inr ?t" using False lk c by (simp add: end_op_def now_def wakeup_log wakeup1_eq cong: if_cong) argo
    moreover have "log_wf pid ?t" by (rule log_wf_wakeup) (use wf in simp_all)
    moreover have "held ?t = held ?s" "view ?t = view ?s" by (rule obs_cong; simp)+
    moreover have "log_step ?s ?t" by (simp add: log_step_def)
    ultimately show ?thesis using False h c by (intro exI [of _ ?t]) simp
  next
    case True
    let ?s1 = "?s\<lparr>lg_committing := True\<rparr>"
    have w1: "log_wf pid ?s1" "held ?s1 = {}" using wf h by simp_all
    obtain t where t: "commit ?s1 = Inr t" "log_wf pid t" "held t = {}" "lg_n t = 0" "log_step ?s1 t"
        "dtrace t = dtrace ?s1 @ (if 0 < lg_n ?s1 then commit_writes ?s1 else [])"
        "\<forall>b. b \<notin> log_area ?s1 \<longrightarrow> view t b = view ?s1 b \<and> disk t b = view ?s1 b"
      using commit_log_ok [OF w1] by blast
    note f = log_step_sel [OF t(5)]
    have cw: "commit_writes ?s1 = commit_writes s"
      by (simp add: commit_writes_def log_writes_def home_writes_def full_head_def)
    let ?u = "t\<lparr>lg_committing := False\<rparr>"
    let ?t = "?u\<lparr>ptable := ptable (wakeup1 (Some ChLog) ?u)\<rparr>"
    have "end_op s = Inr ?t" using True lk c t(1) bio_wfD(3) [OF log_wfD(1) [OF t(2)]]
      by (simp add: end_op_def now_def wakeup_log wakeup1_eq locks_restore cong: if_cong)
    moreover have "log_wf pid ?t" by (rule log_wf_wakeup) (use t(2) in simp_all)
    moreover have "held ?t = held ?u" "view ?t = view ?u" by (rule obs_cong; simp)+
    moreover have "log_step ?s ?t"
      using arg_cong [OF t(5) [unfolded log_step_def], of "\<lambda>t. t\<lparr>lg_committing := False, ptable := ptable ?t\<rparr>"] c
      by (simp add: log_step_def)
    ultimately show ?thesis using True t f cw by (intro exI [of _ ?t]) simp
  qed
qed

section \<open>The block store a file system operation sees\<close>

text \<open>
  A client of the log reads blocks and replaces their contents; the contract is that of an
  array of blocks with a budget of updates.
\<close>

fun apply_upds :: "(nat \<times> ('b \<Rightarrow> 'b)) list \<Rightarrow> (nat \<Rightarrow> 'b) \<Rightarrow> nat \<Rightarrow> 'b" where
  "apply_upds [] c = c"
| "apply_upds ((n, f) # us) c = apply_upds us (c(n := f (c n)))"

locale block_store =
  fixes inv :: "'s \<Rightarrow> bool" and content :: "'s \<Rightarrow> nat \<Rightarrow> 'b" and readable :: "'s \<Rightarrow> nat set"
    and writable :: "'s \<Rightarrow> nat set" and space :: "'s \<Rightarrow> int"
    and rd :: "nat \<Rightarrow> 's \<Rightarrow> (fault + 'b \<times> 's)" and upd :: "nat \<Rightarrow> ('b \<Rightarrow> 'b) \<Rightarrow> 's \<Rightarrow> (fault + 's)"
  assumes rd_law: "inv s \<Longrightarrow> n \<in> readable s \<Longrightarrow> \<exists>t. rd n s = Inr (content s n, t) \<and> inv t \<and> content t = content s \<and>
        readable t = readable s \<and> writable t = writable s \<and> space t = space s"
    and upd_law: "inv s \<Longrightarrow> n \<in> writable s \<Longrightarrow> 0 < space s \<Longrightarrow> \<exists>t. upd n f s = Inr t \<and> inv t \<and>
        content t = (content s)(n := f (content s n)) \<and> readable t = readable s \<and> writable t = writable s \<and> space s - 1 \<le> space t"
    and writable_readable: "inv s \<Longrightarrow> writable s \<subseteq> readable s"
begin

lemma rd_after_upd:
  assumes "inv s" "n \<in> writable s" "0 < space s" "m \<in> readable s"
  shows "\<exists>t u. upd n f s = Inr t \<and> rd m t = Inr (if m = n then f (content s n) else content s m, u) \<and>
    inv u \<and> content u = (content s)(n := f (content s n))"
proof -
  obtain t where t: "upd n f s = Inr t" "inv t" "content t = (content s)(n := f (content s n))" "readable t = readable s"
    using upd_law [OF assms(1-3)] by blast
  moreover have "m \<in> readable t" using t(4) assms(4) by simp
  ultimately show ?thesis using rd_law [of t m] by (auto simp: fun_upd_def)
qed

lemma upds:
  assumes "inv s" "\<forall>(n, f) \<in> set us. n \<in> writable s" "int (length us) \<le> space s"
  shows "\<exists>t. foldR (\<lambda>(n, f). upd n f) us s = Inr t \<and> inv t \<and>
    content t = apply_upds us (content s) \<and> writable t = writable s \<and> readable t = readable s \<and>
    space s - int (length us) \<le> space t"
  using assms
proof (induction us arbitrary: s)
  case Nil
  then show ?case by simp
next
  case (Cons u us)
  obtain n f where u: "u = (n, f)" by (cases u)
  obtain t where t: "upd n f s = Inr t" "inv t" "content t = (content s)(n := f (content s n))" "writable t = writable s"
      "space s - 1 \<le> space t" "readable t = readable s"
    using upd_law [of s n f] Cons.prems u by auto
  have p: "\<forall>(n, f) \<in> set us. n \<in> writable t" "int (length us) \<le> space t" using Cons.prems(2,3) t(4,5) by auto
  obtain v where "foldR (\<lambda>(n, f). upd n f) us t = Inr v" "inv v"
      "content v = apply_upds us (content t)" "writable v = writable t" "readable v = readable t"
      "space t - int (length us) \<le> space v"
    using Cons.IH [OF t(2) p] by blast
  then show ?case using t u by (intro exI [of _ v]) simp
qed

end

text \<open>The two ways in which the file system uses a buffer.\<close>

definition read_block :: "nat \<Rightarrow> nat \<Rightarrow> 'a kbio_scheme \<Rightarrow> (block \<times> 'a kbio_scheme) res" where
  "read_block dev n s = bindR (bread dev n s) (\<lambda>(b, s). bindR (brelse b s) (\<lambda>t. Inr (b_data (bcache s b), t)))"

definition update_block :: "nat \<Rightarrow> nat \<Rightarrow> (block \<Rightarrow> block) \<Rightarrow> 'a klog_scheme \<Rightarrow> 'a klog_scheme res" where
  "update_block dev n f s =
     bindR (bread dev n s) (\<lambda>(b, s).
     bindR (log_write b (set_data b (f (b_data (bcache s b))) s)) (brelse b))"

definition txn :: "int \<Rightarrow> 'a klog_scheme \<Rightarrow> bool" where
  "txn pid s \<longleftrightarrow> log_wf pid s \<and> held s = {} \<and> 1 \<le> lg_outstanding s"

definition blocks :: "'a klog_scheme \<Rightarrow> nat set" where
  "blocks s = {..<disksize s} - {lg_start s}"

definition home_blocks :: "'a klog_scheme \<Rightarrow> nat set" where
  "home_blocks s = {..<disksize s} - log_area s"

definition log_space :: "'a klog_scheme \<Rightarrow> int" where
  "log_space s = lg_size s - 1 - lg_n s"

text \<open>Both may happen while other buffers are held.\<close>

lemma read_block_gen:
  fixes s :: "'a klog_scheme"
  assumes wf: "log_wf pid s" and n: "n \<in> blocks s" "n \<notin> held s" and room: "busy s < NBUF"
  shows "\<exists>t. read_block 1 n s = Inr (view s n, t) \<and> log_wf pid t \<and> held t = held s \<and> view t = view s \<and> dirty t = dirty s \<and>
    disk t = disk s \<and> dtrace t = dtrace s \<and> bio_step s t \<and> (\<forall>m c. holds m c s \<and> m \<in> held s \<longrightarrow> holds m c t)"
proof -
  obtain b t where t: "bread 1 n s = Inr (b, t)" "b_data (bcache t b) = view s n" "log_wf pid t" "holds n b t" "n \<in> held t"
    "n \<in> dirty t \<or> view t n = disk t n" "view t = view s" "held t = insert n (held s)" "dirty t = dirty s"
    "disk t = disk s" "dtrace t = dtrace s" "bio_step s t" "\<forall>m c. holds m c s \<and> m \<in> held s \<longrightarrow> holds m c t"
    using log_read_ok [OF wf _ n(2) _ room] n by (auto simp: blocks_def)
  obtain u where u: "brelse b t = Inr u" "log_wf pid u" "view u = view t" "held u = held t - {n}" "dirty u = dirty t"
    "disk u = disk t" "dtrace u = dtrace t" "\<forall>m c. holds m c u = holds m c t" "bio_step t u"
    using log_release_ok [OF t(3-6)] by blast
  have "bio_step s u" using t(12) u(9) by (rule bio_step_trans)
  then show ?thesis using t u n(2) by (intro exI [of _ u]) (simp add: read_block_def)
qed

lemma write_back_ok:
  fixes s :: "'a klog_scheme"
  assumes wf: "log_wf pid s" and h: "holds n b s" "n \<in> held s" "n \<notin> log_area s"
    and tr: "1 \<le> lg_outstanding s" "0 < log_space s"
  shows "\<exists>u t. log_write b (set_data b d s) = Inr u \<and> brelse b u = Inr t \<and> log_wf pid t \<and> view t = (view s)(n := d) \<and>
    held t = held s - {n} \<and> dirty t = insert n (dirty s) \<and> disk t = disk s \<and> dtrace t = dtrace s \<and> log_step s t \<and>
    lg_n t = (if n \<in> dirty s then lg_n s else lg_n s + 1) \<and> (\<forall>m c. holds m c t = holds m c s)"
proof -
  note sd = log_set_data_ok [OF wf h(1,2), where d = d]
  note f1 = log_step_sel [OF bio_log_step [OF sd(8)]]
  have ln: "lg_n (set_data b d s) = lg_n s" using bio_step_log(6) [OF sd(8)] .
  have h1: "holds n b (set_data b d s)" "n \<in> held (set_data b d s)" "n \<notin> log_area (set_data b d s)"
    "1 \<le> lg_outstanding (set_data b d s)" "lg_n (set_data b d s) < lg_size (set_data b d s) - 1"
    using sd h f1 tr ln by (simp_all add: log_space_def)
  obtain u where u: "log_write b (set_data b d s) = Inr u" "log_wf pid u" "view u = view (set_data b d s)"
      "held u = held (set_data b d s)" "dirty u = insert n (dirty (set_data b d s))"
      "disk u = disk (set_data b d s)" "dtrace u = dtrace (set_data b d s)"
      "\<forall>m c. holds m c u = holds m c (set_data b d s)" "log_step (set_data b d s) u"
      "lg_n u = (if n \<in> dirty (set_data b d s) then lg_n (set_data b d s) else lg_n (set_data b d s) + 1)"
    using log_write_ok [OF sd(1) h1] by blast
  have "holds n b u" "n \<in> held u" "n \<in> dirty u \<or> view u n = disk u n" using u h1 by auto
  then obtain v where v: "brelse b u = Inr v" "log_wf pid v" "view v = view u" "held v = held u - {n}" "dirty v = dirty u"
    "disk v = disk u" "dtrace v = dtrace u" "\<forall>m c. holds m c v = holds m c u" "bio_step u v"
    using log_release_ok [OF u(2)] by blast
  have "log_step s v" using bio_log_step [OF sd(8)] u(9) bio_log_step [OF v(9)] by (blast intro: log_step_trans)
  moreover have "lg_n v = lg_n u" using bio_step_log(6) [OF v(9)] .
  ultimately show ?thesis using sd u v ln by (intro exI [of _ u] exI [of _ v]) simp
qed

lemma update_block_gen:
  fixes s :: "'a klog_scheme"
  assumes wf: "log_wf pid s" and o: "1 \<le> lg_outstanding s" and n: "n \<in> home_blocks s" "n \<notin> held s"
    and room: "busy s < NBUF" and sp: "0 < log_space s"
  shows "\<exists>t. update_block 1 n f s = Inr t \<and> log_wf pid t \<and> held t = held s \<and> view t = (view s)(n := f (view s n)) \<and>
    dirty t = insert n (dirty s) \<and> disk t = disk s \<and> dtrace t = dtrace s \<and> log_step s t \<and>
    lg_n t = (if n \<in> dirty s then lg_n s else lg_n s + 1) \<and> (\<forall>m c. holds m c s \<and> m \<in> held s \<longrightarrow> holds m c t)"
proof -
  have n': "n < disksize s" "n \<notin> log_area s" "n \<noteq> lg_start s" using n start_in_area [OF wf] by (auto simp: home_blocks_def)
  obtain b t where t: "bread 1 n s = Inr (b, t)" "b_data (bcache t b) = view s n" "log_wf pid t" "holds n b t" "n \<in> held t"
    "view t = view s" "held t = insert n (held s)" "dirty t = dirty s"
    "disk t = disk s" "dtrace t = dtrace s" "bio_step s t" "\<forall>m c. holds m c s \<and> m \<in> held s \<longrightarrow> holds m c t"
    using log_read_ok [OF wf n'(1) n(2) n'(3) room] by auto
  note f1 = log_step_sel [OF bio_log_step [OF t(11)]]
  have ln: "lg_n t = lg_n s" using bio_step_log(6) [OF t(11)] .
  have h: "n \<notin> log_area t" "1 \<le> lg_outstanding t" "0 < log_space t" using f1 n'(2) o ln sp by (simp_all add: log_space_def)
  obtain u v where v: "log_write b (set_data b (f (view s n)) t) = Inr u" "brelse b u = Inr v" "log_wf pid v"
      "view v = (view t)(n := f (view s n))" "held v = held t - {n}" "dirty v = insert n (dirty t)" "disk v = disk t"
      "dtrace v = dtrace t" "log_step t v" "lg_n v = (if n \<in> dirty t then lg_n t else lg_n t + 1)"
      "\<forall>m c. holds m c v = holds m c t"
    using write_back_ok [OF t(3-5) h] by blast
  have "log_step s v" using bio_log_step [OF t(11)] v(9) by (rule log_step_trans)
  moreover have "update_block 1 n f s = Inr v" using t(1,2) v(1,2) by (simp add: update_block_def)
  ultimately show ?thesis using t v ln n(2) by (intro exI [of _ v]) simp
qed

lemma busy_idle: "log_wf pid s \<Longrightarrow> held s = {} \<Longrightarrow> busy s < NBUF"
  using log_card(2) [of pid s] by (simp add: busy_def)

lemma read_block_ok:
  fixes s :: "'a klog_scheme"
  assumes "log_wf pid s" "held s = {}" "n \<in> blocks s"
  shows "\<exists>t. read_block 1 n s = Inr (view s n, t) \<and> log_wf pid t \<and> held t = {} \<and> view t = view s \<and> dirty t = dirty s \<and>
    disk t = disk s \<and> dtrace t = dtrace s \<and> bio_step s t"
  using read_block_gen [OF assms(1,3) _ busy_idle [OF assms(1,2)]] assms(2) by simp

lemma update_block_ok:
  fixes s :: "'a klog_scheme"
  assumes tx: "txn pid s" and n: "n \<in> home_blocks s" and sp: "0 < log_space s"
  shows "\<exists>t. update_block 1 n f s = Inr t \<and> txn pid t \<and> view t = (view s)(n := f (view s n)) \<and>
    dirty t = insert n (dirty s) \<and> disk t = disk s \<and> dtrace t = dtrace s \<and> log_step s t \<and>
    lg_n t = (if n \<in> dirty s then lg_n s else lg_n s + 1)"
proof -
  have w: "log_wf pid s" "held s = {}" "1 \<le> lg_outstanding s" "n \<notin> held s" using tx by (simp_all add: txn_def)
  obtain t where t: "update_block 1 n f s = Inr t" "log_wf pid t" "held t = held s" "view t = (view s)(n := f (view s n))"
    "dirty t = insert n (dirty s)" "disk t = disk s" "dtrace t = dtrace s" "log_step s t"
    "lg_n t = (if n \<in> dirty s then lg_n s else lg_n s + 1)"
    using update_block_gen [OF w(1,3) n w(4) busy_idle [OF w(1,2)] sp] by blast
  then show ?thesis using w log_step_sel(8) [OF t(8)] by (intro exI [of _ t]) (simp add: txn_def)
qed

interpretation tx: block_store "txn pid" view blocks home_blocks log_space "read_block 1" "update_block 1" for pid
proof
  fix s :: "'a klog_scheme" and n f
  assume tx: "txn pid s"
  show "home_blocks s \<subseteq> blocks s" using tx start_in_area [of pid s] by (auto simp: home_blocks_def blocks_def txn_def)
  show "\<exists>t. read_block 1 n s = Inr (view s n, t) \<and> txn pid t \<and> view t = view s \<and> blocks t = blocks s \<and>
     home_blocks t = home_blocks s \<and> log_space t = log_space s" if n: "n \<in> blocks s"
  proof -
    obtain t where t: "read_block 1 n s = Inr (view s n, t)" "log_wf pid t" "held t = {}" "view t = view s" "bio_step s t"
      using read_block_ok [of pid s n] tx n by (auto simp: txn_def)
    note f = log_step_sel [OF bio_log_step [OF t(5)]] bio_step_log(6) [OF t(5)]
    show ?thesis using t f tx by (intro exI [of _ t]) (simp add: txn_def blocks_def home_blocks_def log_space_def)
  qed
  show "\<exists>t. update_block 1 n f s = Inr t \<and> txn pid t \<and> view t = (view s)(n := f (view s n)) \<and> blocks t = blocks s \<and>
     home_blocks t = home_blocks s \<and> log_space s - 1 \<le> log_space t" if n: "n \<in> home_blocks s" "0 < log_space s"
  proof -
    obtain t where t: "update_block 1 n f s = Inr t" "txn pid t" "view t = (view s)(n := f (view s n))" "log_step s t"
        "lg_n t = (if n \<in> dirty s then lg_n s else lg_n s + 1)"
      using update_block_ok [OF tx n] by blast
    note f = log_step_sel [OF t(4)]
    show ?thesis using t f by (intro exI [of _ t]) (simp add: blocks_def home_blocks_def log_space_def)
  qed
qed

section \<open>The log as a state machine\<close>

text \<open>
  Any number of operations begin, update blocks, end, and \<open>sync\<close>, in any order; an operation
  that would have to wait has no step.
\<close>

inductive log_run :: "'a klog_scheme \<Rightarrow> 'a klog_scheme \<Rightarrow> bool" for s :: "'a klog_scheme" where
  run_start: "log_run s s"
| run_begin: "log_run s t \<Longrightarrow> begin_op t = Inr u \<Longrightarrow> log_run s u"
| run_update: "log_run s t \<Longrightarrow> n \<in> home_blocks t \<Longrightarrow> update_block 1 n f t = Inr u \<Longrightarrow> log_run s u"
| run_end: "log_run s t \<Longrightarrow> 1 \<le> lg_outstanding t \<Longrightarrow> end_op t = Inr u \<Longrightarrow> log_run s u"
| run_sync: "log_run s t \<Longrightarrow> sys_sync t = Inr (r, u) \<Longrightarrow> log_run s u"

definition log_idle_ok :: "int \<Rightarrow> 'a klog_scheme \<Rightarrow> bool" where
  "log_idle_ok pid s \<longleftrightarrow> log_wf pid s \<and> held s = {} \<and> \<not> lg_committing s \<and> 0 \<le> lg_outstanding s \<and>
     (lg_outstanding s = 0 \<longrightarrow> lg_n s \<le> lg_size s div 2)"

lemma update_needs:
  fixes s :: "'a klog_scheme"
  assumes "log_wf pid s" "held s = {}" "n \<in> home_blocks s" "update_block 1 n f s = Inr t"
  shows "txn pid s \<and> 0 < log_space s"
proof (rule ccontr)
  assume no: "\<not> (txn pid s \<and> 0 < log_space s)"
  have "busy s < NBUF" using log_card(2) [OF assms(1)] assms(2) by (simp add: busy_def)
  moreover have "n < disksize s" "n \<notin> held s" "n \<noteq> lg_start s"
    using assms(2,3) start_in_area [OF assms(1)] by (auto simp: home_blocks_def)
  ultimately obtain b u where u: "bread 1 n s = Inr (b, u)" "bio_step s u" using log_read_ok [OF assms(1)] by blast
  let ?v = "set_data b (f (b_data (bcache u b))) u"
  have "bio_step s ?v" using u(2) by (rule bio_step_trans) (simp add: set_data_def upd_buf_def bio_step_def)
  note g = bio_step_log [OF this]
  have "lg_n ?v \<ge> lg_size ?v - 1 \<or> lg_outstanding ?v < 1"
    using no assms(1,2) g by (auto simp: txn_def log_space_def)
  then have "\<exists>e. log_write b ?v = Inl e" by (auto simp: log_write_def)
  then show False using assms(4) u(1) by (auto simp: update_block_def)
qed

lemma log_run_inv:
  assumes "log_run s t" "log_idle_ok pid s"
  shows "log_idle_ok pid t \<and> lg_size t = lg_size s"
  using assms
proof (induction rule: log_run.induct)
  case run_start
  then show ?case by simp
next
  case (run_begin t u)
  then have t: "log_idle_ok pid t" "lg_size t = lg_size s" by simp_all
  then have lk: "locks t = []" using bio_wfD(3) log_wfD(1) by (fastforce simp: log_idle_ok_def)
  show ?case using run_begin.hyps(2) t unfolding begin_op_eq [OF lk]
    by (auto simp: log_idle_ok_def split: if_splits)
next
  case (run_update t n f u)
  then have t: "log_idle_ok pid t" "lg_size t = lg_size s" by simp_all
  have tx: "txn pid t" "0 < log_space t"
    using update_needs [OF _ _ run_update.hyps(2,3)] t by (auto simp: log_idle_ok_def)
  obtain v where v: "update_block 1 n f t = Inr v" "txn pid v" "log_step t v"
    using update_block_ok [OF tx(1) run_update.hyps(2) tx(2)] by blast
  have "u = v" using v(1) run_update.hyps(3) by simp
  then show ?case using v(2) t log_step_sel [OF v(3)] by (auto simp: log_idle_ok_def txn_def)
next
  case (run_end t u)
  then have t: "log_idle_ok pid t" "lg_size t = lg_size s" by simp_all
  obtain v where v: "end_op t = Inr v" "log_wf pid v" "held v = {}" "\<not> lg_committing v"
      "lg_outstanding v = lg_outstanding t - 1" "lg_size v = lg_size t"
      "lg_n v = (if lg_outstanding t = 1 \<and> lg_n t > lg_size t div 2 then 0 else lg_n t)"
    using end_op_ok [of pid t] t(1) unfolding log_idle_ok_def by blast
  have "0 \<le> lg_size t div 2" using t(1) log_wfD(3,4) [of pid t] by (auto simp: log_idle_ok_def)
  then show ?case using v run_end.hyps(2,3) t by (auto simp: log_idle_ok_def split: if_splits)
next
  case (run_sync t r u)
  then have t: "log_idle_ok pid t" "lg_size t = lg_size s" by simp_all
  obtain v where v: "commit t = Inr v" "log_wf pid v" "held v = {}" "lg_n v = 0" "log_step t v"
    using commit_log_ok [of pid t] t(1) unfolding log_idle_ok_def by blast
  have "0 \<le> lg_size t div 2" using t(1) log_wfD(3,4) [of pid t] by (auto simp: log_idle_ok_def)
  then show ?case using v run_sync.hyps(2) t log_step_sel [OF v(5)] by (auto simp: log_idle_ok_def sys_sync_def)
qed

section \<open>A machine that has just started\<close>

definition boot_klog :: "(nat \<Rightarrow> block) \<Rightarrow> nat \<Rightarrow> nat \<Rightarrow> klog" where
  "boot_klog d n st = kbio.extend (binit (boot_kbio d n)) (klog.fields st (int LOGSIZE) 0 False 1 0 (\<lambda>_. 0))"

lemma kbio_extend_sel:
  "disk (kbio.extend s x) = disk s" "disksize (kbio.extend s x) = disksize s" "dtrace (kbio.extend s x) = dtrace s"
  "bcache (kbio.extend s x) = bcache s" "locks (kbio.extend s x) = locks s" "curpid (kbio.extend s x) = curpid s"
  by (simp_all add: kbio.defs curpid_def split: option.split)

lemma binit_boot_sel:
  "disk (binit (boot_kbio d n)) = d" "disksize (binit (boot_kbio d n)) = n" "dtrace (binit (boot_kbio d n)) = []"
  "locks (binit (boot_kbio d n)) = []" "curpid (binit (boot_kbio d n)) = Inr 0"
  by (subst boot_binit(6), simp)+

lemma boot_klog_sel [simp]:
  "lg_start (boot_klog d n st) = st" "lg_size (boot_klog d n st) = int LOGSIZE" "lg_outstanding (boot_klog d n st) = 0"
  "lg_committing (boot_klog d n st) = False" "lg_dev (boot_klog d n st) = 1" "lg_n (boot_klog d n st) = 0"
  by (simp_all add: boot_klog_def kbio.defs klog.defs)

lemma boot_klog_bio [simp]:
  "disk (boot_klog d n st) = d" "disksize (boot_klog d n st) = n" "locks (boot_klog d n st) = []" "dtrace (boot_klog d n st) = []"
  "bcache (boot_klog d n st) = bcache (binit (boot_kbio d n))" "curpid (boot_klog d n st) = Inr 0"
  by (simp_all add: boot_klog_def kbio_extend_sel binit_boot_sel)

lemma boot_klog_obs [simp]:
  "held (boot_klog d n st) = {}" "dirty (boot_klog d n st) = {}" "view (boot_klog d n st) = d" "bio_wf 0 (boot_klog d n st)"
proof -
  have b: "bcache (boot_klog d n st) = bcache (binit (boot_kbio d n))" "disk (boot_klog d n st) = disk (binit (boot_kbio d n))"
    by (simp_all add: binit_boot_sel)
  show "held (boot_klog d n st) = {}" "dirty (boot_klog d n st) = {}" "view (boot_klog d n st) = d"
    using obs_cong [OF b] boot_binit by simp_all
  show "bio_wf 0 (boot_klog d n st)"
    using bio_wf_cong [OF b, of 0] boot_binit(1) by (simp add: binit_boot_sel)
qed

lemma boot_klog_clean [simp]: "clean 0 (boot_klog d n st)"
  by (simp add: clean_def)

lemma boot_klog_idle:
  assumes "st + LOGSIZE \<le> n" "n \<le> 2 ^ 32" "sint (rd32 0 (d st)) = 0"
  shows "log_idle_ok 0 (boot_klog d n st)"
  using assms by (simp add: log_idle_ok_def log_wf_def logged_def log_area_def params)

text \<open>One update of block 50 on a machine with a zeroed disk of 100 blocks.\<close>

lemma one_update:
  "\<exists>u v. begin_op (boot_klog (\<lambda>_ _. 0) 100 2) = Inr u \<and> update_block 1 50 (\<lambda>_ _. 9) u = Inr v \<and> log_wf 0 v \<and> held v = {} \<and>
     lg_n v = 1 \<and> lg_start v = 2 \<and> lg_size v = int LOGSIZE \<and> disksize v = 100 \<and> disk v = (\<lambda>_ _. 0) \<and>
     view v = (\<lambda>_ _. 0)(50 := \<lambda>_. 9) \<and> lg_outstanding v = 1 \<and> \<not> lg_committing v"
proof -
  let ?s = "boot_klog (\<lambda>_ _. 0) 100 2"
  have i: "log_idle_ok 0 ?s" by (rule boot_klog_idle) (simp_all add: params rd32_def)
  let ?u = "?s\<lparr>lg_outstanding := 1\<rparr>"
  have b: "begin_op ?s = Inr ?u" by (simp add: begin_op_eq params)
  have tx: "txn 0 ?u" using i by (simp add: txn_def log_idle_ok_def)
  have h: "50 \<in> home_blocks ?u" "0 < log_space ?u" by (simp_all add: home_blocks_def log_area_def log_space_def params)
  obtain v where v: "update_block 1 50 (\<lambda>_ _. 9) ?u = Inr v" "txn 0 v" "view v = (view ?u)(50 := \<lambda>_. 9)"
     "disk v = disk ?u" "log_step ?u v" "lg_n v = (if 50 \<in> dirty ?u then lg_n ?u else lg_n ?u + 1)"
    using update_block_ok [OF tx h, of "\<lambda>_ _. 9"] by auto
  show ?thesis using b v log_step_sel [OF v(5)] by (intro exI [of _ ?u] exI [of _ v]) (simp add: txn_def)
qed

section \<open>Properties\<close>

text \<open>
  C1. A commit is atomic with respect to crashes. It writes the logged blocks to the log,
  then the header, then the home blocks, then clears the header; and whichever prefix of
  these writes reached the disk before the crash, recovery at the next start leaves every
  block outside the log as it was before the transaction (when the header had not been
  written), or every one as the transaction left it.
\<close>

theorem commit_crash_atomic:
  fixes s :: "'a klog_scheme" and r :: "'b klog_scheme"
  assumes wf: "log_wf pid s" "held s = {}" "0 < lg_n s"
    and r: "clean pid' r" "lg_start r = lg_start s" "lg_size r = lg_size s" "disksize r = disksize s"
      "disk r = apply_writes (take k (commit_writes s)) (disk s)" "k \<le> length (commit_writes s)"
  shows "(\<exists>t. commit s = Inr t \<and> dtrace t = dtrace s @ commit_writes s) \<and>
    (\<exists>t. recover_from_log r = Inr t \<and> lg_n t = 0 \<and>
      (\<forall>b. b \<notin> log_area s \<longrightarrow> disk t b = (if k \<le> nat (lg_n s) then disk s b else view s b)))"
proof
  show "\<exists>t. commit s = Inr t \<and> dtrace t = dtrace s @ commit_writes s"
    using commit_ok [OF wf] by (auto simp: wrote_def)
  note w = log_wfD [OF wf(1)] and sa = start_in_area [OF wf(1)]
  have sz: "0 < lg_size r" "lg_size r \<le> int LOGSIZE" "lg_start r + nat (lg_size r) \<le> disksize r"
    using w r(2,3,4) by auto
  have vw: "view s b = disk s b" if "b \<notin> dirty s" for b using view_clean [OF w(1) _ that] wf(2) by simp
  have main: "head_ok r (disk r) \<and> (\<forall>b. b \<notin> log_area s \<longrightarrow> apply_writes (rec_writes (lg_start r) (disk r)) (disk r) b =
      (if k \<le> nat (lg_n s) then disk s b else view s b))"
  proof -
    consider "k \<le> nat (lg_n s)" | "nat (lg_n s) < k" "k < length (commit_writes s)" | "k = length (commit_writes s)" "nat (lg_n s) < k"
      using r(6) by linarith
    then show ?thesis
    proof cases
      case 1
      note c = crash_before [OF wf(1) 1, folded r(5)]
      show ?thesis using head_ok_empty [of r "disk r"] c sz 1 r(2) by simp
    next
      case 2
      note c = crash_after [OF wf(1,3), where j = "k - nat (lg_n s) - 1", folded commit_writes_take [OF 2] r(5)]
      have "inj_on (rec_blk (lg_start s) (disk r)) {..<nat (lg_n s)}"
        using w(6) inj_on_cong [of "{..<nat (lg_n s)}" "rec_blk (lg_start s) (disk r)" "lg_block s"] c(2) by simp
      then have "head_ok r (disk r)"
        using c(1,2) w r(2,3,4) log_entry(2,5) [OF wf(1)] by (auto simp: head_ok_def log_area_def)
      moreover have "apply_writes (home_writes s) (disk r) b = view s b" if "b \<notin> log_area s" for b
        using c(4) that vw by (simp add: home_apply [OF wf(1)])
      ultimately show ?thesis using c(3) 2(1) r(2) by simp
    next
      case 3
      have e: "disk r = apply_writes (commit_writes s) (disk s)" using 3(1) r(5) by simp
      note c = crash_done [OF wf(1), folded e]
      have "\<not> k \<le> nat (lg_n s)" using 3(2) by simp
      then show ?thesis using head_ok_empty [of r "disk r"] c sz r(2) vw by (simp cong: if_cong)
    qed
  qed
  obtain t where t: "recover_from_log r = Inr t" "lg_n t = 0"
      "disk t = (apply_writes (rec_writes (lg_start r) (disk r)) (disk r))(lg_start r := clear_head (disk r (lg_start r)))"
    using recover_ok [OF r(1)] main by blast
  have "disk t b = (if k \<le> nat (lg_n s) then disk s b else view s b)" if "b \<notin> log_area s" for b
    using main that t(3) sa r(2) by auto
  then show "\<exists>t. recover_from_log r = Inr t \<and> lg_n t = 0 \<and>
      (\<forall>b. b \<notin> log_area s \<longrightarrow> disk t b = (if k \<le> nat (lg_n s) then disk s b else view s b))"
    using t(1,2) by blast
qed

theorem commit_crash_atomic_witness:
  "\<exists>u v t. begin_op (boot_klog (\<lambda>_ _. 0) 100 2) = Inr u \<and> update_block 1 50 (\<lambda>_ _. 9) u = Inr v \<and>
     recover_from_log (boot_klog (apply_writes (take 2 (commit_writes v)) (disk v)) 100 2) = Inr t \<and> disk t 50 0 = 9"
proof -
  obtain u v where v: "begin_op (boot_klog (\<lambda>_ _. 0) 100 2) = Inr u" "update_block 1 50 (\<lambda>_ _. 9) u = Inr v" "log_wf 0 v"
     "held v = {}" "lg_n v = 1" "lg_start v = 2" "lg_size v = int LOGSIZE" "disksize v = 100"
     "view v = (\<lambda>_ _. 0)(50 := \<lambda>_. 9)" using one_update by blast
  let ?r = "boot_klog (apply_writes (take 2 (commit_writes v)) (disk v)) 100 2"
  have "2 \<le> length (commit_writes v)" using v(5) by (simp add: commit_writes_def log_writes_def)
  then obtain t where t: "recover_from_log ?r = Inr t"
     "\<forall>b. b \<notin> log_area v \<longrightarrow> disk t b = (if 2 \<le> nat (lg_n v) then disk v b else view v b)"
    using commit_crash_atomic [of 0 v 0 ?r 2] v(3-9) by auto
  have "50 \<notin> log_area v" using v(6,7) by (simp add: log_area_def params)
  then have "disk t 50 0 = 9" using t(2) v(5,9) by simp
  then show ?thesis using v(1,2) t(1) by blast
qed

text \<open>Writing distinct blocks again after a prefix of the same writes changes nothing.\<close>

lemma apply_writes_again:
  assumes "distinct (map fst ws)"
  shows "apply_writes ws (apply_writes (take k ws) d) = apply_writes ws d"
proof
  fix b
  show "apply_writes ws (apply_writes (take k ws) d) b = apply_writes ws d b"
  proof (cases "b \<in> fst ` set ws")
    case True
    have "apply_writes ws d b = apply_writes ws e b" for d e
      using assms True
    proof (induction ws arbitrary: d e)
      case (Cons w ws)
      obtain n x where w: "w = (n, x)" by (cases w)
      then show ?case using Cons by (cases "b \<in> fst ` set ws") (auto simp: apply_writes_other)
    qed simp
    then show ?thesis by blast
  next
    case False
    moreover have "b \<notin> fst ` set (take k ws)" using False set_take_subset [of k ws] by blast
    ultimately show ?thesis by (simp add: apply_writes_other)
  qed
qed

text \<open>
  C21. A crash during recovery is harmless: whichever prefix of recovery's own writes reached
  the disk, recovering again gives every block outside the log the same contents.
\<close>

theorem recover_crash_idempotent:
  fixes r :: "'a klog_scheme" and r' :: "'b klog_scheme"
  assumes r: "clean pid r" "head_ok r (disk r)" "recover_from_log r = Inr t"
    and r': "clean pid' r'" "lg_start r' = lg_start r" "lg_size r' = lg_size r" "disksize r' = disksize r"
      "disk r' = apply_writes (take k (drop (length (dtrace r)) (dtrace t))) (disk r)"
  shows "\<exists>t'. recover_from_log r' = Inr t' \<and> (\<forall>b. b \<notin> log_area r \<longrightarrow> disk t' b = disk t b)"
proof -
  let ?st = "lg_start r" and ?d = "disk r"
  let ?ws = "rec_writes ?st ?d"
  have o: "int (rec_n ?st ?d) < lg_size r" "lg_size r \<le> int LOGSIZE" "?st + nat (lg_size r) \<le> disksize r"
    "inj_on (rec_blk ?st ?d) {..<rec_n ?st ?d}"
    "\<forall>i < rec_n ?st ?d. rec_blk ?st ?d i < disksize r \<and> rec_blk ?st ?d i \<notin> log_area r"
    using r(2) by (simp_all add: head_ok_def)
  have t: "dtrace t = dtrace r @ ?ws @ [(?st, clear_head (?d ?st))]"
      "disk t = (apply_writes ?ws ?d)(?st := clear_head (?d ?st))"
    using recover_ok [OF r(1,2)] r(3) by auto
  have d': "disk r' = apply_writes (take k (?ws @ [(?st, clear_head (?d ?st))])) ?d" using r'(5) t(1) by simp
  have st: "?st \<in> log_area r" using o(1) by (auto simp: log_area_def)
  have fst_ws: "fst ` set ?ws \<inter> log_area r = {}" using o(5) by (auto simp: rec_writes_def)
  have la: "log_area r' = log_area r" using r'(2,3) by (simp add: log_area_def)
  have main: "head_ok r' (disk r') \<and>
     (\<forall>b. b \<notin> log_area r \<longrightarrow> apply_writes (rec_writes ?st (disk r')) (disk r') b = apply_writes ?ws ?d b)"
  proof (cases "k \<le> length ?ws")
    case True
    then have e: "disk r' = apply_writes (take k ?ws) ?d" using d' by simp
    have "fst ` set (take k ?ws) \<subseteq> fst ` set ?ws" by (intro image_mono set_take_subset)
    then have same: "disk r' b = ?d b" if "b \<in> log_area r" for b
      unfolding e using that fst_ws by (intro apply_writes_other) blast
    have h: "rec_n ?st (disk r') = rec_n ?st ?d" "rec_blk ?st (disk r') = rec_blk ?st ?d"
      using same [OF st] by (auto simp: rec_n_def rec_blk_def intro!: ext)
    have "disk r' (?st + i + 1) = ?d (?st + i + 1)" if "i < rec_n ?st ?d" for i
      by (rule same) (use that o(1) in \<open>auto simp: log_area_def\<close>)
    then have ws: "rec_writes ?st (disk r') = ?ws" using h by (simp add: rec_writes_def)
    have "apply_writes ?ws (apply_writes (take k ?ws) ?d) = apply_writes ?ws ?d"
      by (rule apply_writes_again) (use o(4) in \<open>simp add: rec_writes_def distinct_map comp_def atLeast0LessThan\<close>)
    then show ?thesis using h ws r' o la unfolding e by (simp add: head_ok_def)
  next
    case False
    then have e: "disk r' = (apply_writes ?ws ?d)(?st := clear_head (?d ?st))" using d' by simp
    then have z: "rec_n ?st (disk r') = 0" by (intro rec_n_clear [of _ _ "?d ?st"]) simp
    have "head_ok r' (disk r')" "rec_writes ?st (disk r') = []"
      using head_ok_empty [of r' "disk r'"] z r'(2,3,4) o(1,2,3) by simp_all
    then show ?thesis using e st by auto
  qed
  obtain t' where t': "recover_from_log r' = Inr t'"
      "disk t' = (apply_writes (rec_writes ?st (disk r')) (disk r'))(?st := clear_head (disk r' ?st))"
    using recover_ok [OF r'(1)] main r'(2) by auto
  have "disk t' b = disk t b" if "b \<notin> log_area r" for b using main that st t'(2) t(2) by auto
  then show ?thesis using t'(1) by blast
qed

text \<open>A disk whose log holds one committed block, for block 50.\<close>

definition logged_disk :: "nat \<Rightarrow> block" where
  "logged_disk = (\<lambda>_ _. 0)(2 := head_bytes 1 (\<lambda>_. 50) (\<lambda>_. 0), 3 := \<lambda>_. 9)"

lemma logged_disk_ok:
  "head_ok (boot_klog logged_disk 100 2) logged_disk" "rec_writes 2 logged_disk = [(50, \<lambda>_. 9)]"
proof -
  have "sint (rd32 0 (head_bytes 1 (\<lambda>_. 50) (\<lambda>_. 0))) = 1" by (rule head_n) simp_all
  then have n: "rec_n 2 logged_disk = 1" by (simp add: rec_n_def logged_disk_def)
  have "unat (rd32 (4 + 4 * 0) (head_bytes 1 (\<lambda>_. 50) (\<lambda>_. 0))) = 50" by (rule head_block) simp_all
  then have b: "rec_blk 2 logged_disk 0 = 50" by (simp add: rec_blk_def logged_disk_def)
  show "head_ok (boot_klog logged_disk 100 2) logged_disk"
    using n b by (simp add: head_ok_def log_area_def inj_on_def params)
  show "rec_writes 2 logged_disk = [(50, \<lambda>_. 9)]" using n b by (simp add: rec_writes_def) (simp add: logged_disk_def)
qed

theorem recover_crash_idempotent_witness:
  "\<exists>t t'. recover_from_log (boot_klog logged_disk 100 2) = Inr t \<and>
     recover_from_log (boot_klog (apply_writes (take 1 (dtrace t)) logged_disk) 100 2) = Inr t' \<and> disk t' 50 0 = 9"
proof -
  let ?r = "boot_klog logged_disk 100 2"
  have ok: "head_ok ?r (disk ?r)" using logged_disk_ok(1) by simp
  obtain t where t: "recover_from_log ?r = Inr t"
      "disk t = (apply_writes (rec_writes 2 logged_disk) logged_disk)(2 := clear_head (logged_disk 2))"
    using recover_ok [OF boot_klog_clean ok] by auto
  let ?r' = "boot_klog (apply_writes (take 1 (dtrace t)) logged_disk) 100 2"
  have a: "50 \<notin> log_area ?r" by (simp add: log_area_def params)
  obtain t' where t': "recover_from_log ?r' = Inr t'" "\<forall>b. b \<notin> log_area ?r \<longrightarrow> disk t' b = disk t b"
    using recover_crash_idempotent [OF boot_klog_clean ok t(1), of 0 ?r' 1] by auto
  have "disk t 50 0 = 9" using t(2) logged_disk_ok(2) by simp
  then show ?thesis using t(1) t' a by auto
qed

text \<open>
  C20. \<open>sync\<close> returns 0, empties the log and makes the contents of every block outside the
  log durable, also while operations are outstanding: it commits what they have written so far.
\<close>

theorem sync_durable:
  fixes s :: "'a klog_scheme"
  assumes "log_wf pid s" "held s = {}"
  shows "\<exists>t. sys_sync s = Inr (0, t) \<and> sys_get_log_num t = 0 \<and> log_wf pid t \<and> lg_outstanding t = lg_outstanding s \<and>
    (\<forall>b. b \<notin> log_area s \<longrightarrow> disk t b = view s b \<and> view t b = view s b)"
proof -
  obtain t where t: "commit s = Inr t" "log_wf pid t" "lg_n t = 0" "log_step s t"
      "\<forall>b. b \<notin> log_area s \<longrightarrow> view t b = view s b \<and> disk t b = view s b"
    using commit_log_ok [OF assms] by blast
  then show ?thesis using log_step_sel(8) [OF t(4)] by (intro exI [of _ t]) (simp add: sys_sync_def sys_get_log_num_def)
qed

theorem sync_durable_witness:
  "\<exists>u v t. begin_op (boot_klog (\<lambda>_ _. 0) 100 2) = Inr u \<and> update_block 1 50 (\<lambda>_ _. 9) u = Inr v \<and>
     disk v 50 0 = 0 \<and> sys_sync v = Inr (0, t) \<and> lg_outstanding t = 1 \<and> disk t 50 0 = 9"
proof -
  obtain u v where v: "begin_op (boot_klog (\<lambda>_ _. 0) 100 2) = Inr u" "update_block 1 50 (\<lambda>_ _. 9) u = Inr v" "log_wf 0 v"
     "held v = {}" "lg_start v = 2" "lg_size v = int LOGSIZE" "lg_outstanding v = 1"
     "disk v = (\<lambda>_ _. 0)" "view v = (\<lambda>_ _. 0)(50 := \<lambda>_. 9)" using one_update by blast
  have "50 \<notin> log_area v" using v(5,6) by (simp add: log_area_def params)
  then show ?thesis using sync_durable [OF v(3,4)] v by auto
qed

text \<open>
  The delayed commit: \<open>end_op\<close> writes to the disk only when the last outstanding
  operation ends and more than half of the log is used, and then makes everything durable;
  in no case do the contents of a block outside the log change.
\<close>

theorem end_op_delayed_commit:
  fixes s :: "'a klog_scheme"
  assumes "log_wf pid s" "held s = {}" "\<not> lg_committing s"
  shows "\<exists>t. end_op s = Inr t \<and> log_wf pid t \<and> lg_outstanding t = lg_outstanding s - 1 \<and>
    (if lg_outstanding s = 1 \<and> lg_n s > lg_size s div 2
     then lg_n t = 0 \<and> (\<forall>b. b \<notin> log_area s \<longrightarrow> disk t b = view s b)
     else lg_n t = lg_n s \<and> dtrace t = dtrace s) \<and>
    (\<forall>b. b \<notin> log_area s \<longrightarrow> view t b = view s b)"
  using end_op_ok [OF assms] by (auto split: if_splits)

theorem end_op_delayed_commit_witness:
  "\<exists>u v t. begin_op (boot_klog (\<lambda>_ _. 0) 100 2) = Inr u \<and> update_block 1 50 (\<lambda>_ _. 9) u = Inr v \<and>
     end_op v = Inr t \<and> lg_n t = 1 \<and> dtrace t = dtrace v \<and> view t 50 0 = 9"
proof -
  obtain u v where v: "begin_op (boot_klog (\<lambda>_ _. 0) 100 2) = Inr u" "update_block 1 50 (\<lambda>_ _. 9) u = Inr v" "log_wf 0 v"
     "held v = {}" "lg_n v = 1" "lg_start v = 2" "lg_size v = int LOGSIZE" "\<not> lg_committing v"
     "view v = (\<lambda>_ _. 0)(50 := \<lambda>_. 9)" using one_update by blast
  have "50 \<notin> log_area v" using v(6,7) by (simp add: log_area_def params)
  then show ?thesis using end_op_delayed_commit [OF v(3,4,8)] v by (auto simp: params)
qed

text \<open>
  C11. The log never gets stuck: in every state that any interleaving of operations reaches,
  when no operation is outstanding the next \<open>begin_op\<close> does not wait, and the operation it
  admits can update any \<open>MAXOPBLOCKS\<close> blocks without a panic and sees its own updates.
\<close>

theorem log_progress:
  fixes s :: "'a klog_scheme"
  assumes run: "log_run s t" "log_idle_ok pid s" "lg_size s = int LOGSIZE" and idle: "lg_outstanding t = 0"
    and us: "length us \<le> MAXOPBLOCKS" "\<forall>(n, f) \<in> set us. n \<in> home_blocks t"
  shows "\<exists>u v. begin_op t = Inr u \<and> foldR (\<lambda>(n, f). update_block 1 n f) us u = Inr v \<and> view v = apply_upds us (view t)"
proof -
  have t: "log_idle_ok pid t" "lg_size t = int LOGSIZE" using log_run_inv [OF run(1,2)] run(3) by auto
  then have w: "log_wf pid t" "held t = {}" "\<not> lg_committing t" "lg_n t \<le> 15" using idle
    by (simp_all add: log_idle_ok_def params)
  let ?u = "t\<lparr>lg_outstanding := 1\<rparr>"
  have b: "begin_op t = Inr ?u"
    using begin_op_eq [OF bio_wfD(3) [OF log_wfD(1) [OF w(1)]]] w idle by (simp add: params)
  have tx: "txn pid ?u" using w by (simp add: txn_def)
  have u: "\<forall>(n, f) \<in> set us. n \<in> home_blocks ?u" "int (length us) \<le> log_space ?u"
    using us w(4) t(2) by (simp_all add: home_blocks_def log_space_def params)
  show ?thesis using tx.upds [OF tx u] b by auto
qed

theorem log_progress_witness:
  "\<exists>u v. begin_op (boot_klog (\<lambda>_ _. 0) 100 2) = Inr u \<and>
     foldR (\<lambda>(n, f). update_block 1 n f) [(50, \<lambda>_ _. 9), (51, \<lambda>_ _. 8), (50, \<lambda>d i. d i + 1)] u = Inr v \<and> view v 50 0 = 10"
proof -
  let ?s = "boot_klog (\<lambda>_ _. 0) 100 2"
  have i: "log_idle_ok 0 ?s" by (rule boot_klog_idle) (simp_all add: params rd32_def)
  have h: "50 \<in> home_blocks ?s" "51 \<in> home_blocks ?s" by (simp_all add: home_blocks_def log_area_def params)
  show ?thesis
    using log_progress [OF run_start i, of "[(50, \<lambda>_ _. 9), (51, \<lambda>_ _. 8), (50, \<lambda>d i. d i + 1)]"] h
    by (auto simp: params)
qed

text \<open>
  The reservation of \<open>begin_op\<close> is one block too generous for a log of \<open>LOGSIZE\<close> blocks:
  it admits a second operation when ten blocks are logged, so that the two may log thirty,
  while \<open>log_write\<close> panics at the thirtieth, since the header takes one of the blocks.
\<close>

theorem begin_op_overcommits:
  fixes s :: "'a klog_scheme" and u :: "'b klog_scheme"
  assumes "locks s = []" "\<not> lg_committing s" "lg_n s = 10" "lg_outstanding s = 1" "lg_size s = int LOGSIZE"
    and "lg_n u = lg_n s + 2 * int MAXOPBLOCKS - 1" "lg_size u = lg_size s"
  shows "(\<exists>t. begin_op s = Inr t \<and> lg_outstanding t = 2) \<and> log_write b u = Inl (Kpanic ''too big a transaction'')"
  using assms by (simp add: begin_op_eq log_write_def params)

theorem begin_op_overcommits_witness:
  "log_write 0 ((boot_klog (\<lambda>_ _. 0) 100 2)\<lparr>lg_n := 29, lg_outstanding := 2\<rparr>) = Inl (Kpanic ''too big a transaction'')"
  using begin_op_overcommits [of "(boot_klog (\<lambda>_ _. 0) 100 2)\<lparr>lg_n := 10, lg_outstanding := 1\<rparr>"
      "(boot_klog (\<lambda>_ _. 0) 100 2)\<lparr>lg_n := 29, lg_outstanding := 2\<rparr>" 0]
  by (simp add: params)

end
