(* ===== verification/Fs.thy ===== *)
theory Fs
  imports LogTxn
begin

text \<open>
  The file system (\<^verbatim>\<open>fs.c\<close>) over the log: the block allocator, the inode cache, the mapping
  of file blocks through direct, single, double and triple indirect blocks, reading and
  writing of files, directories and path names.

  An inode pointer is an index into \<open>icache\<close>. \<open>readi\<close> returns the bytes it stores at \<^verbatim>\<open>dst\<close>
  and \<open>writei\<close> takes the bytes at \<^verbatim>\<open>src\<close> as a function of the offset. The device table
  \<^verbatim>\<open>devsw\<close> is an argument of \<open>readi\<close> and \<open>writei\<close>; directory code reads inodes of type
  \<^verbatim>\<open>T_DIR\<close> only and passes the empty table. A path is the list of its bytes before the
  terminating zero.
\<close>

section \<open>State\<close>

record inode =
  i_dev :: nat
  i_inum :: nat
  i_ref :: int
  i_lock :: sleeplock
  i_valid :: bool
  i_type :: int
  i_major :: int
  i_minor :: int
  i_nlink :: int
  i_size :: nat
  i_addrs :: "nat \<Rightarrow> nat"

record kfs = klog +
  fs_sb :: superblock
  icache :: "nat \<Rightarrow> inode"

definition upd_inode :: "nat \<Rightarrow> (inode \<Rightarrow> inode) \<Rightarrow> 'a kfs_scheme \<Rightarrow> 'a kfs_scheme" where
  "upd_inode ip f s = s\<lparr>icache := (icache s)(ip := f (icache s ip))\<rparr>"

type_synonym 'a dev_read = "nat \<Rightarrow> nat \<Rightarrow> 'a kfs_scheme \<Rightarrow> (int \<times> byte list \<times> 'a kfs_scheme) res"
type_synonym 'a dev_write = "nat \<Rightarrow> (nat \<Rightarrow> byte) \<Rightarrow> nat \<Rightarrow> 'a kfs_scheme \<Rightarrow> (int \<times> 'a kfs_scheme) res"

text \<open>A \<^verbatim>\<open>short\<close> keeps the low 16 bits.\<close>

definition to_short :: "int \<Rightarrow> int" where
  "to_short n = sint (word_of_int n :: 16 word)"

definition rd16 :: "nat \<Rightarrow> bmem \<Rightarrow> 16 word" where
  "rd16 a m = ucast (m a) OR push_bit 8 (ucast (m (a + 1)))"

definition wr16 :: "nat \<Rightarrow> 16 word \<Rightarrow> bmem \<Rightarrow> bmem" where
  "wr16 a w m = m(a := ucast w, a + 1 := ucast (drop_bit 8 w))"

section \<open>Blocks\<close>

definition BBLOCK :: "nat \<Rightarrow> superblock \<Rightarrow> nat" where
  "BBLOCK b sb = b div BPB + unat (sb_bmapstart sb)"

definition bzero :: "nat \<Rightarrow> nat \<Rightarrow> 'a kfs_scheme \<Rightarrow> 'a kfs_scheme res" where
  "bzero dev bno s =
     bindR (bread dev bno s) (\<lambda>(bp, s).
     bindR (log_write bp (set_data bp (memset 0 0 BSIZE (b_data (bcache s bp))) s)) (brelse bp))"

definition bit_free :: "nat \<Rightarrow> block \<Rightarrow> bool" where
  "bit_free bi d \<longleftrightarrow> d (bi div 8) AND push_bit (bi mod 8) 1 = 0"

definition bit_mark :: "nat \<Rightarrow> block \<Rightarrow> block" where
  "bit_mark bi d = d(bi div 8 := d (bi div 8) OR push_bit (bi mod 8) 1)"

definition bit_clear :: "nat \<Rightarrow> block \<Rightarrow> block" where
  "bit_clear bi d = d(bi div 8 := d (bi div 8) AND NOT (push_bit (bi mod 8) 1))"

text \<open>The outer loop of \<open>balloc\<close>, over the first blocks of the bitmap blocks.\<close>

fun balloc_scan :: "nat \<Rightarrow> nat list \<Rightarrow> 'a kfs_scheme \<Rightarrow> (nat \<times> 'a kfs_scheme) res" where
  "balloc_scan dev [] s = Inl (Kpanic ''balloc: out of blocks'')"
| "balloc_scan dev (b # bs) s =
     bindR (bread dev (BBLOCK b (fs_sb s)) s) (\<lambda>(bp, s).
     case find (\<lambda>bi. b + bi < unat (sb_size (fs_sb s)) \<and> bit_free bi (b_data (bcache s bp))) [0..<BPB] of
       Some bi \<Rightarrow>
         bindR (log_write bp (set_data bp (bit_mark bi (b_data (bcache s bp))) s)) (\<lambda>s.
         bindR (brelse bp s) (\<lambda>s.
         bindR (bzero dev (b + bi) s) (\<lambda>s. Inr (b + bi, s))))
     | None \<Rightarrow> bindR (brelse bp s) (balloc_scan dev bs))"

definition balloc :: "nat \<Rightarrow> 'a kfs_scheme \<Rightarrow> (nat \<times> 'a kfs_scheme) res" where
  "balloc dev s = balloc_scan dev (map (\<lambda>k. k * BPB) [0..<(unat (sb_size (fs_sb s)) + BPB - 1) div BPB]) s"

definition bfree :: "nat \<Rightarrow> nat \<Rightarrow> 'a kfs_scheme \<Rightarrow> 'a kfs_scheme res" where
  "bfree dev b s =
     bindR (bread dev (BBLOCK b (fs_sb s)) s) (\<lambda>(bp, s).
     let bi = b mod BPB in
     if bit_free bi (b_data (bcache s bp)) then Inl (Kpanic ''freeing free block'')
     else bindR (log_write bp (set_data bp (bit_clear bi (b_data (bcache s bp))) s)) (brelse bp))"

section \<open>Inodes\<close>

definition IPB :: nat where [params]: "IPB = BSIZE div 64"

definition IBLOCK :: "nat \<Rightarrow> superblock \<Rightarrow> nat" where
  "IBLOCK i sb = i div IPB + unat (sb_inodestart sb)"

definition iinit :: "nat \<Rightarrow> 'a kfs_scheme \<Rightarrow> 'a kfs_scheme res" where
  "iinit dev s =
     bindR (readsb dev (fold (\<lambda>i. upd_inode i (\<lambda>x. x\<lparr>i_lock := initsleeplock\<rparr>)) [0..<NINODE] s)) (\<lambda>(sb, s).
     Inr (s\<lparr>fs_sb := sb\<rparr>))"

text \<open>The fields of \<^verbatim>\<open>struct dinode\<close> in the 64 bytes at \<open>a\<close>.\<close>

definition dinode_addr :: "nat \<Rightarrow> nat" where
  "dinode_addr inum = 64 * (inum mod IPB)"

definition put_dinode :: "nat \<Rightarrow> inode \<Rightarrow> block \<Rightarrow> block" where
  "put_dinode a x d =
     (let d = wr16 a (word_of_int (i_type x)) d;
          d = wr16 (a + 2) (word_of_int (i_major x)) d;
          d = wr16 (a + 4) (word_of_int (i_minor x)) d;
          d = wr16 (a + 6) (word_of_int (i_nlink x)) d;
          d = wr32 (a + 8) (word_of_nat (i_size x)) d
      in fold (\<lambda>i. wr32 (a + 12 + 4 * i) (word_of_nat (i_addrs x i))) [0..<NDIRECT + 3] d)"

definition get_dinode :: "nat \<Rightarrow> block \<Rightarrow> inode \<Rightarrow> inode" where
  "get_dinode a d x = x\<lparr>i_type := sint (rd16 a d), i_major := sint (rd16 (a + 2) d), i_minor := sint (rd16 (a + 4) d),
     i_nlink := sint (rd16 (a + 6) d), i_size := unat (rd32 (a + 8) d),
     i_addrs := \<lambda>i. if i < NDIRECT + 3 then unat (rd32 (a + 12 + 4 * i) d) else i_addrs x i\<rparr>"

definition iget :: "nat \<Rightarrow> nat \<Rightarrow> 'a kfs_scheme \<Rightarrow> (nat \<times> 'a kfs_scheme) res" where
  "iget dev inum s =
     bindR (acquire Licache s) (\<lambda>s.
     case find (\<lambda>ip. i_ref (icache s ip) > 0 \<and> i_dev (icache s ip) = dev \<and> i_inum (icache s ip) = inum) [0..<NINODE] of
       Some ip \<Rightarrow> bindR (release Licache (upd_inode ip (\<lambda>x. x\<lparr>i_ref := i_ref x + 1\<rparr>) s)) (\<lambda>s. Inr (ip, s))
     | None \<Rightarrow>
         (case find (\<lambda>ip. i_ref (icache s ip) = 0) [0..<NINODE] of
            None \<Rightarrow> Inl (Kpanic ''iget: no inodes'')
          | Some ip \<Rightarrow>
              bindR (release Licache (upd_inode ip (\<lambda>x. x\<lparr>i_dev := dev, i_inum := inum, i_ref := 1, i_valid := False\<rparr>) s))
                (\<lambda>s. Inr (ip, s))))"

fun ialloc_scan :: "nat \<Rightarrow> int \<Rightarrow> nat list \<Rightarrow> 'a kfs_scheme \<Rightarrow> (nat \<times> 'a kfs_scheme) res" where
  "ialloc_scan dev type [] s = Inl (Kpanic ''ialloc: no inodes'')"
| "ialloc_scan dev type (inum # is) s =
     bindR (bread dev (IBLOCK inum (fs_sb s)) s) (\<lambda>(bp, s).
     let d = b_data (bcache s bp); a = dinode_addr inum in
     if sint (rd16 a d) = 0 then
       bindR (log_write bp (set_data bp (wr16 a (word_of_int type) (memset a 0 64 d)) s)) (\<lambda>s.
       bindR (brelse bp s) (iget dev inum))
     else bindR (brelse bp s) (ialloc_scan dev type is))"

definition ialloc :: "nat \<Rightarrow> int \<Rightarrow> 'a kfs_scheme \<Rightarrow> (nat \<times> 'a kfs_scheme) res" where
  "ialloc dev type s = ialloc_scan dev type [1..<unat (sb_ninodes (fs_sb s))] s"

definition iupdate :: "nat \<Rightarrow> 'a kfs_scheme \<Rightarrow> 'a kfs_scheme res" where
  "iupdate ip s =
     bindR (bread (i_dev (icache s ip)) (IBLOCK (i_inum (icache s ip)) (fs_sb s)) s) (\<lambda>(bp, s).
     bindR (log_write bp (set_data bp
              (put_dinode (dinode_addr (i_inum (icache s ip))) (icache s ip) (b_data (bcache s bp))) s)) (brelse bp))"

definition idup :: "nat \<Rightarrow> 'a kfs_scheme \<Rightarrow> (nat \<times> 'a kfs_scheme) res" where
  "idup ip s =
     bindR (acquire Licache s) (\<lambda>s.
     bindR (release Licache (upd_inode ip (\<lambda>x. x\<lparr>i_ref := i_ref x + 1\<rparr>) s)) (\<lambda>s. Inr (ip, s)))"

definition lock_inode :: "nat \<Rightarrow> 'a kfs_scheme \<Rightarrow> 'a kfs_scheme res" where
  "lock_inode ip s =
     bindR (curpid s) (\<lambda>pid.
     bindR (acquiresleep pid (i_lock (icache s ip))) (\<lambda>lk.
     Inr (upd_inode ip (\<lambda>x. x\<lparr>i_lock := lk\<rparr>) s)))"

definition unlock_inode :: "nat \<Rightarrow> 'a kfs_scheme \<Rightarrow> 'a kfs_scheme res" where
  "unlock_inode ip s = wakeup (Some (ChInode ip)) (upd_inode ip (\<lambda>x. x\<lparr>i_lock := releasesleep (i_lock x)\<rparr>) s)"

definition ilock :: "nat option \<Rightarrow> 'a kfs_scheme \<Rightarrow> 'a kfs_scheme res" where
  "ilock ipo s =
     (case ipo of None \<Rightarrow> Inl (Kpanic ''ilock'')
      | Some ip \<Rightarrow>
          if i_ref (icache s ip) < 1 then Inl (Kpanic ''ilock'')
          else
            bindR (lock_inode ip s) (\<lambda>s.
            if \<not> i_valid (icache s ip) then
              bindR (bread (i_dev (icache s ip)) (IBLOCK (i_inum (icache s ip)) (fs_sb s)) s) (\<lambda>(bp, s).
              let s = upd_inode ip (get_dinode (dinode_addr (i_inum (icache s ip))) (b_data (bcache s bp))) s in
              bindR (brelse bp s) (\<lambda>s.
              let s = upd_inode ip (\<lambda>x. x\<lparr>i_valid := True\<rparr>) s in
              if i_type (icache s ip) = 0 then Inl (Kpanic ''ilock: no type'') else Inr s))
            else Inr s))"

definition iunlock :: "nat option \<Rightarrow> 'a kfs_scheme \<Rightarrow> 'a kfs_scheme res" where
  "iunlock ipo s =
     (case ipo of None \<Rightarrow> Inl (Kpanic ''iunlock'')
      | Some ip \<Rightarrow>
          bindR (curpid s) (\<lambda>pid.
          if \<not> holdingsleep pid (i_lock (icache s ip)) \<or> i_ref (icache s ip) < 1 then Inl (Kpanic ''iunlock'')
          else unlock_inode ip s))"

section \<open>Inode content\<close>

text \<open>Entry \<open>i\<close> of the array of block numbers in a locked buffer.\<close>

definition addr_at :: "nat \<Rightarrow> nat \<Rightarrow> 'a kfs_scheme \<Rightarrow> nat" where
  "addr_at bp i s = unat (rd32 (4 * i) (b_data (bcache s bp)))"

text \<open>The two steps \<open>bmap\<close> is made of: an entry of the inode, and one of an indirect block.\<close>

definition bmap_slot :: "nat \<Rightarrow> nat \<Rightarrow> 'a kfs_scheme \<Rightarrow> (nat \<times> 'a kfs_scheme) res" where
  "bmap_slot ip i s =
     (let addr = i_addrs (icache s ip) i in
      if addr = 0 then
        bindR (balloc (i_dev (icache s ip)) s) (\<lambda>(addr, s).
        Inr (addr, upd_inode ip (\<lambda>x. x\<lparr>i_addrs := (i_addrs x)(i := addr)\<rparr>) s))
      else Inr (addr, s))"

definition bmap_entry :: "nat \<Rightarrow> nat \<Rightarrow> nat \<Rightarrow> 'a kfs_scheme \<Rightarrow> (nat \<times> 'a kfs_scheme) res" where
  "bmap_entry dev blk i s =
     bindR (bread dev blk s) (\<lambda>(bp, s).
     let addr = addr_at bp i s in
     if addr = 0 then
       bindR (balloc dev s) (\<lambda>(addr, s).
       bindR (log_write bp (set_data bp (wr32 (4 * i) (word_of_nat addr) (b_data (bcache s bp))) s)) (\<lambda>s.
       bindR (brelse bp s) (\<lambda>s. Inr (addr, s))))
     else bindR (brelse bp s) (\<lambda>s. Inr (addr, s)))"

definition bmap :: "nat \<Rightarrow> nat \<Rightarrow> 'a kfs_scheme \<Rightarrow> (nat \<times> 'a kfs_scheme) res" where
  "bmap ip bn s =
     (let dev = i_dev (icache s ip) in
      if bn < NDIRECT then bmap_slot ip bn s
      else let bn = bn - NDIRECT in
      if bn < NINDIRECT then
        bindR (bmap_slot ip NDIRECT s) (\<lambda>(addr, s). bmap_entry dev addr bn s)
      else let bn = bn - NINDIRECT in
      if bn < NDOUINDIRECT then
        let index1 = bn div NINDIRECT; index2 = bn mod NINDIRECT in
        bindR (bmap_slot ip (NDIRECT + 1) s) (\<lambda>(addr, s).
        bindR (bmap_entry dev addr index1 s) (\<lambda>(addr, s).
        bmap_entry dev addr index2 s))
      else let bn = bn - NDOUINDIRECT in
      if bn < NTRIINDIRECT then
        let index1 = bn div NDOUINDIRECT; index2 = bn mod NDOUINDIRECT div NINDIRECT;
            index3 = bn mod NDOUINDIRECT mod NINDIRECT in
        bindR (bmap_slot ip (NDIRECT + 2) s) (\<lambda>(addr, s).
        bindR (bmap_entry dev addr index1 s) (\<lambda>(addr, s).
        bindR (bmap_entry dev addr index2 s) (\<lambda>(addr, s).
        bmap_entry dev addr index3 s)))
      else Inl (Kpanic ''bmap: out of range''))"

text \<open>The loops of \<open>itrunc\<close>, innermost first: free the blocks an indirect block of level 1, 2, 3 lists.\<close>

definition free_level1 :: "nat \<Rightarrow> nat \<Rightarrow> 'a kfs_scheme \<Rightarrow> 'a kfs_scheme res" where
  "free_level1 dev bp s =
     foldR (\<lambda>k s. if addr_at bp k s \<noteq> 0 then bfree dev (addr_at bp k s) s else Inr s) [0..<NINDIRECT] s"

definition free_level2 :: "nat \<Rightarrow> nat \<Rightarrow> 'a kfs_scheme \<Rightarrow> 'a kfs_scheme res" where
  "free_level2 dev bp s =
     foldR (\<lambda>j s.
       if addr_at bp j s \<noteq> 0 then
         bindR (bread dev (addr_at bp j s) s) (\<lambda>(tribp, s).
         bindR (free_level1 dev tribp s) (\<lambda>s.
         bindR (brelse tribp s) (\<lambda>s. bfree dev (addr_at bp j s) s)))
       else Inr s) [0..<NINDIRECT] s"

definition free_level3 :: "nat \<Rightarrow> nat \<Rightarrow> 'a kfs_scheme \<Rightarrow> 'a kfs_scheme res" where
  "free_level3 dev bp s =
     foldR (\<lambda>i s.
       if addr_at bp i s \<noteq> 0 then
         bindR (bread dev (addr_at bp i s) s) (\<lambda>(doubp, s).
         bindR (free_level2 dev doubp s) (\<lambda>s.
         bindR (brelse doubp s) (\<lambda>s. bfree dev (addr_at bp i s) s)))
       else Inr s) [0..<NINDIRECT] s"

definition set_addr :: "nat \<Rightarrow> nat \<Rightarrow> nat \<Rightarrow> 'a kfs_scheme \<Rightarrow> 'a kfs_scheme" where
  "set_addr ip i a s = upd_inode ip (\<lambda>x. x\<lparr>i_addrs := (i_addrs x)(i := a)\<rparr>) s"

definition trunc_tree ::
  "(nat \<Rightarrow> nat \<Rightarrow> 'a kfs_scheme \<Rightarrow> 'a kfs_scheme res) \<Rightarrow> nat \<Rightarrow> nat \<Rightarrow> 'a kfs_scheme \<Rightarrow> 'a kfs_scheme res" where
  "trunc_tree free ip i s =
     (let dev = i_dev (icache s ip) in
      if i_addrs (icache s ip) i \<noteq> 0 then
        bindR (bread dev (i_addrs (icache s ip) i) s) (\<lambda>(bp, s).
        bindR (free dev bp s) (\<lambda>s.
        bindR (brelse bp s) (\<lambda>s.
        bindR (bfree dev (i_addrs (icache s ip) i) s) (\<lambda>s. Inr (set_addr ip i 0 s)))))
      else Inr s)"

definition itrunc :: "nat \<Rightarrow> 'a kfs_scheme \<Rightarrow> 'a kfs_scheme res" where
  "itrunc ip s =
     bindR (foldR (\<lambda>i s.
       if i_addrs (icache s ip) i \<noteq> 0 then
         bindR (bfree (i_dev (icache s ip)) (i_addrs (icache s ip) i) s) (\<lambda>s. Inr (set_addr ip i 0 s))
       else Inr s) [0..<NDIRECT] s) (\<lambda>s.
     bindR (trunc_tree free_level1 ip NDIRECT s) (\<lambda>s.
     bindR (trunc_tree free_level2 ip (NDIRECT + 1) s) (\<lambda>s.
     bindR (trunc_tree free_level3 ip (NDIRECT + 2) s) (\<lambda>s.
     iupdate ip (upd_inode ip (\<lambda>x. x\<lparr>i_size := 0\<rparr>) s)))))"

definition iput :: "nat \<Rightarrow> 'a kfs_scheme \<Rightarrow> 'a kfs_scheme res" where
  "iput ip s =
     bindR (lock_inode ip s) (\<lambda>s.
     bindR
       (if i_valid (icache s ip) \<and> i_nlink (icache s ip) = 0 then
          bindR (acquire Licache s) (\<lambda>s.
          let r = i_ref (icache s ip) in
          bindR (release Licache s) (\<lambda>s.
          if r = 1 then
            bindR (itrunc ip s) (\<lambda>s.
            bindR (iupdate ip (upd_inode ip (\<lambda>x. x\<lparr>i_type := 0\<rparr>) s)) (\<lambda>s.
            Inr (upd_inode ip (\<lambda>x. x\<lparr>i_valid := False\<rparr>) s)))
          else Inr s))
        else Inr s) (\<lambda>s.
     bindR (unlock_inode ip s) (\<lambda>s.
     bindR (acquire Licache s) (\<lambda>s.
     release Licache (upd_inode ip (\<lambda>x. x\<lparr>i_ref := i_ref x - 1\<rparr>) s)))))"

definition iunlockput :: "nat option \<Rightarrow> 'a kfs_scheme \<Rightarrow> 'a kfs_scheme res" where
  "iunlockput ipo s = bindR (iunlock ipo s) (\<lambda>s. case ipo of None \<Rightarrow> Inl NullDeref | Some ip \<Rightarrow> iput ip s)"

record stat =
  st_type :: int
  st_dev :: int
  st_ino :: nat
  st_nlink :: int
  st_size :: nat

definition stati :: "nat \<Rightarrow> 'a kfs_scheme \<Rightarrow> stat" where
  "stati ip s = (let x = icache s ip in
     \<lparr>st_type = i_type x, st_dev = int (i_dev x), st_ino = i_inum x, st_nlink = i_nlink x, st_size = i_size x\<rparr>)"

text \<open>
  The loops of \<open>readi\<close> and \<open>writei\<close>, with \<open>n\<close> the number of bytes left. Each round moves at
  least one byte, up to the end of the block.
\<close>

definition chunk :: "nat \<Rightarrow> nat \<Rightarrow> nat" where
  "chunk off n = min n (BSIZE - off mod BSIZE)"

lemma chunk_pos [simp]: "0 < n \<Longrightarrow> 0 < chunk off n"
  by (simp add: chunk_def params)

function readi_loop :: "nat \<Rightarrow> nat \<Rightarrow> nat \<Rightarrow> 'a kfs_scheme \<Rightarrow> (byte list \<times> 'a kfs_scheme) res" where
  "readi_loop ip off n s =
     (if n = 0 then Inr ([], s)
      else
        bindR (bmap ip (off div BSIZE) s) (\<lambda>(addr, s).
        bindR (bread (i_dev (icache s ip)) addr s) (\<lambda>(bp, s).
        let m = chunk off n; bytes = map (\<lambda>i. b_data (bcache s bp) (off mod BSIZE + i)) [0..<m] in
        bindR (brelse bp s) (\<lambda>s.
        bindR (readi_loop ip (off + m) (n - m) s) (\<lambda>(rest, s). Inr (bytes @ rest, s))))))"
  by auto
termination by (relation "measure (\<lambda>(ip, off, n, s). n)") (auto simp: chunk_def params)

declare readi_loop.simps [simp del]

definition readi :: "(nat \<Rightarrow> 'a dev_read option) \<Rightarrow> nat \<Rightarrow> nat \<Rightarrow> nat \<Rightarrow> 'a kfs_scheme \<Rightarrow> (int \<times> byte list \<times> 'a kfs_scheme) res" where
  "readi devsw ip off n s =
     (let x = icache s ip in
      if i_type x = T_DEV then
        if i_major x < 0 \<or> i_major x \<ge> int NDEV then Inr (- 1, [], s)
        else (case devsw (nat (i_major x)) of None \<Rightarrow> Inr (- 1, [], s) | Some dev_read \<Rightarrow> dev_read ip n s)
      else if off > i_size x \<or> (off + n) mod 2 ^ 32 < off then Inr (- 1, [], s)
      else
        let n = (if off + n > i_size x then i_size x - off else n) in
        bindR (readi_loop ip off n s) (\<lambda>(bytes, s). Inr (int n, bytes, s)))"

function writei_loop :: "nat \<Rightarrow> (nat \<Rightarrow> byte) \<Rightarrow> nat \<Rightarrow> nat \<Rightarrow> 'a kfs_scheme \<Rightarrow> 'a kfs_scheme res" where
  "writei_loop ip src off n s =
     (if n = 0 then Inr s
      else
        bindR (bmap ip (off div BSIZE) s) (\<lambda>(addr, s).
        bindR (bread (i_dev (icache s ip)) addr s) (\<lambda>(bp, s).
        let m = chunk off n; k = off mod BSIZE; d = b_data (bcache s bp) in
        bindR (log_write bp (set_data bp (\<lambda>x. if k \<le> x \<and> x < k + m then src (x - k) else d x) s)) (\<lambda>s.
        bindR (brelse bp s) (writei_loop ip (\<lambda>i. src (i + m)) (off + m) (n - m))))))"
  by auto
termination by (relation "measure (\<lambda>(ip, src, off, n, s). n)") (auto simp: chunk_def params)

declare writei_loop.simps [simp del]

definition writei :: "(nat \<Rightarrow> 'a dev_write option) \<Rightarrow> nat \<Rightarrow> (nat \<Rightarrow> byte) \<Rightarrow> nat \<Rightarrow> nat \<Rightarrow> 'a kfs_scheme \<Rightarrow> (int \<times> 'a kfs_scheme) res" where
  "writei devsw ip src off n s =
     (let x = icache s ip in
      if i_type x = T_DEV then
        if i_major x < 0 \<or> i_major x \<ge> int NDEV then Inr (- 1, s)
        else (case devsw (nat (i_major x)) of None \<Rightarrow> Inr (- 1, s) | Some dev_write \<Rightarrow> dev_write ip src n s)
      else if off > i_size x \<or> (off + n) mod 2 ^ 32 < off then Inr (- 1, s)
      else if off + n > MAXFILE * BSIZE then Inr (- 1, s)
      else
        bindR (writei_loop ip src off n s) (\<lambda>s.
        if n > 0 \<and> off + n > i_size (icache s ip) then
          bindR (iupdate ip (upd_inode ip (\<lambda>x. x\<lparr>i_size := off + n\<rparr>) s)) (\<lambda>s. Inr (int n, s))
        else Inr (int n, s)))"

section \<open>Directories\<close>

definition namecmp :: "(nat \<Rightarrow> byte) \<Rightarrow> (nat \<Rightarrow> byte) \<Rightarrow> int" where
  "namecmp p q = strncmp p q DIRSIZ"

text \<open>\<^verbatim>\<open>struct dirent\<close>: a two-byte inode number and the name, sixteen bytes.\<close>

definition de_inum :: "byte list \<Rightarrow> nat" where
  "de_inum de = unat (rd16 0 (\<lambda>i. de ! i))"

definition de_name :: "byte list \<Rightarrow> nat \<Rightarrow> byte" where
  "de_name de i = de ! (i + 2)"

definition dir_offsets :: "nat \<Rightarrow> nat list" where
  "dir_offsets sz = map (\<lambda>k. 16 * k) [0..<(sz + 15) div 16]"

text \<open>\<open>dirlookup\<close> returns the inode and the offset it would store through \<^verbatim>\<open>poff\<close>.\<close>

fun dirlookup_scan :: "nat \<Rightarrow> (nat \<Rightarrow> byte) \<Rightarrow> nat list \<Rightarrow> 'a kfs_scheme \<Rightarrow> ((nat \<times> nat) option \<times> 'a kfs_scheme) res" where
  "dirlookup_scan dp name [] s = Inr (None, s)"
| "dirlookup_scan dp name (off # offs) s =
     bindR (readi (\<lambda>_. None) dp off 16 s) (\<lambda>(r, de, s).
     if r \<noteq> 16 then Inl (Kpanic ''dirlookup read'')
     else if de_inum de = 0 then dirlookup_scan dp name offs s
     else if namecmp name (de_name de) = 0 then
       bindR (iget (i_dev (icache s dp)) (de_inum de) s) (\<lambda>(ip, s). Inr (Some (ip, off), s))
     else dirlookup_scan dp name offs s)"

definition dirlookup :: "nat \<Rightarrow> (nat \<Rightarrow> byte) \<Rightarrow> 'a kfs_scheme \<Rightarrow> ((nat \<times> nat) option \<times> 'a kfs_scheme) res" where
  "dirlookup dp name s =
     (if i_type (icache s dp) \<noteq> T_DIR then Inl (Kpanic ''dirlookup not DIR'')
      else dirlookup_scan dp name (dir_offsets (i_size (icache s dp))) s)"

text \<open>The offset of the first unused entry, or the end of the directory.\<close>

fun dirlink_scan :: "nat \<Rightarrow> nat \<Rightarrow> nat list \<Rightarrow> 'a kfs_scheme \<Rightarrow> (nat \<times> 'a kfs_scheme) res" where
  "dirlink_scan dp endoff [] s = Inr (endoff, s)"
| "dirlink_scan dp endoff (off # offs) s =
     bindR (readi (\<lambda>_. None) dp off 16 s) (\<lambda>(r, de, s).
     if r \<noteq> 16 then Inl (Kpanic ''dirlink read'')
     else if de_inum de = 0 then Inr (off, s)
     else dirlink_scan dp endoff offs s)"

definition dirent_bytes :: "nat \<Rightarrow> (nat \<Rightarrow> byte) \<Rightarrow> nat \<Rightarrow> byte" where
  "dirent_bytes inum name = (\<lambda>i. if i < 2 then wr16 0 (word_of_nat inum) (\<lambda>_. 0) i else name (i - 2))"

definition dirlink :: "nat \<Rightarrow> (nat \<Rightarrow> byte) \<Rightarrow> nat \<Rightarrow> 'a kfs_scheme \<Rightarrow> (int \<times> 'a kfs_scheme) res" where
  "dirlink dp name inum s =
     bindR (dirlookup dp name s) (\<lambda>(found, s).
     case found of
       Some (ip, _) \<Rightarrow> bindR (iput ip s) (\<lambda>s. Inr (- 1, s))
     | None \<Rightarrow>
         let offs = dir_offsets (i_size (icache s dp)) in
         bindR (dirlink_scan dp (16 * length offs) offs s) (\<lambda>(off, s).
         bindR (writei (\<lambda>_. None) dp (dirent_bytes inum (strncpy (\<lambda>_. 0) name (int DIRSIZ))) off 16 s) (\<lambda>(r, s).
         if r \<noteq> 16 then Inl (Kpanic ''dirlink'') else Inr (0, s))))"

section \<open>Paths\<close>

definition slash :: byte where "slash = 47"

definition skipelem :: "byte list \<Rightarrow> (nat \<Rightarrow> byte) \<Rightarrow> (byte list \<times> (nat \<Rightarrow> byte)) option" where
  "skipelem path name =
     (let s = dropWhile (\<lambda>c. c = slash) path in
      if s = [] then None
      else
        let elem = takeWhile (\<lambda>c. c \<noteq> slash) s; len = length elem;
            name = (if len \<ge> DIRSIZ then (\<lambda>i. if i < DIRSIZ then elem ! i else name i)
                    else (\<lambda>i. if i < len then elem ! i else if i = len then 0 else name i))
        in Some (dropWhile (\<lambda>c. c = slash) (dropWhile (\<lambda>c. c \<noteq> slash) s), name))"

lemma skipelem_shorter: "skipelem path name = Some (rest, name') \<Longrightarrow> length rest < length path"
proof -
  assume a: "skipelem path name = Some (rest, name')"
  let ?s = "dropWhile (\<lambda>c. c = slash) path"
  have s: "?s \<noteq> []" "rest = dropWhile (\<lambda>c. c = slash) (dropWhile (\<lambda>c. c \<noteq> slash) ?s)"
    using a by (auto simp: skipelem_def Let_def split: if_splits)
  then have "hd ?s \<noteq> slash" using hd_dropWhile [of "\<lambda>c. c = slash" path] by simp
  then have "length (dropWhile (\<lambda>c. c \<noteq> slash) ?s) < length ?s"
    using s(1) by (cases ?s) (auto simp: length_dropWhile_le le_imp_less_Suc)
  moreover have "length rest \<le> length (dropWhile (\<lambda>c. c \<noteq> slash) ?s)" unfolding s(2) by (rule length_dropWhile_le)
  moreover have "length ?s \<le> length path" by (rule length_dropWhile_le)
  ultimately show ?thesis by linarith
qed

function namex_loop :: "nat \<Rightarrow> byte list \<Rightarrow> bool \<Rightarrow> (nat \<Rightarrow> byte) \<Rightarrow> 'a kfs_scheme \<Rightarrow>
    (nat option \<times> (nat \<Rightarrow> byte) \<times> 'a kfs_scheme) res" where
  "namex_loop ip path parent name s =
     (case skipelem path name of
        None \<Rightarrow> if parent then bindR (iput ip s) (\<lambda>s. Inr (None, name, s)) else Inr (Some ip, name, s)
      | Some (path', name) \<Rightarrow>
          bindR (ilock (Some ip) s) (\<lambda>s.
          if i_type (icache s ip) \<noteq> T_DIR then bindR (iunlockput (Some ip) s) (\<lambda>s. Inr (None, name, s))
          else if parent \<and> path' = [] then bindR (iunlock (Some ip) s) (\<lambda>s. Inr (Some ip, name, s))
          else
            bindR (dirlookup ip name s) (\<lambda>(found, s).
            case found of
              None \<Rightarrow> bindR (iunlockput (Some ip) s) (\<lambda>s. Inr (None, name, s))
            | Some (next, _) \<Rightarrow> bindR (iunlockput (Some ip) s) (namex_loop next path' parent name))))"
  by auto
termination by (relation "measure (\<lambda>(ip, path, parent, name, s). length path)") (auto dest: skipelem_shorter)

declare namex_loop.simps [simp del]

definition namex :: "byte list \<Rightarrow> bool \<Rightarrow> (nat \<Rightarrow> byte) \<Rightarrow> 'a kfs_scheme \<Rightarrow> (nat option \<times> (nat \<Rightarrow> byte) \<times> 'a kfs_scheme) res" where
  "namex path parent name s =
     bindR (if path \<noteq> [] \<and> hd path = slash then iget ROOTDEV ROOTINO s
            else (case myproc s of None \<Rightarrow> Inl NullDeref
                  | Some p \<Rightarrow> (case p_cwd (ptable s p) of None \<Rightarrow> Inl NullDeref | Some cwd \<Rightarrow> idup cwd s)))
       (\<lambda>(ip, s). namex_loop ip path parent name s)"

definition namei :: "byte list \<Rightarrow> 'a kfs_scheme \<Rightarrow> (nat option \<times> 'a kfs_scheme) res" where
  "namei path s = bindR (namex path False (\<lambda>_. 0) s) (\<lambda>(ip, name, s). Inr (ip, s))"

definition nameiparent :: "byte list \<Rightarrow> (nat \<Rightarrow> byte) \<Rightarrow> 'a kfs_scheme \<Rightarrow> (nat option \<times> (nat \<Rightarrow> byte) \<times> 'a kfs_scheme) res" where
  "nameiparent path name s = namex path True name s"

end
