(* ===== verification/FsAlloc.thy ===== *)
theory FsAlloc
  imports Fs
begin

text \<open>
  The block allocator: what the bitmap says, and that \<open>balloc\<close> and \<open>bfree\<close> implement a set of
  free blocks. Other buffers may be held during the calls, as \<open>bmap\<close> and \<open>itrunc\<close> do.
\<close>

section \<open>Bits of a bitmap block\<close>

lemma bit_free_iff: "bit_free bi d \<longleftrightarrow> \<not> bit (d (bi div 8)) (bi mod 8)"
  by (simp add: bit_free_def push_bit_of_1 and_exp_eq_0_iff_not_bit)

lemma same_bit: "i div 8 = j div 8 \<Longrightarrow> i mod 8 = j mod 8 \<Longrightarrow> i = (j :: nat)"
  by (metis div_mult_mod_eq)

lemma bit_free_mark: "bit_free bj (bit_mark bi d) \<longleftrightarrow> bit_free bj d \<and> bj \<noteq> bi"
  by (auto simp: bit_free_iff bit_mark_def bit_simps dest: same_bit)

lemma bit_free_clear: "bit_free bj (bit_clear bi d) \<longleftrightarrow> bit_free bj d \<or> bj = bi"
  by (auto simp: bit_free_iff bit_clear_def bit_simps dest: same_bit)

lemma clear_mark: "bit_free bi d \<Longrightarrow> bit_clear bi (bit_mark bi d) = d"
proof -
  assume "bit_free bi d"
  then have "\<not> bit (d (bi div 8)) (bi mod 8)" by (simp add: bit_free_iff)
  then have "(d (bi div 8) OR push_bit (bi mod 8) 1) AND NOT (push_bit (bi mod 8) 1) = d (bi div 8)"
    by (intro bit_word_eqI) (auto simp: bit_simps)
  then show ?thesis by (simp add: bit_clear_def bit_mark_def)
qed

section \<open>The free blocks\<close>

definition fsize :: "'a kfs_scheme \<Rightarrow> nat" where
  "fsize s = unat (sb_size (fs_sb s))"

definition free :: "'a kfs_scheme \<Rightarrow> nat set" where
  "free s = {b. b < fsize s \<and> bit_free (b mod BPB) (view s (BBLOCK b (fs_sb s)))}"

definition meta :: "'a kfs_scheme \<Rightarrow> nat set" where
  "meta s = (\<lambda>b. BBLOCK b (fs_sb s)) ` {..<fsize s} \<union> (\<lambda>i. IBLOCK i (fs_sb s)) ` {..<unat (sb_ninodes (fs_sb s))}"

text \<open>
  The layout of the disk: bitmap and inode blocks are distinct and lie outside the log, and
  blocks that the bitmap calls free are data blocks.
\<close>

definition fs_wf :: "'a kfs_scheme \<Rightarrow> bool" where
  "fs_wf s \<longleftrightarrow> fsize s \<le> disksize s \<and> meta s \<subseteq> home_blocks s \<and> free s \<subseteq> home_blocks s - meta s - {0} \<and>
     (\<forall>b < fsize s. \<forall>i < unat (sb_ninodes (fs_sb s)). BBLOCK b (fs_sb s) \<noteq> IBLOCK i (fs_sb s))"

lemma log_step_fs:
  fixes s t :: "'a kfs_scheme"
  assumes "log_step s t"
  shows "fs_sb t = fs_sb s" "icache t = icache s" "fsize t = fsize s" "meta t = meta s" "home_blocks t = home_blocks s"
    "blocks t = blocks s"
proof -
  show 1: "fs_sb t = fs_sb s" "icache t = icache s" by (subst assms [unfolded log_step_def], simp)+
  show "fsize t = fsize s" "meta t = meta s" using 1 by (simp_all add: fsize_def meta_def)
  show "home_blocks t = home_blocks s" "blocks t = blocks s"
    using log_step_sel [OF assms] by (simp_all add: home_blocks_def blocks_def)
qed

lemmas bio_step_fs = log_step_fs [OF bio_log_step]

text \<open>Room in the log for what is held means room in the cache.\<close>

lemma busy_space:
  assumes wf: "log_wf pid s" and sp: "int (card (held s)) \<le> log_space s"
  shows "busy s < NBUF"
proof -
  have "card (held s \<union> dirty s) \<le> card (held s) + card (dirty s)" by (rule card_Un_le)
  then show ?thesis using sp log_wfD(3,5) [OF wf] log_card(1) [OF wf] by (simp add: busy_def log_space_def params)
qed

lemma bblock_meta: "b < fsize s \<Longrightarrow> BBLOCK b (fs_sb s) \<in> meta s"
  by (auto simp: meta_def)

lemma bitmap_split: "b = b div BPB * BPB + b mod BPB" "b mod BPB < BPB"
  by (simp_all add: params)

lemma bzero_eq: "bzero dev n s = update_block dev n (memset 0 0 BSIZE) s"
  by (simp add: bzero_def update_block_def)

text \<open>The scan from the bitmap block \<open>k\<close> finds the first free block.\<close>

lemma balloc_scan_ok:
  fixes s :: "'a kfs_scheme"
  assumes wf: "log_wf pid s" "1 \<le> lg_outstanding s" "fs_wf s" and h: "held s \<inter> meta s = {}" "b \<notin> held s"
    and b: "b \<in> free s" "\<forall>c \<in> free s. k * BPB \<le> c \<longrightarrow> b \<le> c" "k \<le> b div BPB" "b div BPB < m"
    and sp: "int (card (held s)) + 2 \<le> log_space s"
  shows "\<exists>t. balloc_scan 1 (map (\<lambda>k. k * BPB) [k..<m]) s = Inr (b, t) \<and> log_wf pid t \<and> held t = held s \<and>
    view t = (view s)(BBLOCK b (fs_sb s) := bit_mark (b mod BPB) (view s (BBLOCK b (fs_sb s))), b := memset 0 0 BSIZE (view s b)) \<and>
    disk t = disk s \<and> log_step s t \<and> lg_n t \<le> lg_n s + 2 \<and> (\<forall>n c. holds n c s \<and> n \<in> held s \<longrightarrow> holds n c t)"
  using assms
proof (induction "m - k" arbitrary: k s)
  case 0
  then show ?case by simp
next
  case (Suc x)
  note wf = Suc.prems(1,2,3) and h = Suc.prems(4,5) and b = Suc.prems(6-9) and sp = Suc.prems(10)
  let ?sb = "fs_sb s" and ?z = "fsize s"
  have km: "k < m" using b(3,4) by simp
  then have l: "[k..<m] = k # [Suc k..<m]" by (simp add: upt_conv_Cons)
  have bz: "b < ?z" "bit_free (b mod BPB) (view s (BBLOCK b ?sb))" using b(1) by (simp_all add: free_def)
  have BP: "0 < BPB" by (simp add: params)
  have kz: "k * BPB < ?z" using b(3) bz(1) BP by (meson div_times_less_eq_dividend le_less_trans mult_le_mono1)
  have Bk: "BBLOCK (k * BPB) ?sb = k + unat (sb_bmapstart ?sb)" using BP by (simp add: BBLOCK_def)
  let ?n = "BBLOCK (k * BPB) ?sb"
  have nm: "?n \<in> meta s" using kz by (rule bblock_meta)
  have nh: "?n \<in> home_blocks s" "?n \<notin> held s" using nm wf(3) h(1) by (auto simp: fs_wf_def)
  have n': "?n < disksize s" "?n \<notin> log_area s" "?n \<noteq> lg_start s"
    using nh(1) start_in_area [OF wf(1)] by (auto simp: home_blocks_def)
  have room: "busy s < NBUF" by (rule busy_space [OF wf(1)]) (use sp in simp)
  obtain bp t where t: "bread 1 ?n s = Inr (bp, t)" "b_data (bcache t bp) = view s ?n" "log_wf pid t" "holds ?n bp t" "?n \<in> held t"
    "?n \<in> dirty t \<or> view t ?n = disk t ?n" "view t = view s" "held t = insert ?n (held s)" "dirty t = dirty s"
    "disk t = disk s" "bio_step s t" "\<forall>m c. holds m c s \<and> m \<in> held s \<longrightarrow> holds m c t"
    using log_read_ok [OF wf(1) n'(1) nh(2) n'(3) room] by blast
  note ft = bio_step_fs [OF t(11)] and lt = bio_step_log [OF t(11)]
  let ?P = "\<lambda>bi. k * BPB + bi < unat (sb_size (fs_sb t)) \<and> bit_free bi (b_data (bcache t bp))"
  have P: "?P bi \<longleftrightarrow> k * BPB + bi \<in> free s" if "bi < BPB" for bi
    using that ft(1) t(2) Bk by (simp add: free_def fsize_def BBLOCK_def)
  show ?case
  proof (cases "b div BPB = k")
    case True
    have be: "b = k * BPB + b mod BPB" using bitmap_split(1) [of b] True by simp
    have f: "find ?P [0..<BPB] = Some (b mod BPB)" unfolding find_upt_Some
    proof (intro conjI allI impI)
      show "k * BPB + b mod BPB < unat (sb_size (fs_sb t))" "bit_free (b mod BPB) (b_data (bcache t bp))"
        using P [OF bitmap_split(2), of b] b(1) be by auto
      show "\<not> ?P j" if "0 \<le> j \<and> j < b mod BPB" for j
      proof
        assume "?P j"
        then have "k * BPB + j \<in> free s" using P [of j] that bitmap_split(2) [of b] by simp
        then show False using b(2) be that by fastforce
      qed
    qed (simp_all add: bitmap_split)
    have Bb: "BBLOCK b ?sb = ?n" using True Bk by (simp add: BBLOCK_def)
    have a: "?n \<notin> log_area t" "1 \<le> lg_outstanding t" "0 < log_space t"
      using log_step_sel [OF bio_log_step [OF t(11)]] n'(2) wf(2) sp lt by (simp_all add: log_space_def)
    obtain u v where v: "log_write bp (set_data bp (bit_mark (b mod BPB) (view s ?n)) t) = Inr u" "brelse bp u = Inr v" "log_wf pid v"
        "view v = (view t)(?n := bit_mark (b mod BPB) (view s ?n))" "held v = held t - {?n}" "disk v = disk t"
        "log_step t v" "lg_n v = (if ?n \<in> dirty t then lg_n t else lg_n t + 1)" "\<forall>m c. holds m c v = holds m c t"
      using write_back_ok [OF t(3-5) a] by blast
    have sv: "log_step s v" using bio_log_step [OF t(11)] v(7) by (rule log_step_trans)
    note fv = log_step_fs [OF sv] and lv = log_step_sel [OF sv]
    have hv: "held v = held s" using v(5) t(8) nh(2) by auto
    have bd: "b \<in> home_blocks s" "b \<noteq> ?n" using wf(3) b(1) nm by (auto simp: fs_wf_def)
    have sz: "1 \<le> lg_outstanding v" "b \<in> home_blocks v" "b \<notin> held v" "0 < log_space v"
      using lv(8) wf(2) fv(5) bd(1) hv h(2) v(8) lt(6) lv(7) sp by (auto simp: log_space_def)
    have rv: "busy v < NBUF"
      by (rule busy_space [OF v(3)]) (use hv v(8) lt(6) lv(7) sp in \<open>auto simp: log_space_def\<close>)
    obtain w where w: "update_block 1 b (memset 0 0 BSIZE) v = Inr w" "log_wf pid w" "held w = held v"
        "view w = (view v)(b := memset 0 0 BSIZE (view v b))" "disk w = disk v" "log_step v w"
        "lg_n w = (if b \<in> dirty v then lg_n v else lg_n v + 1)" "\<forall>m c. holds m c v \<and> m \<in> held v \<longrightarrow> holds m c w"
      using update_block_gen [OF v(3) sz(1-3) rv sz(4)] by blast
    have "balloc_scan 1 (map (\<lambda>k. k * BPB) [k..<m]) s = Inr (b, w)"
      using t(1,2) f v(1,2) w(1) be unfolding l by (simp add: bzero_eq cong: option.case_cong)
    moreover have "log_step s w" using sv w(6) by (rule log_step_trans)
    moreover have "view w = (view s)(BBLOCK b ?sb := bit_mark (b mod BPB) (view s (BBLOCK b ?sb)), b := memset 0 0 BSIZE (view s b))"
      using w(4) v(4) t(7) bd(2) Bb by simp
    moreover have "lg_n w \<le> lg_n s + 2" using w(7) v(8) lt(6) by auto
    moreover have "holds n c w" if "holds n c s" "n \<in> held s" for n c using that t(12) v(9) w(8) hv by auto
    ultimately show ?thesis using w(2,3,5) hv v(6) t(10) by (intro exI [of _ w]) simp
  next
    case False
    then have kb: "Suc k \<le> b div BPB" using b(3) by simp
    have none: "k * BPB + bi \<notin> free s" if "bi < BPB" for bi
    proof
      assume "k * BPB + bi \<in> free s"
      then have "b \<le> k * BPB + bi" using b(2) by simp
      then have "b div BPB \<le> (k * BPB + bi) div BPB" by (rule div_le_mono)
      then show False using kb that by simp
    qed
    have f: "find ?P [0..<BPB] = None" unfolding find_upt_None using P none by simp
    obtain u where u: "brelse bp t = Inr u" "log_wf pid u" "view u = view t" "held u = held t - {?n}" "dirty u = dirty t"
      "disk u = disk t" "\<forall>m c. holds m c u = holds m c t" "bio_step t u"
      using log_release_ok [OF t(3-6)] by blast
    have su: "bio_step s u" using t(11) u(8) by (rule bio_step_trans)
    note fu = bio_step_fs [OF su] and lu = bio_step_log [OF su]
    have hu: "held u = held s" using u(4) t(8) nh(2) by auto
    have fr: "free u = free s" using fu(1,3) u(3) t(7) by (simp add: free_def)
    have "\<exists>v. balloc_scan 1 (map (\<lambda>k. k * BPB) [Suc k..<m]) u = Inr (b, v) \<and> log_wf pid v \<and> held v = held u \<and>
      view v = (view u)(BBLOCK b (fs_sb u) := bit_mark (b mod BPB) (view u (BBLOCK b (fs_sb u))), b := memset 0 0 BSIZE (view u b)) \<and>
      disk v = disk u \<and> log_step u v \<and> lg_n v \<le> lg_n u + 2 \<and> (\<forall>n c. holds n c u \<and> n \<in> held u \<longrightarrow> holds n c v)"
    proof (rule Suc.hyps(1))
      show "x = m - Suc k" using Suc.hyps(2) by simp
      show "fs_wf u" using wf(3) fr fu bio_step_sel(1) [OF su] by (simp add: fs_wf_def)
      show "\<forall>c \<in> free u. Suc k * BPB \<le> c \<longrightarrow> b \<le> c" using b(2) fr by auto
      show "int (card (held u)) + 2 \<le> log_space u" using hu lu sp by (simp add: log_space_def)
    qed (use u(2) lu wf(2) hu h fu fr b kb in auto)
    then obtain v where v: "balloc_scan 1 (map (\<lambda>k. k * BPB) [Suc k..<m]) u = Inr (b, v)" "log_wf pid v" "held v = held u"
      "view v = (view u)(BBLOCK b (fs_sb u) := bit_mark (b mod BPB) (view u (BBLOCK b (fs_sb u))), b := memset 0 0 BSIZE (view u b))"
      "disk v = disk u" "log_step u v" "lg_n v \<le> lg_n u + 2" "\<forall>n c. holds n c u \<and> n \<in> held u \<longrightarrow> holds n c v" by blast
    have "log_step s v" using bio_log_step [OF su] v(6) by (rule log_step_trans)
    moreover have "balloc_scan 1 (map (\<lambda>k. k * BPB) [k..<m]) s = Inr (b, v)"
      using t(1,2) f u(1) v(1) unfolding l by (simp cong: option.case_cong)
    moreover have "holds n c v" if "holds n c s" "n \<in> held s" for n c using that v(8) u(7) t(12) hu by auto
    ultimately show ?thesis using v(2-5,7) t(7,10) u(3,6) hu fu(1) lu(6) by (intro exI [of _ v]) simp
  qed
qed

lemma balloc_ok:
  fixes s :: "'a kfs_scheme"
  assumes wf: "log_wf pid s" "1 \<le> lg_outstanding s" "fs_wf s" and h: "held s \<inter> meta s = {}" "b \<notin> held s"
    and b: "b \<in> free s" "\<forall>c \<in> free s. b \<le> c" and sp: "int (card (held s)) + 2 \<le> log_space s"
  shows "\<exists>t. balloc 1 s = Inr (b, t) \<and> log_wf pid t \<and> held t = held s \<and>
    view t = (view s)(BBLOCK b (fs_sb s) := bit_mark (b mod BPB) (view s (BBLOCK b (fs_sb s))), b := memset 0 0 BSIZE (view s b)) \<and>
    disk t = disk s \<and> log_step s t \<and> lg_n t \<le> lg_n s + 2 \<and> (\<forall>n c. holds n c s \<and> n \<in> held s \<longrightarrow> holds n c t)"
proof -
  have bz: "b < fsize s" using b(1) by (simp add: free_def)
  have BP: "0 < BPB" by (simp add: params)
  have "(b + BPB) div BPB \<le> (fsize s + BPB - 1) div BPB" by (rule div_le_mono) (use bz BP in linarith)
  moreover have "(b + BPB) div BPB = Suc (b div BPB)" using BP div_add_self2 [of BPB b] by simp
  ultimately have "b div BPB < (fsize s + BPB - 1) div BPB" by linarith
  then show ?thesis
    using balloc_scan_ok [OF wf h b(1), of 0 "(fsize s + BPB - 1) div BPB"] b(2) sp by (simp add: balloc_def fsize_def)
qed

text \<open>Seen through \<open>free\<close>, allocation takes one block away.\<close>

lemma free_mark:
  fixes s t :: "'a kfs_scheme"
  assumes wf: "fs_wf s" and b: "b \<in> free s" and t: "log_step s t"
    "view t = (view s)(BBLOCK b (fs_sb s) := bit_mark (b mod BPB) (view s (BBLOCK b (fs_sb s))), b := x)"
  shows "free t = free s - {b}" "fs_wf t"
proof -
  note f = log_step_fs [OF t(1)]
  have nb: "BBLOCK c (fs_sb s) \<noteq> b" if "c < fsize s" for c using bblock_meta [OF that] wf b by (auto simp: fs_wf_def)
  have "c \<in> free t \<longleftrightarrow> c \<in> free s \<and> c \<noteq> b" for c
  proof (cases "c < fsize s \<and> BBLOCK c (fs_sb s) = BBLOCK b (fs_sb s)")
    case True
    then have "c div BPB = b div BPB" by (simp add: BBLOCK_def)
    then have "c = b \<longleftrightarrow> c mod BPB = b mod BPB" by (metis div_mult_mod_eq)
    then show ?thesis using True nb [of c] t(2) f(1,3) by (auto simp: free_def bit_free_mark)
  next
    case False
    then show ?thesis using nb [of c] t(2) f(1,3) by (auto simp: free_def)
  qed
  then show fr: "free t = free s - {b}" by auto
  show "fs_wf t" using wf fr f log_step_sel(1) [OF t(1)] by (auto simp: fs_wf_def)
qed

lemma bfree_ok:
  fixes s :: "'a kfs_scheme"
  assumes wf: "log_wf pid s" "1 \<le> lg_outstanding s" "fs_wf s" and h: "held s \<inter> meta s = {}"
    and b: "b < fsize s" "b \<notin> free s" and sp: "int (card (held s)) + 1 \<le> log_space s"
  shows "\<exists>t. bfree 1 b s = Inr t \<and> log_wf pid t \<and> held t = held s \<and>
    view t = (view s)(BBLOCK b (fs_sb s) := bit_clear (b mod BPB) (view s (BBLOCK b (fs_sb s)))) \<and>
    disk t = disk s \<and> log_step s t \<and> lg_n t \<le> lg_n s + 1 \<and> (\<forall>n c. holds n c s \<and> n \<in> held s \<longrightarrow> holds n c t)"
proof -
  let ?n = "BBLOCK b (fs_sb s)"
  have nh: "?n \<in> home_blocks s" "?n \<notin> held s" using bblock_meta [OF b(1)] wf(3) h by (auto simp: fs_wf_def)
  have n': "?n < disksize s" "?n \<noteq> lg_start s" using nh(1) start_in_area [OF wf(1)] by (auto simp: home_blocks_def)
  have room: "busy s < NBUF" by (rule busy_space [OF wf(1)]) (use sp in simp)
  have nf: "\<not> bit_free (b mod BPB) (view s ?n)" using b by (simp add: free_def)
  obtain bp t where t: "bread 1 ?n s = Inr (bp, t)" "b_data (bcache t bp) = view s ?n"
    using log_read_ok [OF wf(1) n'(1) nh(2) n'(2) room] by blast
  have e: "bfree 1 b s = update_block 1 ?n (bit_clear (b mod BPB)) s"
    using t nf by (simp add: bfree_def update_block_def Let_def)
  have "0 < log_space s" using sp by simp
  then show ?thesis unfolding e using update_block_gen [OF wf(1,2) nh room, of "bit_clear (b mod BPB)"] by auto
qed

lemma free_clear:
  fixes s t :: "'a kfs_scheme"
  assumes wf: "fs_wf s" and b: "b < fsize s" "b \<in> home_blocks s" "b \<notin> meta s" "b \<noteq> 0" and t: "log_step s t"
    "view t = (view s)(BBLOCK b (fs_sb s) := bit_clear (b mod BPB) (view s (BBLOCK b (fs_sb s))))"
  shows "free t = insert b (free s)" "fs_wf t"
proof -
  note f = log_step_fs [OF t(1)]
  have "c \<in> free t \<longleftrightarrow> c \<in> free s \<or> c = b" for c
  proof (cases "c < fsize s \<and> BBLOCK c (fs_sb s) = BBLOCK b (fs_sb s)")
    case True
    then have "c div BPB = b div BPB" by (simp add: BBLOCK_def)
    then have "c = b \<longleftrightarrow> c mod BPB = b mod BPB" by (metis div_mult_mod_eq)
    then show ?thesis using True t(2) f(1,3) by (auto simp: free_def bit_free_clear)
  next
    case False
    then show ?thesis using t(2) f(1,3) b(1) by (auto simp: free_def)
  qed
  then show fr: "free t = insert b (free s)" by auto
  show "fs_wf t" using wf fr f b log_step_sel(1) [OF t(1)] by (auto simp: fs_wf_def)
qed

lemma balloc_full:
  fixes s :: "'a kfs_scheme"
  assumes wf: "log_wf pid s" "fs_wf s" "held s = {}" and none: "free s = {}"
  shows "balloc 1 s = Inl (Kpanic ''balloc: out of blocks'')"
proof -
  have "balloc_scan 1 (map (\<lambda>k. k * BPB) ks) s = Inl (Kpanic ''balloc: out of blocks'')" if "\<forall>k \<in> set ks. k * BPB < fsize s" for ks
    using wf none that
  proof (induction ks arbitrary: s)
    case (Cons k ks)
    note wf = Cons.prems(1,2,3)
    let ?n = "BBLOCK (k * BPB) (fs_sb s)"
    have kz: "k * BPB < fsize s" using Cons.prems(5) by simp
    have nh: "?n \<in> home_blocks s" "?n \<notin> held s" using bblock_meta [OF kz] wf(2,3) by (auto simp: fs_wf_def)
    have n': "?n < disksize s" "?n \<noteq> lg_start s" using nh(1) start_in_area [OF wf(1)] by (auto simp: home_blocks_def)
    obtain bp t where t: "bread 1 ?n s = Inr (bp, t)" "b_data (bcache t bp) = view s ?n" "log_wf pid t" "holds ?n bp t" "?n \<in> held t"
      "?n \<in> dirty t \<or> view t ?n = disk t ?n" "view t = view s" "held t = insert ?n (held s)" "bio_step s t"
      using log_read_ok [OF wf(1) n'(1) nh(2) n'(2) busy_idle [OF wf(1,3)]] by blast
    obtain u where u: "brelse bp t = Inr u" "log_wf pid u" "view u = view t" "held u = held t - {?n}" "bio_step t u"
      using log_release_ok [OF t(3-6)] by blast
    have su: "bio_step s u" using t(9) u(5) by (rule bio_step_trans)
    note fu = bio_step_fs [OF su] and ft = bio_step_fs [OF t(9)]
    have BP: "0 < BPB" by (simp add: params)
    have "BBLOCK (k * BPB + bi) (fs_sb s) = ?n" "(k * BPB + bi) mod BPB = bi" if "bi < BPB" for bi
      using that BP by (simp_all add: BBLOCK_def)
    then have "\<not> (k * BPB + bi < fsize s \<and> bit_free bi (view s ?n))" if "bi < BPB" for bi
      using that Cons.prems(4) unfolding free_def by (metis (mono_tags, lifting) empty_iff mem_Collect_eq)
    then have "find (\<lambda>bi. k * BPB + bi < unat (sb_size (fs_sb t)) \<and> bit_free bi (b_data (bcache t bp))) [0..<BPB] = None"
      using t(2) ft(1) by (simp add: find_upt_None fsize_def)
    moreover have "balloc_scan 1 (map (\<lambda>k. k * BPB) ks) u = Inl (Kpanic ''balloc: out of blocks'')"
      by (rule Cons.IH) (use u(2,3,4) wf t(7,8) fu Cons.prems(4,5) bio_step_sel(1) [OF su] in \<open>auto simp: fs_wf_def free_def\<close>)
    ultimately show ?case using t(1) u(1) by (simp cong: option.case_cong)
  qed simp
  moreover have "k * BPB < fsize s" if "k < (fsize s + BPB - 1) div BPB" for k
  proof -
    have BP: "0 < BPB" by (simp add: params)
    have "Suc k * BPB \<le> (fsize s + BPB - 1) div BPB * BPB" using that by (intro mult_le_mono1) simp
    then have "Suc k * BPB \<le> fsize s + BPB - 1" by (meson div_times_less_eq_dividend le_trans)
    then show ?thesis using BP by simp
  qed
  ultimately show ?thesis by (simp add: balloc_def fsize_def)
qed

section \<open>A small file system\<close>

text \<open>
  A disk of 100 blocks: the log in 2 to 31, the inodes in 33, the bitmap in 40; the blocks
  below 64 are in use.
\<close>

definition small_sb :: superblock where
  "small_sb = \<lparr>sb_size = 100, sb_nblocks = 59, sb_ninodes = 8, sb_nlog = 30, sb_logstart = 2, sb_inodestart = 33, sb_bmapstart = 40\<rparr>"

definition zero_inode :: inode where
  "zero_inode = \<lparr>i_dev = 0, i_inum = 0, i_ref = 0, i_lock = initsleeplock, i_valid = False, i_type = 0, i_major = 0,
     i_minor = 0, i_nlink = 0, i_size = 0, i_addrs = (\<lambda>_. 0)\<rparr>"

definition small_disk :: "nat \<Rightarrow> block" where
  "small_disk = (\<lambda>_ _. 0)(40 := \<lambda>i. if i < 8 then - 1 else 0)"

definition boot_kfs :: "(nat \<Rightarrow> block) \<Rightarrow> kfs" where
  "boot_kfs d = (klog.extend (boot_klog d 100 2) (kfs.fields small_sb (\<lambda>_. zero_inode)))\<lparr>lg_outstanding := 1\<rparr>"

lemma klog_extend_sel:
  "disk (klog.extend s x) = disk s" "disksize (klog.extend s x) = disksize s" "dtrace (klog.extend s x) = dtrace s"
  "bcache (klog.extend s x) = bcache s" "locks (klog.extend s x) = locks s" "curpid (klog.extend s x) = curpid s"
  "lg_start (klog.extend s x) = lg_start s" "lg_size (klog.extend s x) = lg_size s" "lg_n (klog.extend s x) = lg_n s"
  "lg_dev (klog.extend s x) = lg_dev s" "lg_committing (klog.extend s x) = lg_committing s"
  "lg_outstanding (klog.extend s x) = lg_outstanding s" "lg_block (klog.extend s x) = lg_block s"
  by (simp_all add: klog.defs curpid_def split: option.split)

lemma boot_kfs_sel [simp]:
  "disk (boot_kfs d) = d" "disksize (boot_kfs d) = 100" "locks (boot_kfs d) = []" "curpid (boot_kfs d) = Inr 0"
  "lg_start (boot_kfs d) = 2" "lg_size (boot_kfs d) = int LOGSIZE" "lg_n (boot_kfs d) = 0" "lg_outstanding (boot_kfs d) = 1"
  "lg_dev (boot_kfs d) = 1" "bcache (boot_kfs d) = bcache (boot_klog d 100 2)"
  by (simp_all add: boot_kfs_def klog_extend_sel)

lemma boot_kfs_fs [simp]: "fs_sb (boot_kfs d) = small_sb" "icache (boot_kfs d) = (\<lambda>_. zero_inode)"
  by (simp_all add: boot_kfs_def klog.defs kfs.defs)

lemma boot_kfs_obs [simp]:
  "held (boot_kfs d) = {}" "dirty (boot_kfs d) = {}" "view (boot_kfs d) = d" "bio_wf 0 (boot_kfs d)"
proof -
  have b: "bcache (boot_kfs d) = bcache (boot_klog d 100 2)" "disk (boot_kfs d) = disk (boot_klog d 100 2)" by simp_all
  show "held (boot_kfs d) = {}" "dirty (boot_kfs d) = {}" "view (boot_kfs d) = d" using obs_cong [OF b] by simp_all
  show "bio_wf 0 (boot_kfs d)" using bio_wf_cong [OF b, of 0] by simp
qed

lemma boot_kfs_log [simp]: "sint (rd32 0 (d 2)) = 0 \<Longrightarrow> log_wf 0 (boot_kfs d)"
  by (simp add: log_wf_def logged_def log_area_def params)

lemma small_layout [simp]:
  "fsize (boot_kfs d) = 100" "meta (boot_kfs d) = {33, 40}" "home_blocks (boot_kfs d) = {..<100} - {2..<32}"
proof -
  show "fsize (boot_kfs d) = 100" by (simp add: fsize_def small_sb_def)
  have "(\<lambda>b. BBLOCK b small_sb) ` {..<100} = (\<lambda>_. 40) ` {..<100 :: nat}"
    by (intro image_cong) (auto simp: BBLOCK_def small_sb_def params)
  moreover have "(\<lambda>i. IBLOCK i small_sb) ` {..<8} = (\<lambda>_. 33) ` {..<8 :: nat}"
    by (intro image_cong) (auto simp: IBLOCK_def small_sb_def params)
  ultimately show "meta (boot_kfs d) = {33, 40}" by (simp add: meta_def fsize_def) (simp add: small_sb_def insert_commute image_constant_conv lessThan_empty_iff)
  show "home_blocks (boot_kfs d) = {..<100} - {2..<32}" by (simp add: home_blocks_def log_area_def params)
qed

lemma small_free: "d 40 = small_disk 40 \<Longrightarrow> free (boot_kfs d) = {64..<100}"
proof -
  assume d: "d 40 = small_disk 40"
  have "b < 100 \<Longrightarrow> BBLOCK b small_sb = 40 \<and> b mod BPB = b" for b by (simp add: BBLOCK_def small_sb_def params)
  then have "b \<in> free (boot_kfs d) \<longleftrightarrow> b < 100 \<and> bit_free b (small_disk 40)" for b using d by (auto simp: free_def)
  moreover have "bit_free b (small_disk 40) \<longleftrightarrow> 64 \<le> b" for b by (auto simp: bit_free_iff small_disk_def)
  ultimately show ?thesis by auto
qed

lemma small_wf: "d 40 = small_disk 40 \<Longrightarrow> fs_wf (boot_kfs d)"
proof -
  assume "d 40 = small_disk 40"
  moreover have "BBLOCK b small_sb = 40" if "b < 100" for b using that by (simp add: BBLOCK_def small_sb_def params)
  moreover have "IBLOCK i small_sb = 33" if "i < 8" for i using that by (simp add: IBLOCK_def small_sb_def params)
  moreover have "unat (sb_ninodes small_sb) = 8" by (simp add: small_sb_def)
  ultimately show ?thesis by (auto simp: fs_wf_def small_free)
qed

section \<open>Properties\<close>

text \<open>
  C30. \<open>balloc\<close> and \<open>bfree\<close> implement a set of free blocks: \<open>balloc\<close> returns the smallest free
  block, zeroed, and takes it out of the set, changing nothing but that block and its bitmap
  block; \<open>bfree\<close> puts it back and restores the bitmap; freeing it again panics.
\<close>

theorem balloc_bfree_correct:
  fixes s :: "'a kfs_scheme"
  assumes tx: "txn pid s" "fs_wf s" "3 \<le> log_space s" and b: "b \<in> free s" "\<forall>c \<in> free s. b \<le> c"
  shows "\<exists>t u. balloc 1 s = Inr (b, t) \<and> free t = free s - {b} \<and> fs_wf t \<and>
    (\<forall>i < BSIZE. view t b i = 0) \<and> (\<forall>n. n \<noteq> b \<and> n \<noteq> BBLOCK b (fs_sb s) \<longrightarrow> view t n = view s n) \<and>
    bfree 1 b t = Inr u \<and> free u = free s \<and> (\<forall>n. n \<noteq> b \<longrightarrow> view u n = view s n) \<and>
    bfree 1 b u = Inl (Kpanic ''freeing free block'')"
proof -
  let ?n = "BBLOCK b (fs_sb s)" and ?m = "bit_mark (b mod BPB) (view s (BBLOCK b (fs_sb s)))"
  have w: "log_wf pid s" "held s = {}" "1 \<le> lg_outstanding s" using tx(1) by (simp_all add: txn_def)
  have bz: "b < fsize s" "b \<in> home_blocks s" "b \<notin> meta s" "b \<noteq> 0" "b \<noteq> ?n" "bit_free (b mod BPB) (view s ?n)"
    using b(1) tx(2) bblock_meta [of b s] by (auto simp: fs_wf_def free_def)
  obtain t where t: "balloc 1 s = Inr (b, t)" "log_wf pid t" "held t = held s"
      "view t = (view s)(?n := ?m, b := memset 0 0 BSIZE (view s b))" "log_step s t" "lg_n t \<le> lg_n s + 2"
    using balloc_ok [OF w(1,3) tx(2) _ _ b] tx(3) w(2) by auto
  note ft = free_mark [OF tx(2) b(1) t(5,4)] and f = log_step_fs [OF t(5)] and l = log_step_sel [OF t(5)]
  have z: "\<forall>i < BSIZE. view t b i = 0" using t(4) by (simp add: memset_eq)
  have a: "1 \<le> lg_outstanding t" "held t \<inter> meta t = {}" "b < fsize t" "b \<notin> free t" "int (card (held t)) + 1 \<le> log_space t"
    using l(7,8) w t(3,6) f(3) bz(1) ft(1) tx(3) by (auto simp: log_space_def)
  obtain u where u: "bfree 1 b t = Inr u" "log_wf pid u" "held u = held t"
      "view u = (view t)(?n := bit_clear (b mod BPB) (view t ?n))" "log_step t u"
    using bfree_ok [OF t(2) a(1) ft(2) a(2-5)] unfolding f(1) by blast
  note fu = free_clear [OF ft(2) _ _ _ _ u(5), unfolded f(1)] and g = log_step_fs [OF u(5)]
  have fr: "free u = free s" using fu(1) [OF _ _ _ _ u(4)] f bz(1-4) ft(1) b(1) by auto
  have vu: "view u n = view s n" if "n \<noteq> b" for n
    using that u(4) t(4) bz(5,6) by (simp add: clear_mark)
  have "bfree 1 b u = Inl (Kpanic ''freeing free block'')"
  proof -
    have nh: "?n \<in> home_blocks u" using f g bblock_meta [OF bz(1)] tx(2) by (auto simp: fs_wf_def)
    have "?n < disksize u" "?n \<noteq> lg_start u" using nh start_in_area [OF u(2)] by (auto simp: home_blocks_def)
    moreover have "held u = {}" using u(3) t(3) w(2) by simp
    ultimately obtain bp v where v: "bread 1 ?n u = Inr (bp, v)" "b_data (bcache v bp) = view u ?n"
      using log_read_ok [OF u(2) _ _ _ busy_idle [OF u(2)]] by blast
    have "bit_free (b mod BPB) (view u ?n)" using vu [of ?n] bz(5,6) by simp
    then show ?thesis using v f(1) g(1) by (simp add: bfree_def Let_def)
  qed
  then show ?thesis using t(1,4) ft u(1) fr vu z by (intro exI [of _ t] exI [of _ u]) simp
qed

theorem balloc_bfree_correct_witness:
  "\<exists>t u. balloc 1 (boot_kfs small_disk) = Inr (64, t) \<and> free t = {65..<100} \<and> bfree 1 64 t = Inr u \<and> free u = {64..<100}"
proof -
  have d: "free (boot_kfs small_disk) = {64..<100}" "fs_wf (boot_kfs small_disk)" by (simp_all add: small_free small_wf)
  have "txn 0 (boot_kfs small_disk)" by (simp add: txn_def small_disk_def rd32_def)
  moreover have "3 \<le> log_space (boot_kfs small_disk)" by (simp add: log_space_def params)
  moreover have "{64..<100} - {64} = {65..<100 :: nat}" by auto
  ultimately show ?thesis using balloc_bfree_correct [of 0 "boot_kfs small_disk" 64] d by auto
qed

text \<open>\<open>balloc\<close> panics exactly in the case left: no block of the bitmap is free.\<close>

theorem balloc_out_of_blocks:
  fixes s :: "'a kfs_scheme"
  assumes tx: "txn pid s" "fs_wf s" "3 \<le> log_space s"
  shows "balloc 1 s = Inl (Kpanic ''balloc: out of blocks'') \<longleftrightarrow> free s = {}"
proof -
  have w: "log_wf pid s" "held s = {}" "1 \<le> lg_outstanding s" using tx(1) by (simp_all add: txn_def)
  show ?thesis
  proof (cases "free s = {}")
    case False
    define b where "b = (LEAST b. b \<in> free s)"
    have b: "b \<in> free s" "\<forall>c \<in> free s. b \<le> c"
      using False unfolding b_def by (auto intro: LeastI Least_le)
    then show ?thesis using balloc_ok [OF w(1,3) tx(2) _ _ b] tx(3) w(2) False by auto
  qed (use balloc_full [OF w(1) tx(2) w(2)] in simp)
qed

theorem balloc_out_of_blocks_witness: "balloc 1 (boot_kfs small_disk) \<noteq> Inl (Kpanic ''balloc: out of blocks'')"
proof -
  have "txn 0 (boot_kfs small_disk)" by (simp add: txn_def small_disk_def rd32_def)
  moreover have "3 \<le> log_space (boot_kfs small_disk)" by (simp add: log_space_def params)
  ultimately show ?thesis
    using balloc_out_of_blocks [of 0 "boot_kfs small_disk"] by (simp add: small_free small_wf)
qed

end
