(* ===== verification/FsMap.thy ===== *)
theory FsMap
  imports FsAlloc
begin

text \<open>
  The block map of a file: \<open>bmap\<close> is a walk along a path of indices through the inode and the
  indirect blocks. The addresses of a file form a tree; the lemmas show that extending the
  tree by one freshly allocated block keeps it well formed, keeps every address already
  mapped, and keeps the contents of this and of every other file.
\<close>

section \<open>Paths\<close>

definition bpath :: "nat \<Rightarrow> nat \<times> nat list" where
  "bpath bn =
     (if bn < NDIRECT then (bn, [])
      else let bn = bn - NDIRECT in
      if bn < NINDIRECT then (NDIRECT, [bn])
      else let bn = bn - NINDIRECT in
      if bn < NDOUINDIRECT then (NDIRECT + 1, [bn div NINDIRECT, bn mod NINDIRECT])
      else let bn = bn - NDOUINDIRECT in
        (NDIRECT + 2, [bn div NDOUINDIRECT, bn mod NDOUINDIRECT div NINDIRECT, bn mod NDOUINDIRECT mod NINDIRECT]))"

definition pos_ok :: "nat \<times> nat list \<Rightarrow> bool" where
  "pos_ok p \<longleftrightarrow> fst p < NDIRECT + 3 \<and> length (snd p) \<le> fst p + 1 - NDIRECT \<and> (\<forall>i \<in> set (snd p). i < NINDIRECT)"

definition leaf :: "nat \<times> nat list \<Rightarrow> bool" where
  "leaf p \<longleftrightarrow> pos_ok p \<and> length (snd p) = fst p + 1 - NDIRECT"

lemma bpath_leaf: "bn < MAXFILE \<Longrightarrow> leaf (bpath bn)"
proof -
  assume bn: "bn < MAXFILE"
  have I: "0 < NINDIRECT" by (simp add: params)
  show ?thesis
  proof -
    consider "bn < NDIRECT" | "NDIRECT \<le> bn" "bn - NDIRECT < NINDIRECT"
      | "NDIRECT + NINDIRECT \<le> bn" "bn - NDIRECT - NINDIRECT < NDOUINDIRECT"
      | "NDIRECT + NINDIRECT + NDOUINDIRECT \<le> bn" by linarith
    then show ?thesis
    proof cases
      case 3
      then have "(bn - NDIRECT - NINDIRECT) div NINDIRECT < NINDIRECT"
        using I by (simp add: NDOUINDIRECT_def less_mult_imp_div_less)
      then show ?thesis using 3 I by (simp add: bpath_def leaf_def pos_ok_def Let_def)
    next
      case 4
      let ?b = "bn - NDIRECT - NINDIRECT - NDOUINDIRECT"
      have "?b < NINDIRECT * NDOUINDIRECT" using 4 bn by (simp add: MAXFILE_def NTRIINDIRECT_def NDOUINDIRECT_def)
      then have "?b div NDOUINDIRECT < NINDIRECT" by (simp add: less_mult_imp_div_less)
      moreover have "?b mod NDOUINDIRECT < NINDIRECT * NINDIRECT" using I by (simp add: NDOUINDIRECT_def)
      then have "?b mod NDOUINDIRECT div NINDIRECT < NINDIRECT" by (simp add: less_mult_imp_div_less)
      moreover have "\<not> bn < NDIRECT" "\<not> bn - NDIRECT < NINDIRECT" "\<not> bn - NDIRECT - NINDIRECT < NDOUINDIRECT"
        using 4 by linarith+
      ultimately show ?thesis using I by (simp add: bpath_def leaf_def pos_ok_def Let_def)
    qed (simp_all add: bpath_def leaf_def pos_ok_def Let_def)
  qed
qed

lemma bpath_inj: "bpath bn = bpath bn' \<Longrightarrow> bn = bn'"
proof -
  assume e: "bpath bn = bpath bn'"
  have 2: "a = b" if "a div NINDIRECT = b div NINDIRECT" "a mod NINDIRECT = b mod NINDIRECT" for a b
    using that by (metis div_mult_mod_eq)
  have 3: "a = b" if "a div NDOUINDIRECT = b div NDOUINDIRECT" "a mod NDOUINDIRECT div NINDIRECT = b mod NDOUINDIRECT div NINDIRECT"
      "a mod NDOUINDIRECT mod NINDIRECT = b mod NDOUINDIRECT mod NINDIRECT" for a b
  proof -
    have "a mod NDOUINDIRECT = b mod NDOUINDIRECT" using 2 that(2,3) by blast
    then show ?thesis using that(1) by (metis div_mult_mod_eq)
  qed
  show ?thesis using e unfolding bpath_def Let_def
    by (auto split: if_splits dest!: 2 3)
qed

text \<open>\<open>bmap\<close> follows the path.\<close>

fun bmap_walk :: "nat \<Rightarrow> nat \<Rightarrow> nat list \<Rightarrow> 'a kfs_scheme \<Rightarrow> (nat \<times> 'a kfs_scheme) res" where
  "bmap_walk dev addr [] s = Inr (addr, s)"
| "bmap_walk dev addr (i # is) s = bindR (bmap_entry dev addr i s) (\<lambda>(addr, s). bmap_walk dev addr is s)"

lemma bmap_eq:
  assumes "bn < MAXFILE"
  shows "bmap ip bn s = bindR (bmap_slot ip (fst (bpath bn)) s)
    (\<lambda>(addr, t). bmap_walk (i_dev (icache s ip)) addr (snd (bpath bn)) t)"
  using assms
  by (simp add: bmap_def bpath_def Let_def MAXFILE_def case_prod_unfold) (auto simp: case_prod_unfold)

section \<open>Addresses\<close>

definition ent :: "(nat \<Rightarrow> block) \<Rightarrow> nat \<Rightarrow> nat \<Rightarrow> nat" where
  "ent v a i = unat (rd32 (4 * i) (v a))"

fun walk :: "(nat \<Rightarrow> block) \<Rightarrow> nat \<Rightarrow> nat list \<Rightarrow> nat" where
  "walk v a [] = a"
| "walk v a (i # is) = (if a = 0 then 0 else walk v (ent v a i) is)"

definition lookup :: "(nat \<Rightarrow> block) \<Rightarrow> (nat \<Rightarrow> nat) \<Rightarrow> nat \<times> nat list \<Rightarrow> nat" where
  "lookup v A p = walk v (A (fst p)) (snd p)"

lemma walk_zero [simp]: "walk v 0 is = 0"
  by (cases "is") auto

lemma walk_snoc: "walk v a (is @ [i]) = (if walk v a is = 0 then 0 else ent v (walk v a is) i)"
  by (induction "is" arbitrary: a) auto

lemma lookup_snoc: "lookup v A (r, is @ [i]) = (if lookup v A (r, is) = 0 then 0 else ent v (lookup v A (r, is)) i)"
  by (simp add: lookup_def walk_snoc)

lemma pos_ok_prefix: "pos_ok (r, is @ [i]) \<Longrightarrow> pos_ok (r, is)"
  by (auto simp: pos_ok_def)

definition tree :: "(nat \<Rightarrow> block) \<Rightarrow> (nat \<Rightarrow> nat) \<Rightarrow> nat set" where
  "tree v A = lookup v A ` {p. pos_ok p} - {0}"

text \<open>The tree of a file lies in \<open>D\<close> and uses no address twice.\<close>

definition tree_ok :: "(nat \<Rightarrow> block) \<Rightarrow> (nat \<Rightarrow> nat) \<Rightarrow> nat set \<Rightarrow> bool" where
  "tree_ok v A D \<longleftrightarrow> tree v A \<subseteq> D \<and> inj_on (lookup v A) {p. pos_ok p \<and> lookup v A p \<noteq> 0}"

lemma tree_memI: "pos_ok p \<Longrightarrow> lookup v A p \<noteq> 0 \<Longrightarrow> lookup v A p \<in> tree v A"
  by (auto simp: tree_def)

lemma tree_injD:
  "tree_ok v A D \<Longrightarrow> pos_ok p \<Longrightarrow> pos_ok q \<Longrightarrow> lookup v A p \<noteq> 0 \<Longrightarrow> lookup v A p = lookup v A q \<Longrightarrow> p = q"
  by (auto simp: tree_ok_def dest!: inj_onD)

text \<open>Addresses do not change when the tree's own blocks do not.\<close>

lemma lookup_frame:
  assumes "\<And>a. a \<in> tree v A \<Longrightarrow> v' a = v a" "pos_ok p"
  shows "lookup v' A p = lookup v A p"
proof -
  have "pos_ok (r, is) \<Longrightarrow> lookup v' A (r, is) = lookup v A (r, is)" for r "is"
  proof (induction "is" rule: rev_induct)
    case (snoc i "is")
    have IH: "lookup v' A (r, is) = lookup v A (r, is)" using snoc pos_ok_prefix by blast
    show ?case using IH assms(1) [OF tree_memI [OF pos_ok_prefix [OF snoc.prems]]] by (auto simp: lookup_snoc ent_def)
  qed (simp add: lookup_def)
  then show ?thesis using assms(2) by (cases p) simp
qed

lemma tree_frame:
  assumes "\<And>a. a \<in> tree v A \<Longrightarrow> v' a = v a"
  shows "tree v' A = tree v A" "tree_ok v' A D = tree_ok v A D"
proof -
  have l: "lookup v' A p = lookup v A p" if "pos_ok p" for p using assms that by (rule lookup_frame)
  then show t: "tree v' A = tree v A" by (auto simp: tree_def)
  have "{p. pos_ok p \<and> lookup v' A p \<noteq> 0} = {p. pos_ok p \<and> lookup v A p \<noteq> 0}" using l by auto
  then show "tree_ok v' A D = tree_ok v A D"
    using t inj_on_cong [of "{p. pos_ok p \<and> lookup v A p \<noteq> 0}" "lookup v' A" "lookup v A"] l by (simp add: tree_ok_def)
qed

section \<open>Extending the tree\<close>

text \<open>A new block at the position \<open>p\<close>, whose contents are zero.\<close>

definition zero_block :: "block \<Rightarrow> bool" where
  "zero_block x \<longleftrightarrow> (\<forall>i < BSIZE. x i = 0)"

lemma zero_ent: "zero_block (v b) \<Longrightarrow> i < NINDIRECT \<Longrightarrow> ent v b i = 0"
proof -
  assume z: "zero_block (v b)" "i < NINDIRECT"
  have "rd32 (4 * i) (v b) = rd32 (4 * i) (\<lambda>_. 0)"
    by (rule rd32_cong) (use z in \<open>auto simp: zero_block_def params\<close>)
  then show ?thesis by (simp add: ent_def rd32_def)
qed

lemma grow_root:
  assumes ok: "tree_ok v A D" and r: "r < NDIRECT + 3" "A r = 0" and b: "b \<noteq> 0" "zero_block (v' b)"
    and v': "\<And>a. a \<in> tree v A \<Longrightarrow> v' a = v a"
    and q: "pos_ok q"
  shows "lookup v' (A(r := b)) q = (if q = (r, []) then b else lookup v A q)"
proof -
  have "pos_ok (r', is) \<Longrightarrow> lookup v' (A(r := b)) (r', is) = (if (r', is) = (r, []) then b else lookup v A (r', is))" for r' "is"
  proof (induction "is" rule: rev_induct)
    case Nil
    then show ?case by (simp add: lookup_def)
  next
    case (snoc i "is")
    have p: "pos_ok (r', is)" using snoc.prems by (rule pos_ok_prefix)
    have i: "i < NINDIRECT" using snoc.prems by (simp add: pos_ok_def)
    note IH = snoc.IH [OF p]
    show ?case
    proof (cases "(r', is) = (r, [])")
      case True
      then show ?thesis using IH zero_ent [of v' b i, OF b(2) i] r(2) b(1) by (simp add: lookup_snoc) (simp add: lookup_def)
    next
      case False
      then show ?thesis using IH v' [OF tree_memI [OF p]] by (auto simp: lookup_snoc ent_def)
    qed
  qed
  then show ?thesis using q by (cases q) simp
qed

lemma grow_entry:
  assumes ok: "tree_ok v A D" and p: "pos_ok (r, is @ [i])" "lookup v A (r, is) = a" "a \<noteq> 0" "ent v a i = 0"
    and b: "b \<noteq> 0" "zero_block (v' b)"
    and v': "\<And>c. c \<in> tree v A \<Longrightarrow> c \<noteq> a \<Longrightarrow> v' c = v c" "\<And>j. j < NINDIRECT \<Longrightarrow> ent v' a j = (if j = i then b else ent v a j)"
    and q: "pos_ok q"
  shows "lookup v' A q = (if q = (r, is @ [i]) then b else lookup v A q)"
proof -
  have "pos_ok (r', js) \<Longrightarrow> lookup v' A (r', js) = (if (r', js) = (r, is @ [i]) then b else lookup v A (r', js))" for r' js
  proof (induction js rule: rev_induct)
    case Nil
    then show ?case by (simp add: lookup_def)
  next
    case (snoc j js)
    have pj: "pos_ok (r', js)" using snoc.prems by (rule pos_ok_prefix)
    have j: "j < NINDIRECT" using snoc.prems by (simp add: pos_ok_def)
    note IH = snoc.IH [OF pj]
    show ?case
    proof (cases "(r', js) = (r, is @ [i])")
      case True
      have z: "lookup v A (r', js) = 0" "lookup v' A (r', js) = b" using True p(2-4) IH by (auto simp: lookup_snoc)
      have "lookup v A (r', js @ [j]) = 0" using z(1) lookup_snoc [of v A r' js j] by simp
      moreover have "lookup v' A (r', js @ [j]) = 0"
        using z(2) lookup_snoc [of v' A r' js j] zero_ent [of v' b j, OF b(2) j] by simp
      moreover have "(r', js @ [j]) \<noteq> (r, is @ [i])" using True by auto
      ultimately show ?thesis by (metis (full_types))
    next
      case False
      let ?c = "lookup v A (r', js)"
      show ?thesis
      proof (cases "?c = a")
        case True
        then have "(r', js) = (r, is)"
          using tree_injD [OF ok pj pos_ok_prefix [OF p(1)]] p(2,3) by simp
        then show ?thesis using False IH p(2,3) v'(2) [OF j] by (auto simp: lookup_snoc)
      next
        case ne: False
        have "\<not> (r' = r \<and> js @ [j] = is @ [i])" using ne p(2) by auto
        then show ?thesis using False IH v'(1) [OF tree_memI [OF pj]] ne by (auto simp: lookup_snoc ent_def)
      qed
    qed
  qed
  then show ?thesis using q by (cases q) simp
qed

text \<open>What the new addresses mean for the tree and for the contents of the file.\<close>

definition content :: "(nat \<Rightarrow> block) \<Rightarrow> (nat \<Rightarrow> nat) \<Rightarrow> nat \<Rightarrow> byte" where
  "content v A off = (let a = lookup v A (bpath (off div BSIZE)) in if a = 0 then 0 else v a (off mod BSIZE))"

lemma grow_tree:
  assumes ok: "tree_ok v A D" and p: "pos_ok p" "lookup v A p = 0" and b: "b \<noteq> 0" "b \<notin> tree v A"
    and l: "\<And>q. pos_ok q \<Longrightarrow> lookup v' A' q = (if q = p then b else lookup v A q)" and D: "insert b D \<subseteq> D'"
  shows "tree v' A' = insert b (tree v A)" "tree_ok v' A' D'"
proof -
  show t: "tree v' A' = insert b (tree v A)"
  proof (intro equalityI subsetI)
    fix x
    assume "x \<in> tree v' A'"
    then obtain q where "pos_ok q" "x = lookup v' A' q" "x \<noteq> 0" by (auto simp: tree_def)
    then show "x \<in> insert b (tree v A)" using l [of q] tree_memI [of q v A] by (auto split: if_splits)
  next
    fix x
    assume x: "x \<in> insert b (tree v A)"
    show "x \<in> tree v' A'"
    proof (cases "x = b")
      case True
      then show ?thesis using tree_memI [OF p(1), of v' A'] l [OF p(1)] b(1) by simp
    next
      case False
      then obtain q where q: "pos_ok q" "x = lookup v A q" "x \<noteq> 0" using x by (auto simp: tree_def)
      then show ?thesis using l [OF q(1)] p(2) tree_memI [OF q(1), of v' A'] by (auto split: if_splits)
    qed
  qed
  have "inj_on (lookup v' A') {q. pos_ok q \<and> lookup v' A' q \<noteq> 0}"
  proof (rule inj_onI)
    fix q q'
    assume q: "q \<in> {q. pos_ok q \<and> lookup v' A' q \<noteq> 0}" "q' \<in> {q. pos_ok q \<and> lookup v' A' q \<noteq> 0}" and
      e: "lookup v' A' q = lookup v' A' q'"
    have m: "pos_ok q" "pos_ok q'" using q by auto
    consider "q = p" "q' = p" | "q = p" "q' \<noteq> p" | "q \<noteq> p" "q' = p" | "q \<noteq> p" "q' \<noteq> p" by blast
    then show "q = q'"
    proof cases
      case 2
      then have "lookup v A q' = b" using e l [OF m(1)] l [OF m(2)] by simp
      then show ?thesis using b tree_memI [OF m(2), of v A] by auto
    next
      case 3
      then have "lookup v A q = b" using e l [OF m(1)] l [OF m(2)] by simp
      then show ?thesis using b tree_memI [OF m(1), of v A] by auto
    next
      case 4
      then have "lookup v A q = lookup v A q'" "lookup v A q \<noteq> 0" using e l [OF m(1)] l [OF m(2)] q(1) by auto
      then show ?thesis using tree_injD [OF ok m] by blast
    qed simp
  qed
  moreover have "tree v' A' \<subseteq> D'" using t ok D by (auto simp: tree_ok_def)
  ultimately show "tree_ok v' A' D'" by (simp add: tree_ok_def)
qed

lemma grow_content:
  assumes p: "lookup v A p = 0" and b: "b \<noteq> 0" "zero_block (v' b)"
    and l: "\<And>q. pos_ok q \<Longrightarrow> lookup v' A' q = (if q = p then b else lookup v A q)"
    and leaves: "\<And>q. leaf q \<Longrightarrow> lookup v A q \<noteq> 0 \<Longrightarrow> v' (lookup v A q) = v (lookup v A q)"
    and off: "off div BSIZE < MAXFILE"
  shows "content v' A' off = content v A off"
proof -
  let ?q = "bpath (off div BSIZE)"
  have lf: "leaf ?q" using off by (rule bpath_leaf)
  then have q: "pos_ok ?q" by (simp add: leaf_def)
  have m: "off mod BSIZE < BSIZE" by (simp add: params)
  show ?thesis
  proof (cases "?q = p")
    case True
    then show ?thesis using l [OF q] p b m by (simp add: content_def zero_block_def)
  next
    case False
    then show ?thesis using l [OF q] leaves [OF lf] by (simp add: content_def Let_def)
  qed
qed

section \<open>The state during a file operation\<close>

definition addrs :: "'a kfs_scheme \<Rightarrow> nat \<Rightarrow> nat \<Rightarrow> nat" where
  "addrs s ip = i_addrs (icache s ip)"

definition data :: "'a kfs_scheme \<Rightarrow> nat set" where
  "data s = {b \<in> home_blocks s - meta s - {0}. b < fsize s \<and> b \<notin> free s}"

definition bitmap :: "'a kfs_scheme \<Rightarrow> nat set" where
  "bitmap s = (\<lambda>b. BBLOCK b (fs_sb s)) ` {..<fsize s}"

definition fs_ok :: "int \<Rightarrow> 'a kfs_scheme \<Rightarrow> bool" where
  "fs_ok pid s \<longleftrightarrow> txn pid s \<and> fs_wf s"

definition file_ok :: "'a kfs_scheme \<Rightarrow> nat \<Rightarrow> bool" where
  "file_ok s ip \<longleftrightarrow> i_dev (icache s ip) = 1 \<and> tree_ok (view s) (addrs s ip) (data s)"

definition fs_step :: "'a kfs_scheme \<Rightarrow> 'a kfs_scheme \<Rightarrow> bool" where
  "fs_step s t \<longleftrightarrow> t = s\<lparr>ptable := ptable t, bcache := bcache t, disk := disk t, dtrace := dtrace t,
     lg_n := lg_n t, lg_block := lg_block t, icache := icache t\<rparr>"

lemma fs_step_refl [simp]: "fs_step s s"
  by (simp add: fs_step_def)

lemma fs_step_trans: "fs_step s t \<Longrightarrow> fs_step t u \<Longrightarrow> fs_step s u"
proof -
  assume 1: "fs_step s t" and 2: "fs_step t u"
  have "u = (s\<lparr>ptable := ptable t, bcache := bcache t, disk := disk t, dtrace := dtrace t, lg_n := lg_n t, lg_block := lg_block t, icache := icache t\<rparr>)
      \<lparr>ptable := ptable u, bcache := bcache u, disk := disk u, dtrace := dtrace u, lg_n := lg_n u, lg_block := lg_block u, icache := icache u\<rparr>"
    using 1 [unfolded fs_step_def] 2 [unfolded fs_step_def] by (rule subst)
  then show ?thesis unfolding fs_step_def by simp
qed

lemma log_fs_step:
  fixes s t :: "'a kfs_scheme"
  assumes "log_step s t"
  shows "fs_step s t"
proof -
  have "t = (s\<lparr>ptable := ptable t, bcache := bcache t, disk := disk t, dtrace := dtrace t, lg_n := lg_n t, lg_block := lg_block t\<rparr>)"
    using assms by (simp add: log_step_def)
  moreover have "icache t = icache s" using log_step_fs [OF assms] by auto
  ultimately show ?thesis unfolding fs_step_def by simp
qed

lemma fs_step_sel:
  assumes "fs_step s t"
  shows "disksize t = disksize s" "locks t = locks s" "myproc t = myproc s" "mem t = mem s" "freelist t = freelist s"
    "lg_start t = lg_start s" "lg_size t = lg_size s" "lg_outstanding t = lg_outstanding s"
    "lg_committing t = lg_committing s" "lg_dev t = lg_dev s" "fs_sb t = fs_sb s" "fsize t = fsize s"
    "meta t = meta s" "home_blocks t = home_blocks s" "bitmap t = bitmap s" "blocks t = blocks s"
  unfolding log_area_def fsize_def meta_def home_blocks_def bitmap_def blocks_def by (subst assms [unfolded fs_step_def], simp)+

lemma upd_inode_sel [simp]:
  "icache (upd_inode ip f s) = (icache s)(ip := f (icache s ip))" "disk (upd_inode ip f s) = disk s"
  "bcache (upd_inode ip f s) = bcache s" "fs_sb (upd_inode ip f s) = fs_sb s" "lg_n (upd_inode ip f s) = lg_n s"
  "lg_size (upd_inode ip f s) = lg_size s" "lg_outstanding (upd_inode ip f s) = lg_outstanding s" "locks (upd_inode ip f s) = locks s"
  "ptable (upd_inode ip f s) = ptable s" "myproc (upd_inode ip f s) = myproc s" "disksize (upd_inode ip f s) = disksize s"
  "lg_start (upd_inode ip f s) = lg_start s" "lg_block (upd_inode ip f s) = lg_block s" "lg_dev (upd_inode ip f s) = lg_dev s"
  by (simp_all add: upd_inode_def)

lemma upd_inode_obs [simp]:
  "held (upd_inode ip f s) = held s" "view (upd_inode ip f s) = view s" "dirty (upd_inode ip f s) = dirty s"
  "bio_wf pid (upd_inode ip f s) = bio_wf pid s" "log_wf pid (upd_inode ip f s) = log_wf pid s" "txn pid (upd_inode ip f s) = txn pid s"
  "log_space (upd_inode ip f s) = log_space s" "free (upd_inode ip f s) = free s" "meta (upd_inode ip f s) = meta s"
  "home_blocks (upd_inode ip f s) = home_blocks s" "fsize (upd_inode ip f s) = fsize s" "data (upd_inode ip f s) = data s"
  "fs_wf (upd_inode ip f s) = fs_wf s" "curpid (upd_inode ip f s) = curpid s" "fs_ok pid (upd_inode ip f s) = fs_ok pid s"
  "bitmap (upd_inode ip f s) = bitmap s"
proof -
  show o: "held (upd_inode ip f s) = held s" "view (upd_inode ip f s) = view s" "dirty (upd_inode ip f s) = dirty s"
    by (rule obs_cong; simp)+
  show c: "curpid (upd_inode ip f s) = curpid s" by (simp add: curpid_def split: option.split)
  show b: "bio_wf pid (upd_inode ip f s) = bio_wf pid s" by (rule bio_wf_cong) (simp_all add: c)
  show l: "log_wf pid (upd_inode ip f s) = log_wf pid s" by (simp add: log_wf_def log_area_def logged_def o b)
  show t: "txn pid (upd_inode ip f s) = txn pid s" "log_space (upd_inode ip f s) = log_space s"
    by (simp_all add: txn_def log_space_def l o)
  show h: "fsize (upd_inode ip f s) = fsize s" "meta (upd_inode ip f s) = meta s" "home_blocks (upd_inode ip f s) = home_blocks s"
     "bitmap (upd_inode ip f s) = bitmap s"
    by (simp_all add: fsize_def meta_def home_blocks_def log_area_def bitmap_def)
  show f: "free (upd_inode ip f s) = free s" by (simp add: free_def h o)
  show "data (upd_inode ip f s) = data s" by (simp add: data_def h f)
  show "fs_wf (upd_inode ip f s) = fs_wf s" "fs_ok pid (upd_inode ip f s) = fs_ok pid s"
    by (simp_all add: fs_ok_def fs_wf_def t h f)
qed

section \<open>One step of \<open>bmap\<close>\<close>

text \<open>
  \<open>ext_step k c ip s t\<close>: from \<open>s\<close> to \<open>t\<close> at most \<open>k\<close> blocks were added to the file \<open>ip\<close> and at most
  \<open>c\<close> further blocks logged. Addresses are kept, and blocks that are neither bitmap blocks, nor
  free, nor the file's are untouched. In a \<open>map_step\<close> the contents of the file are kept, too.
\<close>

definition ext_step :: "nat \<Rightarrow> nat \<Rightarrow> nat \<Rightarrow> 'a kfs_scheme \<Rightarrow> 'a kfs_scheme \<Rightarrow> bool" where
  "ext_step k c ip s t \<longleftrightarrow> fs_step s t \<and> icache t = (icache s)(ip := (icache s ip)\<lparr>i_addrs := addrs t ip\<rparr>) \<and>
     (\<forall>p. pos_ok p \<and> lookup (view s) (addrs s ip) p \<noteq> 0 \<longrightarrow> lookup (view t) (addrs t ip) p = lookup (view s) (addrs s ip) p) \<and>
     (\<forall>n. n \<notin> bitmap s \<and> n \<notin> free s \<and> n \<notin> tree (view s) (addrs s ip) \<longrightarrow> view t n = view s n) \<and>
     tree (view t) (addrs t ip) \<subseteq> tree (view s) (addrs s ip) \<union> free s \<and> free t \<subseteq> free s \<and>
     card (free s) \<le> card (free t) + k \<and> lg_n t \<le> lg_n s + 3 * int k + int c \<and> disk t = disk s"

definition map_step :: "nat \<Rightarrow> nat \<Rightarrow> 'a kfs_scheme \<Rightarrow> 'a kfs_scheme \<Rightarrow> bool" where
  "map_step k ip s t \<longleftrightarrow> ext_step k 0 ip s t \<and>
     (\<forall>off. off div BSIZE < MAXFILE \<longrightarrow> content (view t) (addrs t ip) off = content (view s) (addrs s ip) off)"

lemma ext_stepD:
  assumes "ext_step k c ip s t"
  shows "fs_step s t" "icache t = (icache s)(ip := (icache s ip)\<lparr>i_addrs := addrs t ip\<rparr>)"
    "\<And>p. pos_ok p \<Longrightarrow> lookup (view s) (addrs s ip) p \<noteq> 0 \<Longrightarrow> lookup (view t) (addrs t ip) p = lookup (view s) (addrs s ip) p"
    "\<And>n. n \<notin> bitmap s \<Longrightarrow> n \<notin> free s \<Longrightarrow> n \<notin> tree (view s) (addrs s ip) \<Longrightarrow> view t n = view s n"
    "tree (view t) (addrs t ip) \<subseteq> tree (view s) (addrs s ip) \<union> free s" "free t \<subseteq> free s"
    "card (free s) \<le> card (free t) + k" "lg_n t \<le> lg_n s + 3 * int k + int c" "disk t = disk s"
  using assms unfolding ext_step_def by blast+

lemma map_stepD:
  assumes "map_step k ip s t"
  shows "ext_step k 0 ip s t"
    "\<And>off. off div BSIZE < MAXFILE \<Longrightarrow> content (view t) (addrs t ip) off = content (view s) (addrs s ip) off"
  using assms unfolding map_step_def by blast+

lemma map_step_refl: "map_step k ip s s"
  by (simp add: map_step_def ext_step_def addrs_def)

lemma ext_step_trans:
  assumes a: "ext_step k c ip s t" and b: "ext_step l d ip t u"
  shows "ext_step (k + l) (c + d) ip s u"
  unfolding ext_step_def
proof (intro conjI allI impI)
  note A = ext_stepD [OF a] and B = ext_stepD [OF b]
  show "fs_step s u" using A(1) B(1) by (rule fs_step_trans)
  show "icache u = (icache s)(ip := (icache s ip)\<lparr>i_addrs := addrs u ip\<rparr>)" using A(2) B(2) by simp
  show "lookup (view u) (addrs u ip) p = lookup (view s) (addrs s ip) p"
    if "pos_ok p \<and> lookup (view s) (addrs s ip) p \<noteq> 0" for p using that A(3) [of p] B(3) [of p] by simp
  show "view u n = view s n" if "n \<notin> bitmap s \<and> n \<notin> free s \<and> n \<notin> tree (view s) (addrs s ip)" for n
    using that A(4) [of n] B(4) [of n] A(5,6) fs_step_sel(15) [OF A(1)] by auto
  show "tree (view u) (addrs u ip) \<subseteq> tree (view s) (addrs s ip) \<union> free s" using A(5,6) B(5) by blast
  show "free u \<subseteq> free s" using A(6) B(6) by blast
  show "card (free s) \<le> card (free u) + (k + l)" using A(7) B(7) by simp
  show "lg_n u \<le> lg_n s + 3 * int (k + l) + int (c + d)" using A(8) B(8) by simp
  show "disk u = disk s" using A(9) B(9) by simp
qed

lemma map_step_trans:
  assumes a: "map_step k ip s t" and b: "map_step l ip t u"
  shows "map_step (k + l) ip s u"
  using ext_step_trans [OF map_stepD(1) [OF a] map_stepD(1) [OF b]] map_stepD(2) [OF a] map_stepD(2) [OF b]
  by (simp add: map_step_def)

lemma map_step_mono: "map_step k ip s t \<Longrightarrow> k \<le> l \<Longrightarrow> map_step l ip s t"
  unfolding map_step_def ext_step_def by auto

lemma fs_okD:
  assumes "fs_ok pid s"
  shows "log_wf pid s" "held s = {}" "1 \<le> lg_outstanding s" "fs_wf s" "txn pid s"
  using assms by (simp_all add: fs_ok_def txn_def)

lemma finite_free: "finite (free s)"
  by (simp add: free_def)

lemma data_facts:
  assumes "fs_ok pid s" "a \<in> data s"
  shows "a \<noteq> 0" "a \<notin> meta s" "a \<in> home_blocks s" "a < disksize s" "a \<noteq> lg_start s" "a \<notin> log_area s" "a \<notin> free s" "a \<notin> bitmap s" "a < 2 ^ 32"
proof -
  show a: "a \<noteq> 0" "a \<notin> meta s" "a \<in> home_blocks s" "a \<notin> free s" using assms(2) by (simp_all add: data_def)
  show d: "a < disksize s" "a \<notin> log_area s" using a(3) by (simp_all add: home_blocks_def)
  show "a \<noteq> lg_start s" using d(2) start_in_area [OF fs_okD(1) [OF assms(1)]] by auto
  show "a \<notin> bitmap s" using a(2) by (auto simp: bitmap_def meta_def)
  show "a < 2 ^ 32" using d(1) log_wfD(11) [OF fs_okD(1) [OF assms(1)]] by linarith
qed

text \<open>The first free block, and what holds of it.\<close>

lemma first_free:
  assumes "fs_wf s" "0 < card (free s)"
  obtains b where "b \<in> free s" "\<forall>c \<in> free s. b \<le> c" "b \<noteq> 0" "b \<notin> meta s" "b \<in> home_blocks s" "b < fsize s" "b \<notin> bitmap s" "b \<notin> data s"
proof -
  define b where "b = (LEAST b. b \<in> free s)"
  have ne: "\<exists>b. b \<in> free s" using assms(2) by (metis all_not_in_conv card.empty less_irrefl)
  have b: "b \<in> free s" using ne unfolding b_def by (rule LeastI_ex)
  moreover have "\<forall>c \<in> free s. b \<le> c" unfolding b_def by (simp add: Least_le)
  moreover have "b \<noteq> 0" "b \<notin> meta s" "b \<in> home_blocks s" "b < fsize s" using b assms(1) by (auto simp: fs_wf_def free_def)
  moreover have "b \<notin> bitmap s" using \<open>b \<notin> meta s\<close> by (auto simp: bitmap_def meta_def)
  moreover have "b \<notin> data s" using b by (simp add: data_def)
  ultimately show ?thesis using that by blast
qed

lemma data_grow:
  fixes s t :: "'a kfs_scheme"
  assumes "fs_step s t" "free t = free s - {b}" "b \<in> free s" "fs_wf s"
  shows "data t = insert b (data s)"
  using assms fs_step_sel(12,13,14) [OF assms(1)] by (auto simp: data_def fs_wf_def free_def)

lemma zero_fresh: "zero_block (memset 0 0 BSIZE d)"
  by (simp add: zero_block_def memset_eq)

lemma bmap_slot_ok:
  fixes s :: "'a kfs_scheme"
  assumes ok: "fs_ok pid s" "file_ok s ip" and r: "r < NDIRECT + 3" and sp: "0 < card (free s)" "2 \<le> log_space s"
  shows "\<exists>a t. bmap_slot ip r s = Inr (a, t) \<and> map_step 1 ip s t \<and> fs_ok pid t \<and> file_ok t ip \<and> a \<noteq> 0 \<and>
    lookup (view t) (addrs t ip) (r, []) = a"
proof (cases "addrs s ip r = 0")
  case False
  then show ?thesis using ok map_step_refl [of 1 ip s]
    by (intro exI [of _ "addrs s ip r"] exI [of _ s]) (simp add: bmap_slot_def Let_def addrs_def lookup_def)
next
  case True
  note w = fs_okD [OF ok(1)]
  obtain b where b: "b \<in> free s" "\<forall>c \<in> free s. b \<le> c" "b \<noteq> 0" "b \<notin> meta s" "b \<in> home_blocks s" "b < fsize s" "b \<notin> bitmap s" "b \<notin> data s"
    using first_free [OF w(4) sp(1)] by blast
  let ?n = "BBLOCK b (fs_sb s)"
  let ?v = "(view s)(?n := bit_mark (b mod BPB) (view s ?n), b := memset 0 0 BSIZE (view s b))"
  have tk: "tree_ok (view s) (addrs s ip) (data s)" and dev: "i_dev (icache s ip) = 1" using ok(2) by (simp_all add: file_ok_def)
  obtain t where t: "balloc 1 s = Inr (b, t)" "log_wf pid t" "held t = held s" "view t = ?v" "disk t = disk s" "log_step s t" "lg_n t \<le> lg_n s + 2"
    using balloc_ok [OF w(1,3,4) _ _ b(1,2)] w(2) sp(2) by auto
  note fm = free_mark [OF w(4) b(1) t(6,4)] and fs = log_fs_step [OF t(6)]
  let ?u = "upd_inode ip (\<lambda>x. x\<lparr>i_addrs := (i_addrs x)(r := b)\<rparr>) t"
  have ic: "icache t = icache s" using log_step_fs [OF t(6)] by simp
  have A: "addrs ?u ip = (addrs s ip)(r := b)" using ic by (simp add: addrs_def)
  have nm: "?n \<in> bitmap s" using b(6) by (simp add: bitmap_def)
  have td: "tree (view s) (addrs s ip) \<subseteq> data s" using tk by (simp add: tree_ok_def)
  have same: "?v c = view s c" if "c \<in> tree (view s) (addrs s ip)" for c
    using that td data_facts(8) [OF ok(1)] nm b(8) by auto
  have zb: "zero_block (?v b)" using zero_fresh [of "view s b"] by simp
  have pr: "pos_ok (r, [])" using r by (simp add: pos_ok_def)
  have l0: "lookup (view s) (addrs s ip) (r, []) = 0" using True by (simp add: lookup_def)
  have L: "lookup ?v ((addrs s ip)(r := b)) q = (if q = (r, []) then b else lookup (view s) (addrs s ip) q)" if "pos_ok q" for q
    by (rule grow_root [OF tk r True b(3) zb same that])
  have dt: "data t = insert b (data s)" by (rule data_grow [OF fs fm(1) b(1) w(4)])
  have bt: "b \<notin> tree (view s) (addrs s ip)" using td b(8) by blast
  note gt = grow_tree [OF tk pr l0 b(3) bt L, of "data t"]
  have gt': "tree ?v ((addrs s ip)(r := b)) = insert b (tree (view s) (addrs s ip))" "tree_ok ?v ((addrs s ip)(r := b)) (data t)"
    using gt dt by simp_all
  have "map_step 1 ip s ?u" unfolding map_step_def ext_step_def
  proof (intro conjI allI impI)
    have "fs_step t ?u" by (simp add: fs_step_def upd_inode_def)
    then show "fs_step s ?u" using fs by (blast intro: fs_step_trans)
    show "icache ?u = (icache s)(ip := (icache s ip)\<lparr>i_addrs := addrs ?u ip\<rparr>)" using ic A by (simp add: addrs_def)
    show "lookup (view ?u) (addrs ?u ip) p = lookup (view s) (addrs s ip) p"
      if "pos_ok p \<and> lookup (view s) (addrs s ip) p \<noteq> 0" for p using that L [of p] l0 A t(4) by auto
    show "content (view ?u) (addrs ?u ip) off = content (view s) (addrs s ip) off" if "off div BSIZE < MAXFILE" for off
      unfolding A upd_inode_obs t(4)
      by (rule grow_content [OF l0 b(3) zb L]) (use same tree_memI that in \<open>auto simp: leaf_def\<close>)
    show "view ?u n = view s n" if "n \<notin> bitmap s \<and> n \<notin> free s \<and> n \<notin> tree (view s) (addrs s ip)" for n
      using that nm b(1) t(4) by auto
    show "tree (view ?u) (addrs ?u ip) \<subseteq> tree (view s) (addrs s ip) \<union> free s" using gt'(1) A t(4) b(1) by auto
    show "free ?u \<subseteq> free s" using fm(1) by auto
    show "card (free s) \<le> card (free ?u) + 1" using fm(1) b(1) finite_free [of s] by simp
  qed (use t in simp_all)
  moreover have "fs_ok pid ?u"
    using t(2,3) w(2,3) fm(2) log_step_sel(8) [OF t(6)] by (simp add: fs_ok_def txn_def)
  moreover have "file_ok ?u ip" using gt'(2) A t(4) dev ic by (simp add: file_ok_def)
  moreover have "bmap_slot ip r s = Inr (b, ?u)" using True t(1) dev by (simp add: bmap_slot_def Let_def addrs_def)
  moreover have "lookup (view ?u) (addrs ?u ip) (r, []) = b" using A by (simp add: lookup_def)
  ultimately show ?thesis using b(3) by blast
qed

text \<open>An operation that only reads blocks.\<close>

lemma same_view_step:
  fixes s t :: "'a kfs_scheme"
  assumes ok: "fs_ok pid s" and t: "log_step s t" "view t = view s" "log_wf pid t" "held t = {}" "disk t = disk s" "lg_n t = lg_n s"
  shows "map_step 0 ip s t" "fs_ok pid t" "file_ok s jp \<Longrightarrow> file_ok t jp" "addrs t jp = addrs s jp" "free t = free s" "data t = data s"
proof -
  note f = log_step_fs [OF t(1)]
  show fr: "free t = free s" using f t(2) by (simp add: free_def)
  show d: "data t = data s" using f fr by (simp add: data_def)
  show A: "addrs t jp = addrs s jp" for jp using f by (simp add: addrs_def)
  show "map_step 0 ip s t" unfolding map_step_def ext_step_def
    using log_fs_step [OF t(1)] f(2) A [of ip] fr t by (simp add: addrs_def)
  show "fs_ok pid t" using ok t f fr log_step_sel [OF t(1)] by (simp add: fs_ok_def txn_def fs_wf_def)
  show "file_ok s jp \<Longrightarrow> file_ok t jp" using t(2) A d f(2) by (simp add: file_ok_def)
qed

lemma bmap_entry_mapped:
  fixes s :: "'a kfs_scheme"
  assumes ok: "fs_ok pid s" and a: "a \<in> data s" "ent (view s) a i \<noteq> 0"
  shows "\<exists>t. bmap_entry 1 a i s = Inr (ent (view s) a i, t) \<and> log_step s t \<and> view t = view s \<and> log_wf pid t \<and> held t = {} \<and>
    disk t = disk s \<and> lg_n t = lg_n s"
proof -
  note w = fs_okD [OF ok] and af = data_facts [OF ok a(1)]
  have "a \<notin> held s" using w(2) by simp
  then obtain bp t where t: "bread 1 a s = Inr (bp, t)" "b_data (bcache t bp) = view s a" "log_wf pid t" "holds a bp t" "a \<in> held t"
    "a \<in> dirty t \<or> view t a = disk t a" "view t = view s" "held t = insert a (held s)" "disk t = disk s" "bio_step s t"
    using log_read_ok [OF w(1) af(4) _ af(5) busy_idle [OF w(1,2)]] by blast
  obtain u where u: "brelse bp t = Inr u" "log_wf pid u" "view u = view t" "held u = held t - {a}" "disk u = disk t" "bio_step t u"
    using log_release_ok [OF t(3-6)] by blast
  have su: "bio_step s u" using t(10) u(6) by (rule bio_step_trans)
  have "bmap_entry 1 a i s = Inr (ent (view s) a i, u)" using t(1,2) u(1) a(2) by (simp add: bmap_entry_def Let_def addr_at_def ent_def)
  then show ?thesis using u t w(2) bio_log_step [OF su] bio_step_log(6) [OF su] by (intro exI [of _ u]) auto
qed

lemma bmap_entry_ok:
  fixes s :: "'a kfs_scheme"
  assumes ok: "fs_ok pid s" "file_ok s ip" and p: "pos_ok (r, is @ [i])" "lookup (view s) (addrs s ip) (r, is) = a" "a \<noteq> 0"
    and sp: "0 < card (free s)" "3 \<le> log_space s"
  shows "\<exists>a' t. bmap_entry 1 a i s = Inr (a', t) \<and> map_step 1 ip s t \<and> fs_ok pid t \<and> file_ok t ip \<and> a' \<noteq> 0 \<and>
    lookup (view t) (addrs t ip) (r, is @ [i]) = a'"
proof -
  note w = fs_okD [OF ok(1)]
  let ?A = "addrs s ip" and ?e = "ent (view s) a i"
  have tk: "tree_ok (view s) ?A (data s)" using ok(2) by (simp_all add: file_ok_def)
  have td: "tree (view s) ?A \<subseteq> data s" using tk by (simp add: tree_ok_def)
  have pp: "pos_ok (r, is)" using p(1) by (rule pos_ok_prefix)
  have ad: "a \<in> data s" using tree_memI [OF pp, of "view s" ?A] p(2,3) td by auto
  note af = data_facts [OF ok(1) ad]
  have i: "i < NINDIRECT" using p(1) by (simp add: pos_ok_def)
  have ll: "lookup (view s) ?A (r, is @ [i]) = ?e" using p(2,3) by (simp add: lookup_snoc)
  have "a \<notin> held s" using w(2) by simp
  then obtain bp t where t: "bread 1 a s = Inr (bp, t)" "b_data (bcache t bp) = view s a" "log_wf pid t" "holds a bp t" "a \<in> held t"
    "a \<in> dirty t \<or> view t a = disk t a" "view t = view s" "held t = insert a (held s)" "dirty t = dirty s"
    "disk t = disk s" "bio_step s t"
    using log_read_ok [OF w(1) af(4) _ af(5) busy_idle [OF w(1,2)]] by blast
  have e: "addr_at bp i t = ?e" using t(2) by (simp add: addr_at_def ent_def)
  note lt = bio_step_log [OF t(11)] and st = bio_log_step [OF t(11)]
  note ft = log_step_fs [OF st]
  show ?thesis
  proof (cases "?e = 0")
    case False
    then obtain u where u: "bmap_entry 1 a i s = Inr (?e, u)" "log_step s u" "view u = view s" "log_wf pid u" "held u = {}"
        "disk u = disk s" "lg_n u = lg_n s" using bmap_entry_mapped [OF ok(1) ad] by blast
    note sv = same_view_step [OF ok(1) u(2-7)]
    show ?thesis using u(1) map_step_mono [OF sv(1) [of ip], of 1] sv(2) sv(3) [OF ok(2)] sv(4) [of ip] ll u(3) False by simp
  next
    case True
    have fwt: "fs_wf t" using w(4) ft t(7) log_step_sel(1) [OF st] by (simp add: fs_wf_def free_def)
    have frt: "free t = free s" using ft t(7) by (simp add: free_def)
    obtain b where b: "b \<in> free s" "\<forall>c \<in> free s. b \<le> c" "b \<noteq> 0" "b \<notin> meta s" "b \<in> home_blocks s" "b < fsize s" "b \<notin> bitmap s" "b \<notin> data s"
      using first_free [OF w(4) sp(1)] by blast
    have ab: "a \<noteq> b" using ad b(8) by auto
    let ?n = "BBLOCK b (fs_sb s)"
    have nm: "?n \<in> bitmap s" using b(6) by (simp add: bitmap_def)
    have an: "a \<noteq> ?n" using af(8) nm by auto
    let ?v = "(view s)(?n := bit_mark (b mod BPB) (view s ?n), b := memset 0 0 BSIZE (view s b))"
    have "1 \<le> lg_outstanding t" "held t \<inter> meta t = {}" "b \<notin> held t" "b \<in> free t" "\<forall>c \<in> free t. b \<le> c" "int (card (held t)) + 2 \<le> log_space t"
      using w(2,3) lt t(8) af(2) ft ab b(1,2) frt sp(2) by (auto simp: log_space_def)
    then obtain u where u: "balloc 1 t = Inr (b, u)" "log_wf pid u" "held u = held t" "view u = ?v" "disk u = disk t"
        "log_step t u" "lg_n u \<le> lg_n t + 2" "\<forall>n c. holds n c t \<and> n \<in> held t \<longrightarrow> holds n c u"
      using balloc_ok [OF t(3) _ fwt, of b] ft(1) t(7) by auto
    note fu = free_mark [OF fwt _ u(6), of b "memset 0 0 BSIZE (view s b)"]
    have fru: "free u = free s - {b}" "fs_wf u" using fu frt b(1) u(4) ft(1) t(7) by auto
    have hu: "holds a bp u" "a \<in> held u" using u(8,3) t(4,5) by auto
    have su: "log_step s u" using st u(6) by (rule log_step_trans)
    have du: "b_data (bcache u bp) = view s a"
      using view_cached [OF bio_wfD(2) [OF log_wfD(1) [OF u(2)]] hu(1)] u(4) ab an by simp
    have "a \<notin> log_area u" "1 \<le> lg_outstanding u" "0 < log_space u"
      using log_step_sel [OF su] af(6) w(3) u(7) lt(6) sp(2) by (simp_all add: log_space_def)
    then obtain x z where z: "log_write bp (set_data bp (wr32 (4 * i) (word_of_nat b) (view s a)) u) = Inr x" "brelse bp x = Inr z"
        "log_wf pid z" "view z = (view u)(a := wr32 (4 * i) (word_of_nat b) (view s a))" "held z = held u - {a}"
        "disk z = disk u" "log_step u z" "lg_n z = (if a \<in> dirty u then lg_n u else lg_n u + 1)"
      using write_back_ok [OF u(2) hu] by blast
    have sz: "log_step s z" using su z(7) by (rule log_step_trans)
    note fz = log_step_fs [OF sz] and fsz = log_fs_step [OF sz]
    have call: "bmap_entry 1 a i s = Inr (b, z)"
      using t(1) e True u(1) du z(1,2) by (simp add: bmap_entry_def Let_def)
    have Az: "addrs z ip = ?A" using fz(2) by (simp add: addrs_def)
    have vz: "view z = ?v(a := wr32 (4 * i) (word_of_nat b) (view s a))" using z(4) u(4) by simp
    have b32: "b < 2 ^ 32" using b(5) log_wfD(11) [OF w(1)] by (simp add: home_blocks_def)
    have ez: "ent (view z) a j = (if j = i then b else ent (view s) a j)" if "j < NINDIRECT" for j
    proof (cases "j = i")
      case True
      then show ?thesis using vz b32 by (simp add: ent_def unat_of_nat take_bit_nat_eq_self)
    next
      case False
      then have "4 * j + 4 \<le> 4 * i \<or> 4 * i + 4 \<le> 4 * j" by linarith
      then show ?thesis using vz False by (simp add: ent_def rd32_wr32_other)
    qed
    have same: "view z c = view s c" if "c \<in> tree (view s) ?A" "c \<noteq> a" for c
      using that td data_facts(8) [OF ok(1)] nm b(8) vz by auto
    have zb: "zero_block (view z b)" using zero_fresh [of "view s b"] vz ab by simp
    have L: "lookup (view z) ?A q = (if q = (r, is @ [i]) then b else lookup (view s) ?A q)" if "pos_ok q" for q
      by (rule grow_entry [OF tk p True b(3) zb same ez that])
    have l0: "lookup (view s) ?A (r, is @ [i]) = 0" using ll True by simp
    have frz: "free z = free s - {b}"
    proof -
      have "view z (BBLOCK c (fs_sb s)) = view u (BBLOCK c (fs_sb s))" if "c < fsize s" for c
        using z(4) af(8) that by (auto simp: bitmap_def)
      then have "free z = free u" using fz(1,3) log_step_fs(1,3) [OF su] by (auto simp: free_def)
      then show ?thesis using fru(1) by simp
    qed
    have dz: "data z = insert b (data s)" by (rule data_grow [OF fsz frz b(1) w(4)])
    have bt: "b \<notin> tree (view s) ?A" using td b(8) by blast
    have gt: "tree (view z) ?A = insert b (tree (view s) ?A)" "tree_ok (view z) ?A (data z)"
      using grow_tree [OF tk p(1) l0 b(3) bt L, of "data z"] dz by simp_all
    have leaves: "view z (lookup (view s) ?A q) = view s (lookup (view s) ?A q)" if "leaf q" "lookup (view s) ?A q \<noteq> 0" for q
    proof (rule same)
      show "lookup (view s) ?A q \<in> tree (view s) ?A" using that by (intro tree_memI) (simp_all add: leaf_def)
      show "lookup (view s) ?A q \<noteq> a"
      proof
        assume "lookup (view s) ?A q = a"
        then have "q = (r, is)" using tree_injD [OF tk _ pp that(2)] that(1) p(2) by (simp add: leaf_def)
        then show False using that(1) p(1) by (auto simp: leaf_def pos_ok_def)
      qed
    qed
    have "map_step 1 ip s z" unfolding map_step_def ext_step_def
    proof (intro conjI allI impI)
      show "icache z = (icache s)(ip := (icache s ip)\<lparr>i_addrs := addrs z ip\<rparr>)" using fz(2) by (simp add: addrs_def)
      show "lookup (view z) (addrs z ip) q = lookup (view s) ?A q"
        if "pos_ok q \<and> lookup (view s) ?A q \<noteq> 0" for q using that L [of q] l0 Az by auto
      show "content (view z) (addrs z ip) off = content (view s) ?A off" if "off div BSIZE < MAXFILE" for off
        unfolding Az by (rule grow_content [OF l0 b(3) zb L leaves that])
      show "view z n = view s n" if "n \<notin> bitmap s \<and> n \<notin> free s \<and> n \<notin> tree (view s) ?A" for n
      proof -
        have "a \<in> tree (view s) ?A" using tree_memI [OF pp, of "view s" ?A] p(2,3) by simp
        then show ?thesis using that nm b(1) vz by auto
      qed
      show "tree (view z) (addrs z ip) \<subseteq> tree (view s) ?A \<union> free s" using gt(1) Az b(1) by auto
      show "free z \<subseteq> free s" using frz by auto
      show "card (free s) \<le> card (free z) + 1" using frz b(1) finite_free [of s] by simp
      show "lg_n z \<le> lg_n s + 3 * int 1 + int 0" using z(8) u(7) lt(6) by auto
      show "disk z = disk s" using z(6) u(5) t(10) by simp
    qed (use fsz in simp)
    moreover have "fs_ok pid z"
      using z(3,5) u(3) t(8) w(2,3,4) log_step_sel(1,8) [OF sz] fz frz by (auto simp: fs_ok_def txn_def fs_wf_def)
    moreover have "file_ok z ip" using gt(2) Az ok(2) fz(2) by (simp add: file_ok_def)
    moreover have "lookup (view z) (addrs z ip) (r, is @ [i]) = b" using L [OF p(1)] Az by simp
    ultimately show ?thesis using call b(3) by blast
  qed
qed

lemma bmap_walk_ok:
  fixes s :: "'a kfs_scheme"
  assumes "fs_ok pid s" "file_ok s ip" "pos_ok (r, js @ is)" "lookup (view s) (addrs s ip) (r, js) = a" "a \<noteq> 0"
    and "length is \<le> card (free s)" "3 * int (length is) \<le> log_space s"
  shows "\<exists>a' t. bmap_walk 1 a is s = Inr (a', t) \<and> map_step (length is) ip s t \<and> fs_ok pid t \<and> file_ok t ip \<and> a' \<noteq> 0 \<and>
    lookup (view t) (addrs t ip) (r, js @ is) = a'"
  using assms
proof (induction "is" arbitrary: js a s)
  case Nil
  then show ?case using map_step_refl [of 0 ip s] by simp
next
  case (Cons i "is")
  have pi: "pos_ok (r, js @ [i])" using Cons.prems(3) by (auto simp: pos_ok_def)
  have "0 < card (free s)" "3 \<le> log_space s" using Cons.prems(6,7) by auto
  then obtain b t where t: "bmap_entry 1 a i s = Inr (b, t)" "map_step 1 ip s t" "fs_ok pid t" "file_ok t ip" "b \<noteq> 0"
      "lookup (view t) (addrs t ip) (r, js @ [i]) = b"
    using bmap_entry_ok [OF Cons.prems(1,2) pi Cons.prems(4,5)] by blast
  have sz: "lg_size t = lg_size s" using fs_step_sel(7) [OF ext_stepD(1) [OF map_stepD(1) [OF t(2)]]] .
  have "\<exists>c u. bmap_walk 1 b is t = Inr (c, u) \<and> map_step (length is) ip t u \<and> fs_ok pid u \<and> file_ok u ip \<and> c \<noteq> 0 \<and>
    lookup (view u) (addrs u ip) (r, (js @ [i]) @ is) = c"
    by (rule Cons.IH [OF t(3,4) _ t(6,5)])
      (use Cons.prems(3,6,7) ext_stepD(7,8) [OF map_stepD(1) [OF t(2)]] sz in \<open>auto simp: log_space_def\<close>)
  then obtain c u where u: "bmap_walk 1 b is t = Inr (c, u)" "map_step (length is) ip t u" "fs_ok pid u" "file_ok u ip" "c \<noteq> 0"
    "lookup (view u) (addrs u ip) (r, js @ i # is) = c" by auto
  have "map_step (length (i # is)) ip s u" using map_step_trans [OF t(2) u(2)] by simp
  then show ?case using t(1) u by (intro exI [of _ c] exI [of _ u]) simp
qed

lemma bmap_ok:
  fixes s :: "'a kfs_scheme"
  assumes ok: "fs_ok pid s" "file_ok s ip" and bn: "bn < MAXFILE" and sp: "4 \<le> card (free s)" "12 \<le> log_space s"
  shows "\<exists>a t. bmap ip bn s = Inr (a, t) \<and> map_step 4 ip s t \<and> fs_ok pid t \<and> file_ok t ip \<and> a \<noteq> 0 \<and>
    lookup (view t) (addrs t ip) (bpath bn) = a"
proof -
  obtain r "is" where p: "bpath bn = (r, is)" by (cases "bpath bn")
  have lf: "leaf (r, is)" using bpath_leaf [OF bn] p by simp
  have r: "r < NDIRECT + 3" "length is \<le> 3" using lf by (auto simp: leaf_def pos_ok_def)
  have dev: "i_dev (icache s ip) = 1" using ok(2) by (simp add: file_ok_def)
  obtain a t where t: "bmap_slot ip r s = Inr (a, t)" "map_step 1 ip s t" "fs_ok pid t" "file_ok t ip" "a \<noteq> 0"
      "lookup (view t) (addrs t ip) (r, []) = a"
    using bmap_slot_ok [OF ok r(1)] sp by auto
  have sz: "lg_size t = lg_size s" using fs_step_sel(7) [OF ext_stepD(1) [OF map_stepD(1) [OF t(2)]]] .
  have "pos_ok (r, [] @ is)" using lf by (simp add: leaf_def)
  moreover have "length is \<le> card (free t)" "3 * int (length is) \<le> log_space t"
    using r(2) sp ext_stepD(7,8) [OF map_stepD(1) [OF t(2)]] sz by (auto simp: log_space_def)
  ultimately obtain c u where u: "bmap_walk 1 a is t = Inr (c, u)" "map_step (length is) ip t u" "fs_ok pid u" "file_ok u ip" "c \<noteq> 0"
     "lookup (view u) (addrs u ip) (r, is) = c"
    using bmap_walk_ok [OF t(3,4) _ t(6,5)] by fastforce
  have "map_step 4 ip s u" using map_step_mono [OF map_step_trans [OF t(2) u(2)], of 4] r(2) by simp
  moreover have "bmap ip bn s = Inr (c, u)" using bmap_eq [OF bn, of ip s] p t(1) u(1) dev by simp
  ultimately show ?thesis using u p by auto
qed

text \<open>A block that is mapped already is found without a change.\<close>

lemma bmap_walk_mapped:
  fixes s :: "'a kfs_scheme"
  assumes "fs_ok pid s" "file_ok s ip" "pos_ok (r, js @ is)" "lookup (view s) (addrs s ip) (r, js @ is) \<noteq> 0"
  shows "\<exists>t. bmap_walk 1 (lookup (view s) (addrs s ip) (r, js)) is s = Inr (lookup (view s) (addrs s ip) (r, js @ is), t) \<and>
    log_step s t \<and> view t = view s \<and> log_wf pid t \<and> held t = {} \<and> disk t = disk s \<and> lg_n t = lg_n s"
  using assms
proof (induction "is" arbitrary: js s)
  case Nil
  then show ?case using fs_okD [OF Nil(1)] by auto
next
  case (Cons i "is")
  let ?A = "addrs s ip" and ?a = "lookup (view s) (addrs s ip) (r, js)"
  have nz: "lookup (view s) ?A (r, js @ [i]) \<noteq> 0"
  proof
    assume "lookup (view s) ?A (r, js @ [i]) = 0"
    moreover have "lookup (view s) ?A (r, (js @ [i]) @ ks) = walk (view s) (lookup (view s) ?A (r, js @ [i])) ks" for ks
      by (induction ks rule: rev_induct) (simp_all add: lookup_snoc walk_snoc flip: append_assoc)
    ultimately show False using Cons.prems(4) by (metis append_Cons append_assoc self_append_conv2 walk_zero)
  qed
  then have a: "?a \<noteq> 0" "lookup (view s) ?A (r, js @ [i]) = ent (view s) ?a i" by (auto simp: lookup_snoc split: if_splits)
  have pj: "pos_ok (r, js)" using Cons.prems(3) by (auto simp: pos_ok_def)
  have ad: "?a \<in> data s" using tree_memI [OF pj a(1)] Cons.prems(2) by (auto simp: file_ok_def tree_ok_def)
  obtain t where t: "bmap_entry 1 ?a i s = Inr (ent (view s) ?a i, t)" "log_step s t" "view t = view s" "log_wf pid t" "held t = {}"
      "disk t = disk s" "lg_n t = lg_n s"
    using bmap_entry_mapped [OF Cons.prems(1) ad] nz a(2) by auto
  note sv = same_view_step [OF Cons.prems(1) t(2-7)]
  have "\<exists>u. bmap_walk 1 (lookup (view t) (addrs t ip) (r, js @ [i])) is t = Inr (lookup (view t) (addrs t ip) (r, (js @ [i]) @ is), u) \<and>
    log_step t u \<and> view u = view t \<and> log_wf pid u \<and> held u = {} \<and> disk u = disk t \<and> lg_n u = lg_n t"
    by (rule Cons.IH) (use sv(2,3,4) Cons.prems(2,3,4) t(3) in auto)
  then obtain u where u: "bmap_walk 1 (ent (view s) ?a i) is t = Inr (lookup (view s) ?A (r, js @ i # is), u)" "log_step t u" "view u = view t"
      "log_wf pid u" "held u = {}" "disk u = disk t" "lg_n u = lg_n t"
    using sv(4) [of ip] t(3) a(2) by auto
  have "log_step s u" using t(2) u(2) by (rule log_step_trans)
  then show ?case using t u by (intro exI [of _ u]) simp
qed

lemma bmap_mapped:
  fixes s :: "'a kfs_scheme"
  assumes ok: "fs_ok pid s" "file_ok s ip" and bn: "bn < MAXFILE" and m: "lookup (view s) (addrs s ip) (bpath bn) \<noteq> 0"
  shows "\<exists>t. bmap ip bn s = Inr (lookup (view s) (addrs s ip) (bpath bn), t) \<and>
    log_step s t \<and> view t = view s \<and> log_wf pid t \<and> held t = {} \<and> disk t = disk s \<and> lg_n t = lg_n s"
proof -
  obtain r "is" where p: "bpath bn = (r, is)" by (cases "bpath bn")
  have po: "pos_ok (r, [] @ is)" using bpath_leaf [OF bn] p by (simp add: leaf_def)
  have dev: "i_dev (icache s ip) = 1" using ok(2) by (simp add: file_ok_def)
  have "addrs s ip r \<noteq> 0" using m p by (metis fst_conv lookup_def walk_zero)
  then have "bmap_slot ip r s = Inr (lookup (view s) (addrs s ip) (r, []), s)" by (simp add: bmap_slot_def addrs_def lookup_def)
  then show ?thesis using bmap_walk_mapped [OF ok po] m p bmap_eq [OF bn, of ip s] dev by simp
qed

text \<open>Other files: their blocks are data blocks outside this file's tree.\<close>

definition apart :: "'a kfs_scheme \<Rightarrow> nat \<Rightarrow> (nat \<Rightarrow> nat) \<Rightarrow> bool" where
  "apart s ip B \<longleftrightarrow> tree_ok (view s) B (data s) \<and> tree (view s) B \<inter> tree (view s) (addrs s ip) = {}"

lemma ext_step_apart:
  fixes s t :: "'a kfs_scheme"
  assumes st: "ext_step k c ip s t" and ok: "fs_ok pid s" and B: "apart s ip B"
  shows "apart t ip B" "pos_ok p \<Longrightarrow> lookup (view t) B p = lookup (view s) B p"
    "off div BSIZE < MAXFILE \<Longrightarrow> content (view t) B off = content (view s) B off"
proof -
  note m = ext_stepD [OF st]
  have td: "tree (view s) B \<subseteq> data s" "tree (view s) B \<inter> tree (view s) (addrs s ip) = {}"
    using B by (auto simp: apart_def tree_ok_def)
  have same: "view t a = view s a" if "a \<in> tree (view s) B" for a
    by (rule m(4)) (use that td data_facts(7,8) [OF ok] in auto)
  note tf = tree_frame [of "view s" B "view t", OF same]
  have "data s \<subseteq> data t" using m(6) fs_step_sel(12-14) [OF m(1)] by (auto simp: data_def)
  then have "tree_ok (view t) B (data t)" using B tf(2) by (auto simp: apart_def tree_ok_def)
  moreover have "tree (view t) B \<inter> tree (view t) (addrs t ip) = {}"
  proof -
    have "x \<notin> tree (view t) (addrs t ip)" if x: "x \<in> tree (view t) B" for x
    proof
      assume "x \<in> tree (view t) (addrs t ip)"
      then have "x \<in> tree (view s) (addrs s ip) \<or> x \<in> free s" using m(5) by auto
      moreover have "x \<in> tree (view s) B" using x tf(1) by simp
      ultimately show False using td by (auto simp: data_def)
    qed
    then show ?thesis by auto
  qed
  ultimately show "apart t ip B" by (simp add: apart_def)
  show l: "lookup (view t) B p = lookup (view s) B p" if "pos_ok p" for p using same that by (rule lookup_frame)
  show "content (view t) B off = content (view s) B off" if "off div BSIZE < MAXFILE"
  proof -
    have q: "pos_ok (bpath (off div BSIZE))" using bpath_leaf [OF that] by (simp add: leaf_def)
    then show ?thesis using l [OF q] same [OF tree_memI [OF q]] by (simp add: content_def Let_def)
  qed
qed

end
