(* ===== verification/FsData.thy ===== *)
theory FsData
  imports FsMap
begin

text \<open>
  Reading and writing of files. The contents of a file are a function from offsets to bytes;
  \<open>readi\<close> returns a segment of it, \<open>writei\<close> replaces a segment, and neither touches another file.
\<close>

section \<open>Writing a data block\<close>

lemma lookup_frame_leaf:
  assumes "\<And>q. pos_ok q \<Longrightarrow> \<not> leaf q \<Longrightarrow> lookup v A q \<noteq> 0 \<Longrightarrow> v' (lookup v A q) = v (lookup v A q)" "pos_ok p"
  shows "lookup v' A p = lookup v A p"
proof -
  have "pos_ok (r, is) \<Longrightarrow> lookup v' A (r, is) = lookup v A (r, is)" for r "is"
  proof (induction "is" rule: rev_induct)
    case (snoc i "is")
    have p: "pos_ok (r, is)" "\<not> leaf (r, is)" using snoc.prems by (auto simp: pos_ok_def leaf_def)
    have IH: "lookup v' A (r, is) = lookup v A (r, is)" using snoc.IH [OF p(1)] .
    show ?case using IH assms(1) [OF p] by (auto simp: lookup_snoc ent_def)
  qed (simp add: lookup_def)
  then show ?thesis using assms(2) by (cases p) simp
qed

lemma leaf_write:
  assumes ok: "tree_ok v A D" and p: "leaf p" "lookup v A p = a" "a \<noteq> 0"
  shows "pos_ok q \<Longrightarrow> lookup (v(a := d)) A q = lookup v A q" "tree (v(a := d)) A = tree v A" "tree_ok (v(a := d)) A D'  = tree_ok v A D'"
proof -
  have pp: "pos_ok p" using p(1) by (simp add: leaf_def)
  have "lookup v A q \<noteq> a" if "pos_ok q" "\<not> leaf q" "lookup v A q \<noteq> 0" for q
    using tree_injD [OF ok that(1) pp that(3)] p(1,2) that(2) by auto
  then show l: "lookup (v(a := d)) A q = lookup v A q" if "pos_ok q" for q
    by (intro lookup_frame_leaf that) simp
  then show t: "tree (v(a := d)) A = tree v A" by (auto simp: tree_def)
  have "{p. pos_ok p \<and> lookup (v(a := d)) A p \<noteq> 0} = {p. pos_ok p \<and> lookup v A p \<noteq> 0}" using l by auto
  then show "tree_ok (v(a := d)) A D' = tree_ok v A D'"
    using t inj_on_cong [of "{p. pos_ok p \<and> lookup v A p \<noteq> 0}" "lookup (v(a := d)) A" "lookup v A"] l by (simp add: tree_ok_def)
qed

lemma leaf_write_content:
  assumes ok: "tree_ok v A D" and bn: "bn < MAXFILE" "lookup v A (bpath bn) = a" "a \<noteq> 0" and off: "off div BSIZE < MAXFILE"
  shows "content (v(a := d)) A off = (if off div BSIZE = bn then d (off mod BSIZE) else content v A off)"
proof -
  let ?q = "bpath (off div BSIZE)"
  have q: "pos_ok ?q" "leaf ?q" using bpath_leaf [OF off] by (simp_all add: leaf_def)
  have l: "lookup (v(a := d)) A ?q = lookup v A ?q" by (rule leaf_write(1) [OF ok bpath_leaf [OF bn(1)] bn(2,3) q(1)])
  show ?thesis
  proof (cases "off div BSIZE = bn")
    case True
    then show ?thesis using l bn(2,3) by (simp add: content_def)
  next
    case False
    have "lookup v A ?q \<noteq> a \<or> lookup v A ?q = 0"
    proof (rule disjCI)
      assume nz: "lookup v A ?q \<noteq> 0"
      show "lookup v A ?q \<noteq> a"
      proof
        assume "lookup v A ?q = a"
        then have "?q = bpath bn" using tree_injD [OF ok q(1) _ nz] bpath_leaf [OF bn(1)] bn(2) by (simp add: leaf_def)
        then show False using bpath_inj False by blast
      qed
    qed
    then show ?thesis using l False by (auto simp: content_def Let_def)
  qed
qed

lemma write_data_ok:
  fixes s :: "'a kfs_scheme"
  assumes ok: "fs_ok pid s" "file_ok s ip" and bn: "bn < MAXFILE" "lookup (view s) (addrs s ip) (bpath bn) = a" "a \<noteq> 0"
    and sp: "1 \<le> log_space s"
  shows "\<exists>bp t u v. bread 1 a s = Inr (bp, t) \<and> b_data (bcache t bp) = view s a \<and>
    log_write bp (set_data bp d t) = Inr u \<and> brelse bp u = Inr v \<and> view v = (view s)(a := d) \<and>
    ext_step 0 1 ip s v \<and> fs_ok pid v \<and> file_ok v ip \<and> addrs v = addrs s"
proof -
  note w = fs_okD [OF ok(1)]
  let ?A = "addrs s ip"
  have tk: "tree_ok (view s) ?A (data s)" using ok(2) by (simp add: file_ok_def)
  have lf: "leaf (bpath bn)" using bn(1) by (rule bpath_leaf)
  have at: "a \<in> tree (view s) ?A" using tree_memI [of "bpath bn" "view s" ?A] lf bn(2,3) by (simp add: leaf_def)
  then have ad: "a \<in> data s" using tk by (auto simp: tree_ok_def)
  note af = data_facts [OF ok(1) ad]
  have "a \<notin> held s" using w(2) by simp
  then obtain bp t where t: "bread 1 a s = Inr (bp, t)" "b_data (bcache t bp) = view s a" "log_wf pid t" "holds a bp t" "a \<in> held t"
    "view t = view s" "held t = insert a (held s)" "dirty t = dirty s" "disk t = disk s" "bio_step s t"
    using log_read_ok [OF w(1) af(4) _ af(5) busy_idle [OF w(1,2)]] by blast
  note lt = bio_step_log [OF t(10)]
  have "a \<notin> log_area t" "1 \<le> lg_outstanding t" "0 < log_space t"
    using log_step_sel(11) [OF bio_log_step [OF t(10)]] af(6) w(3) lt sp by (simp_all add: log_space_def)
  then obtain u v where v: "log_write bp (set_data bp d t) = Inr u" "brelse bp u = Inr v" "log_wf pid v" "view v = (view t)(a := d)"
      "held v = held t - {a}" "disk v = disk t" "log_step t v" "lg_n v = (if a \<in> dirty t then lg_n t else lg_n t + 1)"
    using write_back_ok [OF t(3-5)] by blast
  have sv: "log_step s v" using bio_log_step [OF t(10)] v(7) by (rule log_step_trans)
  note fv = log_step_fs [OF sv]
  have vv: "view v = (view s)(a := d)" using v(4) t(6) by simp
  have A: "addrs v = addrs s" using fv(2) by (simp add: addrs_def fun_eq_iff)
  have fr: "free v = free s"
  proof -
    have "view v (BBLOCK c (fs_sb s)) = view s (BBLOCK c (fs_sb s))" if "c < fsize s" for c
      using vv af(8) that by (auto simp: bitmap_def)
    then show ?thesis using fv(1,3) by (auto simp: free_def)
  qed
  have dv: "data v = data s" using fv fr by (simp add: data_def)
  note lw = leaf_write [OF tk lf bn(2,3), where d = d]
  have "ext_step 0 1 ip s v" unfolding ext_step_def
  proof (intro conjI allI impI)
    show "icache v = (icache s)(ip := (icache s ip)\<lparr>i_addrs := addrs v ip\<rparr>)" using fv(2) A by (simp add: addrs_def)
    show "lookup (view v) (addrs v ip) p = lookup (view s) ?A p" if "pos_ok p \<and> lookup (view s) ?A p \<noteq> 0" for p
      using that lw(1) A vv by simp
    show "view v n = view s n" if "n \<notin> bitmap s \<and> n \<notin> free s \<and> n \<notin> tree (view s) ?A" for n using that at vv by auto
    show "tree (view v) (addrs v ip) \<subseteq> tree (view s) ?A \<union> free s" using lw(2) A vv by auto
    show "lg_n v \<le> lg_n s + 3 * int 0 + int 1" using v(8) lt(6) by simp
    show "disk v = disk s" using v(6) t(9) by simp
  qed (use log_fs_step [OF sv] fr in simp_all)
  moreover have "fs_ok pid v" using ok(1) v(3,5) t(7) w(2,3) log_step_sel(1,8) [OF sv] fv fr by (auto simp: fs_ok_def txn_def fs_wf_def)
  moreover have "file_ok v ip" using ok(2) lw(3) A vv dv fv(2) by (simp add: file_ok_def)
  ultimately show ?thesis using t(1,2) v(1,2) vv A by blast
qed

section \<open>The loops\<close>

lemma chunk_block:
  assumes "i < chunk off n"
  shows "(off + i) div BSIZE = off div BSIZE" "(off + i) mod BSIZE = off mod BSIZE + i" "off mod BSIZE + i < BSIZE"
proof -
  have B: "0 < BSIZE" by (simp add: params)
  show l: "off mod BSIZE + i < BSIZE" using assms B by (auto simp: chunk_def)
  have e: "off + i = off div BSIZE * BSIZE + (off mod BSIZE + i)" by simp
  have g: "(q * BSIZE + x) div BSIZE = q" "(q * BSIZE + x) mod BSIZE = x" if "x < BSIZE" for q x using that B by simp_all
  show "(off + i) div BSIZE = off div BSIZE" using g(1) [OF l, of "off div BSIZE"] by (simp only: e [symmetric])
  show "(off + i) mod BSIZE = off mod BSIZE + i" using g(2) [OF l, of "off div BSIZE"] by (simp only: e [symmetric])
qed

text \<open>All blocks of the range are mapped.\<close>

definition mapped :: "'a kfs_scheme \<Rightarrow> nat \<Rightarrow> nat \<Rightarrow> nat \<Rightarrow> bool" where
  "mapped s ip off n \<longleftrightarrow> (\<forall>i < n. lookup (view s) (addrs s ip) (bpath ((off + i) div BSIZE)) \<noteq> 0)"

lemma read_data_ok:
  fixes s :: "'a kfs_scheme"
  assumes ok: "fs_ok pid s" and a: "a \<in> data s"
  shows "\<exists>bp t u. bread 1 a s = Inr (bp, t) \<and> b_data (bcache t bp) = view s a \<and> brelse bp t = Inr u \<and>
    log_step s u \<and> view u = view s \<and> log_wf pid u \<and> held u = {} \<and> disk u = disk s \<and> lg_n u = lg_n s"
proof -
  note w = fs_okD [OF ok] and af = data_facts [OF ok a]
  have "a \<notin> held s" using w(2) by simp
  then obtain bp t where t: "bread 1 a s = Inr (bp, t)" "b_data (bcache t bp) = view s a" "log_wf pid t" "holds a bp t" "a \<in> held t"
    "a \<in> dirty t \<or> view t a = disk t a" "view t = view s" "held t = insert a (held s)" "disk t = disk s" "bio_step s t"
    using log_read_ok [OF w(1) af(4) _ af(5) busy_idle [OF w(1,2)]] by blast
  obtain u where u: "brelse bp t = Inr u" "log_wf pid u" "view u = view t" "held u = held t - {a}" "disk u = disk t" "bio_step t u"
    using log_release_ok [OF t(3-6)] by blast
  have su: "bio_step s u" using t(10) u(6) by (rule bio_step_trans)
  then show ?thesis using u t w(2) bio_log_step [OF su] bio_step_log(6) [OF su] by (intro exI [of _ bp] exI [of _ t] exI [of _ u]) auto
qed

lemma readi_loop_ok:
  fixes s :: "'a kfs_scheme"
  assumes "fs_ok pid s" "file_ok s ip" "off + n \<le> MAXFILE * BSIZE" "mapped s ip off n"
  shows "\<exists>t. readi_loop ip off n s = Inr (map (\<lambda>i. content (view s) (addrs s ip) (off + i)) [0..<n], t) \<and>
    log_step s t \<and> view t = view s \<and> log_wf pid t \<and> held t = {} \<and> disk t = disk s \<and> lg_n t = lg_n s"
  using assms
proof (induction n arbitrary: off s rule: less_induct)
  case (less n)
  show ?case
  proof (cases "n = 0")
    case True
    then show ?thesis using fs_okD [OF less.prems(1)] by (subst readi_loop.simps) auto
  next
    case False
    let ?A = "addrs s ip" and ?bn = "off div BSIZE" and ?m = "chunk off n"
    let ?a = "lookup (view s) ?A (bpath ?bn)"
    have m: "0 < ?m" "?m \<le> n" using False by (simp_all add: chunk_def params)
    have bn: "?bn < MAXFILE" using less.prems(3) False by (simp add: less_mult_imp_div_less)
    have a: "?a \<noteq> 0" using less.prems(4) False by (auto simp: mapped_def dest: spec [of _ 0])
    obtain t where t: "bmap ip ?bn s = Inr (?a, t)" "log_step s t" "view t = view s" "log_wf pid t" "held t = {}" "disk t = disk s" "lg_n t = lg_n s"
      using bmap_mapped [OF less.prems(1,2) bn a] by blast
    note st = same_view_step [OF less.prems(1) t(2-7)]
    have "?a \<in> data t" using tree_memI [of "bpath ?bn" "view s" ?A] bpath_leaf [OF bn] a less.prems(2) st(6)
      by (auto simp: file_ok_def tree_ok_def leaf_def)
    then obtain bp u v where v: "bread 1 ?a t = Inr (bp, u)" "b_data (bcache u bp) = view s ?a" "brelse bp u = Inr v"
        "log_step t v" "view v = view t" "log_wf pid v" "held v = {}" "disk v = disk t" "lg_n v = lg_n t"
      using read_data_ok [OF st(2)] t(3) by metis
    note sv = same_view_step [OF st(2) v(4-9)]
    have dev: "i_dev (icache t ip) = 1" using st(3) [OF less.prems(2)] by (simp add: file_ok_def)
    have Av: "addrs v ip = ?A" using sv(4) st(4) by simp
    have "\<exists>x. readi_loop ip (off + ?m) (n - ?m) v = Inr (map (\<lambda>i. content (view v) (addrs v ip) (off + ?m + i)) [0..<n - ?m], x) \<and>
      log_step v x \<and> view x = view v \<and> log_wf pid x \<and> held x = {} \<and> disk x = disk v \<and> lg_n x = lg_n v"
    proof (rule less.IH)
      show "n - ?m < n" using m by simp
      show "fs_ok pid v" "file_ok v ip" using sv(2) sv(3) [OF st(3) [OF less.prems(2)]] by simp_all
      show "off + ?m + (n - ?m) \<le> MAXFILE * BSIZE" using less.prems(3) m by simp
      show "mapped v ip (off + ?m) (n - ?m)" unfolding mapped_def
      proof (intro allI impI)
        fix i assume "i < n - ?m"
        then show "lookup (view v) (addrs v ip) (bpath ((off + ?m + i) div BSIZE)) \<noteq> 0"
          using less.prems(4) Av v(5) t(3) by (auto simp: mapped_def add.assoc)
      qed
    qed
    then obtain x where x: "readi_loop ip (off + ?m) (n - ?m) v = Inr (map (\<lambda>i. content (view s) ?A (off + ?m + i)) [0..<n - ?m], x)"
      "log_step v x" "view x = view v" "log_wf pid x" "held x = {}" "disk x = disk v" "lg_n x = lg_n v" using Av v(5) t(3) by auto
    have "map (\<lambda>i. view s ?a (off mod BSIZE + i)) [0..<?m] = map (\<lambda>i. content (view s) ?A (off + i)) [0..<?m]"
      using chunk_block [of _ off n] a by (auto simp: content_def Let_def)
    moreover have "[0..<n] = [0..<?m] @ map (\<lambda>i. i + ?m) [0..<n - ?m]"
      using upt_add_eq_append [of 0 ?m "n - ?m"] map_add_upt [of ?m "n - ?m"] m(2) by simp
    ultimately have "readi_loop ip off n s = Inr (map (\<lambda>i. content (view s) ?A (off + i)) [0..<n], x)"
      using False t(1) dev v(1,2,3) x(1) by (subst readi_loop.simps) (simp add: Let_def comp_def ac_simps)
    moreover have "log_step s x" using t(2) v(4) x(2) by (blast intro: log_step_trans)
    ultimately show ?thesis using x v t by auto
  qed
qed

text \<open>The blocks a range touches, and those of them that are not mapped.\<close>

definition span :: "nat \<Rightarrow> nat \<Rightarrow> nat set" where
  "span off n = (\<lambda>i. (off + i) div BSIZE) ` {..<n}"

definition unmapped :: "'a kfs_scheme \<Rightarrow> nat \<Rightarrow> nat set \<Rightarrow> nat" where
  "unmapped s ip X = card {bn \<in> X. lookup (view s) (addrs s ip) (bpath bn) = 0}"

lemma finite_span [simp]: "finite (span off n)"
  by (simp add: span_def)

lemma span_chunk:
  assumes "0 < n"
  shows "span off n = insert (off div BSIZE) (span (off + chunk off n) (n - chunk off n))"
    "off div BSIZE \<notin> span (off + chunk off n) (n - chunk off n)"
proof -
  let ?m = "chunk off n"
  have m: "0 < ?m" "?m \<le> n" using assms by (simp_all add: chunk_def params)
  have s: "{..<n} = {..<?m} \<union> (\<lambda>i. ?m + i) ` {..<n - ?m}"
  proof (intro equalityI subsetI)
    fix x assume "x \<in> {..<n}"
    then show "x \<in> {..<?m} \<union> (\<lambda>i. ?m + i) ` {..<n - ?m}"
      by (cases "x < ?m") (auto intro!: image_eqI [of _ _ "x - ?m"])
  qed (use m in auto)
  have "(\<lambda>i. (off + i) div BSIZE) ` {..<?m} = (\<lambda>_. off div BSIZE) ` {..<?m}"
    by (intro image_cong) (auto simp: chunk_block)
  then have h: "(\<lambda>i. (off + i) div BSIZE) ` {..<?m} = {off div BSIZE}" using m(1) by (auto simp: image_constant_conv lessThan_empty_iff)
  have "span off n = (\<lambda>i. (off + i) div BSIZE) ` {..<?m} \<union> (\<lambda>i. (off + (?m + i)) div BSIZE) ` {..<n - ?m}"
    unfolding span_def s image_Un image_image by simp
  then show "span off n = insert (off div BSIZE) (span (off + ?m) (n - ?m))" unfolding h by (simp add: span_def add.assoc)
  show "off div BSIZE \<notin> span (off + ?m) (n - ?m)"
  proof
    assume "off div BSIZE \<in> span (off + ?m) (n - ?m)"
    then obtain i where i: "i < n - ?m" "off div BSIZE = (off + ?m + i) div BSIZE" by (auto simp: span_def)
    have B: "0 < BSIZE" by (simp add: params)
    have c: "?m = BSIZE - off mod BSIZE" using i(1) by (auto simp: chunk_def min_def split: if_splits)
    have "off + ?m = off div BSIZE * BSIZE + BSIZE"
      using c B mod_less_divisor [OF B, of off] div_mult_mod_eq [of off BSIZE] by linarith
    then have "(off + ?m) div BSIZE = Suc (off div BSIZE)" using B by simp
    moreover have "(off + ?m) div BSIZE \<le> (off + ?m + i) div BSIZE" by (rule div_le_mono) simp
    ultimately show False using i(2) by simp
  qed
qed

lemma unmapped_step:
  fixes s t :: "'a kfs_scheme"
  assumes "ext_step k c ip s t" "finite X" "\<forall>bn \<in> X. bn < MAXFILE"
  shows "unmapped t ip X \<le> unmapped s ip X"
proof -
  have "lookup (view s) (addrs s ip) (bpath bn) = 0" if "bn \<in> X" "lookup (view t) (addrs t ip) (bpath bn) = 0" for bn
    using ext_stepD(3) [OF assms(1), of "bpath bn"] bpath_leaf [of bn] assms(3) that by (auto simp: leaf_def)
  then show ?thesis unfolding unmapped_def by (intro card_mono) (use assms(2) in auto)
qed

lemma unmapped_single: "unmapped s ip {bn} = (if lookup (view s) (addrs s ip) (bpath bn) = 0 then 1 else 0)"
proof -
  have "{b \<in> {bn}. lookup (view s) (addrs s ip) (bpath b) = 0} = (if lookup (view s) (addrs s ip) (bpath bn) = 0 then {bn} else {})"
    by auto
  then show ?thesis by (simp add: unmapped_def)
qed

lemma bmap_cost:
  fixes s :: "'a kfs_scheme"
  assumes ok: "fs_ok pid s" "file_ok s ip" and bn: "bn < MAXFILE"
    and sp: "4 * unmapped s ip {bn} \<le> card (free s)" "12 * int (unmapped s ip {bn}) \<le> log_space s"
  shows "\<exists>a t. bmap ip bn s = Inr (a, t) \<and> map_step (4 * unmapped s ip {bn}) ip s t \<and> fs_ok pid t \<and> file_ok t ip \<and> a \<noteq> 0 \<and>
    lookup (view t) (addrs t ip) (bpath bn) = a"
proof (cases "lookup (view s) (addrs s ip) (bpath bn) = 0")
  case True
  then have "unmapped s ip {bn} = 1" by (simp add: unmapped_single)
  then show ?thesis using bmap_ok [OF ok bn] sp by simp
next
  case False
  then have u: "unmapped s ip {bn} = 0" by (simp add: unmapped_single)
  obtain t where t: "bmap ip bn s = Inr (lookup (view s) (addrs s ip) (bpath bn), t)" "log_step s t" "view t = view s" "log_wf pid t"
      "held t = {}" "disk t = disk s" "lg_n t = lg_n s" using bmap_mapped [OF ok bn False] by blast
  note sv = same_view_step [OF ok(1) t(2-7)]
  show ?thesis using t(1,3) sv(1) sv(2) sv(3) [OF ok(2)] sv(4) [of ip] False u
    by (intro exI [of _ "lookup (view s) (addrs s ip) (bpath bn)"] exI [of _ t]) simp
qed

lemma unmapped_insert:
  "bn \<notin> X \<Longrightarrow> finite X \<Longrightarrow> unmapped s ip (insert bn X) = unmapped s ip {bn} + unmapped s ip X"
proof -
  assume a: "bn \<notin> X" "finite X"
  let ?P = "\<lambda>bn. lookup (view s) (addrs s ip) (bpath bn) = 0"
  have "{b \<in> insert bn X. ?P b} = {b \<in> {bn}. ?P b} \<union> {b \<in> X. ?P b}" by auto
  moreover have "card ({b \<in> {bn}. ?P b} \<union> {b \<in> X. ?P b}) = card {b \<in> {bn}. ?P b} + card {b \<in> X. ?P b}"
    by (rule card_Un_disjoint) (use a in auto)
  ultimately show ?thesis by (simp add: unmapped_def)
qed

lemma ext_step_mono: "ext_step k c ip s t \<Longrightarrow> k \<le> k' \<Longrightarrow> c \<le> c' \<Longrightarrow> ext_step k' c' ip s t"
  unfolding ext_step_def by auto

lemma writei_loop_ok:
  fixes s :: "'a kfs_scheme"
  assumes "fs_ok pid s" "file_ok s ip" "off + n \<le> MAXFILE * BSIZE"
    "4 * unmapped s ip (span off n) \<le> card (free s)" "12 * int (unmapped s ip (span off n)) + int (card (span off n)) \<le> log_space s"
  shows "\<exists>t. writei_loop ip src off n s = Inr t \<and> fs_ok pid t \<and> file_ok t ip \<and>
    ext_step (4 * unmapped s ip (span off n)) (card (span off n)) ip s t \<and> mapped t ip off n \<and>
    (\<forall>x. x div BSIZE < MAXFILE \<longrightarrow>
      content (view t) (addrs t ip) x = (if off \<le> x \<and> x < off + n then src (x - off) else content (view s) (addrs s ip) x))"
  using assms
proof (induction n arbitrary: off src s rule: less_induct)
  case (less n)
  show ?case
  proof (cases "n = 0")
    case True
    then show ?thesis using less.prems map_stepD(1) [OF map_step_refl [of 0 ip s]]
      by (subst writei_loop.simps) (auto simp: span_def mapped_def unmapped_def)
  next
    case False
    let ?bn = "off div BSIZE" and ?m = "chunk off n" and ?X = "span (off + chunk off n) (n - chunk off n)"
    note ok = less.prems(1,2)
    have m: "0 < ?m" "?m \<le> n" using False by (simp_all add: chunk_def params)
    have bn: "?bn < MAXFILE" using less.prems(3) False by (simp add: less_mult_imp_div_less)
    note sc = span_chunk [of n off] False
    have un: "unmapped s ip (span off n) = unmapped s ip {?bn} + unmapped s ip ?X" and cs: "card (span off n) = Suc (card ?X)"
      using sc unmapped_insert [of ?bn ?X s ip] by simp_all
    have XM: "\<forall>b \<in> ?X. b < MAXFILE"
    proof
      fix b assume "b \<in> ?X"
      then obtain i where "i < n - ?m" "b = (off + ?m + i) div BSIZE" by (auto simp: span_def)
      then show "b < MAXFILE" using less.prems(3) m by (simp add: less_mult_imp_div_less)
    qed
    obtain a t where t: "bmap ip ?bn s = Inr (a, t)" "map_step (4 * unmapped s ip {?bn}) ip s t" "fs_ok pid t" "file_ok t ip" "a \<noteq> 0"
        "lookup (view t) (addrs t ip) (bpath ?bn) = a"
      using bmap_cost [OF ok bn] less.prems(4,5) un by auto
    note et = map_stepD(1) [OF t(2)]
    have szt: "lg_size t = lg_size s" using fs_step_sel(7) [OF ext_stepD(1) [OF et]] .
    have "1 \<le> log_space t" using ext_stepD(8) [OF et] less.prems(5) un cs szt by (simp add: log_space_def)
    let ?k = "off mod BSIZE"
    let ?d = "\<lambda>x. if ?k \<le> x \<and> x < ?k + ?m then src (x - ?k) else view t a x"
    obtain bp u w v where v: "bread 1 a t = Inr (bp, u)" "b_data (bcache u bp) = view t a" "log_write bp (set_data bp ?d u) = Inr w"
        "brelse bp w = Inr v" "view v = (view t)(a := ?d)" "ext_step 0 1 ip t v" "fs_ok pid v" "file_ok v ip" "addrs v = addrs t"
      using write_data_ok [OF t(3,4) bn t(6,5) \<open>1 \<le> log_space t\<close>] by blast
    have ev: "ext_step (4 * unmapped s ip {?bn}) 1 ip s v" using ext_step_trans [OF et v(6)] by simp
    have szv: "lg_size v = lg_size s" using fs_step_sel(7) [OF ext_stepD(1) [OF ev]] .
    have uv: "unmapped v ip ?X \<le> unmapped s ip ?X" by (rule unmapped_step [OF ev finite_span XM])
    have "\<exists>z. writei_loop ip (\<lambda>i. src (i + ?m)) (off + ?m) (n - ?m) v = Inr z \<and> fs_ok pid z \<and> file_ok z ip \<and>
      ext_step (4 * unmapped v ip ?X) (card ?X) ip v z \<and> mapped z ip (off + ?m) (n - ?m) \<and>
      (\<forall>x. x div BSIZE < MAXFILE \<longrightarrow> content (view z) (addrs z ip) x =
        (if off + ?m \<le> x \<and> x < off + ?m + (n - ?m) then src (x - (off + ?m) + ?m) else content (view v) (addrs v ip) x))"
    proof (rule less.IH)
      show "4 * unmapped v ip ?X \<le> card (free v)" using ext_stepD(7) [OF ev] less.prems(4) un uv by linarith
      show "12 * int (unmapped v ip ?X) + int (card ?X) \<le> log_space v"
        using ext_stepD(8) [OF ev] less.prems(5) un cs uv szv by (simp add: log_space_def)
    qed (use m less.prems(3) v(7,8) in auto)
    then obtain z where z: "writei_loop ip (\<lambda>i. src (i + ?m)) (off + ?m) (n - ?m) v = Inr z" "fs_ok pid z" "file_ok z ip"
      "ext_step (4 * unmapped v ip ?X) (card ?X) ip v z" "mapped z ip (off + ?m) (n - ?m)"
      "\<And>x. x div BSIZE < MAXFILE \<Longrightarrow> content (view z) (addrs z ip) x =
        (if off + ?m \<le> x \<and> x < off + ?m + (n - ?m) then src (x - (off + ?m) + ?m) else content (view v) (addrs v ip) x)" by blast
    have dev: "i_dev (icache t ip) = 1" using t(4) by (simp add: file_ok_def)
    have "writei_loop ip src off n s = Inr z"
      using False t(1) v(1-4) z(1) dev by (subst writei_loop.simps) (simp add: Let_def cong: if_cong)
    moreover have "ext_step (4 * unmapped s ip (span off n)) (card (span off n)) ip s z"
      using ext_step_mono [OF ext_step_trans [OF ev z(4)]] un cs uv by simp
    moreover have "mapped z ip off n" unfolding mapped_def
    proof (intro allI impI)
      fix i assume i: "i < n"
      show "lookup (view z) (addrs z ip) (bpath ((off + i) div BSIZE)) \<noteq> 0"
      proof (cases "i < ?m")
        case True
        have tk: "tree_ok (view t) (addrs t ip) (data t)" using t(4) by (simp add: file_ok_def)
        have q: "pos_ok (bpath ?bn)" using bpath_leaf [OF bn] by (simp add: leaf_def)
        have "lookup (view v) (addrs v ip) (bpath ?bn) = a"
          using ext_stepD(3) [OF v(6) q] t(5,6) by simp
        then have "lookup (view z) (addrs z ip) (bpath ?bn) = a" using ext_stepD(3) [OF z(4) q] t(5) by simp
        then show ?thesis using chunk_block(1) [OF True] t(5) by simp
      next
        case False
        then have "i - ?m < n - ?m" using i by simp
        then show ?thesis using z(5) False by (fastforce simp: mapped_def)
      qed
    qed
    moreover have "content (view z) (addrs z ip) x = (if off \<le> x \<and> x < off + n then src (x - off) else content (view s) (addrs s ip) x)"
      if x: "x div BSIZE < MAXFILE" for x
    proof -
      have tk: "tree_ok (view t) (addrs t ip) (data t)" using t(4) by (simp add: file_ok_def)
      have cv: "content (view v) (addrs v ip) x = (if x div BSIZE = ?bn then ?d (x mod BSIZE) else content (view s) (addrs s ip) x)"
        using leaf_write_content [OF tk bn t(6,5) x, of ?d] v(5,9) map_stepD(2) [OF t(2) x] by simp
      show ?thesis
      proof (cases "off + ?m \<le> x")
        case True
        have "x - (off + ?m) + ?m = x - off" using True by simp
        moreover have "content (view v) (addrs v ip) x = content (view s) (addrs s ip) x"
        proof (cases "x div BSIZE = ?bn")
          case same: True
          have "x mod BSIZE \<ge> ?k + ?m" using True div_mult_mod_eq [of x BSIZE, unfolded same] div_mult_mod_eq [of off BSIZE] by linarith
          moreover have "content (view t) (addrs t ip) x = view t a (x mod BSIZE)" using same t(5,6) by (simp add: content_def)
          ultimately show ?thesis using cv same map_stepD(2) [OF t(2) x] by simp
        qed (use cv in simp)
        ultimately show ?thesis using z(6) [OF x] True m by auto
      next
        case False
        note lt = False
        show ?thesis
        proof (cases "off \<le> x")
          case True
          then have i: "x - off < ?m" using False by simp
          note cb = chunk_block [OF i]
          have xd: "x div BSIZE = ?bn" "x mod BSIZE = ?k + (x - off)" using cb(1,2) True by simp_all
          have "?d (x mod BSIZE) = src (x - off)" unfolding xd(2) using i by simp
          then have "content (view v) (addrs v ip) x = src (x - off)" using cv xd(1) by simp
          moreover have "x < off + n" using i m(2) True by linarith
          ultimately show ?thesis using z(6) [OF x] False True by simp
        next
          case lo: False
          have "content (view v) (addrs v ip) x = content (view s) (addrs s ip) x"
          proof (cases "x div BSIZE = ?bn")
            case same: True
            have "x mod BSIZE < ?k" using lo div_mult_mod_eq [of x BSIZE, unfolded same] div_mult_mod_eq [of off BSIZE] by linarith
            moreover have "content (view t) (addrs t ip) x = view t a (x mod BSIZE)" using same t(5,6) by (simp add: content_def)
            ultimately show ?thesis using cv same map_stepD(2) [OF t(2) x] by simp
          qed (use cv in simp)
          then show ?thesis using z(6) [OF x] lo lt by simp
        qed
      qed
    qed
    ultimately show ?thesis using z(2,3) by blast
  qed
qed

section \<open>Inodes on disk\<close>

lemma rd16_cong: "m a = m' a \<Longrightarrow> m (a + 1) = m' (a + 1) \<Longrightarrow> rd16 a m = rd16 a m'"
  by (simp add: rd16_def)

lemma rd16_wr16 [simp]: "rd16 a (wr16 a w m) = w"
  by (rule bit_word_eqI) (auto simp: rd16_def wr16_def bit_simps not_less)

lemma rd16_other:
  "b + 2 \<le> a \<or> a + 2 \<le> b \<Longrightarrow> rd16 a (wr16 b w m) = rd16 a m"
  "b + 4 \<le> a \<or> a + 2 \<le> b \<Longrightarrow> rd16 a (wr32 b x m) = rd16 a m"
  by (auto simp: rd16_def wr16_def wr32_def)

lemma rd32_wr16_other: "b + 2 \<le> a \<or> a + 4 \<le> b \<Longrightarrow> rd32 a (wr16 b w m) = rd32 a m"
  by (intro rd32_cong) (auto simp: wr16_def)

lemma fold_addrs:
  "rd32 (a + 12 + 4 * i) (fold (\<lambda>i. wr32 (a + 12 + 4 * i) (w i)) [0..<m] d) = (if i < m then w i else rd32 (a + 12 + 4 * i) d)"
  by (induction m) (auto simp: rd32_wr32_other less_Suc_eq)

lemma fold_addrs_16: "b + 2 \<le> a + 12 \<Longrightarrow> rd16 b (fold (\<lambda>i. wr32 (a + 12 + 4 * i) (w i)) [0..<m] d) = rd16 b d"
  by (induction m) (auto simp: rd16_other)

lemma fold_addrs_32: "b + 4 \<le> a + 12 \<Longrightarrow> rd32 b (fold (\<lambda>i. wr32 (a + 12 + 4 * i) (w i)) [0..<m] d) = rd32 b d"
  by (induction m) (auto simp: rd32_wr32_other)

text \<open>The fields of an inode that fit their C types.\<close>

definition short_range :: "int \<Rightarrow> bool" where
  "short_range n \<longleftrightarrow> - (2 ^ 15) \<le> n \<and> n < 2 ^ 15"

definition inode_range :: "inode \<Rightarrow> bool" where
  "inode_range x \<longleftrightarrow> short_range (i_type x) \<and> short_range (i_major x) \<and> short_range (i_minor x) \<and> short_range (i_nlink x) \<and>
     i_size x < 2 ^ 32 \<and> (\<forall>i < NDIRECT + 3. i_addrs x i < 2 ^ 32)"

lemma short_word: "short_range n \<Longrightarrow> sint (word_of_int n :: 16 word) = n"
  by (simp add: short_range_def sint_sbintrunc' signed_take_bit_int_eq_self)

lemma get_put_dinode:
  assumes "inode_range x"
  shows "get_dinode a (put_dinode a x d) y = y\<lparr>i_type := i_type x, i_major := i_major x, i_minor := i_minor x, i_nlink := i_nlink x,
     i_size := i_size x, i_addrs := \<lambda>i. if i < NDIRECT + 3 then i_addrs x i else i_addrs y i\<rparr>"
proof -
  note r = assms [unfolded inode_range_def]
  have "sint (rd16 a (put_dinode a x d)) = i_type x" "sint (rd16 (a + 2) (put_dinode a x d)) = i_major x"
    "sint (rd16 (a + 4) (put_dinode a x d)) = i_minor x" "sint (rd16 (a + 6) (put_dinode a x d)) = i_nlink x"
    using r by (simp_all add: put_dinode_def Let_def fold_addrs_16 rd16_other short_word)
  moreover have "unat (rd32 (a + 8) (put_dinode a x d)) = i_size x"
    using r by (simp add: put_dinode_def Let_def fold_addrs_32 unat_of_nat take_bit_nat_eq_self)
  moreover have "unat (rd32 (a + 12 + 4 * i) (put_dinode a x d)) = i_addrs x i" if "i < NDIRECT + 3" for i
    using r that by (simp add: put_dinode_def Let_def fold_addrs unat_of_nat take_bit_nat_eq_self)
  ultimately show ?thesis by (simp add: get_dinode_def cong: if_cong)
qed

lemma iupdate_ok:
  fixes s :: "'a kfs_scheme"
  assumes ok: "fs_ok pid s" and ip: "i_dev (icache s ip) = 1" "i_inum (icache s ip) < unat (sb_ninodes (fs_sb s))" and sp: "1 \<le> log_space s"
  defines "n \<equiv> IBLOCK (i_inum (icache s ip)) (fs_sb s)"
  shows "\<exists>t. iupdate ip s = Inr t \<and> view t = (view s)(n := put_dinode (dinode_addr (i_inum (icache s ip))) (icache s ip) (view s n)) \<and>
    log_step s t \<and> lg_n t \<le> lg_n s + 1 \<and> fs_ok pid t \<and> free t = free s \<and> data t = data s \<and> disk t = disk s \<and>
    (\<forall>jp. file_ok s jp \<longrightarrow> file_ok t jp) \<and> (\<forall>B. tree (view s) B \<subseteq> data s \<longrightarrow>
       tree (view t) B = tree (view s) B \<and> (\<forall>p. pos_ok p \<longrightarrow> lookup (view t) B p = lookup (view s) B p) \<and>
       (\<forall>x. x div BSIZE < MAXFILE \<longrightarrow> content (view t) B x = content (view s) B x))"
proof -
  note w = fs_okD [OF ok]
  have nm: "n \<in> meta s" using ip(2) by (auto simp: meta_def n_def)
  have nb: "n \<notin> bitmap s"
  proof
    assume "n \<in> bitmap s"
    then obtain b where "b < fsize s" "BBLOCK b (fs_sb s) = IBLOCK (i_inum (icache s ip)) (fs_sb s)"
      by (auto simp: bitmap_def n_def)
    then show False using w(4) ip(2) unfolding fs_wf_def by blast
  qed
  have nh: "n \<in> home_blocks s" "n \<notin> held s" using nm w(2,4) by (auto simp: fs_wf_def)
  have n': "n < disksize s" "n \<notin> log_area s" "n \<noteq> lg_start s" using nh(1) start_in_area [OF w(1)] by (auto simp: home_blocks_def)
  obtain bp t where t: "bread 1 n s = Inr (bp, t)" "b_data (bcache t bp) = view s n" "log_wf pid t" "holds n bp t" "n \<in> held t"
    "view t = view s" "held t = insert n (held s)" "dirty t = dirty s" "disk t = disk s" "bio_step s t"
    using log_read_ok [OF w(1) n'(1) nh(2) n'(3) busy_idle [OF w(1,2)]] by blast
  note lt = bio_step_log [OF t(10)]
  let ?d = "put_dinode (dinode_addr (i_inum (icache s ip))) (icache s ip) (view s n)"
  have "n \<notin> log_area t" "1 \<le> lg_outstanding t" "0 < log_space t"
    using log_step_sel(11) [OF bio_log_step [OF t(10)]] n'(2) w(3) lt sp by (simp_all add: log_space_def)
  then obtain u v where v: "log_write bp (set_data bp ?d t) = Inr u" "brelse bp u = Inr v" "log_wf pid v" "view v = (view t)(n := ?d)"
      "held v = held t - {n}" "disk v = disk t" "log_step t v" "lg_n v = (if n \<in> dirty t then lg_n t else lg_n t + 1)"
    using write_back_ok [OF t(3-5)] by blast
  have sv: "log_step s v" using bio_log_step [OF t(10)] v(7) by (rule log_step_trans)
  note fv = log_step_fs [OF sv] and ft = bio_step_fs [OF t(10)]
  have call: "iupdate ip s = Inr v" using t(1,2) v(1,2) ip(1) ft(2) by (simp add: iupdate_def n_def)
  have vv: "view v = (view s)(n := ?d)" using v(4) t(6) by simp
  have fr: "free v = free s"
  proof -
    have "view v (BBLOCK c (fs_sb s)) = view s (BBLOCK c (fs_sb s))" if "c < fsize s" for c
      using vv nb that by (auto simp: bitmap_def)
    then show ?thesis using fv(1,3) by (auto simp: free_def)
  qed
  have dv: "data v = data s" using fv fr by (simp add: data_def)
  have fo: "fs_ok pid v" using ok v(3,5) t(7) w(2,3) log_step_sel(1,8) [OF sv] fv fr by (auto simp: fs_ok_def txn_def fs_wf_def)
  have same: "view v c = view s c" if "c \<in> data s" for c using that vv nm by (auto simp: data_def)
  have B: "tree (view v) B = tree (view s) B \<and> tree_ok (view v) B D = tree_ok (view s) B D \<and> (\<forall>p. pos_ok p \<longrightarrow> lookup (view v) B p = lookup (view s) B p) \<and>
       (\<forall>x. x div BSIZE < MAXFILE \<longrightarrow> content (view v) B x = content (view s) B x)" if "tree (view s) B \<subseteq> data s" for B D
  proof -
    have sm: "view v a = view s a" if "a \<in> tree (view s) B" for a using that \<open>tree (view s) B \<subseteq> data s\<close> same by blast
    have l: "lookup (view v) B p = lookup (view s) B p" if "pos_ok p" for p using sm that by (rule lookup_frame)
    have "content (view v) B x = content (view s) B x" if "x div BSIZE < MAXFILE" for x
    proof -
      have q: "pos_ok (bpath (x div BSIZE))" using bpath_leaf [OF that] by (simp add: leaf_def)
      then show ?thesis using l [OF q] sm [OF tree_memI [OF q]] by (simp add: content_def Let_def)
    qed
    then show ?thesis using tree_frame [of "view s" B "view v", OF sm] l by blast
  qed
  have "file_ok v jp" if "file_ok s jp" for jp
    using that B [of "addrs s jp" "data s"] dv fv(2) by (auto simp: file_ok_def addrs_def tree_ok_def)
  then show ?thesis using call vv sv v(6,8) lt(6) fo fr dv t(9) B by (intro exI [of _ v]) auto
qed

section \<open>Reading and writing\<close>

lemma maxfile_word: "MAXFILE * BSIZE < 2 ^ 32"
  by (simp add: params)

lemma readi_ok:
  fixes s :: "'a kfs_scheme"
  assumes ok: "fs_ok pid s" "file_ok s ip" and ty: "i_type (icache s ip) \<noteq> T_DEV" and off: "off \<le> i_size (icache s ip)"
    and sz: "i_size (icache s ip) \<le> MAXFILE * BSIZE" "off + n < 2 ^ 32"
  defines "m \<equiv> min n (i_size (icache s ip) - off)"
  assumes mp: "mapped s ip off m"
  shows "\<exists>t. readi devsw ip off n s = Inr (int m, map (\<lambda>i. content (view s) (addrs s ip) (off + i)) [0..<m], t) \<and>
    log_step s t \<and> view t = view s \<and> log_wf pid t \<and> held t = {} \<and> disk t = disk s \<and> lg_n t = lg_n s"
proof -
  have "off + m \<le> MAXFILE * BSIZE" using off sz(1) by (simp add: m_def)
  moreover have "(if off + n > i_size (icache s ip) then i_size (icache s ip) - off else n) = m" using off by (auto simp: m_def)
  ultimately show ?thesis using readi_loop_ok [OF ok _ mp] ty off sz(2) by (auto simp: readi_def Let_def)
qed

lemma writei_ok:
  fixes s :: "'a kfs_scheme"
  assumes ok: "fs_ok pid s" "file_ok s ip" and ty: "i_type (icache s ip) \<noteq> T_DEV" and off: "off \<le> i_size (icache s ip)"
    and inum: "i_inum (icache s ip) < unat (sb_ninodes (fs_sb s))" and n: "0 < n" "off + n \<le> MAXFILE * BSIZE"
    and sp: "4 * unmapped s ip (span off n) \<le> card (free s)"
      "12 * int (unmapped s ip (span off n)) + int (card (span off n)) + 1 \<le> log_space s"
  shows "\<exists>t. writei devsw ip src off n s = Inr (int n, t) \<and> fs_ok pid t \<and> file_ok t ip \<and> mapped t ip off n \<and>
    icache t = (icache s)(ip := (icache s ip)\<lparr>i_size := max (i_size (icache s ip)) (off + n), i_addrs := addrs t ip\<rparr>) \<and>
    (\<forall>x. x div BSIZE < MAXFILE \<longrightarrow>
      content (view t) (addrs t ip) x = (if off \<le> x \<and> x < off + n then src (x - off) else content (view s) (addrs s ip) x)) \<and>
    (\<forall>B. apart s ip B \<longrightarrow> apart t ip B \<and> (\<forall>x. x div BSIZE < MAXFILE \<longrightarrow> content (view t) B x = content (view s) B x)) \<and>
    fs_step s t \<and> (\<forall>a m. mapped s ip a m \<and> a + m \<le> MAXFILE * BSIZE \<longrightarrow> mapped t ip a m) \<and>
    card (free s) \<le> card (free t) + 4 * unmapped s ip (span off n)"
proof -
  let ?k = "4 * unmapped s ip (span off n)" and ?c = "card (span off n)"
  obtain t where t: "writei_loop ip src off n s = Inr t" "fs_ok pid t" "file_ok t ip" "ext_step ?k ?c ip s t" "mapped t ip off n"
      "\<forall>x. x div BSIZE < MAXFILE \<longrightarrow> content (view t) (addrs t ip) x =
         (if off \<le> x \<and> x < off + n then src (x - off) else content (view s) (addrs s ip) x)"
    using writei_loop_ok [OF ok n(2) sp(1)] sp(2) by auto
  note e = ext_stepD [OF t(4)] and f = fs_step_sel [OF ext_stepD(1) [OF t(4)]]
  have nw: "(off + n) mod 2 ^ 32 = off + n" using n(2) maxfile_word by simp
  have guard: "\<not> (off > i_size (icache s ip) \<or> (off + n) mod 2 ^ 32 < off)" "\<not> off + n > MAXFILE * BSIZE" using off nw n(2) by auto
  have ic: "icache t ip = (icache s ip)\<lparr>i_addrs := addrs t ip\<rparr>" using arg_cong [OF e(2), of "\<lambda>f. f ip"] by simp
  have oth: "apart t ip B \<and> (\<forall>x. x div BSIZE < MAXFILE \<longrightarrow> content (view t) B x = content (view s) B x)" if "apart s ip B" for B
    using ext_step_apart [OF t(4) ok(1) that] by blast
  have q: "pos_ok (bpath ((a + i) div BSIZE))" if "i < m" "a + m \<le> MAXFILE * BSIZE" for a i m
    using that bpath_leaf [of "(a + i) div BSIZE"] by (simp add: leaf_def less_mult_imp_div_less)
  have mp: "mapped t ip a m" if "mapped s ip a m" "a + m \<le> MAXFILE * BSIZE" for a m
    using that q e(3) by (simp add: mapped_def)
  show ?thesis
  proof (cases "off + n > i_size (icache s ip)")
    case False
    have "writei devsw ip src off n s = Inr (int n, t)"
      using t(1) ty guard False ic by (simp add: writei_def Let_def)
    moreover have "max (i_size (icache s ip)) (off + n) = i_size (icache s ip)" using False by simp
    then have "icache t = (icache s)(ip := (icache s ip)\<lparr>i_size := max (i_size (icache s ip)) (off + n), i_addrs := addrs t ip\<rparr>)"
      using e(2) by simp
    ultimately show ?thesis using t oth e(1,7) mp by blast
  next
    case True
    let ?u = "upd_inode ip (\<lambda>x. x\<lparr>i_size := off + n\<rparr>) t"
    have u: "fs_ok pid ?u" "i_dev (icache ?u ip) = 1" "i_inum (icache ?u ip) < unat (sb_ninodes (fs_sb ?u))" "1 \<le> log_space ?u"
      using t(2,3) ic inum f(11) e(8) sp(2) f(7) by (auto simp: file_ok_def log_space_def)
    have Au: "addrs ?u = addrs t" by (auto simp: addrs_def fun_eq_iff)
    obtain v where v: "iupdate ip ?u = Inr v" "log_step ?u v" "fs_ok pid v" "data v = data ?u" "\<forall>jp. file_ok ?u jp \<longrightarrow> file_ok v jp"
       "\<forall>B. tree (view ?u) B \<subseteq> data ?u \<longrightarrow> tree (view v) B = tree (view ?u) B \<and> (\<forall>p. pos_ok p \<longrightarrow> lookup (view v) B p = lookup (view ?u) B p) \<and>
         (\<forall>x. x div BSIZE < MAXFILE \<longrightarrow> content (view v) B x = content (view ?u) B x)" "free v = free ?u"
      using iupdate_ok [OF u] by blast
    have fu: "file_ok ?u ip" using t(3) Au by (simp add: file_ok_def)
    have ici: "icache v = icache ?u" using log_step_fs [OF v(2)] by simp
    have Av: "addrs v = addrs t" using ici Au by (simp add: addrs_def fun_eq_iff)
    have own: "tree (view t) (addrs t ip) \<subseteq> data t" using t(3) by (simp add: file_ok_def tree_ok_def)
    have V: "tree (view v) B = tree (view t) B" "pos_ok p \<Longrightarrow> lookup (view v) B p = lookup (view t) B p"
       "x div BSIZE < MAXFILE \<Longrightarrow> content (view v) B x = content (view t) B x" if "tree (view t) B \<subseteq> data t" for B p x
      using v(6) that unfolding upd_inode_obs by blast+
    have "writei devsw ip src off n s = Inr (int n, v)"
      using t(1) ty guard True ic v(1) n(1) by (simp add: writei_def Let_def)
    moreover have "icache v = (icache s)(ip := (icache s ip)\<lparr>i_size := max (i_size (icache s ip)) (off + n), i_addrs := addrs v ip\<rparr>)"
      using ici e(2) Av True by (simp add: fun_eq_iff)
    moreover have mv: "mapped v ip a m" if "mapped t ip a m" "a + m \<le> MAXFILE * BSIZE" for a m
      using that q V(2) [OF own] Av by (simp add: mapped_def)
    moreover have "mapped v ip off n" using mv t(5) n(2) by blast
    moreover have "fs_step s v"
    proof -
      have "fs_step t ?u" by (simp add: fs_step_def upd_inode_def)
      then show ?thesis using e(1) log_fs_step [OF v(2)] fs_step_trans by blast
    qed
    moreover have "\<forall>x. x div BSIZE < MAXFILE \<longrightarrow> content (view v) (addrs v ip) x =
         (if off \<le> x \<and> x < off + n then src (x - off) else content (view s) (addrs s ip) x)"
      using t(6) V(3) [OF own] Av by simp
    moreover have "apart v ip B \<and> (\<forall>x. x div BSIZE < MAXFILE \<longrightarrow> content (view v) B x = content (view s) B x)" if "apart s ip B" for B
    proof -
      note o = oth [OF that]
      have tB: "tree (view t) B \<subseteq> data t" using o by (simp add: apart_def tree_ok_def)
      have "tree_ok (view v) B (data v)"
      proof -
        have "{p. pos_ok p \<and> lookup (view v) B p \<noteq> 0} = {p. pos_ok p \<and> lookup (view t) B p \<noteq> 0}" using V(2) [OF tB] by auto
        moreover have "inj_on (lookup (view t) B) {p. pos_ok p \<and> lookup (view t) B p \<noteq> 0}" using o by (simp add: apart_def tree_ok_def)
        ultimately show ?thesis using V(1,2) [OF tB] tB v(4)
            inj_on_cong [of "{p. pos_ok p \<and> lookup (view t) B p \<noteq> 0}" "lookup (view v) B" "lookup (view t) B"]
          by (simp add: tree_ok_def)
      qed
      moreover have "tree (view v) B \<inter> tree (view v) (addrs v ip) = {}" using o V(1) [OF tB] V(1) [OF own] Av by (simp add: apart_def)
      ultimately show ?thesis using o V(3) [OF tB] by (simp add: apart_def)
    qed
    moreover have "card (free s) \<le> card (free v) + ?k" using e(7) v(7) by simp
    ultimately show ?thesis using v(3) v(5) [rule_format, OF fu] mp by blast
  qed
qed

section \<open>An empty file\<close>

definition small_file :: kfs where
  "small_file = upd_inode 0 (\<lambda>x. x\<lparr>i_dev := 1, i_inum := 1, i_ref := 1, i_valid := True, i_type := T_FILE\<rparr>) (boot_kfs small_disk)"

lemma small_file_ok [simp]: "fs_ok 0 small_file" "file_ok small_file 0"
proof -
  show "fs_ok 0 small_file" by (simp add: small_file_def fs_ok_def txn_def small_wf) (simp add: small_disk_def rd32_def)
  have "addrs small_file 0 = (\<lambda>_. 0)" by (simp add: small_file_def addrs_def zero_inode_def)
  then have "lookup v (addrs small_file 0) p = 0" for v p by (simp add: lookup_def)
  then have "tree_ok (view small_file) (addrs small_file 0) (data small_file)" by (auto simp: tree_ok_def tree_def)
  then show "file_ok small_file 0" by (simp add: file_ok_def) (simp add: small_file_def)
qed

lemma small_file_sel [simp]:
  "i_size (icache small_file 0) = 0" "i_type (icache small_file 0) = T_FILE" "i_inum (icache small_file 0) = 1"
  "fs_sb small_file = small_sb" "card (free small_file) = 36" "log_space small_file = 29"
  by (simp_all add: small_file_def zero_inode_def small_free) (simp add: log_space_def params)

lemma unmapped_le: "finite X \<Longrightarrow> unmapped s ip X \<le> card X"
  unfolding unmapped_def by (intro card_mono) auto

section \<open>Properties\<close>

text \<open>
  C10. \<open>bmap\<close> maps a file block through the direct, single, double or triple indirect
  addresses to a data block: mapping it again gives the same address without a change, no
  other block of the file has that address, and allocation of the block and of the indirect
  blocks on the way changes the contents of no file.
\<close>

theorem bmap_correct:
  fixes s :: "'a kfs_scheme"
  assumes ok: "fs_ok pid s" "file_ok s ip" and bn: "bn < MAXFILE" and sp: "4 \<le> card (free s)" "12 \<le> log_space s"
  shows "\<exists>a t. bmap ip bn s = Inr (a, t) \<and> a \<in> data t \<and> fs_ok pid t \<and> file_ok t ip \<and> (\<exists>u. bmap ip bn t = Inr (a, u) \<and> view u = view t) \<and>
    (\<forall>bn' < MAXFILE. bn' \<noteq> bn \<longrightarrow> lookup (view t) (addrs t ip) (bpath bn') \<noteq> a) \<and>
    (\<forall>x. x div BSIZE < MAXFILE \<longrightarrow> content (view t) (addrs t ip) x = content (view s) (addrs s ip) x) \<and>
    (\<forall>B. apart s ip B \<longrightarrow> apart t ip B \<and> (\<forall>x. x div BSIZE < MAXFILE \<longrightarrow> content (view t) B x = content (view s) B x))"
proof -
  obtain a t where t: "bmap ip bn s = Inr (a, t)" "map_step 4 ip s t" "fs_ok pid t" "file_ok t ip" "a \<noteq> 0"
      "lookup (view t) (addrs t ip) (bpath bn) = a"
    using bmap_ok [OF ok bn sp] by blast
  have tk: "tree_ok (view t) (addrs t ip) (data t)" using t(4) by (simp add: file_ok_def)
  have q: "pos_ok (bpath b)" if "b < MAXFILE" for b using bpath_leaf [OF that] by (simp add: leaf_def)
  have "a \<in> data t" using tree_memI [OF q [OF bn], of "view t" "addrs t ip"] t(5,6) tk by (auto simp: tree_ok_def)
  moreover have "\<exists>u. bmap ip bn t = Inr (a, u) \<and> view u = view t" using bmap_mapped [OF t(3,4) bn] t(5,6) by auto
  moreover have "lookup (view t) (addrs t ip) (bpath b) \<noteq> a" if "b < MAXFILE" "b \<noteq> bn" for b
    using tree_injD [OF tk q [OF bn] q [OF that(1)]] t(5,6) bpath_inj that(2) by metis
  ultimately show ?thesis
    using t map_stepD(2) [OF t(2)] ext_step_apart [OF map_stepD(1) [OF t(2)] ok(1)] by blast
qed

theorem bmap_correct_witness: "\<exists>a t. bmap 0 20000 small_file = Inr (a, t) \<and> a \<in> data t"
proof -
  have "(20000 :: nat) < MAXFILE" by (simp add: params)
  then show ?thesis using bmap_correct [of 0 small_file 0 20000] by auto
qed

text \<open>
  C2. \<open>writei\<close> at an offset inside the file returns the number of bytes, extends the size as
  far as needed, replaces exactly the bytes of the range, and \<open>readi\<close> reads them back; the
  contents of the other files are untouched.
\<close>

theorem writei_readi_roundtrip:
  fixes s :: "'a kfs_scheme"
  assumes ok: "fs_ok pid s" "file_ok s ip" and ty: "i_type (icache s ip) \<noteq> T_DEV" and off: "off \<le> i_size (icache s ip)"
    and inum: "i_inum (icache s ip) < unat (sb_ninodes (fs_sb s))" and n: "0 < n" "off + n \<le> MAXFILE * BSIZE"
    and sz: "i_size (icache s ip) \<le> MAXFILE * BSIZE"
    and sp: "4 * unmapped s ip (span off n) \<le> card (free s)"
      "12 * int (unmapped s ip (span off n)) + int (card (span off n)) + 1 \<le> log_space s"
  shows "\<exists>t u. writei devw ip src off n s = Inr (int n, t) \<and> readi devr ip off n t = Inr (int n, map src [0..<n], u) \<and>
    i_size (icache t ip) = max (i_size (icache s ip)) (off + n) \<and> fs_ok pid t \<and> file_ok t ip \<and>
    (\<forall>x. x div BSIZE < MAXFILE \<and> (x < off \<or> off + n \<le> x) \<longrightarrow> content (view t) (addrs t ip) x = content (view s) (addrs s ip) x) \<and>
    (\<forall>B. apart s ip B \<longrightarrow> apart t ip B \<and> (\<forall>x. x div BSIZE < MAXFILE \<longrightarrow> content (view t) B x = content (view s) B x))"
proof -
  obtain t where t: "writei devw ip src off n s = Inr (int n, t)" "fs_ok pid t" "file_ok t ip" "mapped t ip off n"
      "icache t = (icache s)(ip := (icache s ip)\<lparr>i_size := max (i_size (icache s ip)) (off + n), i_addrs := addrs t ip\<rparr>)"
      "\<forall>x. x div BSIZE < MAXFILE \<longrightarrow> content (view t) (addrs t ip) x =
         (if off \<le> x \<and> x < off + n then src (x - off) else content (view s) (addrs s ip) x)"
      "\<forall>B. apart s ip B \<longrightarrow> apart t ip B \<and> (\<forall>x. x div BSIZE < MAXFILE \<longrightarrow> content (view t) B x = content (view s) B x)"
    using writei_ok [OF ok ty off inum n sp] by blast
  have ic: "i_size (icache t ip) = max (i_size (icache s ip)) (off + n)" "i_type (icache t ip) = i_type (icache s ip)"
    using arg_cong [OF t(5), of "\<lambda>f. f ip"] by simp_all
  have m: "min n (i_size (icache t ip) - off) = n" using ic(1) by simp
  have "off + n < 2 ^ 32" "i_size (icache t ip) \<le> MAXFILE * BSIZE" "off \<le> i_size (icache t ip)" "i_type (icache t ip) \<noteq> T_DEV"
    using ic sz n(2) off ty maxfile_word by auto
  then obtain u where "readi devr ip off n t = Inr (int n, map (\<lambda>i. content (view t) (addrs t ip) (off + i)) [0..<n], u)"
    using readi_ok [OF t(2,3), of off n devr] t(4) m by auto
  moreover have "map (\<lambda>i. content (view t) (addrs t ip) (off + i)) [0..<n] = map src [0..<n]"
  proof (rule map_cong [OF refl])
    fix i assume "i \<in> set [0..<n]"
    then have i: "i < n" by simp
    then have "(off + i) div BSIZE < MAXFILE" using n(2) by (simp add: less_mult_imp_div_less)
    then show "content (view t) (addrs t ip) (off + i) = src i" using t(6) i by simp
  qed
  ultimately show ?thesis using t ic(1) by (intro exI [of _ t] exI [of _ u]) auto
qed

theorem writei_readi_roundtrip_witness:
  "\<exists>t u. writei (\<lambda>_. None) 0 (\<lambda>i. word_of_nat (65 + i)) 0 3 small_file = Inr (3, t) \<and>
     readi (\<lambda>_. None) 0 0 3 t = Inr (3, [65, 66, 67], u) \<and> i_size (icache t 0) = 3"
proof -
  have s: "span 0 3 = {0}" by (simp add: span_def params numeral_3_eq_3 lessThan_Suc)
  have "unmapped small_file 0 (span 0 3) \<le> 1" using unmapped_le [of "span 0 3" small_file 0] s by simp
  then have "4 * unmapped small_file 0 (span 0 3) \<le> card (free small_file)"
    "12 * int (unmapped small_file 0 (span 0 3)) + int (card (span 0 3)) + 1 \<le> log_space small_file" using s by simp_all
  then show ?thesis
    using writei_readi_roundtrip [of 0 small_file 0 0 3 "\<lambda>_. None" "\<lambda>i. word_of_nat (65 + i)" "\<lambda>_. None"]
    by (auto simp: small_sb_def params upt_rec)
qed

end
