(* ===== verification/FsInode.thy ===== *)
theory FsInode
  imports FsData
begin

text \<open>
  Inodes on disk and path names: \<open>iupdate\<close> followed by the \<open>ilock\<close> of a recycled cache entry
  brings every field of the inode back, and \<open>skipelem\<close> splits a path into its components.
\<close>

section \<open>Reading an inode from the disk\<close>

lemma get_dinode_lock: "(get_dinode a d (y\<lparr>i_lock := l\<rparr>))\<lparr>i_valid := True\<rparr> = (get_dinode a d y)\<lparr>i_lock := l, i_valid := True\<rparr>"
  by (cases y) (simp add: get_dinode_def cong: if_cong)

lemma ilock_ok:
  fixes s :: "'a kfs_scheme"
  assumes ok: "fs_ok pid s" and ip: "i_dev (icache s ip) = 1" "i_inum (icache s ip) < unat (sb_ninodes (fs_sb s))"
    and lk: "1 \<le> i_ref (icache s ip)" "\<not> sl_locked (i_lock (icache s ip))" "\<not> i_valid (icache s ip)"
  defines "x \<equiv> get_dinode (dinode_addr (i_inum (icache s ip))) (view s (IBLOCK (i_inum (icache s ip)) (fs_sb s))) (icache s ip)"
  assumes ty: "i_type x \<noteq> 0"
  shows "\<exists>t. ilock (Some ip) s = Inr t \<and> view t = view s \<and> fs_ok pid t \<and>
    icache t = (icache s)(ip := x\<lparr>i_lock := \<lparr>sl_locked = True, sl_pid = pid\<rparr>, i_valid := True\<rparr>)"
proof -
  note w = fs_okD [OF ok]
  let ?n = "IBLOCK (i_inum (icache s ip)) (fs_sb s)" and ?lk = "\<lparr>sl_locked = True, sl_pid = pid\<rparr>"
  let ?s = "upd_inode ip (\<lambda>x. x\<lparr>i_lock := ?lk\<rparr>) s"
  have n: "?n \<in> home_blocks s" "?n \<notin> held s" using ip(2) w(2,4) by (auto simp: fs_wf_def meta_def)
  then have n': "?n < disksize ?s" "?n \<notin> held ?s" "?n \<noteq> lg_start ?s"
    using start_in_area [OF w(1)] by (auto simp: home_blocks_def)
  have pid: "curpid s = Inr pid" using w(1) by (simp add: log_wf_def bio_wf_def)
  have ws: "log_wf pid ?s" "held ?s = {}" using w(1,2) by simp_all
  obtain bp t where t: "bread 1 ?n ?s = Inr (bp, t)" "b_data (bcache t bp) = view ?s ?n" "log_wf pid t" "holds ?n bp t" "?n \<in> held t"
    "?n \<in> dirty t \<or> view t ?n = disk t ?n" "view t = view ?s" "held t = insert ?n (held ?s)" "bio_step ?s t"
    using log_read_ok [OF ws(1) n' busy_idle [OF ws]] by blast
  let ?t = "upd_inode ip (get_dinode (dinode_addr (i_inum (icache t ip))) (b_data (bcache t bp))) t"
  have hb: "holds ?n bp ?t" using t(4) obs_cong(5) [of ?t t ?n bp] by simp
  obtain u where u: "brelse bp ?t = Inr u" "log_wf pid u" "view u = view ?t" "held u = held ?t - {?n}" "bio_step ?t u"
    using log_release_ok [OF _ hb, of pid] t(3,5,6) by auto
  note f = bio_step_fs [OF t(9)] bio_step_fs [OF u(5)] bio_step_log [OF t(9)] bio_step_log [OF u(5)] bio_step_sel [OF t(9)] bio_step_sel [OF u(5)]
  let ?u = "upd_inode ip (\<lambda>x. x\<lparr>i_valid := True\<rparr>) u"
  have ic: "icache ?u = (icache s)(ip := x\<lparr>i_lock := ?lk, i_valid := True\<rparr>)"
    using f(2,8) t(2) by (simp add: x_def get_dinode_lock)
  have l: "lock_inode ip s = Inr ?s" using pid lk(2) by (simp add: lock_inode_def acquiresleep_def)
  have "i_type (icache u ip) \<noteq> 0" using arg_cong [OF ic, of "\<lambda>f. i_type (f ip)"] ty by simp
  then have "ilock (Some ip) s = Inr ?u"
    using l t(1) u(1) lk ip(1) by (simp add: ilock_def)
  moreover have "view ?u = view s" "held ?u = {}" using u(3,4) t(7,8) w(2) by simp_all
  moreover have "free ?u = free s" using calculation(2) f(1,3,7,9) by (simp add: free_def)
  ultimately show ?thesis
    using ok u(2) ic f by (intro exI [of _ ?u]) (simp add: fs_ok_def txn_def fs_wf_def)
qed

section \<open>The components of a path\<close>

text \<open>The components of a path: its maximal runs of bytes other than the slash.\<close>

fun components :: "byte list \<Rightarrow> byte list \<Rightarrow> byte list list" where
  "components e [] = (if e = [] then [] else [e])"
| "components e (c # cs) =
     (if c = slash then (if e = [] then components [] cs else e # components [] cs) else components (e @ [c]) cs)"

lemma components_run: "slash \<notin> set e \<Longrightarrow> components d (e @ cs) = components (d @ e) cs"
  by (induction e arbitrary: d) auto

lemma components_slash: "components [] (dropWhile (\<lambda>c. c = slash) cs) = components [] cs"
  by (induction cs) auto

lemma components_split:
  assumes "e \<noteq> []" "slash \<notin> set e" "cs = [] \<or> hd cs = slash"
  shows "components [] (e @ cs) = e # components [] (dropWhile (\<lambda>c. c = slash) cs)"
proof -
  have "components [] (e @ cs) = components e cs" using components_run [OF assms(2), of "[]"] by simp
  also have "\<dots> = e # components [] cs" using assms(1,3) by (cases cs) auto
  finally show ?thesis by (simp add: components_slash)
qed

lemma skipelem_None: "skipelem path name = None \<longleftrightarrow> components [] path = []"
proof -
  have "components [] cs \<noteq> []" if "hd cs \<noteq> slash" "cs \<noteq> []" for cs
  proof -
    have "e \<noteq> [] \<Longrightarrow> components e cs \<noteq> []" for e cs by (induction e cs rule: components.induct) auto
    then show ?thesis using that by (cases cs) auto
  qed
  then have "dropWhile (\<lambda>c. c = slash) path = [] \<longleftrightarrow> components [] (dropWhile (\<lambda>c. c = slash) path) = []"
    using hd_dropWhile [of "\<lambda>c. c = slash" path] by (metis components.simps(1))
  then show ?thesis by (simp add: skipelem_def Let_def components_slash)
qed

lemma skipelem_Some:
  assumes "skipelem path name = Some (rest, name')"
  shows "\<exists>e. components [] path = e # components [] rest \<and> e \<noteq> [] \<and> slash \<notin> set e \<and>
    (\<forall>i < min (length e) DIRSIZ. name' i = e ! i) \<and> (length e < DIRSIZ \<longrightarrow> name' (length e) = 0)"
proof -
  let ?s = "dropWhile (\<lambda>c. c = slash) path"
  let ?e = "takeWhile (\<lambda>c. c \<noteq> slash) ?s" and ?r = "dropWhile (\<lambda>c. c \<noteq> slash) ?s"
  have s: "?s \<noteq> []" "rest = dropWhile (\<lambda>c. c = slash) ?r" and n: "\<forall>i < min (length ?e) DIRSIZ. name' i = ?e ! i"
      "length ?e < DIRSIZ \<longrightarrow> name' (length ?e) = 0"
    using assms by (auto simp: skipelem_def Let_def split: if_splits)
  have e: "?e \<noteq> []" "slash \<notin> set ?e" "?r = [] \<or> hd ?r = slash"
    using s(1) hd_dropWhile [of "\<lambda>c. c = slash" path] hd_dropWhile [of "\<lambda>c. c \<noteq> slash" ?s]
    by (auto simp: takeWhile_eq_Nil_iff dest: set_takeWhileD)
  have "components [] path = ?e # components [] rest"
    using components_split [OF e] s(2) by (simp add: components_slash)
  then show ?thesis using e n by blast
qed

section \<open>Properties\<close>

text \<open>
  C29. \<open>iupdate\<close> writes an inode to its slot of the disk inode array so that \<open>ilock\<close> of any
  recycled cache entry for the same inode number reads back its type, device numbers, link
  count, size and all block addresses.
\<close>

theorem iupdate_ilock_roundtrip:
  fixes s :: "'a kfs_scheme"
  assumes ok: "fs_ok pid s" and ip: "i_dev (icache s ip) = 1" "i_inum (icache s ip) < unat (sb_ninodes (fs_sb s))"
    and sp: "1 \<le> log_space s" and r: "inode_range (icache s ip)" "i_type (icache s ip) \<noteq> 0"
    and y: "i_dev y = 1" "i_inum y = i_inum (icache s ip)" "1 \<le> i_ref y" "\<not> sl_locked (i_lock y)" "\<not> i_valid y"
  shows "\<exists>t u. iupdate ip s = Inr t \<and> ilock (Some jp) (upd_inode jp (\<lambda>_. y) t) = Inr u \<and> i_valid (icache u jp) \<and>
    i_type (icache u jp) = i_type (icache s ip) \<and> i_major (icache u jp) = i_major (icache s ip) \<and>
    i_minor (icache u jp) = i_minor (icache s ip) \<and> i_nlink (icache u jp) = i_nlink (icache s ip) \<and>
    i_size (icache u jp) = i_size (icache s ip) \<and>
    (\<forall>i < NDIRECT + 3. i_addrs (icache u jp) i = i_addrs (icache s ip) i) \<and> holdingsleep pid (i_lock (icache u jp))"
proof -
  obtain t where t: "iupdate ip s = Inr t" "log_step s t" "fs_ok pid t"
     "view t = (view s)(IBLOCK (i_inum (icache s ip)) (fs_sb s) :=
        put_dinode (dinode_addr (i_inum (icache s ip))) (icache s ip) (view s (IBLOCK (i_inum (icache s ip)) (fs_sb s))))"
    using iupdate_ok [OF ok ip sp] by blast
  let ?t = "upd_inode jp (\<lambda>_. y) t"
  let ?x = "get_dinode (dinode_addr (i_inum (icache ?t jp))) (view ?t (IBLOCK (i_inum (icache ?t jp)) (fs_sb ?t))) (icache ?t jp)"
  have x: "?x = y\<lparr>i_type := i_type (icache s ip), i_major := i_major (icache s ip), i_minor := i_minor (icache s ip),
      i_nlink := i_nlink (icache s ip), i_size := i_size (icache s ip),
      i_addrs := \<lambda>i. if i < NDIRECT + 3 then i_addrs (icache s ip) i else i_addrs y i\<rparr>"
    using t(4) y(2) log_step_fs(1) [OF t(2)] get_put_dinode [OF r(1)] by simp
  have "\<exists>u. ilock (Some jp) ?t = Inr u \<and> view u = view ?t \<and> fs_ok pid u \<and>
      icache u = (icache ?t)(jp := ?x\<lparr>i_lock := \<lparr>sl_locked = True, sl_pid = pid\<rparr>, i_valid := True\<rparr>)"
    by (rule ilock_ok) (use t(3) y ip(2) r(2) x log_step_fs(1) [OF t(2)] in simp_all)
  then show ?thesis using t(1) x by (auto simp: holdingsleep_def)
qed

theorem iupdate_ilock_roundtrip_witness:
  "\<exists>t u. iupdate 0 small_file = Inr t \<and>
     ilock (Some 7) (upd_inode 7 (\<lambda>_. zero_inode\<lparr>i_dev := 1, i_inum := 1, i_ref := 1\<rparr>) t) = Inr u \<and> i_type (icache u 7) = T_FILE"
proof -
  have z: "icache small_file 0 = zero_inode\<lparr>i_dev := 1, i_inum := 1, i_ref := 1, i_valid := True, i_type := T_FILE\<rparr>"
    by (simp add: small_file_def)
  then have "inode_range (icache small_file 0)" by (simp add: inode_range_def zero_inode_def short_range_def params)
  then show ?thesis
    using iupdate_ilock_roundtrip [of 0 small_file 0 "zero_inode\<lparr>i_dev := 1, i_inum := 1, i_ref := 1\<rparr>" 7] z
    by (auto simp: zero_inode_def initsleeplock_def small_sb_def params)
qed

text \<open>
  \<open>skipelem\<close> takes the first component off a path: it returns no element exactly when the
  path has no component left, otherwise the rest of the path has the remaining components and
  the name holds the component, cut to \<open>DIRSIZ\<close> bytes and zero terminated when shorter.
\<close>

theorem skipelem_correct:
  "(skipelem path name = None) = (components [] path = []) \<and>
   (\<forall>rest name'. skipelem path name = Some (rest, name') \<longrightarrow>
      (\<exists>e. components [] path = e # components [] rest \<and> e \<noteq> [] \<and> slash \<notin> set e \<and>
        (\<forall>i < min (length e) DIRSIZ. name' i = e ! i) \<and> (length e < DIRSIZ \<longrightarrow> name' (length e) = 0)))"
  using skipelem_None skipelem_Some by blast

theorem skipelem_correct_witness:
  "\<exists>rest name'. skipelem [47, 97, 47, 98] (\<lambda>_. 0) = Some (rest, name') \<and> components [] rest = [[98]]"
proof -
  have "skipelem [47, 97, 47, 98] (\<lambda>_. 0) \<noteq> None" using skipelem_correct [of "[47, 97, 47, 98]" "\<lambda>_. 0"] by (simp add: slash_def)
  then obtain rest name' where "skipelem [47, 97, 47, 98] (\<lambda>_. 0) = Some (rest, name')" by auto
  then show ?thesis using skipelem_correct [of "[47, 97, 47, 98]" "\<lambda>_. 0"] by (auto simp: slash_def)
qed

end
