(* ===== verification/Ring.thy ===== *)
theory Ring
  imports Prelude
begin

text \<open>
  Ring buffers with wrapping counters, as the pipe and the console input line use them: entry
  \<open>c\<close> of an array of \<open>N\<close> cells is at \<open>c mod N\<close> for an unsigned 32-bit counter \<open>c\<close>. The bytes
  between the read counter and the write counter form a first-in first-out queue, also across
  the overflow of the counters, because \<open>N\<close> divides \<open>2 ^ 32\<close>.
\<close>

section \<open>The queue between two counters\<close>

definition ring_items :: "nat \<Rightarrow> (nat \<Rightarrow> 'b) \<Rightarrow> 32 word \<Rightarrow> 32 word \<Rightarrow> 'b list" where
  "ring_items N d r w = map (\<lambda>k. d ((unat r + k) mod N)) [0..<unat (w - r)]"

lemma length_ring_items [simp]: "length (ring_items N d r w) = unat (w - r)"
  by (simp add: ring_items_def)

lemma ring_items_Nil [simp]: "ring_items N d r w = [] \<longleftrightarrow> r = w"
  using length_ring_items [of N d r w] by (auto simp: ring_items_def unat_eq_0)

lemma unat_add_mod:
  fixes a b :: "32 word"
  assumes "N dvd 2 ^ 32"
  shows "unat (a + b) mod N = (unat a + unat b) mod N"
proof -
  have "unat (a + b) mod N = (unat a + unat b) mod 2 ^ 32 mod N" by (simp add: unat_word_ariths)
  also have "\<dots> = (unat a + unat b) mod N" using assms by (rule mod_mod_cancel)
  finally show ?thesis .
qed

lemma ring_put:
  assumes N: "N dvd 2 ^ 32" "N < 2 ^ 32" and lt: "unat (w - r) < N"
  shows "ring_items N (d(unat w mod N := c)) r (w + 1) = ring_items N d r w @ [c]" "unat (w + 1 - r) = Suc (unat (w - r))"
proof -
  have "Suc (unat (w - r)) < 2 ^ 32" using lt N(2) by simp
  then have u: "unat (w - r + 1) = Suc (unat (w - r))" by (simp add: unat_word_ariths)
  then show cnt: "unat (w + 1 - r) = Suc (unat (w - r))" by (simp add: algebra_simps)
  have e: "unat w mod N = (unat r + unat (w - r)) mod N" using unat_add_mod [OF N(1), of r "w - r"] by simp
  have "(unat r + k) mod N \<noteq> unat w mod N" if "k < unat (w - r)" for k
  proof
    assume "(unat r + k) mod N = unat w mod N"
    then have "(unat r + k) mod N = (unat r + unat (w - r)) mod N" using e by simp
    then have "N dvd (unat r + unat (w - r)) - (unat r + k)" using mod_eq_dvd_iff_nat [of "unat r + k" "unat r + unat (w - r)" N] that by simp
    then have "N dvd unat (w - r) - k" by simp
    then show False using that lt by (auto dest: dvd_imp_le)
  qed
  then show "ring_items N (d(unat w mod N := c)) r (w + 1) = ring_items N d r w @ [c]"
    unfolding ring_items_def cnt by (simp add: e [symmetric])
qed

lemma ring_get:
  assumes N: "N dvd 2 ^ 32" and ne: "r \<noteq> w"
  shows "ring_items N d r w = d (unat r mod N) # ring_items N d (r + 1) w" "Suc (unat (w - (r + 1))) = unat (w - r)"
proof -
  have "w - r \<noteq> 0" using ne by simp
  then have "unat (w - r - 1) = unat (w - r) - 1" "0 < unat (w - r)" by (simp_all add: unat_minus_one unat_gt_0)
  then show cnt: "Suc (unat (w - (r + 1))) = unat (w - r)" by (simp add: algebra_simps)
  have "(unat r + Suc k) mod N = (unat (r + 1) + k) mod N" for k
  proof -
    have "(unat (r + 1) + k) mod N = (unat (r + 1) mod N + k) mod N" by (simp add: mod_add_left_eq)
    also have "\<dots> = ((unat r + 1) mod N + k) mod N" using unat_add_mod [OF N, of r 1] by simp
    also have "\<dots> = (unat r + Suc k) mod N" by (simp add: mod_add_left_eq)
    finally show ?thesis by simp
  qed
  then show "ring_items N d r w = d (unat r mod N) # ring_items N d (r + 1) w"
    unfolding ring_items_def cnt [symmetric] upt_conv_Cons [OF zero_less_Suc] map_upt_Suc [symmetric]
    by (simp add: map_Suc_upt [symmetric] comp_def del: upt_Suc)
qed

lemma ring_prefix:
  "unat (w - r) \<le> unat (e - r) \<Longrightarrow> ring_items N d r w = take (unat (w - r)) (ring_items N d r e)"
  by (simp add: ring_items_def take_map min_def)

lemma ring_diff:
  fixes r w e :: "32 word"
  assumes "unat (w - r) \<le> unat (e - r)"
  shows "unat (e - w) = unat (e - r) - unat (w - r)"
proof -
  have "e - w = (e - r) - (w - r)" by simp
  then show ?thesis using assms by (metis unat_sub word_le_nat_alt)
qed

lemma ring_suffix:
  assumes N: "N dvd 2 ^ 32" and le: "unat (w - r) \<le> unat (e - r)"
  shows "ring_items N d w e = drop (unat (w - r)) (ring_items N d r e)"
proof -
  have "(unat w + k) mod N = (unat r + (unat (w - r) + k)) mod N" for k
  proof -
    have "(unat w + k) mod N = (unat (r + (w - r)) mod N + k) mod N" by (simp add: mod_add_left_eq)
    also have "\<dots> = ((unat r + unat (w - r)) mod N + k) mod N" by (simp only: unat_add_mod [OF N])
    finally show ?thesis by (simp add: mod_add_left_eq add.assoc)
  qed
  then show ?thesis unfolding ring_items_def ring_diff [OF le] by (simp add: drop_map list_eq_iff_nth_eq)
qed

lemma ring_unput:
  assumes "e \<noteq> r"
  shows "ring_items N d r (e - 1) = butlast (ring_items N d r e)" "Suc (unat (e - 1 - r)) = unat (e - r)"
proof -
  have "e - r \<noteq> 0" using assms by simp
  then have "unat (e - r - 1) = unat (e - r) - 1" "0 < unat (e - r)" by (simp_all add: unat_minus_one unat_gt_0)
  then show c: "Suc (unat (e - 1 - r)) = unat (e - r)" by (simp add: algebra_simps)
  show "ring_items N d r (e - 1) = butlast (ring_items N d r e)"
    unfolding ring_items_def c [symmetric] by (simp add: butlast_append)
qed

section \<open>First-in first-out queues\<close>

locale fifo =
  fixes items :: "'r \<Rightarrow> 'e list" and put :: "'e \<Rightarrow> 'r \<Rightarrow> 'r" and get :: "'r \<Rightarrow> 'r" and cap :: nat
  assumes put_items: "length (items x) < cap \<Longrightarrow> items (put c x) = items x @ [c]"
    and get_items: "items x \<noteq> [] \<Longrightarrow> items (get x) = tl (items x)"
begin

lemma put_all: "length (items x) + length cs \<le> cap \<Longrightarrow> items (fold put cs x) = items x @ cs"
proof (induction cs arbitrary: x)
  case Nil
  then show ?case by simp
next
  case (Cons c cs)
  have p: "items (put c x) = items x @ [c]" using Cons.prems by (intro put_items) simp
  then show ?case using Cons.IH [of "put c x"] Cons.prems by simp
qed

lemma get_all: "n \<le> length (items x) \<Longrightarrow> items ((get ^^ n) x) = drop n (items x)"
proof (induction n)
  case 0
  then show ?case by simp
next
  case (Suc n)
  then show ?case using get_items [of "(get ^^ n) x"] by (auto simp: drop_Suc tl_drop)
qed

text \<open>What is put in comes out in the same order.\<close>

lemma put_get:
  assumes "length (items x) + length cs \<le> cap" "n = length (items x)"
  shows "items ((get ^^ n) (fold put cs x)) = cs"
  using put_all [OF assms(1)] get_all [of n "fold put cs x"] assms(2) by simp

end

end
