(* ===== verification/Pipe.thy ===== *)
theory Pipe
  imports FsAlloc Ring
begin

text \<open>
  The file table and pipes: \<^verbatim>\<open>struct file\<close> of \<^verbatim>\<open>file.h\<close>, \<open>filealloc\<close> and \<open>filedup\<close> of
  \<^verbatim>\<open>file.c\<close>, and \<^verbatim>\<open>pipe.c\<close>. A pipe lives in the page that \<open>kalloc\<close> returned and is named by
  its address. The counters \<open>pi_nread\<close> and \<open>pi_nwrite\<close> are 32-bit words that wrap.

  \<open>pipewrite\<close> and \<open>piperead\<close> can sleep in the middle. A call runs up to the point where it
  returns (\<open>Done\<close>) or gives up the CPU inside \<open>sleep\<close> (\<open>Asleep i\<close>, with \<open>i\<close> the bytes moved so
  far); the \<open>_resume\<close> operations continue it when the process is scheduled again.
\<close>

section \<open>State\<close>

datatype fdtype = FD_NONE | FD_PIPE | FD_INODE

record file_t =
  f_type :: fdtype
  f_ref :: int
  f_readable :: bool
  f_writable :: bool
  f_pipe :: nat
  f_ip :: "nat option"
  f_off :: nat

record pipe =
  pi_data :: "nat \<Rightarrow> byte"
  pi_nread :: "32 word"
  pi_nwrite :: "32 word"
  pi_readopen :: bool
  pi_writeopen :: bool

record kfile = kfs +
  ftable :: "nat \<Rightarrow> file_t"
  pipes :: "nat \<Rightarrow> pipe"

definition upd_file :: "nat \<Rightarrow> (file_t \<Rightarrow> file_t) \<Rightarrow> 'a kfile_scheme \<Rightarrow> 'a kfile_scheme" where
  "upd_file f g s = s\<lparr>ftable := (ftable s)(f := g (ftable s f))\<rparr>"

definition upd_pipe :: "nat \<Rightarrow> (pipe \<Rightarrow> pipe) \<Rightarrow> 'a kfile_scheme \<Rightarrow> 'a kfile_scheme" where
  "upd_pipe p g s = s\<lparr>pipes := (pipes s)(p := g (pipes s p))\<rparr>"

datatype 'a blocking = Done 'a | Asleep nat

section \<open>The file table\<close>

definition filealloc :: "'a kfile_scheme \<Rightarrow> (nat option \<times> 'a kfile_scheme) res" where
  "filealloc s =
     bindR (acquire Lftable s) (\<lambda>s.
     case find (\<lambda>f. f_ref (ftable s f) = 0) [0..<NFILE] of
       Some f \<Rightarrow> bindR (release Lftable (upd_file f (\<lambda>x. x\<lparr>f_ref := 1\<rparr>) s)) (\<lambda>s. Inr (Some f, s))
     | None \<Rightarrow> bindR (release Lftable s) (\<lambda>s. Inr (None, s)))"

definition filedup :: "nat \<Rightarrow> 'a kfile_scheme \<Rightarrow> (nat \<times> 'a kfile_scheme) res" where
  "filedup f s =
     bindR (acquire Lftable s) (\<lambda>s.
     if f_ref (ftable s f) < 1 then Inl (Kpanic ''filedup'')
     else bindR (release Lftable (upd_file f (\<lambda>x. x\<lparr>f_ref := f_ref x + 1\<rparr>) s)) (\<lambda>s. Inr (f, s)))"

section \<open>Pipes\<close>

definition PIPESIZE :: nat where [params]: "PIPESIZE = 512"

definition pipeclose :: "nat \<Rightarrow> bool \<Rightarrow> 'a kfile_scheme \<Rightarrow> 'a kfile_scheme res" where
  "pipeclose p writable s =
     bindR (acquire (Lpipe p) s) (\<lambda>s.
     bindR (if writable then wakeup (Some (ChPipeRead p)) (upd_pipe p (\<lambda>x. x\<lparr>pi_writeopen := False\<rparr>) s)
            else wakeup (Some (ChPipeWrite p)) (upd_pipe p (\<lambda>x. x\<lparr>pi_readopen := False\<rparr>) s)) (\<lambda>s.
     if \<not> pi_readopen (pipes s p) \<and> \<not> pi_writeopen (pipes s p) then bindR (release (Lpipe p) s) (kfree p)
     else release (Lpipe p) s))"

definition killed :: "'a kproc_scheme \<Rightarrow> bool res" where
  "killed s = (case myproc s of None \<Rightarrow> Inl NullDeref | Some p \<Rightarrow> Inr (p_killed (ptable s p)))"

definition pipe_full :: "pipe \<Rightarrow> bool" where
  "pipe_full x \<longleftrightarrow> pi_nwrite x = pi_nread x + word_of_nat PIPESIZE"

definition pipe_put :: "byte \<Rightarrow> pipe \<Rightarrow> pipe" where
  "pipe_put c x = x\<lparr>pi_data := (pi_data x)(unat (pi_nwrite x) mod PIPESIZE := c), pi_nwrite := pi_nwrite x + 1\<rparr>"

text \<open>The loop of \<open>pipewrite\<close> from byte \<open>i\<close> on, with the lock of the pipe held.\<close>

function pipewrite_loop :: "nat \<Rightarrow> (nat \<Rightarrow> byte) \<Rightarrow> int \<Rightarrow> nat \<Rightarrow> 'a kfile_scheme \<Rightarrow> (int blocking \<times> 'a kfile_scheme) res" where
  "pipewrite_loop p addr n i s =
     (if int i < n then
        if pipe_full (pipes s p) then
          bindR (if \<not> pi_readopen (pipes s p) then Inr True else killed s) (\<lambda>stop.
          if stop then bindR (release (Lpipe p) s) (\<lambda>s. Inr (Done (- 1), s))
          else
            bindR (wakeup (Some (ChPipeRead p)) s) (\<lambda>s.
            bindR (sleep_to_sched (Some (ChPipeWrite p)) (Some (Lpipe p)) s) (\<lambda>s. Inr (Asleep i, s))))
        else pipewrite_loop p addr n (i + 1) (upd_pipe p (pipe_put (addr i)) s)
      else
        bindR (wakeup (Some (ChPipeRead p)) s) (\<lambda>s.
        bindR (release (Lpipe p) s) (\<lambda>s. Inr (Done n, s))))"
  by pat_completeness auto
termination by (relation "measure (\<lambda>(p, addr, n, i, s). nat n - i)") auto

declare pipewrite_loop.simps [simp del]

definition pipewrite :: "nat \<Rightarrow> (nat \<Rightarrow> byte) \<Rightarrow> int \<Rightarrow> 'a kfile_scheme \<Rightarrow> (int blocking \<times> 'a kfile_scheme) res" where
  "pipewrite p addr n s = bindR (acquire (Lpipe p) s) (pipewrite_loop p addr n 0)"

definition pipewrite_resume :: "nat \<Rightarrow> nat \<Rightarrow> (nat \<Rightarrow> byte) \<Rightarrow> int \<Rightarrow> nat \<Rightarrow> 'a kfile_scheme \<Rightarrow> (int blocking \<times> 'a kfile_scheme) res" where
  "pipewrite_resume q p addr n i s = bindR (sleep_resume q (Lpipe p) s) (pipewrite_loop p addr n i)"

text \<open>The copying loop of \<open>piperead\<close>: the bytes and the pipe after it.\<close>

function piperead_copy :: "int \<Rightarrow> nat \<Rightarrow> pipe \<Rightarrow> byte list \<times> pipe" where
  "piperead_copy n i x =
     (if int i < n \<and> pi_nread x \<noteq> pi_nwrite x then
        let c = pi_data x (unat (pi_nread x) mod PIPESIZE);
            (cs, y) = piperead_copy n (i + 1) (x\<lparr>pi_nread := pi_nread x + 1\<rparr>)
        in (c # cs, y)
      else ([], x))"
  by pat_completeness auto
termination by (relation "measure (\<lambda>(n, i, x). nat n - i)") auto

declare piperead_copy.simps [simp del]

definition piperead_loop :: "nat \<Rightarrow> int \<Rightarrow> 'a kfile_scheme \<Rightarrow> ((int \<times> byte list) blocking \<times> 'a kfile_scheme) res" where
  "piperead_loop p n s =
     (if pi_nread (pipes s p) = pi_nwrite (pipes s p) \<and> pi_writeopen (pipes s p) then
        bindR (killed s) (\<lambda>k.
        if k then bindR (release (Lpipe p) s) (\<lambda>s. Inr (Done (- 1, []), s))
        else bindR (sleep_to_sched (Some (ChPipeRead p)) (Some (Lpipe p)) s) (\<lambda>s. Inr (Asleep 0, s)))
      else
        let (cs, x) = piperead_copy n 0 (pipes s p) in
        bindR (wakeup (Some (ChPipeWrite p)) (upd_pipe p (\<lambda>_. x) s)) (\<lambda>s.
        bindR (release (Lpipe p) s) (\<lambda>s. Inr (Done (int (length cs), cs), s))))"

definition piperead :: "nat \<Rightarrow> int \<Rightarrow> 'a kfile_scheme \<Rightarrow> ((int \<times> byte list) blocking \<times> 'a kfile_scheme) res" where
  "piperead p n s = bindR (acquire (Lpipe p) s) (piperead_loop p n)"

definition piperead_resume :: "nat \<Rightarrow> nat \<Rightarrow> int \<Rightarrow> 'a kfile_scheme \<Rightarrow> ((int \<times> byte list) blocking \<times> 'a kfile_scheme) res" where
  "piperead_resume q p n s = bindR (sleep_resume q (Lpipe p) s) (piperead_loop p n)"

section \<open>The pipe as a queue\<close>

definition pipe_items :: "pipe \<Rightarrow> byte list" where
  "pipe_items x = ring_items PIPESIZE (pi_data x) (pi_nread x) (pi_nwrite x)"

definition pipe_get :: "pipe \<Rightarrow> pipe" where
  "pipe_get x = x\<lparr>pi_nread := pi_nread x + 1\<rparr>"

lemma pipesize_ring: "PIPESIZE dvd 2 ^ 32" "PIPESIZE < 2 ^ 32"
  by (simp_all add: params)

lemma pipe_put_items: "length (pipe_items x) < PIPESIZE \<Longrightarrow> pipe_items (pipe_put c x) = pipe_items x @ [c]"
  by (simp add: pipe_items_def pipe_put_def ring_put(1) [OF pipesize_ring])

lemma pipe_get_items:
  "pipe_items x \<noteq> [] \<Longrightarrow> pipe_items x = pi_data x (unat (pi_nread x) mod PIPESIZE) # pipe_items (pipe_get x)"
  using ring_get(1) [OF pipesize_ring(1)] by (simp add: pipe_items_def pipe_get_def)

interpretation pq: fifo pipe_items pipe_put pipe_get PIPESIZE
proof unfold_locales
  fix x assume "pipe_items x \<noteq> []"
  then show "pipe_items (pipe_get x) = tl (pipe_items x)" using pipe_get_items [of x] by (metis list.sel(3))
qed (rule pipe_put_items)

lemma pipe_full_iff: "pipe_full x \<longleftrightarrow> length (pipe_items x) = PIPESIZE"
proof -
  have "unat (word_of_nat PIPESIZE :: 32 word) = PIPESIZE" by (simp add: params)
  then have "unat (pi_nwrite x - pi_nread x) = PIPESIZE \<longleftrightarrow> pi_nwrite x - pi_nread x = word_of_nat PIPESIZE"
    by (metis word_unat_eq_iff)
  then show ?thesis by (auto simp: pipe_full_def pipe_items_def algebra_simps)
qed

lemma pipe_empty_iff: "pi_nread x = pi_nwrite x \<longleftrightarrow> pipe_items x = []"
  by (simp add: pipe_items_def)

lemma piperead_copy_eq:
  "piperead_copy n i x = (take (nat (n - int i)) (pipe_items x), (pipe_get ^^ min (nat (n - int i)) (length (pipe_items x))) x)"
proof (induction n i x rule: piperead_copy.induct)
  case (1 n i x)
  show ?case
  proof (cases "int i < n \<and> pi_nread x \<noteq> pi_nwrite x")
    case True
    then have g: "pipe_items x = pi_data x (unat (pi_nread x) mod PIPESIZE) # pipe_items (pipe_get x)"
      using pipe_get_items pipe_empty_iff by blast
    have k: "nat (n - int i) = Suc (nat (n - int (i + 1)))" using True by linarith
    have "piperead_copy n (i + 1) (pipe_get x) = (take (nat (n - int (i + 1))) (pipe_items (pipe_get x)),
        (pipe_get ^^ min (nat (n - int (i + 1))) (length (pipe_items (pipe_get x)))) (pipe_get x))"
      using 1 [OF True] unfolding pipe_get_def [of x, symmetric] by simp
    then have "piperead_copy n i x = (pi_data x (unat (pi_nread x) mod PIPESIZE) # take (nat (n - int (i + 1))) (pipe_items (pipe_get x)),
        (pipe_get ^^ Suc (min (nat (n - int (i + 1))) (length (pipe_items (pipe_get x))))) x)"
      unfolding piperead_copy.simps [of n i x] pipe_get_def [of x, symmetric] funpow_Suc_right comp_apply using True by simp
    moreover have "take (nat (n - int i)) (pipe_items x) = pi_data x (unat (pi_nread x) mod PIPESIZE) # take (nat (n - int (i + 1))) (pipe_items (pipe_get x))"
      unfolding k by (subst g) (rule take_Suc_Cons)
    moreover have "min (nat (n - int i)) (length (pipe_items x)) = Suc (min (nat (n - int (i + 1))) (length (pipe_items (pipe_get x))))"
      unfolding k by (subst g) (simp only: length_Cons min_Suc_Suc)
    ultimately show ?thesis by (simp only:)
  next
    case False
    then have "nat (n - int i) = 0 \<or> pipe_items x = []" unfolding pipe_empty_iff by linarith
    then have "min (nat (n - int i)) (length (pipe_items x)) = 0" "take (nat (n - int i)) (pipe_items x) = []" by auto
    moreover have "piperead_copy n i x = ([], x)" unfolding piperead_copy.simps [of n i x] by (rule if_not_P [OF False])
    ultimately show ?thesis by (simp only: funpow_0)
  qed
qed

text \<open>What the operations do to the state around the pipe.\<close>

lemma upd_pipe_sel [simp]:
  "pipes (upd_pipe p g s) = (pipes s)(p := g (pipes s p))" "ptable (upd_pipe p g s) = ptable s" "locks (upd_pipe p g s) = locks s"
  "myproc (upd_pipe p g s) = myproc s" "ftable (upd_pipe p g s) = ftable s"
  by (simp_all add: upd_pipe_def)

lemma wakeup_inv: "wakeup ch s = Inr t \<Longrightarrow> Lptable \<notin> set (locks s) \<and> t = s\<lparr>ptable := ptable (wakeup1 ch s)\<rparr>"
  by (cases "Lptable \<in> set (locks s)") (simp_all add: wakeup_ok, simp add: wakeup_def)

lemma sched_inv: "sched s = Inr t \<Longrightarrow> t = s \<and> locks s = [Lptable] \<and> (\<exists>q. myproc s = Some q \<and> p_state (ptable s q) \<noteq> RUNNING)"
  by (cases "locks s") (auto simp: sched_def holding_def split: option.splits if_splits)

lemma sleep_inv:
  assumes "sleep_to_sched (Some ch) (Some l) s = Inr t"
  shows "\<exists>q. myproc s = Some q \<and>
    t = s\<lparr>ptable := (ptable s)(q := (ptable s q)\<lparr>p_chan := Some ch, p_state := SLEEPING\<rparr>), locks := [Lptable]\<rparr>"
proof (cases "myproc s")
  case None
  then show ?thesis using assms by (simp add: sleep_to_sched_def)
next
  case (Some q)
  let ?f = "\<lambda>s. upd_proc q (\<lambda>x. x\<lparr>p_chan := Some ch, p_state := SLEEPING\<rparr>) s"
  obtain u where u: "(if l \<noteq> Lptable then bindR (acquire Lptable s) (release l) else Inr s) = Inr u" "sched (?f u) = Inr t"
    using assms Some by (auto simp: sleep_to_sched_def bindR_eq_Inr)
  then have "u = s\<lparr>locks := locks u\<rparr>" by (auto simp: res_iff split: if_splits)
  moreover have "t = ?f u" "locks (?f u) = [Lptable]" using sched_inv [OF u(2)] by simp_all
  ultimately have "t = ?f (s\<lparr>locks := [Lptable]\<rparr>)" by simp
  then show ?thesis using Some by (simp add: upd_proc_def)
qed

lemma pipewrite_loop_fold:
  assumes "pipewrite_loop p addr n i s = Inr (out, t)" "length (pipe_items (pipes s p)) \<le> PIPESIZE"
  shows "\<exists>j \<ge> i. pipes t = (pipes s)(p := fold pipe_put (map addr [i..<j]) (pipes s p)) \<and>
    length (pipe_items (pipes s p)) + (j - i) \<le> PIPESIZE \<and> j \<le> max i (nat n) \<and>
    (case out of Done r \<Rightarrow> r = n \<and> j = max i (nat n) \<or> r = - 1 \<and> length (pipe_items (pipes t p)) = PIPESIZE
     | Asleep k \<Rightarrow> k = j \<and> length (pipe_items (pipes t p)) = PIPESIZE)"
  using assms
proof (induction p addr n i s rule: pipewrite_loop.induct)
  case (1 p addr n i s)
  note call = 1(2) [unfolded pipewrite_loop.simps [of p addr n i s]]
  consider (move) "int i < n" "\<not> pipe_full (pipes s p)" | (full) "int i < n" "pipe_full (pipes s p)" | (fin) "\<not> int i < n" by blast
  then show ?case
  proof cases
    case move
    let ?s = "upd_pipe p (pipe_put (addr i)) s"
    have l: "length (pipe_items (pipes s p)) < PIPESIZE" using move(2) 1(3) pipe_full_iff by force
    have it: "length (pipe_items (pipes ?s p)) = Suc (length (pipe_items (pipes s p)))" using pipe_put_items [OF l] by simp
    then have le: "length (pipe_items (pipes ?s p)) \<le> PIPESIZE" using l by simp
    have r: "pipewrite_loop p addr n (i + 1) ?s = Inr (out, t)" using call move by simp
    obtain j where j: "j \<ge> i + 1" "pipes t = (pipes ?s)(p := fold pipe_put (map addr [i + 1..<j]) (pipes ?s p))"
        "length (pipe_items (pipes ?s p)) + (j - (i + 1)) \<le> PIPESIZE" "j \<le> max (i + 1) (nat n)"
        "case out of Done r \<Rightarrow> r = n \<and> j = max (i + 1) (nat n) \<or> r = - 1 \<and> length (pipe_items (pipes t p)) = PIPESIZE
         | Asleep k \<Rightarrow> k = j \<and> length (pipe_items (pipes t p)) = PIPESIZE"
      using 1(1) [OF move r le] by blast
    have "[i..<j] = i # [i + 1..<j]" using j(1) by (simp add: upt_conv_Cons)
    then have "pipes t = (pipes s)(p := fold pipe_put (map addr [i..<j]) (pipes s p))" using j(2) by simp
    moreover have mx: "max (i + 1) (nat n) = max i (nat n)" using move(1) by linarith
    moreover note j(4,5) [unfolded mx]
    ultimately show ?thesis using j(1,3) it by (intro exI [of _ j] conjI) simp_all
  next
    case full
    then have "length (pipe_items (pipes s p)) = PIPESIZE" by (simp add: pipe_full_iff)
    moreover have "pipes t = pipes s" "out = Done (- 1) \<or> out = Asleep i"
      using call full by (auto simp: res_iff split: if_splits dest!: wakeup_inv sleep_inv)
    ultimately show ?thesis by (intro exI [of _ i]) auto
  next
    case fin
    then have "pipes t = pipes s" "out = Done n" using call by (auto simp: res_iff dest!: wakeup_inv)
    then show ?thesis using 1(3) fin by (intro exI [of _ i]) auto
  qed
qed

section \<open>Sleepers\<close>

definition asleep_on :: "chan \<Rightarrow> 'a kproc_scheme \<Rightarrow> nat set" where
  "asleep_on ch s = {q. q < NPROC \<and> p_state (ptable s q) = SLEEPING \<and> p_chan (ptable s q) = Some ch}"

lemma asleep_wakeup [simp]:
  "asleep_on ch (s\<lparr>ptable := ptable (wakeup1 (Some ch') s)\<rparr>) = (if ch = ch' then {} else asleep_on ch s)"
  by (auto simp: asleep_on_def wakeup1_eq)

lemma asleep_cong: "ptable t = ptable s \<Longrightarrow> asleep_on ch t = asleep_on ch s"
  by (simp add: asleep_on_def)

lemma asleep_sleep:
  "asleep_on ch (s\<lparr>ptable := (ptable s)(q := (ptable s q)\<lparr>p_chan := Some ch', p_state := SLEEPING\<rparr>), locks := l\<rparr>) \<subseteq>
     (if ch = ch' then insert q (asleep_on ch s) else asleep_on ch s)"
  by (auto simp: asleep_on_def)

lemma sleep_ok:
  assumes "myproc s = Some q" "locks s = [l]" "l \<noteq> Lptable"
  shows "sleep_to_sched (Some ch) (Some l) s =
    Inr (s\<lparr>ptable := (ptable s)(q := (ptable s q)\<lparr>p_chan := Some ch, p_state := SLEEPING\<rparr>), locks := [Lptable]\<rparr>)"
  using assms by (simp add: sleep_to_sched_def sched_def upd_proc_def release_def holding_def)

lemma pipewrite_loop_ok:
  assumes "locks s = [Lpipe p]" "myproc s = Some q"
  shows "\<exists>out t. pipewrite_loop p addr n i s = Inr (out, t) \<and> (out \<noteq> Done (- 1) \<longrightarrow> asleep_on (ChPipeRead p) t = {}) \<and>
    asleep_on (ChPipeWrite p) t \<subseteq> asleep_on (ChPipeWrite p) s \<union> (case out of Asleep k \<Rightarrow> {q} | Done r \<Rightarrow> {}) \<and>
    pi_readopen (pipes t p) = pi_readopen (pipes s p) \<and> pi_writeopen (pipes t p) = pi_writeopen (pipes s p) \<and>
    (case out of Asleep k \<Rightarrow> pi_readopen (pipes s p) \<and> locks t = [Lptable]
     | Done r \<Rightarrow> locks t = [] \<and> (r = n \<or> \<not> pi_readopen (pipes s p) \<or> p_killed (ptable s q)))"
  using assms
proof (induction p addr n i s rule: pipewrite_loop.induct)
  case (1 p addr n i s)
  note unf = pipewrite_loop.simps [of p addr n i s]
  let ?w = "s\<lparr>ptable := ptable (wakeup1 (Some (ChPipeRead p)) s)\<rparr>"
  have w: "wakeup (Some (ChPipeRead p)) s = Inr ?w" using 1(2) by (simp add: wakeup_ok)
  have rel: "release (Lpipe p) s = Inr (s\<lparr>locks := []\<rparr>)" "release (Lpipe p) ?w = Inr (?w\<lparr>locks := []\<rparr>)" using 1(2) by simp_all
  have ac: "asleep_on ch (u\<lparr>locks := []\<rparr>) = asleep_on ch u" for ch and u :: "'a kfile_scheme" by (rule asleep_cong) simp
  consider (move) "int i < n" "\<not> pipe_full (pipes s p)" | (stop) "int i < n" "pipe_full (pipes s p)" "\<not> pi_readopen (pipes s p) \<or> p_killed (ptable s q)"
    | (full) "int i < n" "pipe_full (pipes s p)" "pi_readopen (pipes s p)" "\<not> p_killed (ptable s q)" | (fin) "\<not> int i < n" by blast
  then show ?case
  proof cases
    case move
    let ?u = "upd_pipe p (pipe_put (addr i)) s"
    have a: "asleep_on ch ?u = asleep_on ch s" for ch by (rule asleep_cong) simp
    have l: "locks ?u = [Lpipe p]" "myproc ?u = Some q" using 1(2,3) by simp_all
    have x: "pi_readopen (pipes ?u p) = pi_readopen (pipes s p)" "pi_writeopen (pipes ?u p) = pi_writeopen (pipes s p)" "ptable ?u = ptable s"
      by (simp_all add: pipe_put_def)
    show ?thesis unfolding unf if_P [OF move(1)] if_not_P [OF move(2)] by (rule 1(1) [OF move l, unfolded a x])
  next
    case stop
    then have "pipewrite_loop p addr n i s = Inr (Done (- 1), s\<lparr>locks := []\<rparr>)" using 1(3) rel unf by (auto simp: killed_def)
    then show ?thesis using stop(3) by (simp add: ac)
  next
    case full
    let ?t = "?w\<lparr>ptable := (ptable ?w)(q := (ptable ?w q)\<lparr>p_chan := Some (ChPipeWrite p), p_state := SLEEPING\<rparr>), locks := [Lptable]\<rparr>"
    have "sleep_to_sched (Some (ChPipeWrite p)) (Some (Lpipe p)) ?w = Inr ?t" using 1(2,3) by (intro sleep_ok) simp_all
    then have "pipewrite_loop p addr n i s = Inr (Asleep i, ?t)" using full 1(3) w unf by (simp add: killed_def)
    moreover have "asleep_on (ChPipeRead p) ?t = {}" "asleep_on (ChPipeWrite p) ?t \<subseteq> insert q (asleep_on (ChPipeWrite p) s)"
      using asleep_sleep [where s = ?w and q = q and l = "[Lptable]" and ch' = "ChPipeWrite p"] by fastforce+
    ultimately show ?thesis using full by simp
  next
    case fin
    then have "pipewrite_loop p addr n i s = Inr (Done n, ?w\<lparr>locks := []\<rparr>)" using w rel unf by simp
    then show ?thesis by (simp add: ac)
  qed
qed

lemma piperead_loop_inv:
  assumes "piperead_loop p n s = Inr (out, t)"
  shows "pipes t = (pipes s)(p := pipes t p)"
    "case out of Done (r, cs) \<Rightarrow> pipe_items (pipes s p) = cs @ pipe_items (pipes t p) \<and> (r = - 1 \<or> r = int (length cs) \<and> cs = take (nat n) (pipe_items (pipes s p)))
     | Asleep k \<Rightarrow> pipes t = pipes s"
proof -
  let ?e = "pi_nread (pipes s p) = pi_nwrite (pipes s p) \<and> pi_writeopen (pipes s p)"
  let ?k = "min (nat n) (length (pipe_items (pipes s p)))"
  have g: "pipe_items ((pipe_get ^^ ?k) (pipes s p)) = drop ?k (pipe_items (pipes s p))" by (rule pq.get_all) simp
  have eq: "piperead_copy n 0 (pipes s p) = (take (nat n) (pipe_items (pipes s p)), (pipe_get ^^ ?k) (pipes s p))"
    using piperead_copy_eq [of n 0] by simp
  have d: "take (nat n) xs @ drop (min (nat n) (length xs)) xs = xs" for xs :: "byte list"
    by (cases "nat n \<le> length xs") (simp_all add: min_def)
  have "pipes t = (pipes s)(p := pipes t p) \<and> (case out of Done (r, cs) \<Rightarrow> pipe_items (pipes s p) = cs @ pipe_items (pipes t p) \<and>
       (r = - 1 \<or> r = int (length cs) \<and> cs = take (nat n) (pipe_items (pipes s p))) | Asleep k \<Rightarrow> pipes t = pipes s)"
  proof (cases ?e)
    case True
    then show ?thesis using assms by (auto simp: piperead_loop_def res_iff killed_def split: if_splits option.splits dest!: sleep_inv)
  next
    case False
    then have "out = Done (int (length (take (nat n) (pipe_items (pipes s p)))), take (nat n) (pipe_items (pipes s p)))"
        "pipes t = (pipes s)(p := (pipe_get ^^ ?k) (pipes s p))"
      using assms eq by (auto simp: piperead_loop_def res_iff Let_def simp del: length_take dest!: wakeup_inv)
    then show ?thesis using g d by simp
  qed
  then show "pipes t = (pipes s)(p := pipes t p)"
    "case out of Done (r, cs) \<Rightarrow> pipe_items (pipes s p) = cs @ pipe_items (pipes t p) \<and> (r = - 1 \<or> r = int (length cs) \<and> cs = take (nat n) (pipe_items (pipes s p)))
     | Asleep k \<Rightarrow> pipes t = pipes s" by blast+
qed

lemma piperead_loop_ok:
  assumes l: "locks s = [Lpipe p]" "myproc s = Some q"
  shows "\<exists>out t. piperead_loop p n s = Inr (out, t) \<and> pi_readopen (pipes t p) = pi_readopen (pipes s p) \<and> pi_writeopen (pipes t p) = pi_writeopen (pipes s p) \<and>
    (case out of Asleep k \<Rightarrow> pipe_items (pipes s p) = [] \<and> pi_writeopen (pipes s p) \<and> locks t = [Lptable] \<and>
         asleep_on (ChPipeRead p) t \<subseteq> insert q (asleep_on (ChPipeRead p) s) \<and> asleep_on (ChPipeWrite p) t \<subseteq> asleep_on (ChPipeWrite p) s
     | Done (r, cs) \<Rightarrow> locks t = [] \<and> asleep_on (ChPipeRead p) t = asleep_on (ChPipeRead p) s \<and>
         (asleep_on (ChPipeWrite p) t = {} \<or> pipes t = pipes s \<and> asleep_on (ChPipeWrite p) t = asleep_on (ChPipeWrite p) s) \<and>
         (r = - 1 \<longrightarrow> p_killed (ptable s q)))"
proof -
  have ac: "asleep_on ch (u\<lparr>locks := []\<rparr>) = asleep_on ch u" for ch and u :: "'a kfile_scheme" by (rule asleep_cong) simp
  have rel: "locks u = [Lpipe p] \<Longrightarrow> release (Lpipe p) u = Inr (u\<lparr>locks := []\<rparr>)" for u :: "'a kfile_scheme" by simp
  consider (dead) "pi_nread (pipes s p) = pi_nwrite (pipes s p) \<and> pi_writeopen (pipes s p)" "p_killed (ptable s q)"
    | (empty) "pi_nread (pipes s p) = pi_nwrite (pipes s p) \<and> pi_writeopen (pipes s p)" "\<not> p_killed (ptable s q)"
    | (move) "\<not> (pi_nread (pipes s p) = pi_nwrite (pipes s p) \<and> pi_writeopen (pipes s p))" by blast
  then show ?thesis
  proof cases
    case dead
    then have "piperead_loop p n s = Inr (Done (- 1, []), s\<lparr>locks := []\<rparr>)" using l rel [OF l(1)] by (simp add: piperead_loop_def killed_def)
    then show ?thesis using dead(2) by (simp add: ac)
  next
    case empty
    let ?t = "s\<lparr>ptable := (ptable s)(q := (ptable s q)\<lparr>p_chan := Some (ChPipeRead p), p_state := SLEEPING\<rparr>), locks := [Lptable]\<rparr>"
    have "sleep_to_sched (Some (ChPipeRead p)) (Some (Lpipe p)) s = Inr ?t" using l by (intro sleep_ok) simp_all
    then have "piperead_loop p n s = Inr (Asleep 0, ?t)" using empty l by (simp add: piperead_loop_def killed_def)
    moreover have "asleep_on (ChPipeRead p) ?t \<subseteq> insert q (asleep_on (ChPipeRead p) s)" "asleep_on (ChPipeWrite p) ?t \<subseteq> asleep_on (ChPipeWrite p) s"
      using asleep_sleep [where s = s and q = q and l = "[Lptable]" and ch' = "ChPipeRead p"] by fastforce+
    ultimately show ?thesis using empty(1) pipe_empty_iff by simp
  next
    case move
    obtain cs x where c: "piperead_copy n 0 (pipes s p) = (cs, x)" by fastforce
    let ?u = "upd_pipe p (\<lambda>_. x) s"
    let ?w = "?u\<lparr>ptable := ptable (wakeup1 (Some (ChPipeWrite p)) ?u)\<rparr>"
    have fl: "pi_readopen ((pipe_get ^^ k) y) = pi_readopen y" "pi_writeopen ((pipe_get ^^ k) y) = pi_writeopen y" for k y
      by (induction k) (simp_all add: pipe_get_def)
    have x: "pi_readopen x = pi_readopen (pipes s p)" "pi_writeopen x = pi_writeopen (pipes s p)"
      using c fl unfolding piperead_copy_eq by auto
    have w: "wakeup (Some (ChPipeWrite p)) ?u = Inr ?w" using l by (simp add: wakeup_ok)
    have "piperead_loop p n s = Inr (Done (int (length cs), cs), ?w\<lparr>locks := []\<rparr>)"
      using move w rel [of ?w] l c by (auto simp: piperead_loop_def)
    moreover have "asleep_on (ChPipeRead p) ?u = asleep_on (ChPipeRead p) s" by (rule asleep_cong) simp
    ultimately show ?thesis using x by (simp add: ac)
  qed
qed

section \<open>Interleaved readers and writers\<close>

text \<open>
  \<open>pipe_run p s sent received\<close>: the state \<open>s\<close> is reached from the creation of the pipe by calls of
  any processes in any order, each run up to its return or to its sleep, and by steps of the rest
  of the kernel that leave the pipe alone; \<open>sent\<close> are the bytes the writers have stored so far
  and \<open>received\<close> the bytes the readers have returned.
\<close>

inductive pipe_run :: "nat \<Rightarrow> 'a kfile_scheme \<Rightarrow> byte list \<Rightarrow> byte list \<Rightarrow> bool" for p where
  fresh: "pi_nread (pipes s p) = 0 \<Longrightarrow> pi_nwrite (pipes s p) = 0 \<Longrightarrow> pipe_run p s [] []"
| other: "pipe_run p s sent received \<Longrightarrow> pipes t p = pipes s p \<Longrightarrow> pipe_run p t sent received"
| shut: "pipe_run p s sent received \<Longrightarrow> pipeclose p w s = Inr t \<Longrightarrow> pi_readopen (pipes t p) \<or> pi_writeopen (pipes t p) \<Longrightarrow>
    pipe_run p t sent received"
| send: "pipe_run p s sent received \<Longrightarrow> pipewrite p addr n s = Inr (out, t) \<Longrightarrow>
    k = unat (pi_nwrite (pipes t p) - pi_nwrite (pipes s p)) \<Longrightarrow> pipe_run p t (sent @ map addr [0..<k]) received"
| resend: "pipe_run p s sent received \<Longrightarrow> pipewrite_resume q p addr n i s = Inr (out, t) \<Longrightarrow>
    k = unat (pi_nwrite (pipes t p) - pi_nwrite (pipes s p)) \<Longrightarrow> pipe_run p t (sent @ map addr [i..<i + k]) received"
| receive: "pipe_run p s sent received \<Longrightarrow> piperead p n s = Inr (out, t) \<or> piperead_resume q p n s = Inr (out, t) \<Longrightarrow>
    pipe_run p t sent (received @ (case out of Done (r, cs) \<Rightarrow> cs | Asleep k \<Rightarrow> []))"

lemma fold_put_count: "pi_nwrite (fold pipe_put cs x) = pi_nwrite x + word_of_nat (length cs)"
  by (induction cs arbitrary: x) (simp_all add: pipe_put_def add.assoc)

lemma sent_list:
  assumes w: "pipewrite_loop p addr n i u = Inr (out, t)" and u: "pipes u p = x" and le: "length (pipe_items x) \<le> PIPESIZE"
    and k: "k = unat (pi_nwrite (pipes t p) - pi_nwrite x)"
  shows "pipe_items (pipes t p) = pipe_items x @ map addr [i..<i + k]" "length (pipe_items (pipes t p)) \<le> PIPESIZE"
proof -
  obtain j where j: "i \<le> j" "pipes t p = fold pipe_put (map addr [i..<j]) x" "length (pipe_items x) + (j - i) \<le> PIPESIZE"
    using pipewrite_loop_fold [OF w] u le by auto
  have "j - i < 2 ^ 32" using j(3) pipesize_ring(2) by linarith
  then have "unat (word_of_nat (j - i) :: 32 word) = j - i" by (simp add: unat_of_nat take_bit_eq_mod)
  then have "j = i + k" using j(1,2) k by (simp add: fold_put_count)
  then show "pipe_items (pipes t p) = pipe_items x @ map addr [i..<i + k]" using j pq.put_all [of x "map addr [i..<j]"] by simp
  then show "length (pipe_items (pipes t p)) \<le> PIPESIZE" using j(3) \<open>j = i + k\<close> by simp
qed

lemma sleep_resume_pipes: "sleep_resume q l s = Inr u \<Longrightarrow> pipes u = pipes s"
  by (auto simp: sleep_resume_def upd_proc_def Let_def res_iff split: if_splits)

lemma kfree_pipes: "kfree v s = Inr (t :: 'a kfile_scheme) \<Longrightarrow> pipes t = pipes s"
  by (auto simp: kfree_def Let_def res_iff split: if_splits)

lemma pipeclose_items: "pipeclose p w s = Inr t \<Longrightarrow> pipe_items (pipes t p) = pipe_items (pipes s p)"
  by (auto simp: pipeclose_def res_iff pipe_items_def split: if_splits dest!: wakeup_inv kfree_pipes)

lemma pipe_run_items:
  assumes "pipe_run p s sent received"
  shows "sent = received @ pipe_items (pipes s p) \<and> length (pipe_items (pipes s p)) \<le> PIPESIZE"
  using assms
proof (induction rule: pipe_run.induct)
  case (send s sent received addr n out t k)
  obtain u where u: "pipewrite_loop p addr n 0 u = Inr (out, t)" "pipes u p = pipes s p"
    using send(2) by (auto simp: pipewrite_def res_iff)
  show ?case using sent_list [OF u _ send(3)] send.IH by simp
next
  case (resend s sent received q addr n i out t k)
  obtain u where u: "pipewrite_loop p addr n i u = Inr (out, t)" "pipes u p = pipes s p"
    using resend(2) sleep_resume_pipes by (fastforce simp: pipewrite_resume_def bindR_eq_Inr)
  show ?case using sent_list [OF u _ resend(3)] resend.IH by simp
next
  case (receive s sent received n out t q)
  obtain u where u: "piperead_loop p n u = Inr (out, t)" "pipes u = pipes s"
    using receive(2) sleep_resume_pipes by (fastforce simp: piperead_def piperead_resume_def bindR_eq_Inr acquire_eq_Inr)
  have "pipe_items (pipes s p) = (case out of Done (r, cs) \<Rightarrow> cs | Asleep k \<Rightarrow> []) @ pipe_items (pipes t p)"
    using piperead_loop_inv(2) [OF u(1)] u(2) by (auto split: blocking.splits)
  then show ?case using receive.IH arg_cong [where f = length] by fastforce
qed (auto simp: pipe_items_def ring_items_def pipeclose_items [unfolded pipe_items_def ring_items_def])

text \<open>
  No lost wake-up: whoever sleeps on the pipe has a reason to, a reader that the pipe is empty
  and a writer may still come, a writer that it is full and a reader may still come.
\<close>

definition pipe_inv :: "nat \<Rightarrow> 'a kfile_scheme \<Rightarrow> bool" where
  "pipe_inv p s \<longleftrightarrow> length (pipe_items (pipes s p)) \<le> PIPESIZE \<and>
     (asleep_on (ChPipeRead p) s \<noteq> {} \<longrightarrow> pipe_items (pipes s p) = [] \<and> pi_writeopen (pipes s p)) \<and>
     (asleep_on (ChPipeWrite p) s \<noteq> {} \<longrightarrow> length (pipe_items (pipes s p)) = PIPESIZE \<and> pi_readopen (pipes s p))"

lemma pipewrite_loop_inv:
  assumes l: "locks s = [Lpipe p]" "myproc s = Some q" and inv: "pipe_inv p s"
  shows "\<exists>out t. pipewrite_loop p addr n i s = Inr (out, t) \<and> (out \<noteq> Done (- 1) \<longrightarrow> pipe_inv p t) \<and>
    (out = Done (- 1) \<longrightarrow> n = - 1 \<or> \<not> pi_readopen (pipes s p) \<or> p_killed (ptable s q))"
proof -
  obtain out t where t: "pipewrite_loop p addr n i s = Inr (out, t)" "out \<noteq> Done (- 1) \<longrightarrow> asleep_on (ChPipeRead p) t = {}"
    "asleep_on (ChPipeWrite p) t \<subseteq> asleep_on (ChPipeWrite p) s \<union> (case out of Asleep k \<Rightarrow> {q} | Done r \<Rightarrow> {})"
    "pi_readopen (pipes t p) = pi_readopen (pipes s p)"
    "case out of Asleep k \<Rightarrow> pi_readopen (pipes s p) \<and> locks t = [Lptable]
     | Done r \<Rightarrow> locks t = [] \<and> (r = n \<or> \<not> pi_readopen (pipes s p) \<or> p_killed (ptable s q))"
    using pipewrite_loop_ok [OF l] by blast
  have le: "length (pipe_items (pipes s p)) \<le> PIPESIZE" using inv by (simp add: pipe_inv_def)
  obtain j where j: "i \<le> j" "pipes t = (pipes s)(p := fold pipe_put (map addr [i..<j]) (pipes s p))" "length (pipe_items (pipes s p)) + (j - i) \<le> PIPESIZE"
    "case out of Done r \<Rightarrow> r = n \<and> j = max i (nat n) \<or> r = - 1 \<and> length (pipe_items (pipes t p)) = PIPESIZE
     | Asleep k \<Rightarrow> k = j \<and> length (pipe_items (pipes t p)) = PIPESIZE"
    using pipewrite_loop_fold [OF t(1) le] by blast
  have it: "pipe_items (pipes t p) = pipe_items (pipes s p) @ map addr [i..<j]" using j pq.put_all by simp
  have "length (pipe_items (pipes t p)) = PIPESIZE \<and> pi_readopen (pipes t p)" if ne: "asleep_on (ChPipeWrite p) t \<noteq> {}"
  proof (cases "asleep_on (ChPipeWrite p) s = {}")
    case True
    then obtain k where "out = Asleep k" using t(3) ne by (cases out) auto
    then show ?thesis using j(4) t(4,5) by simp
  next
    case False
    then have "length (pipe_items (pipes s p)) = PIPESIZE" "pi_readopen (pipes s p)" using inv by (simp_all add: pipe_inv_def)
    then show ?thesis using j(3) it t(4) by simp
  qed
  then have "pipe_inv p t" if "out \<noteq> Done (- 1)" using that t(2) it j(1,3) by (simp add: pipe_inv_def)
  then show ?thesis using t(1,5) by (intro exI [of _ out] exI [of _ t]) auto
qed

lemma piperead_loop_keeps:
  assumes l: "locks s = [Lpipe p]" "myproc s = Some q" and inv: "pipe_inv p s"
  shows "\<exists>out t. piperead_loop p n s = Inr (out, t) \<and> pipe_inv p t"
proof -
  obtain out t where t: "piperead_loop p n s = Inr (out, t)" "pi_readopen (pipes t p) = pi_readopen (pipes s p)"
    "pi_writeopen (pipes t p) = pi_writeopen (pipes s p)"
    "case out of Asleep k \<Rightarrow> pipe_items (pipes s p) = [] \<and> pi_writeopen (pipes s p) \<and> locks t = [Lptable] \<and>
         asleep_on (ChPipeRead p) t \<subseteq> insert q (asleep_on (ChPipeRead p) s) \<and> asleep_on (ChPipeWrite p) t \<subseteq> asleep_on (ChPipeWrite p) s
     | Done (r, cs) \<Rightarrow> locks t = [] \<and> asleep_on (ChPipeRead p) t = asleep_on (ChPipeRead p) s \<and>
         (asleep_on (ChPipeWrite p) t = {} \<or> pipes t = pipes s \<and> asleep_on (ChPipeWrite p) t = asleep_on (ChPipeWrite p) s) \<and>
         (r = - 1 \<longrightarrow> p_killed (ptable s q))"
    using piperead_loop_ok [OF l] by blast
  note it = piperead_loop_inv(2) [OF t(1)]
  have "pipe_inv p t"
  proof (cases out)
    case (Asleep k)
    then show ?thesis using t it inv by (auto simp: pipe_inv_def)
  next
    case (Done v)
    obtain r cs where v: "v = (r, cs)" by fastforce
    have i: "pipe_items (pipes s p) = cs @ pipe_items (pipes t p)" using it Done v by simp
    then have "pipe_items (pipes s p) = [] \<Longrightarrow> pipe_items (pipes t p) = []" by simp
    moreover have "length (pipe_items (pipes t p)) \<le> length (pipe_items (pipes s p))" using i by simp
    ultimately show ?thesis using t Done v inv by (auto simp: pipe_inv_def)
  qed
  then show ?thesis using t(1) by blast
qed

lemma pipe_inv_cong: "pipes t p = pipes s p \<Longrightarrow> (\<And>ch. asleep_on ch t \<subseteq> asleep_on ch s) \<Longrightarrow> pipe_inv p s \<Longrightarrow> pipe_inv p t"
  unfolding pipe_inv_def by (metis subset_empty)

lemma pipe_inv_locks [simp]: "pipe_inv p (s\<lparr>locks := l\<rparr>) = pipe_inv p s"
  by (simp add: pipe_inv_def asleep_on_def)

lemma resume_ok:
  assumes "locks s = [Lptable]" "myproc s = Some q" "pipe_inv p s"
  shows "\<exists>u. sleep_resume q (Lpipe p) s = Inr u \<and> locks u = [Lpipe p] \<and> myproc u = Some q \<and> pipe_inv p u \<and> pipes u = pipes s \<and>
    p_killed (ptable u q) = p_killed (ptable s q)"
proof -
  let ?u = "(upd_proc q (\<lambda>x. x\<lparr>p_chan := None\<rparr>) s)\<lparr>locks := [Lpipe p]\<rparr>"
  have "sleep_resume q (Lpipe p) s = Inr ?u" using assms by (simp add: sleep_resume_def release_def acquire_def holding_def)
  moreover have "pipe_inv p ?u" by (rule pipe_inv_cong [OF _ _ assms(3)]) (auto simp: upd_proc_def asleep_on_def)
  ultimately show ?thesis using assms(2) by (intro exI [of _ ?u]) (simp add: upd_proc_def)
qed

lemma pipeclose_keeps:
  assumes l: "locks s = []" and inv: "pipe_inv p s" and op: "if w then pi_readopen (pipes s p) else pi_writeopen (pipes s p)"
  shows "\<exists>t. pipeclose p w s = Inr t \<and> pipe_inv p t"
proof -
  let ?x = "\<lambda>x. if w then x\<lparr>pi_writeopen := False\<rparr> else x\<lparr>pi_readopen := False\<rparr>" and ?ch = "if w then ChPipeRead p else ChPipeWrite p"
  let ?u = "upd_pipe p ?x (s\<lparr>locks := [Lpipe p]\<rparr>)"
  let ?t = "?u\<lparr>ptable := ptable (wakeup1 (Some ?ch) ?u)\<rparr>"
  have "wakeup (Some ?ch) ?u = Inr ?t" by (rule wakeup_ok) simp
  then have "pipeclose p w s = Inr (?t\<lparr>locks := []\<rparr>)" using l op by (cases w) (simp_all add: pipeclose_def)
  moreover have "asleep_on ch ?u = asleep_on ch s" for ch by (rule asleep_cong) simp
  then have "pipe_inv p ?t" using inv by (cases w) (auto simp: pipe_inv_def pipe_items_def)
  ultimately show ?thesis by auto
qed

lemma pipewrite_killed:
  assumes "locks s = [Lpipe p]" "myproc s = Some q" "p_killed (ptable s q)" "length (pipe_items (pipes s p)) \<le> PIPESIZE"
    "int i + int PIPESIZE < n + int (length (pipe_items (pipes s p)))"
  shows "\<exists>t. pipewrite_loop p addr n i s = Inr (Done (- 1), t) \<and> ptable t = ptable s \<and> length (pipe_items (pipes t p)) = PIPESIZE"
  using assms
proof (induction p addr n i s rule: pipewrite_loop.induct)
  case (1 p addr n i s)
  note unf = pipewrite_loop.simps [of p addr n i s]
  have i: "int i < n" using 1(5,6) by linarith
  show ?case
  proof (cases "pipe_full (pipes s p)")
    case True
    then show ?thesis using i 1(2-4) unf by (auto simp: killed_def pipe_full_iff)
  next
    case False
    let ?u = "upd_pipe p (pipe_put (addr i)) s"
    have l: "length (pipe_items (pipes s p)) < PIPESIZE" using False 1(5) pipe_full_iff by force
    have "length (pipe_items (pipes ?u p)) = Suc (length (pipe_items (pipes s p)))" using pipe_put_items [OF l] by simp
    then have "\<exists>t. pipewrite_loop p addr n (i + 1) ?u = Inr (Done (- 1), t) \<and> ptable t = ptable ?u \<and> length (pipe_items (pipes t p)) = PIPESIZE"
      using 1(2-6) l by (intro 1(1) [OF i False]) simp_all
    then show ?thesis using unf i False by simp
  qed
qed

section \<open>Properties\<close>

text \<open>A pipe that has just been created, in page 4096, with process 0 running.\<close>

definition empty_pipe :: pipe where
  "empty_pipe = \<lparr>pi_data = (\<lambda>_. 0), pi_nread = 0, pi_nwrite = 0, pi_readopen = True, pi_writeopen = True\<rparr>"

definition zero_file :: file_t where
  "zero_file = \<lparr>f_type = FD_NONE, f_ref = 0, f_readable = False, f_writable = False, f_pipe = 0, f_ip = None, f_off = 0\<rparr>"

definition boot_kfile :: "(nat \<Rightarrow> block) \<Rightarrow> kfile" where
  "boot_kfile d = kfs.extend (boot_kfs d) (kfile.fields (\<lambda>_. zero_file) (\<lambda>_. empty_pipe))"

lemma kfs_extend_sel [simp]:
  "locks (kfs.extend s x) = locks s" "myproc (kfs.extend s x) = myproc s" "ptable (kfs.extend s x) = ptable s"
  by (simp_all add: kfs.defs)

lemma boot_kfile_sel [simp]:
  "ftable (boot_kfile d) = (\<lambda>_. zero_file)" "pipes (boot_kfile d) = (\<lambda>_. empty_pipe)" "locks (boot_kfile d) = []"
  by (simp_all add: boot_kfile_def) (simp_all add: kfs.defs kfile.defs)

lemma boot_running: "\<exists>q. myproc (boot_kfile small_disk) = Some q"
  using boot_kfs_sel(4) [of small_disk] by (auto simp: boot_kfile_def curpid_def split: option.splits)

lemma boot_table: "ptable (boot_kfs d) = (\<lambda>_. zero_proc)" "myproc (boot_kfs d) = Some 0"
proof -
  have "ptable (boot_kbio d n) = (\<lambda>_. zero_proc)" "myproc (boot_kbio d n) = Some 0" for n
    by (simp_all add: boot_kbio_def boot_kmem_def kproc.defs kmem.defs kvm.defs kbio.defs boot_kproc_def)
  then have "ptable (binit (boot_kbio d n)) = (\<lambda>_. zero_proc)" "myproc (binit (boot_kbio d n)) = Some 0" for n
    by (subst boot_binit(6), simp)+
  then show "ptable (boot_kfs d) = (\<lambda>_. zero_proc)" "myproc (boot_kfs d) = Some 0"
    by (simp_all add: boot_kfs_def boot_klog_def klog.defs kbio.defs)
qed

lemma boot_no_sleeper: "asleep_on ch (boot_kfile d) = {}"
  by (simp add: asleep_on_def boot_kfile_def boot_table) (simp add: zero_proc_def)

text \<open>
  C5. Whatever processes read from, write to and close a pipe, in whatever order, and wherever
  they fall asleep in the middle, the bytes the readers have returned followed by the bytes in
  the buffer are exactly the bytes the writers have stored, in order, and the buffer never
  holds more than \<open>PIPESIZE\<close> bytes, also when the 32-bit counters wrap.
\<close>

theorem pipe_fifo:
  assumes "pipe_run p s sent received"
  shows "sent = received @ pipe_items (pipes s p) \<and> length (pipe_items (pipes s p)) \<le> PIPESIZE"
  using pipe_run_items [OF assms] .

theorem pipe_fifo_witness:
  "\<exists>out (t :: kfile). pipewrite 4096 (\<lambda>i. word_of_nat i) 3 (boot_kfile small_disk) = Inr (out, t) \<and> length (pipe_items (pipes t 4096)) \<le> PIPESIZE"
proof -
  let ?s = "boot_kfile small_disk" and ?a = "\<lambda>i. word_of_nat i :: byte"
  obtain q where my: "myproc ?s = Some q" using boot_running by blast
  obtain out t where t: "pipewrite_loop 4096 ?a 3 0 (?s\<lparr>locks := [Lpipe 4096]\<rparr>) = Inr (out, t)"
    using pipewrite_loop_ok [of "?s\<lparr>locks := [Lpipe 4096]\<rparr>" 4096 q ?a 3 0] my by auto
  then have c: "pipewrite 4096 ?a 3 ?s = Inr (out, t)" by (simp add: pipewrite_def)
  have "pipe_run 4096 ?s [] []" by (rule pipe_run.fresh) (simp_all add: empty_pipe_def)
  from pipe_fifo [OF pipe_run.send [OF this c refl]] show ?thesis using c by blast
qed

text \<open>
  C24. No wake-up is lost: when a process sleeps on a pipe only while it has a reason to, then
  that holds again after every read, every write that does not return \<open>- 1\<close>, after the
  continuation of a sleeping read or write, and after one end is closed. Each of these calls
  returns or sleeps, and a write returns \<open>- 1\<close> only when the reading end is closed or the caller
  has been killed.
\<close>

theorem pipe_no_lost_wakeup:
  assumes my: "myproc s = Some q" and inv: "pipe_inv p s"
  shows "(locks s = [] \<longrightarrow>
      (\<exists>out t. pipewrite p addr n s = Inr (out, t) \<and> (out \<noteq> Done (- 1) \<longrightarrow> pipe_inv p t) \<and>
         (out = Done (- 1) \<longrightarrow> n = - 1 \<or> \<not> pi_readopen (pipes s p) \<or> p_killed (ptable s q))) \<and>
      (\<exists>out t. piperead p n s = Inr (out, t) \<and> pipe_inv p t) \<and>
      ((if w then pi_readopen (pipes s p) else pi_writeopen (pipes s p)) \<longrightarrow> (\<exists>t. pipeclose p w s = Inr t \<and> pipe_inv p t))) \<and>
    (locks s = [Lptable] \<longrightarrow>
      (\<exists>out t. pipewrite_resume q p addr n i s = Inr (out, t) \<and> (out \<noteq> Done (- 1) \<longrightarrow> pipe_inv p t) \<and>
         (out = Done (- 1) \<longrightarrow> n = - 1 \<or> \<not> pi_readopen (pipes s p) \<or> p_killed (ptable s q))) \<and>
      (\<exists>out t. piperead_resume q p n s = Inr (out, t) \<and> pipe_inv p t))"
proof (intro conjI impI)
  assume l: "locks s = []"
  let ?u = "s\<lparr>locks := [Lpipe p]\<rparr>"
  have u: "locks ?u = [Lpipe p]" "myproc ?u = Some q" "pipe_inv p ?u" using my inv by simp_all
  show "\<exists>out t. pipewrite p addr n s = Inr (out, t) \<and> (out \<noteq> Done (- 1) \<longrightarrow> pipe_inv p t) \<and>
         (out = Done (- 1) \<longrightarrow> n = - 1 \<or> \<not> pi_readopen (pipes s p) \<or> p_killed (ptable s q))"
    using pipewrite_loop_inv [OF u] l by (simp add: pipewrite_def)
  show "\<exists>out t. piperead p n s = Inr (out, t) \<and> pipe_inv p t" using piperead_loop_keeps [OF u] l by (simp add: piperead_def)
  show "\<exists>t. pipeclose p w s = Inr t \<and> pipe_inv p t" if "if w then pi_readopen (pipes s p) else pi_writeopen (pipes s p)"
    using pipeclose_keeps [OF l inv that] .
next
  assume l: "locks s = [Lptable]"
  obtain u where u: "sleep_resume q (Lpipe p) s = Inr u" "locks u = [Lpipe p]" "myproc u = Some q" "pipe_inv p u" "pipes u = pipes s"
    "p_killed (ptable u q) = p_killed (ptable s q)" using resume_ok [OF l my inv] by blast
  show "\<exists>out t. pipewrite_resume q p addr n i s = Inr (out, t) \<and> (out \<noteq> Done (- 1) \<longrightarrow> pipe_inv p t) \<and>
         (out = Done (- 1) \<longrightarrow> n = - 1 \<or> \<not> pi_readopen (pipes s p) \<or> p_killed (ptable s q))"
    using pipewrite_loop_inv [OF u(2-4)] u(1,5,6) by (simp add: pipewrite_resume_def)
  show "\<exists>out t. piperead_resume q p n s = Inr (out, t) \<and> pipe_inv p t"
    using piperead_loop_keeps [OF u(2-4)] u(1) by (simp add: piperead_resume_def)
qed

lemma boot_pipe_inv: "pipe_inv p (boot_kfile small_disk)"
  by (simp add: pipe_inv_def boot_no_sleeper pipe_items_def empty_pipe_def)

theorem pipe_no_lost_wakeup_witness:
  "\<exists>out (t :: kfile). pipewrite 4096 (\<lambda>_. 7) 600 (boot_kfile small_disk) = Inr (out, t) \<and> (out \<noteq> Done (- 1) \<longrightarrow> pipe_inv 4096 t)"
  using boot_running pipe_no_lost_wakeup [OF _ boot_pipe_inv [of 4096], of _ "\<lambda>_. 7" 600 True 0] by auto

text \<open>
  C31. A writer that has been killed and fills the pipe returns without waking the reader that
  sleeps on the empty pipe: the reader stays asleep although the buffer is full.
\<close>

theorem pipewrite_killed_strands_reader:
  assumes "locks s = []" "myproc s = Some q" "p_killed (ptable s q)" "pipe_items (pipes s p) = []" "r \<in> asleep_on (ChPipeRead p) s" "int PIPESIZE < n"
  shows "\<exists>t. pipewrite p addr n s = Inr (Done (- 1), t) \<and> length (pipe_items (pipes t p)) = PIPESIZE \<and> r \<in> asleep_on (ChPipeRead p) t"
proof -
  let ?u = "s\<lparr>locks := [Lpipe p]\<rparr>"
  obtain t where t: "pipewrite_loop p addr n 0 ?u = Inr (Done (- 1), t)" "ptable t = ptable s" "length (pipe_items (pipes t p)) = PIPESIZE"
    using pipewrite_killed [of ?u p q 0 n addr] assms by auto
  then show ?thesis using assms(1,5) asleep_cong [OF t(2)] by (intro exI [of _ t]) (simp add: pipewrite_def)
qed

theorem pipewrite_killed_strands_reader_witness:
  "\<exists>(s :: kfile) t. pipe_inv 4096 s \<and> pipewrite 4096 (\<lambda>_. 7) 600 s = Inr (Done (- 1), t) \<and> length (pipe_items (pipes t 4096)) = PIPESIZE \<and>
     5 \<in> asleep_on (ChPipeRead 4096) t"
proof -
  let ?s = "(boot_kfile small_disk)\<lparr>myproc := Some 1, ptable := (\<lambda>_. zero_proc)(1 := zero_proc\<lparr>p_state := RUNNING, p_killed := True\<rparr>,
     5 := zero_proc\<lparr>p_state := SLEEPING, p_chan := Some (ChPipeRead 4096)\<rparr>)\<rparr>"
  have a: "asleep_on ch ?s = (if ch = ChPipeRead 4096 then {5} else {})" for ch
    by (auto simp: asleep_on_def zero_proc_def params)
  have i: "pipe_items (pipes ?s 4096) = []" "pi_writeopen (pipes ?s 4096)" by (simp_all add: pipe_items_def empty_pipe_def)
  have "\<exists>t. pipewrite 4096 (\<lambda>_. 7) 600 ?s = Inr (Done (- 1), t) \<and> length (pipe_items (pipes t 4096)) = PIPESIZE \<and> 5 \<in> asleep_on (ChPipeRead 4096) t"
    by (rule pipewrite_killed_strands_reader [where q = 1]) (use i a in \<open>simp_all add: params\<close>)
  moreover have "pipe_inv 4096 ?s" unfolding pipe_inv_def a using i by simp
  ultimately show ?thesis by blast
qed

end
