(* ===== verification/FileOps.thy ===== *)
theory FileOps
  imports Pipe
begin

text \<open>
  The rest of \<^verbatim>\<open>file.c\<close> and \<open>pipealloc\<close> of \<^verbatim>\<open>pipe.c\<close>: closing, reading and writing of open
  files. A read or write of a pipe can sleep, so these operations return a \<open>blocking\<close> value; a
  device switch table is an argument, as in theory \<open>Fs\<close>.
\<close>

section \<open>Closing\<close>

text \<open>Conversion of an \<^verbatim>\<open>int\<close> to an \<^verbatim>\<open>uint\<close>.\<close>

definition to_uint :: "int \<Rightarrow> nat" where
  "to_uint n = nat (n mod 2 ^ 32)"

definition fileclose :: "nat \<Rightarrow> 'a kfile_scheme \<Rightarrow> 'a kfile_scheme res" where
  "fileclose f s =
     bindR (acquire Lftable s) (\<lambda>s.
     if f_ref (ftable s f) < 1 then Inl (Kpanic ''fileclose'')
     else
       let s = upd_file f (\<lambda>x. x\<lparr>f_ref := f_ref x - 1\<rparr>) s in
       if f_ref (ftable s f) > 0 then release Lftable s
       else
         let ff = ftable s f in
         bindR (release Lftable (upd_file f (\<lambda>x. x\<lparr>f_ref := 0, f_type := FD_NONE\<rparr>) s)) (\<lambda>s.
         case f_type ff of
           FD_PIPE \<Rightarrow> pipeclose (f_pipe ff) (f_writable ff) s
         | FD_INODE \<Rightarrow>
             (case f_ip ff of None \<Rightarrow> Inl NullDeref
              | Some ip \<Rightarrow> bindR (begin_op s) (\<lambda>s. bindR (iput ip s) end_op))
         | FD_NONE \<Rightarrow> Inr s))"

text \<open>The label \<^verbatim>\<open>bad\<close> of \<open>pipealloc\<close>.\<close>

definition pipealloc_bad :: "nat \<Rightarrow> nat option \<Rightarrow> nat option \<Rightarrow> 'a kfile_scheme \<Rightarrow> (int \<times> nat option \<times> nat option \<times> 'a kfile_scheme) res" where
  "pipealloc_bad p f0 f1 s =
     bindR (if p \<noteq> 0 then kfree p s else Inr s) (\<lambda>s.
     bindR (case f0 of None \<Rightarrow> Inr s | Some f \<Rightarrow> fileclose f s) (\<lambda>s.
     bindR (case f1 of None \<Rightarrow> Inr s | Some f \<Rightarrow> fileclose f s) (\<lambda>s.
     Inr (- 1, f0, f1, s))))"

definition pipealloc :: "'a kfile_scheme \<Rightarrow> (int \<times> nat option \<times> nat option \<times> 'a kfile_scheme) res" where
  "pipealloc s =
     bindR (filealloc s) (\<lambda>(f0, s).
     case f0 of None \<Rightarrow> pipealloc_bad 0 None None s
     | Some g0 \<Rightarrow>
         bindR (filealloc s) (\<lambda>(f1, s).
         case f1 of None \<Rightarrow> pipealloc_bad 0 f0 None s
         | Some g1 \<Rightarrow>
             bindR (kalloc s) (\<lambda>(p, s).
             if p = 0 then pipealloc_bad 0 f0 f1 s
             else
               let s = upd_pipe p (\<lambda>x. x\<lparr>pi_readopen := True, pi_writeopen := True, pi_nwrite := 0, pi_nread := 0\<rparr>) s;
                   s = upd_file g0 (\<lambda>x. x\<lparr>f_type := FD_PIPE, f_readable := True, f_writable := False, f_pipe := p\<rparr>) s;
                   s = upd_file g1 (\<lambda>x. x\<lparr>f_type := FD_PIPE, f_readable := False, f_writable := True, f_pipe := p\<rparr>) s
               in Inr (0, f0, f1, s))))"

definition filestat :: "nat \<Rightarrow> 'a kfile_scheme \<Rightarrow> (int \<times> stat option \<times> 'a kfile_scheme) res" where
  "filestat f s =
     (if f_type (ftable s f) = FD_INODE then
        bindR (ilock (f_ip (ftable s f)) s) (\<lambda>s.
        case f_ip (ftable s f) of None \<Rightarrow> Inl NullDeref
        | Some ip \<Rightarrow>
            let st = stati ip s in
            bindR (iunlock (Some ip) s) (\<lambda>s. Inr (0, Some st, s)))
      else Inr (- 1, None, s))"

section \<open>Reading\<close>

text \<open>The inode branch of \<open>fileread\<close> and \<open>filepread\<close>: read under the lock of the inode.\<close>

definition read_inode :: "(nat \<Rightarrow> ('a kfile_ext) dev_read option) \<Rightarrow> nat \<Rightarrow> nat \<Rightarrow> nat \<Rightarrow>
    (int \<Rightarrow> 'a kfile_scheme \<Rightarrow> 'a kfile_scheme) \<Rightarrow> 'a kfile_scheme \<Rightarrow> (int \<times> byte list \<times> 'a kfile_scheme) res" where
  "read_inode devr f off n after s =
     bindR (ilock (f_ip (ftable s f)) s) (\<lambda>s.
     case f_ip (ftable s f) of None \<Rightarrow> Inl NullDeref
     | Some ip \<Rightarrow>
         bindR (readi devr ip off n s) (\<lambda>(r, bytes, s).
         bindR (iunlock (Some ip) (after r s)) (\<lambda>s. Inr (r, bytes, s))))"

definition advance :: "nat \<Rightarrow> int \<Rightarrow> 'a kfile_scheme \<Rightarrow> 'a kfile_scheme" where
  "advance f r s = (if r > 0 then upd_file f (\<lambda>x. x\<lparr>f_off := (f_off x + nat r) mod 2 ^ 32\<rparr>) s else s)"

definition filepread :: "(nat \<Rightarrow> ('a kfile_ext) dev_read option) \<Rightarrow> nat \<Rightarrow> int \<Rightarrow> int \<Rightarrow> 'a kfile_scheme \<Rightarrow>
    ((int \<times> byte list) blocking \<times> 'a kfile_scheme) res" where
  "filepread devr f n off s =
     (if \<not> f_readable (ftable s f) then Inr (Done (- 1, []), s)
      else case f_type (ftable s f) of
        FD_PIPE \<Rightarrow> piperead (f_pipe (ftable s f)) n s
      | FD_INODE \<Rightarrow>
          bindR (read_inode devr f (to_uint off) (to_uint n) (\<lambda>_ s. s) s) (\<lambda>(r, bytes, s). Inr (Done (r, bytes), s))
      | FD_NONE \<Rightarrow> Inl (Kpanic ''filepread''))"

definition fileread :: "(nat \<Rightarrow> ('a kfile_ext) dev_read option) \<Rightarrow> nat \<Rightarrow> int \<Rightarrow> 'a kfile_scheme \<Rightarrow>
    ((int \<times> byte list) blocking \<times> 'a kfile_scheme) res" where
  "fileread devr f n s =
     (if \<not> f_readable (ftable s f) then Inr (Done (- 1, []), s)
      else case f_type (ftable s f) of
        FD_PIPE \<Rightarrow> piperead (f_pipe (ftable s f)) n s
      | FD_INODE \<Rightarrow>
          bindR (read_inode devr f (f_off (ftable s f)) (to_uint n) (advance f) s) (\<lambda>(r, bytes, s). Inr (Done (r, bytes), s))
      | FD_NONE \<Rightarrow> Inl (Kpanic ''fileread''))"

section \<open>Writing\<close>

definition write_max :: int where
  "write_max = ((int MAXOPBLOCKS - 1 - 1 - 2) div 2) * 512"

text \<open>One round of the loop of \<open>filewrite\<close> and \<open>filepwrite\<close>: a transaction that writes \<open>n1\<close> bytes.\<close>

definition write_round :: "(nat \<Rightarrow> ('a kfile_ext) dev_write option) \<Rightarrow> nat \<Rightarrow> (nat \<Rightarrow> byte) \<Rightarrow> nat \<Rightarrow> int \<Rightarrow>
    (int \<Rightarrow> 'a kfile_scheme \<Rightarrow> 'a kfile_scheme) \<Rightarrow> 'a kfile_scheme \<Rightarrow> (int \<times> 'a kfile_scheme) res" where
  "write_round devw f src off n1 after s =
     bindR (begin_op s) (\<lambda>s.
     bindR (ilock (f_ip (ftable s f)) s) (\<lambda>s.
     case f_ip (ftable s f) of None \<Rightarrow> Inl NullDeref
     | Some ip \<Rightarrow>
         bindR (writei devw ip src off (to_uint n1) s) (\<lambda>(r, s).
         bindR (iunlock (Some ip) (after r s)) (\<lambda>s.
         bindR (end_op s) (\<lambda>s. Inr (r, s))))))"

lemma write_max_val: "write_max = 1536"
  by (simp add: write_max_def params)

function filewrite_loop :: "(nat \<Rightarrow> ('a kfile_ext) dev_write option) \<Rightarrow> nat \<Rightarrow> (nat \<Rightarrow> byte) \<Rightarrow> int \<Rightarrow> int \<Rightarrow> 'a kfile_scheme \<Rightarrow>
    (int \<times> 'a kfile_scheme) res" where
  "filewrite_loop devw f addr n i s =
     (if i < n then
        let n1 = (if n - i > write_max then write_max else n - i) in
        bindR (write_round devw f (\<lambda>k. addr (nat i + k)) (f_off (ftable s f)) n1 (advance f) s) (\<lambda>(r, s).
        if r < 0 then Inr (- 1, s)
        else if r \<noteq> n1 then Inl (Kpanic ''short filewrite'')
        else filewrite_loop devw f addr n (i + r) s)
      else Inr (if i = n then n else - 1, s))"
  by pat_completeness auto
termination by (relation "measure (\<lambda>(devw, f, addr, n, i, s). nat (n - i))") (auto simp: write_max_val split: if_splits)

function filepwrite_loop :: "(nat \<Rightarrow> ('a kfile_ext) dev_write option) \<Rightarrow> nat \<Rightarrow> (nat \<Rightarrow> byte) \<Rightarrow> nat \<Rightarrow> int \<Rightarrow> int \<Rightarrow> 'a kfile_scheme \<Rightarrow>
    (int \<times> 'a kfile_scheme) res" where
  "filepwrite_loop devw f addr off n i s =
     (if i < n then
        let n1 = (if n - i > write_max then write_max else n - i) in
        bindR (write_round devw f (\<lambda>k. addr (nat i + k)) off n1 (\<lambda>_ s. s) s) (\<lambda>(r, s).
        if r < 0 then Inr (- 1, s)
        else if r \<noteq> n1 then Inl (Kpanic ''short filewrite'')
        else filepwrite_loop devw f addr off n (i + r) s)
      else Inr (if i = n then n else - 1, s))"
  by pat_completeness auto
termination by (relation "measure (\<lambda>(devw, f, addr, off, n, i, s). nat (n - i))") (auto simp: write_max_val split: if_splits)

declare filewrite_loop.simps [simp del] filepwrite_loop.simps [simp del]

definition filewrite :: "(nat \<Rightarrow> ('a kfile_ext) dev_write option) \<Rightarrow> nat \<Rightarrow> (nat \<Rightarrow> byte) \<Rightarrow> int \<Rightarrow> 'a kfile_scheme \<Rightarrow>
    (int blocking \<times> 'a kfile_scheme) res" where
  "filewrite devw f addr n s =
     (if \<not> f_writable (ftable s f) then Inr (Done (- 1), s)
      else case f_type (ftable s f) of
        FD_PIPE \<Rightarrow> pipewrite (f_pipe (ftable s f)) addr n s
      | FD_INODE \<Rightarrow> bindR (filewrite_loop devw f addr n 0 s) (\<lambda>(r, s). Inr (Done r, s))
      | FD_NONE \<Rightarrow> Inl (Kpanic ''filewrite''))"

definition filepwrite :: "(nat \<Rightarrow> ('a kfile_ext) dev_write option) \<Rightarrow> nat \<Rightarrow> (nat \<Rightarrow> byte) \<Rightarrow> int \<Rightarrow> int \<Rightarrow> 'a kfile_scheme \<Rightarrow>
    (int blocking \<times> 'a kfile_scheme) res" where
  "filepwrite devw f addr n off s =
     (if \<not> f_writable (ftable s f) then Inr (Done (- 1), s)
      else case f_type (ftable s f) of
        FD_PIPE \<Rightarrow> pipewrite (f_pipe (ftable s f)) addr n s
      | FD_INODE \<Rightarrow> bindR (filepwrite_loop devw f addr (to_uint off) n 0 s) (\<lambda>(r, s). Inr (Done r, s))
      | FD_NONE \<Rightarrow> Inl (Kpanic ''filepwrite''))"

end
