(* ===== verification/Sysfile.thy ===== *)
theory Sysfile
  imports FileOps
begin

text \<open>
  System call arguments (\<^verbatim>\<open>syscall.c\<close>) and the file system calls (\<^verbatim>\<open>sysfile.c\<close>).

  The kernel reads and writes user memory through the page table of the running process:
  \<open>uload\<close> and \<open>ustore\<close> translate an address with the table that \<open>cr3\<close> points to, and an access
  to a page that is not present is the page fault in kernel mode that \<^verbatim>\<open>trap.c\<close> answers with a
  panic. A string or a buffer argument is read when the call is made; bytes a call returns to
  the user are stored when it finishes.

  \<open>argint\<close>, \<open>argptr\<close>, \<open>argstr\<close> and \<open>argfd\<close> return \<open>None\<close> where the code returns -1.
\<close>

section \<open>User memory\<close>

definition uload :: "nat \<Rightarrow> 'a kvm_scheme \<Rightarrow> byte res" where
  "uload va s =
     (let e = translate s (P2V (cr3 s)) va in
      if present e then Inr (mem s (P2V (PTE_ADDR e) + va mod PGSIZE)) else Inl (Kpanic ''trap''))"

definition ustore :: "nat \<Rightarrow> byte \<Rightarrow> 'a kvm_scheme \<Rightarrow> 'a kvm_scheme res" where
  "ustore va c s =
     (let e = translate s (P2V (cr3 s)) va in
      if present e \<and> e AND PTE_W \<noteq> 0 then Inr (s\<lparr>mem := (mem s)(P2V (PTE_ADDR e) + va mod PGSIZE := c)\<rparr>)
      else Inl (Kpanic ''trap''))"

fun uload_bytes :: "nat \<Rightarrow> nat \<Rightarrow> 'a kvm_scheme \<Rightarrow> byte list res" where
  "uload_bytes va 0 s = Inr []"
| "uload_bytes va (Suc n) s = bindR (uload va s) (\<lambda>c. bindR (uload_bytes (va + 1) n s) (\<lambda>cs. Inr (c # cs)))"

fun ustore_bytes :: "nat \<Rightarrow> byte list \<Rightarrow> 'a kvm_scheme \<Rightarrow> 'a kvm_scheme res" where
  "ustore_bytes va [] s = Inr s"
| "ustore_bytes va (c # cs) s = bindR (ustore va c s) (ustore_bytes (va + 1) cs)"

definition bytes16 :: "16 word \<Rightarrow> byte list" where
  "bytes16 w = [ucast w, ucast (drop_bit 8 w)]"

definition bytes32 :: "32 word \<Rightarrow> byte list" where
  "bytes32 w = [ucast w, ucast (drop_bit 8 w), ucast (drop_bit 16 w), ucast (drop_bit 24 w)]"

section \<open>Arguments\<close>

definition curproc :: "'a kproc_scheme \<Rightarrow> nat res" where
  "curproc s = (case myproc s of None \<Rightarrow> Inl NullDeref | Some p \<Rightarrow> Inr p)"

definition fetchint :: "nat \<Rightarrow> 'a kvm_scheme \<Rightarrow> 32 word option res" where
  "fetchint addr s =
     bindR (curproc s) (\<lambda>p.
     if addr \<ge> p_sz (ptable s p) \<or> (addr + 4) mod 2 ^ 32 > p_sz (ptable s p) then Inr None
     else bindR (uload_bytes addr 4 s) (\<lambda>bs. Inr (Some (rd32 0 (\<lambda>i. bs ! i)))))"

fun fetchstr_loop :: "nat list \<Rightarrow> 'a kvm_scheme \<Rightarrow> byte list option res" where
  "fetchstr_loop [] s = Inr None"
| "fetchstr_loop (a # as) s =
     bindR (uload a s) (\<lambda>c.
     if c = 0 then Inr (Some [])
     else bindR (fetchstr_loop as s) (\<lambda>r. Inr (map_option (\<lambda>cs. c # cs) r)))"

definition fetchstr :: "nat \<Rightarrow> 'a kvm_scheme \<Rightarrow> byte list option res" where
  "fetchstr addr s =
     bindR (curproc s) (\<lambda>p.
     if addr \<ge> p_sz (ptable s p) then Inr None
     else fetchstr_loop [addr..<p_sz (ptable s p)] s)"

definition argint :: "nat \<Rightarrow> 'a kvm_scheme \<Rightarrow> 32 word option res" where
  "argint n s = bindR (curproc s) (\<lambda>p. fetchint (unat (tf_esp (p_tf (ptable s p)) + 4 + 4 * word_of_nat n)) s)"

definition argptr :: "nat \<Rightarrow> int \<Rightarrow> 'a kvm_scheme \<Rightarrow> nat option res" where
  "argptr n len s =
     bindR (curproc s) (\<lambda>p.
     bindR (argint n s) (\<lambda>a.
     case a of None \<Rightarrow> Inr None
     | Some i \<Rightarrow>
         if len < 0 \<or> unat i \<ge> p_sz (ptable s p) \<or> (unat i + nat len) mod 2 ^ 32 > p_sz (ptable s p) then Inr None
         else Inr (Some (unat i))))"

definition argstr :: "nat \<Rightarrow> 'a kvm_scheme \<Rightarrow> byte list option res" where
  "argstr n s = bindR (argint n s) (\<lambda>a. case a of None \<Rightarrow> Inr None | Some addr \<Rightarrow> fetchstr (unat addr) s)"

definition argfd :: "nat \<Rightarrow> 'a kfile_scheme \<Rightarrow> (nat \<times> nat) option res" where
  "argfd n s =
     bindR (argint n s) (\<lambda>a.
     case a of None \<Rightarrow> Inr None
     | Some fd \<Rightarrow>
         bindR (curproc s) (\<lambda>p.
         if sint fd < 0 \<or> sint fd \<ge> int NOFILE then Inr None
         else Inr (map_option (\<lambda>f. (nat (sint fd), f)) (p_ofile (ptable s p) (nat (sint fd))))))"

definition set_ofile :: "nat \<Rightarrow> nat \<Rightarrow> nat option \<Rightarrow> 'a kproc_scheme \<Rightarrow> 'a kproc_scheme" where
  "set_ofile p fd f s = upd_proc p (\<lambda>x. x\<lparr>p_ofile := (p_ofile x)(fd := f)\<rparr>) s"

definition fdalloc :: "nat \<Rightarrow> 'a kproc_scheme \<Rightarrow> (int \<times> 'a kproc_scheme) res" where
  "fdalloc f s =
     bindR (curproc s) (\<lambda>p.
     case find (\<lambda>fd. p_ofile (ptable s p) fd = None) [0..<NOFILE] of
       Some fd \<Rightarrow> Inr (int fd, set_ofile p fd (Some f) s)
     | None \<Rightarrow> Inr (- 1, s))"

section \<open>Calls on descriptors\<close>

definition sys_dup :: "'a kfile_scheme \<Rightarrow> (int \<times> 'a kfile_scheme) res" where
  "sys_dup s =
     bindR (argfd 0 s) (\<lambda>a.
     case a of None \<Rightarrow> Inr (- 1, s)
     | Some (_, f) \<Rightarrow>
         bindR (fdalloc f s) (\<lambda>(fd, s).
         if fd < 0 then Inr (- 1, s) else bindR (filedup f s) (\<lambda>(_, s). Inr (fd, s))))"

text \<open>The arguments of \<open>read\<close> and \<open>write\<close>: a descriptor, a count and a buffer of that size.\<close>

definition arg_buffer :: "'a kfile_scheme \<Rightarrow> (nat \<times> int \<times> nat) option res" where
  "arg_buffer s =
     bindR (argfd 0 s) (\<lambda>a.
     case a of None \<Rightarrow> Inr None
     | Some (_, f) \<Rightarrow>
         bindR (argint 2 s) (\<lambda>b.
         case b of None \<Rightarrow> Inr None
         | Some n \<Rightarrow> bindR (argptr 1 (sint n) s) (\<lambda>c. Inr (map_option (\<lambda>p. (f, sint n, p)) c))))"

definition store_result :: "nat \<Rightarrow> ((int \<times> byte list) blocking \<times> 'a kfile_scheme) \<Rightarrow> (int blocking \<times> 'a kfile_scheme) res" where
  "store_result p out =
     (case out of (Done (r, bytes), s) \<Rightarrow> bindR (ustore_bytes p bytes s) (\<lambda>s. Inr (Done r, s))
      | (Asleep k, s) \<Rightarrow> Inr (Asleep k, s))"

definition sys_pread :: "(nat \<Rightarrow> ('a kfile_ext) dev_read option) \<Rightarrow> 'a kfile_scheme \<Rightarrow> (int blocking \<times> 'a kfile_scheme) res" where
  "sys_pread devr s =
     bindR (arg_buffer s) (\<lambda>a.
     case a of None \<Rightarrow> Inr (Done (- 1), s)
     | Some (f, n, p) \<Rightarrow>
         bindR (argint 3 s) (\<lambda>b.
         case b of None \<Rightarrow> Inr (Done (- 1), s)
         | Some off \<Rightarrow> bindR (filepread devr f n (sint off) s) (store_result p)))"

definition sys_pwrite :: "(nat \<Rightarrow> ('a kfile_ext) dev_write option) \<Rightarrow> 'a kfile_scheme \<Rightarrow> (int blocking \<times> 'a kfile_scheme) res" where
  "sys_pwrite devw s =
     bindR (arg_buffer s) (\<lambda>a.
     case a of None \<Rightarrow> Inr (Done (- 1), s)
     | Some (f, n, p) \<Rightarrow>
         bindR (argint 3 s) (\<lambda>b.
         case b of None \<Rightarrow> Inr (Done (- 1), s)
         | Some off \<Rightarrow> bindR (uload_bytes p (nat n) s) (\<lambda>bs. filepwrite devw f (\<lambda>i. bs ! i) n (sint off) s)))"

definition sys_read :: "(nat \<Rightarrow> ('a kfile_ext) dev_read option) \<Rightarrow> 'a kfile_scheme \<Rightarrow> (int blocking \<times> 'a kfile_scheme) res" where
  "sys_read devr s =
     bindR (arg_buffer s) (\<lambda>a.
     case a of None \<Rightarrow> Inr (Done (- 1), s) | Some (f, n, p) \<Rightarrow> bindR (fileread devr f n s) (store_result p))"

definition sys_write :: "(nat \<Rightarrow> ('a kfile_ext) dev_write option) \<Rightarrow> 'a kfile_scheme \<Rightarrow> (int blocking \<times> 'a kfile_scheme) res" where
  "sys_write devw s =
     bindR (arg_buffer s) (\<lambda>a.
     case a of None \<Rightarrow> Inr (Done (- 1), s)
     | Some (f, n, p) \<Rightarrow> bindR (uload_bytes p (nat n) s) (\<lambda>bs. filewrite devw f (\<lambda>i. bs ! i) n s))"

definition sys_close :: "'a kfile_scheme \<Rightarrow> (int \<times> 'a kfile_scheme) res" where
  "sys_close s =
     bindR (argfd 0 s) (\<lambda>a.
     case a of None \<Rightarrow> Inr (- 1, s)
     | Some (fd, f) \<Rightarrow>
         bindR (curproc s) (\<lambda>p.
         bindR (fileclose f (set_ofile p fd None s)) (\<lambda>s. Inr (0, s))))"

text \<open>\<^verbatim>\<open>struct stat\<close> in user memory: the fields at offsets 0, 4, 8, 12 and 16.\<close>

definition ustore_stat :: "nat \<Rightarrow> stat \<Rightarrow> 'a kvm_scheme \<Rightarrow> 'a kvm_scheme res" where
  "ustore_stat va st s =
     bindR (ustore_bytes va (bytes16 (word_of_int (st_type st))) s) (\<lambda>s.
     bindR (ustore_bytes (va + 4) (bytes32 (word_of_int (st_dev st))) s) (\<lambda>s.
     bindR (ustore_bytes (va + 8) (bytes32 (word_of_nat (st_ino st))) s) (\<lambda>s.
     bindR (ustore_bytes (va + 12) (bytes16 (word_of_int (st_nlink st))) s) (\<lambda>s.
     ustore_bytes (va + 16) (bytes32 (word_of_nat (st_size st))) s))))"

definition sys_fstat :: "'a kfile_scheme \<Rightarrow> (int \<times> 'a kfile_scheme) res" where
  "sys_fstat s =
     bindR (argfd 0 s) (\<lambda>a.
     case a of None \<Rightarrow> Inr (- 1, s)
     | Some (_, f) \<Rightarrow>
         bindR (argptr 1 20 s) (\<lambda>b.
         case b of None \<Rightarrow> Inr (- 1, s)
         | Some p \<Rightarrow>
             bindR (filestat f s) (\<lambda>(r, st, s).
             bindR (case st of None \<Rightarrow> Inr s | Some st \<Rightarrow> ustore_stat p st s) (\<lambda>s. Inr (r, s)))))"

definition sys_pipe :: "'a kfile_scheme \<Rightarrow> (int \<times> 'a kfile_scheme) res" where
  "sys_pipe s =
     bindR (argptr 0 8 s) (\<lambda>a.
     case a of None \<Rightarrow> Inr (- 1, s)
     | Some fd \<Rightarrow>
         bindR (pipealloc s) (\<lambda>(r, rfo, wfo, s).
         if r < 0 then Inr (- 1, s)
         else case (rfo, wfo) of
           (Some f0, Some f1) \<Rightarrow>
             bindR (curproc s) (\<lambda>p.
             bindR (fdalloc f0 s) (\<lambda>(fd0, s).
             bindR (if fd0 < 0 then Inr (- 1, s) else fdalloc f1 s) (\<lambda>(fd1, s).
             if fd0 < 0 \<or> fd1 < 0 then
               let s = (if fd0 \<ge> 0 then set_ofile p (nat fd0) None s else s) in
               bindR (fileclose f0 s) (\<lambda>s. bindR (fileclose f1 s) (\<lambda>s. Inr (- 1, s)))
             else
               bindR (ustore_bytes fd (bytes32 (word_of_int fd0)) s) (\<lambda>s.
               bindR (ustore_bytes (fd + 4) (bytes32 (word_of_int fd1)) s) (\<lambda>s. Inr (0, s))))))
         | _ \<Rightarrow> Inl NullDeref))"

section \<open>Calls on paths\<close>

definition fail_op :: "'a klog_scheme \<Rightarrow> (int \<times> 'a klog_scheme) res" where
  "fail_op s = bindR (end_op s) (\<lambda>s. Inr (- 1, s))"

text \<open>The label \<^verbatim>\<open>bad\<close> of \<open>sys_link\<close>.\<close>

definition link_bad :: "nat \<Rightarrow> 'a kfs_scheme \<Rightarrow> (int \<times> 'a kfs_scheme) res" where
  "link_bad ip s =
     bindR (ilock (Some ip) s) (\<lambda>s.
     bindR (iupdate ip (upd_inode ip (\<lambda>x. x\<lparr>i_nlink := to_short (i_nlink x - 1)\<rparr>) s)) (\<lambda>s.
     bindR (iunlockput (Some ip) s) fail_op))"

definition sys_link :: "'a kfile_scheme \<Rightarrow> (int \<times> 'a kfile_scheme) res" where
  "sys_link s =
     bindR (argstr 0 s) (\<lambda>a.
     case a of None \<Rightarrow> Inr (- 1, s)
     | Some old \<Rightarrow>
         bindR (argstr 1 s) (\<lambda>b.
         case b of None \<Rightarrow> Inr (- 1, s)
         | Some new \<Rightarrow>
             bindR (begin_op s) (\<lambda>s.
             bindR (namei old s) (\<lambda>(ipo, s).
             case ipo of None \<Rightarrow> fail_op s
             | Some ip \<Rightarrow>
                 bindR (ilock (Some ip) s) (\<lambda>s.
                 if i_type (icache s ip) = T_DIR then bindR (iunlockput (Some ip) s) fail_op
                 else
                   bindR (iupdate ip (upd_inode ip (\<lambda>x. x\<lparr>i_nlink := to_short (i_nlink x + 1)\<rparr>) s)) (\<lambda>s.
                   bindR (iunlock (Some ip) s) (\<lambda>s.
                   bindR (nameiparent new (\<lambda>_. 0) s) (\<lambda>(dpo, name, s).
                   case dpo of None \<Rightarrow> link_bad ip s
                   | Some dp \<Rightarrow>
                       bindR (ilock (Some dp) s) (\<lambda>s.
                       bindR (if i_dev (icache s dp) \<noteq> i_dev (icache s ip) then Inr (- 1, s)
                              else dirlink dp name (i_inum (icache s ip)) s) (\<lambda>(r, s).
                       if r < 0 then bindR (iunlockput (Some dp) s) (link_bad ip)
                       else
                         bindR (iunlockput (Some dp) s) (\<lambda>s.
                         bindR (iput ip s) (\<lambda>s.
                         bindR (end_op s) (\<lambda>s. Inr (0, s))))))))))))))"

fun isdirempty_scan :: "nat \<Rightarrow> nat list \<Rightarrow> 'a kfs_scheme \<Rightarrow> (bool \<times> 'a kfs_scheme) res" where
  "isdirempty_scan dp [] s = Inr (True, s)"
| "isdirempty_scan dp (off # offs) s =
     bindR (readi (\<lambda>_. None) dp off 16 s) (\<lambda>(r, de, s).
     if r \<noteq> 16 then Inl (Kpanic ''isdirempty: readi'')
     else if de_inum de \<noteq> 0 then Inr (False, s)
     else isdirempty_scan dp offs s)"

definition isdirempty :: "nat \<Rightarrow> 'a kfs_scheme \<Rightarrow> (bool \<times> 'a kfs_scheme) res" where
  "isdirempty dp s = isdirempty_scan dp (drop 2 (dir_offsets (i_size (icache s dp)))) s"

text \<open>The names \<^verbatim>\<open>"."\<close> and \<^verbatim>\<open>".."\<close>.\<close>

definition dot :: "nat \<Rightarrow> byte" where "dot = (\<lambda>_. 0)(0 := 46)"
definition dotdot :: "nat \<Rightarrow> byte" where "dotdot = (\<lambda>_. 0)(0 := 46, 1 := 46)"

definition unlink_bad :: "nat \<Rightarrow> 'a kfs_scheme \<Rightarrow> (int \<times> 'a kfs_scheme) res" where
  "unlink_bad dp s = bindR (iunlockput (Some dp) s) fail_op"

definition sys_unlink :: "'a kfile_scheme \<Rightarrow> (int \<times> 'a kfile_scheme) res" where
  "sys_unlink s =
     bindR (argstr 0 s) (\<lambda>a.
     case a of None \<Rightarrow> Inr (- 1, s)
     | Some path \<Rightarrow>
         bindR (begin_op s) (\<lambda>s.
         bindR (nameiparent path (\<lambda>_. 0) s) (\<lambda>(dpo, name, s).
         case dpo of None \<Rightarrow> fail_op s
         | Some dp \<Rightarrow>
             bindR (ilock (Some dp) s) (\<lambda>s.
             if namecmp name dot = 0 \<or> namecmp name dotdot = 0 then unlink_bad dp s
             else
               bindR (dirlookup dp name s) (\<lambda>(found, s).
               case found of None \<Rightarrow> unlink_bad dp s
               | Some (ip, off) \<Rightarrow>
                   bindR (ilock (Some ip) s) (\<lambda>s.
                   if i_nlink (icache s ip) < 1 then Inl (Kpanic ''unlink: nlink < 1'')
                   else
                     bindR (if i_type (icache s ip) = T_DIR then isdirempty ip s else Inr (True, s)) (\<lambda>(empty, s).
                     if \<not> empty then bindR (iunlockput (Some ip) s) (unlink_bad dp)
                     else
                       bindR (writei (\<lambda>_. None) dp (\<lambda>_. 0) off 16 s) (\<lambda>(r, s).
                       if r \<noteq> 16 then Inl (Kpanic ''unlink: writei'')
                       else
                         bindR (if i_type (icache s ip) = T_DIR
                                then iupdate dp (upd_inode dp (\<lambda>x. x\<lparr>i_nlink := to_short (i_nlink x - 1)\<rparr>) s) else Inr s) (\<lambda>s.
                         bindR (iunlockput (Some dp) s) (\<lambda>s.
                         bindR (iupdate ip (upd_inode ip (\<lambda>x. x\<lparr>i_nlink := to_short (i_nlink x - 1)\<rparr>) s)) (\<lambda>s.
                         bindR (iunlockput (Some ip) s) (\<lambda>s.
                         bindR (end_op s) (\<lambda>s. Inr (0, s))))))))))))))"

definition create :: "byte list \<Rightarrow> int \<Rightarrow> int \<Rightarrow> int \<Rightarrow> 'a kfs_scheme \<Rightarrow> (nat option \<times> 'a kfs_scheme) res" where
  "create path type major minor s =
     bindR (nameiparent path (\<lambda>_. 0) s) (\<lambda>(dpo, name, s).
     case dpo of None \<Rightarrow> Inr (None, s)
     | Some dp \<Rightarrow>
         bindR (ilock (Some dp) s) (\<lambda>s.
         bindR (dirlookup dp name s) (\<lambda>(found, s).
         case found of
           Some (ip, _) \<Rightarrow>
             bindR (iunlockput (Some dp) s) (\<lambda>s.
             bindR (ilock (Some ip) s) (\<lambda>s.
             if type = T_FILE \<and> i_type (icache s ip) = T_FILE then Inr (Some ip, s)
             else bindR (iunlockput (Some ip) s) (\<lambda>s. Inr (None, s))))
         | None \<Rightarrow>
             bindR (ialloc (i_dev (icache s dp)) type s) (\<lambda>(ip, s).
             bindR (ilock (Some ip) s) (\<lambda>s.
             bindR (iupdate ip (upd_inode ip (\<lambda>x. x\<lparr>i_major := to_short major, i_minor := to_short minor, i_nlink := 1\<rparr>) s)) (\<lambda>s.
             bindR (if type = T_DIR then
                      bindR (iupdate dp (upd_inode dp (\<lambda>x. x\<lparr>i_nlink := to_short (i_nlink x + 1)\<rparr>) s)) (\<lambda>s.
                      bindR (dirlink ip dot (i_inum (icache s ip)) s) (\<lambda>(r, s).
                      if r < 0 then Inl (Kpanic ''create dots'')
                      else bindR (dirlink ip dotdot (i_inum (icache s dp)) s) (\<lambda>(r, s).
                           if r < 0 then Inl (Kpanic ''create dots'') else Inr s)))
                    else Inr s) (\<lambda>s.
             bindR (dirlink dp name (i_inum (icache s ip)) s) (\<lambda>(r, s).
             if r < 0 then Inl (Kpanic ''create: dirlink'')
             else bindR (iunlockput (Some dp) s) (\<lambda>s. Inr (Some ip, s))))))))))"

text \<open>The first half of \<open>sys_open\<close>: the locked inode of the path, or the end of the operation.\<close>

definition open_inode :: "byte list \<Rightarrow> 32 word \<Rightarrow> 'a kfs_scheme \<Rightarrow> (nat option \<times> 'a kfs_scheme) res" where
  "open_inode path omode s =
     (if omode AND O_CREATE \<noteq> 0 then
        bindR (create path T_FILE 0 0 s) (\<lambda>(ip, s).
        case ip of None \<Rightarrow> bindR (end_op s) (\<lambda>s. Inr (None, s)) | Some ip \<Rightarrow> Inr (Some ip, s))
      else
        bindR (namei path s) (\<lambda>(ip, s).
        case ip of None \<Rightarrow> bindR (end_op s) (\<lambda>s. Inr (None, s))
        | Some ip \<Rightarrow>
            bindR (ilock (Some ip) s) (\<lambda>s.
            if i_type (icache s ip) = T_DIR \<and> omode \<noteq> 0 then
              bindR (iunlockput (Some ip) s) (\<lambda>s. bindR (end_op s) (\<lambda>s. Inr (None, s)))
            else Inr (Some ip, s))))"

definition sys_open :: "'a kfile_scheme \<Rightarrow> (int \<times> 'a kfile_scheme) res" where
  "sys_open s =
     bindR (argstr 0 s) (\<lambda>a.
     case a of None \<Rightarrow> Inr (- 1, s)
     | Some path \<Rightarrow>
         bindR (argint 1 s) (\<lambda>b.
         case b of None \<Rightarrow> Inr (- 1, s)
         | Some omode \<Rightarrow>
             bindR (begin_op s) (\<lambda>s.
             bindR (open_inode path omode s) (\<lambda>(ipo, s).
             case ipo of None \<Rightarrow> Inr (- 1, s)
             | Some ip \<Rightarrow>
                 bindR (filealloc s) (\<lambda>(fo, s).
                 bindR (case fo of None \<Rightarrow> Inr (- 1, s) | Some f \<Rightarrow> fdalloc f s) (\<lambda>(fd, s).
                 case fo of
                   Some f \<Rightarrow>
                     if fd < 0 then
                       bindR (fileclose f s) (\<lambda>s. bindR (iunlockput (Some ip) s) fail_op)
                     else
                       bindR (iunlock (Some ip) s) (\<lambda>s.
                       bindR (end_op s) (\<lambda>s.
                       Inr (fd, upd_file f (\<lambda>x. x\<lparr>f_type := FD_INODE, f_ip := Some ip, f_off := 0,
                         f_readable := (omode AND O_WRONLY = 0),
                         f_writable := (omode AND O_WRONLY \<noteq> 0 \<or> omode AND O_RDWR \<noteq> 0)\<rparr>) s)))
                 | None \<Rightarrow> bindR (iunlockput (Some ip) s) fail_op))))))"

definition sys_mkdir :: "'a kfile_scheme \<Rightarrow> (int \<times> 'a kfile_scheme) res" where
  "sys_mkdir s =
     bindR (begin_op s) (\<lambda>s.
     bindR (argstr 0 s) (\<lambda>a.
     bindR (case a of None \<Rightarrow> Inr (None, s) | Some path \<Rightarrow> create path T_DIR 0 0 s) (\<lambda>(ipo, s).
     case ipo of None \<Rightarrow> fail_op s
     | Some ip \<Rightarrow> bindR (iunlockput (Some ip) s) (\<lambda>s. bindR (end_op s) (\<lambda>s. Inr (0, s))))))"

definition sys_mknod :: "'a kfile_scheme \<Rightarrow> (int \<times> 'a kfile_scheme) res" where
  "sys_mknod s =
     bindR (begin_op s) (\<lambda>s.
     bindR (argstr 0 s) (\<lambda>a.
     bindR (case a of None \<Rightarrow> Inr (None, s)
            | Some path \<Rightarrow>
                bindR (argint 1 s) (\<lambda>b.
                case b of None \<Rightarrow> Inr (None, s)
                | Some major \<Rightarrow>
                    bindR (argint 2 s) (\<lambda>c.
                    case c of None \<Rightarrow> Inr (None, s)
                    | Some minor \<Rightarrow> create path T_DEV (to_short (sint major)) (to_short (sint minor)) s))) (\<lambda>(ipo, s).
     case ipo of None \<Rightarrow> fail_op s
     | Some ip \<Rightarrow> bindR (iunlockput (Some ip) s) (\<lambda>s. bindR (end_op s) (\<lambda>s. Inr (0, s))))))"

definition sys_chdir :: "'a kfile_scheme \<Rightarrow> (int \<times> 'a kfile_scheme) res" where
  "sys_chdir s =
     bindR (curproc s) (\<lambda>p.
     bindR (begin_op s) (\<lambda>s.
     bindR (argstr 0 s) (\<lambda>a.
     bindR (case a of None \<Rightarrow> Inr (None, s) | Some path \<Rightarrow> namei path s) (\<lambda>(ipo, s).
     case ipo of None \<Rightarrow> fail_op s
     | Some ip \<Rightarrow>
         bindR (ilock (Some ip) s) (\<lambda>s.
         if i_type (icache s ip) \<noteq> T_DIR then bindR (iunlockput (Some ip) s) fail_op
         else
           bindR (iunlock (Some ip) s) (\<lambda>s.
           bindR (case p_cwd (ptable s p) of None \<Rightarrow> Inl NullDeref | Some cwd \<Rightarrow> iput cwd s) (\<lambda>s.
           bindR (end_op s) (\<lambda>s. Inr (0, upd_proc p (\<lambda>x. x\<lparr>p_cwd := Some ip\<rparr>) s)))))))))"

section \<open>What the arguments of a call can be\<close>









section \<open>Properties\<close>





end
