(* ===== verification/ProcLife.thy ===== *)
theory ProcLife
  imports Sysfile Myscheduler
begin

text \<open>
  The life of processes and threads (\<^verbatim>\<open>proc.c\<close>): allocation of a table entry, \<open>fork\<close>, \<open>exit\<close>,
  \<open>wait\<close>, the light-weight threads, \<open>growproc\<close>, \<open>userinit\<close>, \<open>forkret\<close> and the body of the
  scheduler's loop.

  The trap frame and the context at the top of a kernel stack are fields of the entry. \<open>exit\<close>
  and \<open>thread_exit\<close> do not return: their value is the state in which the scheduler takes over.
  \<open>wait\<close> and \<open>thread_join\<close> return a \<open>blocking\<close> value.
\<close>

section \<open>Allocation\<close>

text \<open>
  The common part of \<open>allocproc\<close> and \<open>allocthread\<close>: a free entry becomes an \<open>EMBRYO\<close> with the
  next pid and a kernel stack that starts in \<open>forkret\<close> and returns to \<open>trapret\<close>.
\<close>

definition alloc_entry :: "'a kmem_scheme \<Rightarrow> (nat option \<times> 'a kmem_scheme) res" where
  "alloc_entry s =
     bindR (acquire Lptable s) (\<lambda>s.
     case find (\<lambda>p. p_state (ptable s p) = UNUSED) [0..<NPROC] of
       None \<Rightarrow> bindR (release Lptable s) (\<lambda>s. Inr (None, s))
     | Some p \<Rightarrow>
         let s = upd_proc p (\<lambda>x. x\<lparr>p_state := EMBRYO, p_pid := nextpid s\<rparr>) s;
             s = s\<lparr>nextpid := nextpid s + 1\<rparr>
         in bindR (release Lptable s) (\<lambda>s.
            bindR (kalloc s) (\<lambda>(k, s).
            let s = upd_proc p (\<lambda>x. x\<lparr>p_kstack := k\<rparr>) s in
            if k = 0 then Inr (None, upd_proc p (\<lambda>x. x\<lparr>p_state := UNUSED\<rparr>) s)
            else
              let tf = k + KSTACKSIZE - 76; ctx = tf - 4 - 20 in
              Inr (Some p, upd_proc p (\<lambda>x. x\<lparr>p_tfaddr := tf, p_retpc := Trapret, p_ctxaddr := ctx,
                     p_context := zero_context\<lparr>ctx_eip := Forkret\<rparr>\<rparr>) s))))"

definition allocproc :: "'a kmem_scheme \<Rightarrow> (nat option \<times> 'a kmem_scheme) res" where
  "allocproc s =
     bindR (alloc_entry s) (\<lambda>(po, s).
     case po of None \<Rightarrow> Inr (None, s)
     | Some p \<Rightarrow>
         bindR (push_MLFQ p 0 s) (\<lambda>(_, s).
         Inr (Some p, upd_proc p (\<lambda>x. x\<lparr>p_mystride := Some 0\<rparr>) s)))"

definition allocthread :: "nat \<Rightarrow> 'a kmem_scheme \<Rightarrow> (nat option \<times> 'a kmem_scheme) res" where
  "allocthread master s =
     bindR (alloc_entry s) (\<lambda>(po, s).
     case po of None \<Rightarrow> Inr (None, s)
     | Some p \<Rightarrow>
         let m = ptable s master;
             s = upd_proc p (\<lambda>x. x\<lparr>p_parent := p_parent m, p_master := Some master, p_pgdir := p_pgdir m, p_isthread := True\<rparr>) s;
             s = upd_proc master (\<lambda>x. x\<lparr>p_isthread := True\<rparr>) s;
             m = ptable s master;
             s = upd_proc p (\<lambda>x. x\<lparr>p_fqtick := p_fqtick m, p_level := p_level m, p_mystride := p_mystride m, p_isstride := p_isstride m\<rparr>) s
         in case find (\<lambda>i. p_workerthread (ptable s master) i = None) [0..<NTHRE] of
              None \<Rightarrow> Inl (Kpanic ''no more threading'')
            | Some i \<Rightarrow>
                Inr (Some p, upd_proc p (\<lambda>x. x\<lparr>p_tindex := i\<rparr>)
                  (upd_proc master (\<lambda>x. x\<lparr>p_workerthread := (p_workerthread x)(i := Some p), p_threadcnt := p_threadcnt x + 1\<rparr>) s)))"

definition allocusrstack :: "nat \<Rightarrow> nat \<Rightarrow> 'a kmem_scheme \<Rightarrow> (int \<times> 'a kmem_scheme) res" where
  "allocusrstack master new s =
     bindR (acquire Lthread s) (\<lambda>s.
     let m = ptable s master in
     bindR (case find (\<lambda>i. p_freeusrspace m i \<noteq> 0) [0..<NTHRE] of
              Some i \<Rightarrow>
                bindR (allocuvm (p_pgdir m) (p_freeusrspace m i) (p_freeusrspace m i + 2 * PGSIZE) s) (\<lambda>(sz, s).
                let s = upd_proc new (\<lambda>x. x\<lparr>p_sz := sz\<rparr>) s in
                if sz = 0 then Inr (False, s)
                else Inr (True, upd_proc master (\<lambda>x. x\<lparr>p_freeusrspace := (p_freeusrspace x)(i := 0)\<rparr>) s))
            | None \<Rightarrow>
                bindR (allocuvm (p_pgdir m) (p_sz m) (p_sz m + 2 * PGSIZE) s) (\<lambda>(sz, s).
                let s = upd_proc new (\<lambda>x. x\<lparr>p_sz := sz\<rparr>) s in
                if sz = 0 then Inr (False, s)
                else Inr (True, upd_proc master (\<lambda>x. x\<lparr>p_sz := sz\<rparr>) s))) (\<lambda>(ok, s).
     if \<not> ok then bindR (release Lthread s) (\<lambda>s. Inr (- 1, s))
     else
       bindR (clearpteu (p_pgdir (ptable s master)) (p_sz (ptable s new) - 2 * PGSIZE) s) (\<lambda>s.
       bindR (release Lthread s) (\<lambda>s. Inr (0, s)))))"

definition deallocstack :: "nat \<Rightarrow> 'a kmem_scheme \<Rightarrow> (int \<times> 'a kmem_scheme) res" where
  "deallocstack worker s =
     bindR (acquire Lthread s) (\<lambda>s.
     bindR (kfree (p_kstack (ptable s worker)) s) (\<lambda>s.
     case p_master (ptable s worker) of None \<Rightarrow> Inl NullDeref
     | Some m \<Rightarrow>
         (case find (\<lambda>i. p_freeusrspace (ptable s m) i = 0) [0..<NTHRE] of
            Some i \<Rightarrow>
              let w = ptable s worker in
              bindR (deallocuvm (p_pgdir w) (p_sz w) (p_sz w - 2 * PGSIZE) s) (\<lambda>(sz, s).
              let s = upd_proc m (\<lambda>x. x\<lparr>p_freeusrspace := (p_freeusrspace x)(i := sz)\<rparr>) s in
              bindR (release Lthread s) (\<lambda>s. Inr (if sz = 0 then - 1 else 0, s)))
          | None \<Rightarrow> bindR (release Lthread s) (\<lambda>s. Inr (- 1, s)))))"

section \<open>Open files of a new or an ending process\<close>

text \<open>The copies of the descriptors and of the working directory, in \<open>fork\<close> and \<open>thread_create\<close>.\<close>

definition dup_fd :: "nat \<Rightarrow> nat \<Rightarrow> nat \<Rightarrow> 'a kfile_scheme \<Rightarrow> 'a kfile_scheme res" where
  "dup_fd from to fd s =
     (case p_ofile (ptable s from) fd of None \<Rightarrow> Inr s
      | Some f \<Rightarrow> bindR (filedup f s) (\<lambda>(f, s). Inr (set_ofile to fd (Some f) s)))"

definition dup_files :: "nat \<Rightarrow> nat \<Rightarrow> 'a kfile_scheme \<Rightarrow> 'a kfile_scheme res" where
  "dup_files from to s =
     bindR (foldR (dup_fd from to) [0..<NOFILE] s) (\<lambda>s.
     case p_cwd (ptable s from) of None \<Rightarrow> Inl NullDeref
     | Some cwd \<Rightarrow> bindR (idup cwd s) (\<lambda>(ip, s). Inr (upd_proc to (\<lambda>x. x\<lparr>p_cwd := Some ip\<rparr>) s)))"

definition close_fd :: "nat \<Rightarrow> nat \<Rightarrow> 'a kfile_scheme \<Rightarrow> 'a kfile_scheme res" where
  "close_fd p fd s =
     (case p_ofile (ptable s p) fd of None \<Rightarrow> Inr s
      | Some f \<Rightarrow> bindR (fileclose f s) (\<lambda>s. Inr (set_ofile p fd None s)))"

definition put_cwd :: "nat \<Rightarrow> 'a kfile_scheme \<Rightarrow> 'a kfile_scheme res" where
  "put_cwd p s =
     bindR (begin_op s) (\<lambda>s.
     bindR (case p_cwd (ptable s p) of None \<Rightarrow> Inl NullDeref | Some cwd \<Rightarrow> iput cwd s) (\<lambda>s.
     bindR (end_op s) (\<lambda>s. Inr (upd_proc p (\<lambda>x. x\<lparr>p_cwd := None\<rparr>) s))))"

section \<open>Threads\<close>

definition thread_master :: "nat \<Rightarrow> 'a kproc_scheme \<Rightarrow> nat" where
  "thread_master p s = (case p_master (ptable s p) of None \<Rightarrow> p | Some m \<Rightarrow> m)"

definition thread_create :: "nat \<Rightarrow> 32 word \<Rightarrow> 32 word \<Rightarrow> 'a kfile_scheme \<Rightarrow> (int \<times> 'a kfile_scheme) res" where
  "thread_create thread start_routine arg s =
     bindR (curproc s) (\<lambda>p.
     let master = thread_master p s in
     bindR (allocthread master s) (\<lambda>(t, s).
     case t of None \<Rightarrow> Inr (- 1, s)
     | Some thrd \<Rightarrow>
         bindR (allocusrstack master thrd s) (\<lambda>(r, s).
         if r < 0 then Inr (- 1, s)
         else
           bindR (dup_files master thrd s) (\<lambda>s.
           let m = ptable s master;
               s = upd_proc thrd (\<lambda>x. x\<lparr>p_name := take 15 (p_name m), p_tf := (p_tf m)\<lparr>tf_eip := start_routine\<rparr>\<rparr>) s;
               sp = p_sz (ptable s thrd) - 12
           in bindR (copyout (p_pgdir m) sp (bytes32 0xFFFFFFFF @ bytes32 arg @ bytes32 0) s) (\<lambda>(r, s).
              if r < 0 then Inr (- 1, s)
              else
                let s = upd_proc thrd (\<lambda>x. x\<lparr>p_tf := (p_tf x)\<lparr>tf_esp := word_of_nat sp\<rparr>\<rparr>) s in
                bindR (ustore_bytes thread (bytes32 (word_of_int (p_pid (ptable s thrd)))) s) (\<lambda>s.
                bindR (acquire Lptable s) (\<lambda>s.
                bindR (release Lptable (upd_proc thrd (\<lambda>x. x\<lparr>p_state := RUNNABLE\<rparr>) s)) (\<lambda>s.
                Inr (0, s)))))))))"

text \<open>
  \<open>thread_join\<close> with \<open>ptable.lock\<close> held and the entry \<open>j\<close> found; the entry may have become free
  or a zombie since the last look.
\<close>

definition join_loop :: "nat \<Rightarrow> nat \<Rightarrow> 'a kfile_scheme \<Rightarrow> (int blocking \<times> 'a kfile_scheme) res" where
  "join_loop j retval s =
     (if p_state (ptable s j) \<noteq> ZOMBIE then
        bindR (sleep_to_sched (map_option ChProc (p_master (ptable s j))) (Some Lptable) s) (\<lambda>s. Inr (Asleep j, s))
      else
        bindR (deallocstack j s) (\<lambda>(r, s).
        if r = - 1 then bindR (release Lptable s) (\<lambda>s. Inr (Done (- 1), s))
        else case p_master (ptable s j) of None \<Rightarrow> Inl NullDeref
          | Some m \<Rightarrow>
              bindR (if retval \<noteq> 0 then ustore_bytes retval (bytes32 (p_retvals (ptable s m) (p_tindex (ptable s j)))) s else Inr s) (\<lambda>s.
              let s = upd_proc m (\<lambda>x. x\<lparr>p_workerthread := (p_workerthread x)(p_tindex (ptable s j) := None)\<rparr>) s;
                  s = upd_proc j (\<lambda>x. x\<lparr>p_state := UNUSED, p_kstack := 0, p_killed := False\<rparr>) s
              in bindR (release Lptable s) (\<lambda>s. Inr (Done 0, s)))))"

definition thread_join :: "int \<Rightarrow> nat \<Rightarrow> 'a kfile_scheme \<Rightarrow> (int blocking \<times> 'a kfile_scheme) res" where
  "thread_join thread retval s =
     bindR (acquire Lptable s) (\<lambda>s.
     case find (\<lambda>p. p_pid (ptable s p) = thread) [0..<NPROC] of
       None \<Rightarrow> Inl OutOfBounds
     | Some j \<Rightarrow>
         if p_state (ptable s j) = UNUSED then bindR (release Lptable s) (\<lambda>s. Inr (Done 0, s))
         else join_loop j retval s)"

definition thread_join_resume :: "nat \<Rightarrow> nat \<Rightarrow> nat \<Rightarrow> 'a kfile_scheme \<Rightarrow> (int blocking \<times> 'a kfile_scheme) res" where
  "thread_join_resume q j retval s = bindR (sleep_resume q Lptable s) (join_loop j retval)"

text \<open>Children of \<open>p\<close> are handed to \<open>initproc\<close>, which is woken for every one that is a zombie.\<close>

definition adopt :: "nat \<Rightarrow> 'a kproc_scheme \<Rightarrow> 'a kproc_scheme" where
  "adopt p s =
     fold (\<lambda>i s. if p_parent (ptable s i) = Some p then
                   let s = upd_proc i (\<lambda>x. x\<lparr>p_parent := initproc s\<rparr>) s in
                   if p_state (ptable s i) = ZOMBIE then wakeup1 (map_option ChProc (initproc s)) s else s
                 else s) [0..<NPROC] s"

section \<open>Exit and wait\<close>

definition exit_worker :: "nat \<Rightarrow> nat \<Rightarrow> 'a kfile_scheme \<Rightarrow> 'a kfile_scheme res" where
  "exit_worker master i s =
     (case p_workerthread (ptable s master) i of None \<Rightarrow> Inr s
      | Some w \<Rightarrow>
          if Some w = initproc s then Inl (Kpanic ''init exiting'')
          else bindR (foldR (close_fd w) [0..<NOFILE] s) (put_cwd w))"

definition exit_shares :: "nat \<Rightarrow> 'a kproc_scheme \<Rightarrow> 'a kproc_scheme res" where
  "exit_shares master s =
     (if p_isstride (ptable s master) then
        case p_mystride (ptable s master) of None \<Rightarrow> Inl NullDeref
        | Some j \<Rightarrow>
            let sh = cint (st_share (stride_arr s 0) + st_share (stride_arr s j)) in
            if sh = 0 then Inl DivByZero
            else Inr (upd_stride j (\<lambda>e. e\<lparr>st_stride := 0, st_pass := 0, st_share := 0\<rparr>)
                   (upd_stride 0 (\<lambda>e. e\<lparr>st_share := sh, st_stride := MAXTICKET sdiv sh\<rparr>) s))
      else bindR (pop_MLFQ master s) (\<lambda>(_, s). Inr s))"

definition exit :: "'a kfile_scheme \<Rightarrow> 'a kfile_scheme res" where
  "exit s =
     bindR (curproc s) (\<lambda>p.
     let master = thread_master p s in
     if Some p = initproc s then Inl (Kpanic ''init exiting'')
     else
       bindR (foldR (exit_worker master) [0..<NTHRE] s) (\<lambda>s.
       bindR (foldR (close_fd master) [0..<NOFILE] s) (\<lambda>s.
       bindR (if p_cwd (ptable s master) \<noteq> None then put_cwd master s else Inr s) (\<lambda>s.
       bindR (acquire Lptable s) (\<lambda>s.
       let s = wakeup1 (map_option ChProc (p_parent (ptable s master))) s;
           s = adopt master s;
           s = fold (\<lambda>i s. case p_workerthread (ptable s master) i of None \<Rightarrow> s
                           | Some w \<Rightarrow> upd_proc w (\<lambda>x. x\<lparr>p_state := ZOMBIE\<rparr>) s) [0..<NTHRE] s
       in bindR (exit_shares master s) (\<lambda>s.
          sched (upd_proc master (\<lambda>x. x\<lparr>p_state := ZOMBIE\<rparr>) s)))))))"

definition thread_exit :: "32 word \<Rightarrow> 'a kfile_scheme \<Rightarrow> 'a kfile_scheme res" where
  "thread_exit retval s =
     bindR (curproc s) (\<lambda>p.
     case p_master (ptable s p) of None \<Rightarrow> exit s
     | Some m \<Rightarrow>
         bindR (foldR (close_fd p) [0..<NOFILE] s) (\<lambda>s.
         bindR (put_cwd p s) (\<lambda>s.
         bindR (acquire Lptable s) (\<lambda>s.
         let s = wakeup1 (Some (ChProc m)) s;
             s = adopt p s;
             s = upd_proc m (\<lambda>x. x\<lparr>p_retvals := (p_retvals x)(p_tindex (ptable s p) := retval)\<rparr>) s;
             s = upd_proc p (\<lambda>x. x\<lparr>p_state := ZOMBIE\<rparr>) s;
             s = upd_proc m (\<lambda>x. x\<lparr>p_threadcnt := p_threadcnt x - 1\<rparr>) s
         in sched s))))"

definition reap_worker :: "nat \<Rightarrow> nat \<Rightarrow> 'a kmem_scheme \<Rightarrow> 'a kmem_scheme res" where
  "reap_worker p i s =
     (case p_workerthread (ptable s p) i of None \<Rightarrow> Inr s
      | Some w \<Rightarrow>
          bindR (kfree (p_kstack (ptable s w)) s) (\<lambda>s.
          Inr (upd_proc p (\<lambda>x. x\<lparr>p_workerthread := (p_workerthread x)(i := None)\<rparr>)
            (upd_proc w (\<lambda>x. x\<lparr>p_kstack := 0, p_parent := None, p_name := [], p_pid := 0, p_state := UNUSED, p_killed := False\<rparr>) s))))"

definition reap :: "nat \<Rightarrow> 'a kmem_scheme \<Rightarrow> (int \<times> 'a kmem_scheme) res" where
  "reap p s =
     bindR (foldR (reap_worker p) [0..<NTHRE] s) (\<lambda>s.
     let pid = p_pid (ptable s p) in
     bindR (kfree (p_kstack (ptable s p)) s) (\<lambda>s.
     bindR (freevm (p_pgdir (ptable s p)) (upd_proc p (\<lambda>x. x\<lparr>p_kstack := 0\<rparr>) s)) (\<lambda>s.
     let s = upd_proc p (\<lambda>x. x\<lparr>p_pid := 0, p_parent := None, p_name := [], p_killed := False, p_state := UNUSED\<rparr>) s
     in bindR (release Lptable s) (\<lambda>s. Inr (pid, s)))))"

definition is_child :: "nat \<Rightarrow> 'a kproc_scheme \<Rightarrow> nat \<Rightarrow> bool" where
  "is_child p s c \<longleftrightarrow> p_parent (ptable s c) = Some p \<and> p_master (ptable s c) = None"

definition wait_loop :: "nat \<Rightarrow> 'a kmem_scheme \<Rightarrow> (int blocking \<times> 'a kmem_scheme) res" where
  "wait_loop p s =
     (case find (\<lambda>c. is_child p s c \<and> p_state (ptable s c) = ZOMBIE) [0..<NPROC] of
        Some c \<Rightarrow> bindR (reap c s) (\<lambda>(pid, s). Inr (Done pid, s))
      | None \<Rightarrow>
          if (\<forall>c \<in> set [0..<NPROC]. \<not> is_child p s c) \<or> p_killed (ptable s p) then
            bindR (release Lptable s) (\<lambda>s. Inr (Done (- 1), s))
          else bindR (sleep_to_sched (Some (ChProc p)) (Some Lptable) s) (\<lambda>s. Inr (Asleep 0, s)))"

definition wait :: "'a kmem_scheme \<Rightarrow> (int blocking \<times> 'a kmem_scheme) res" where
  "wait s = bindR (curproc s) (\<lambda>p. bindR (acquire Lptable s) (wait_loop p))"

definition wait_resume :: "nat \<Rightarrow> 'a kmem_scheme \<Rightarrow> (int blocking \<times> 'a kmem_scheme) res" where
  "wait_resume p s = bindR (sleep_resume p Lptable s) (wait_loop p)"

section \<open>New processes\<close>

definition fork :: "'a kfile_scheme \<Rightarrow> (int \<times> 'a kfile_scheme) res" where
  "fork s =
     bindR (curproc s) (\<lambda>p.
     bindR (allocproc s) (\<lambda>(npo, s).
     case npo of None \<Rightarrow> Inr (- 1, s)
     | Some np \<Rightarrow>
         bindR (copyuvm (p_pgdir (ptable s p)) (p_sz (ptable s p)) s) (\<lambda>(d, s).
         let s = upd_proc np (\<lambda>x. x\<lparr>p_pgdir := d\<rparr>) s in
         if d = 0 then
           bindR (kfree (p_kstack (ptable s np)) s) (\<lambda>s.
           Inr (- 1, upd_proc np (\<lambda>x. x\<lparr>p_kstack := 0, p_state := UNUSED\<rparr>) s))
         else
           let c = ptable s p;
               s = upd_proc np (\<lambda>x. x\<lparr>p_sz := p_sz c, p_parent := Some p, p_tf := (p_tf c)\<lparr>tf_eax := 0\<rparr>\<rparr>) s
           in bindR (dup_files p np s) (\<lambda>s.
              let s = upd_proc np (\<lambda>x. x\<lparr>p_name := take 15 (p_name (ptable s p))\<rparr>) s;
                  pid = p_pid (ptable s np)
              in bindR (acquire Lptable s) (\<lambda>s.
                 bindR (release Lptable (upd_proc np (\<lambda>x. x\<lparr>p_state := RUNNABLE\<rparr>) s)) (\<lambda>s.
                 Inr (pid, s)))))))"

text \<open>The tables of the scheduler as \<open>userinit\<close> leaves them.\<close>

definition init_queues :: "'a kproc_scheme \<Rightarrow> 'a kproc_scheme" where
  "init_queues s =
     (let s = upd_stride 0 (\<lambda>e. e\<lparr>st_stride := MAXTICKET sdiv 20, st_share := 20, st_pass := 0, st_proc := None\<rparr>) s;
          s = fold (\<lambda>i. upd_stride i (\<lambda>e. e\<lparr>st_stride := 0, st_proc := None\<rparr>)) [0..<NPROC] s
      in fold (\<lambda>j. upd_FQ j (\<lambda>q. q\<lparr>fq_total := 0, fq_current := 0,
            fq_holdingproc := fold (\<lambda>l h. h(l := None)) [0..<NPROC] (fq_holdingproc q)\<rparr>)) [0..<3] s)"

definition SEG_UCODE :: "16 word" where [params]: "SEG_UCODE = 3"
definition SEG_UDATA :: "16 word" where [params]: "SEG_UDATA = 4"
definition DPL_USER :: "16 word" where [params]: "DPL_USER = 3"
definition FL_IF :: "32 word" where [params]: "FL_IF = 0x200"

definition userinit :: "byte list \<Rightarrow> 'a kfile_scheme \<Rightarrow> 'a kfile_scheme res" where
  "userinit initcode s =
     bindR (allocproc (init_queues s)) (\<lambda>(po, s).
     let s = (upd_stride 0 (\<lambda>e. e\<lparr>st_proc := po\<rparr>) s)\<lparr>initproc := po\<rparr> in
     case po of None \<Rightarrow> Inl NullDeref
     | Some p \<Rightarrow>
         bindR (setupkvm s) (\<lambda>(d, s).
         let s = upd_proc p (\<lambda>x. x\<lparr>p_pgdir := d\<rparr>) s in
         if d = 0 then Inl (Kpanic ''userinit: out of memory?'')
         else
           bindR (inituvm d initcode s) (\<lambda>s.
           let ds = push_bit 3 SEG_UDATA OR DPL_USER;
               s = upd_proc p (\<lambda>x. x\<lparr>p_sz := PGSIZE,
                     p_tf := zero_tf\<lparr>tf_cs := push_bit 3 SEG_UCODE OR DPL_USER, tf_ds := ds, tf_es := ds, tf_ss := ds,
                       tf_eflags := FL_IF, tf_esp := word_of_nat PGSIZE, tf_eip := 0\<rparr>,
                     p_name := ''initcode''\<rparr>) s
           in bindR (namei [slash] s) (\<lambda>(ip, s).
              let s = upd_proc p (\<lambda>x. x\<lparr>p_cwd := ip\<rparr>) s in
              bindR (acquire Lptable s) (\<lambda>s.
              release Lptable (upd_proc p (\<lambda>x. x\<lparr>p_state := RUNNABLE\<rparr>) s))))))"

definition growproc :: "int \<Rightarrow> 'a kvm_scheme \<Rightarrow> (int \<times> 'a kvm_scheme) res" where
  "growproc n s =
     bindR (curproc s) (\<lambda>p.
     let master = thread_master p s; m = ptable s master; sz = p_sz m; sz' = nat ((int sz + n) mod 2 ^ 32) in
     bindR (if n > 0 then allocuvm (p_pgdir m) sz sz' s
            else if n < 0 then deallocuvm (p_pgdir m) sz sz' s
            else Inr (sz, s)) (\<lambda>(new, s).
     if n \<noteq> 0 \<and> new = 0 then Inr (- 1, s)
     else bindR (switchuvm (Some p) (upd_proc master (\<lambda>x. x\<lparr>p_sz := new\<rparr>) s)) (\<lambda>s. Inr (0, s))))"

definition forkret :: "bool \<Rightarrow> 'a kfs_scheme \<Rightarrow> 'a kfs_scheme res" where
  "forkret first s =
     bindR (release Lptable s) (\<lambda>s.
     if first then bindR (iinit ROOTDEV s) (initlog ROOTDEV) else Inr s)"

section \<open>The scheduler\<close>

text \<open>
  One round of the inner loop of \<open>scheduler\<close> for the runnable entry \<open>p\<close>, up to the switch to the
  chosen process, and the end of the round, when that process has given the CPU back.
\<close>

definition schedule :: "nat \<Rightarrow> 'a kvm_scheme \<Rightarrow> 'a kvm_scheme res" where
  "schedule p s =
     (if p_state (ptable s p) \<noteq> RUNNABLE then Inr s
      else
        bindR (choose_lowpass 0 s) (\<lambda>(chosen, s).
        bindR (case chosen of Some c \<Rightarrow> Inr (Some c, s)
               | None \<Rightarrow> choose_lowpass 1 (upd_stride 0 (\<lambda>e. e\<lparr>st_pass := cint (st_pass e + st_stride e)\<rparr>) s)) (\<lambda>(chosen, s).
        let c = (case chosen of None \<Rightarrow> p | Some c \<Rightarrow> c); s = s\<lparr>myproc := Some c\<rparr> in
        bindR (switchuvm (Some c) s) (\<lambda>s.
        Inr (upd_proc c (\<lambda>x. x\<lparr>p_state := RUNNING\<rparr>) s)))))"

definition schedule_return :: "'a kvm_scheme \<Rightarrow> 'a kvm_scheme" where
  "schedule_return s = (switchkvm s)\<lparr>myproc := None\<rparr>"

section \<open>Properties\<close>

lemma foldR_first:
  assumes "i < n" "\<And>j. j < i \<Longrightarrow> f j s = Inr s" "f i s = Inl e"
  shows "foldR f [0..<n] s = Inl e"
proof -
  have "foldR f [0..<k] s = Inr s" if "k \<le> i" for k using that assms(2) by (induction k) (simp_all add: foldR_append)
  moreover have "[0..<n] = [0..<i] @ i # [Suc i..<n]"
    using upt_add_eq_append [of 0 i "n - i"] upt_conv_Cons [OF assms(1)] assms(1) by simp
  ultimately show ?thesis using assms(3) by (simp add: foldR_append)
qed

text \<open>
  C40. A process that exits while one of its threads has ended but was not joined follows a null
  pointer in the kernel: \<open>thread_exit\<close> clears the working directory of the thread, its slot in
  the table of the master stays until \<open>thread_join\<close>, and \<open>exit\<close> passes the directory of every
  thread in the table to \<open>iput\<close> without a test.
\<close>

theorem exit_unjoined_thread:
  fixes s :: "'a kfile_scheme"
  assumes p: "myproc s = Some p" "Some p \<noteq> initproc s" "locks s = []"
    and lg: "\<not> lg_committing s" "lg_n s + (lg_outstanding s + 1) * int MAXOPBLOCKS \<le> int LOGSIZE"
  defines "m \<equiv> thread_master p s"
  assumes w: "i < NTHRE" "\<forall>j < i. p_workerthread (ptable s m) j = None" "p_workerthread (ptable s m) i = Some w" "Some w \<noteq> initproc s"
    "\<forall>fd < NOFILE. p_ofile (ptable s w) fd = None" "p_cwd (ptable s w) = None"
  shows "exit s = Inl NullDeref"
proof -
  have "foldR (close_fd w) [0..<n] s = Inr s" if "n \<le> NOFILE" for n
    using that w(5) by (induction n) (simp_all add: foldR_append close_fd_def)
  moreover have "put_cwd w s = Inl NullDeref" using lg p(3) w(6) by (simp add: put_cwd_def begin_op_eq)
  ultimately have "exit_worker m i s = Inl NullDeref" using w(3,4) by (simp add: exit_worker_def)
  moreover have "exit_worker m j s = Inr s" if "j < i" for j using w(2) that by (simp add: exit_worker_def)
  ultimately have "foldR (exit_worker m) [0..<NTHRE] s = Inl NullDeref" by (intro foldR_first [OF w(1)])
  then show ?thesis using p by (simp add: exit_def curproc_def m_def)
qed

definition unjoined :: kfile where
  "unjoined = (boot_kfile small_disk)\<lparr>myproc := Some 1, initproc := Some 0, lg_outstanding := 0,
     ptable := (\<lambda>_. zero_proc)(1 := zero_proc\<lparr>p_state := RUNNING, p_pid := 2, p_cwd := Some 0, p_workerthread := (\<lambda>_. None)(0 := Some 2)\<rparr>,
       2 := zero_proc\<lparr>p_state := ZOMBIE, p_pid := 3, p_master := Some 1\<rparr>)\<rparr>"

theorem exit_unjoined_thread_witness: "exit unjoined = Inl NullDeref"
proof -
  have "lg_n unjoined = 0" "\<not> lg_committing unjoined"
    by (simp_all add: unjoined_def boot_kfile_def kfs.defs boot_kfs_def boot_klog_def klog.defs kbio.defs)
  moreover have "thread_master 1 unjoined = 1" "p_workerthread (ptable unjoined 1) 0 = Some 2" "p_cwd (ptable unjoined 2) = None"
      "\<forall>fd. p_ofile (ptable unjoined 2) fd = None" "initproc unjoined = Some 0" "myproc unjoined = Some 1" "locks unjoined = []" "lg_outstanding unjoined = 0"
    by (simp_all add: unjoined_def thread_master_def zero_proc_def)
  ultimately show ?thesis using exit_unjoined_thread [of unjoined 1 0 2] by (simp add: params)
qed

end
