(* ===== verification/Exec.thy ===== *)
theory Exec
  imports ProcLife
begin

text \<open>
  \<open>exec\<close> (\<^verbatim>\<open>exec.c\<close>) with \<open>loaduvm\<close> of \<^verbatim>\<open>vm.c\<close> and \<open>sys_exec\<close> of \<^verbatim>\<open>sysfile.c\<close>: a new address
  space is built from the program file and replaces the old one only when every step has
  succeeded. The file headers are read from their bytes at the offsets of \<^verbatim>\<open>elf.h\<close>.
\<close>

section \<open>Program files\<close>

definition ELF_MAGIC :: "32 word" where [params]: "ELF_MAGIC = 0x464C457F"
definition ELF_PROG_LOAD :: "32 word" where [params]: "ELF_PROG_LOAD = 1"

record elfhdr =
  e_magic :: "32 word"
  e_entry :: "32 word"
  e_phoff :: nat
  e_phnum :: nat

record proghdr =
  ph_type :: "32 word"
  ph_off :: nat
  ph_vaddr :: nat
  ph_filesz :: nat
  ph_memsz :: nat

definition elfhdr_of :: "byte list \<Rightarrow> elfhdr" where
  "elfhdr_of bs = (let m = \<lambda>i. bs ! i in
     \<lparr>e_magic = rd32 0 m, e_entry = rd32 24 m, e_phoff = unat (rd32 28 m), e_phnum = unat (rd16 44 m)\<rparr>)"

definition proghdr_of :: "byte list \<Rightarrow> proghdr" where
  "proghdr_of bs = (let m = \<lambda>i. bs ! i in
     \<lparr>ph_type = rd32 0 m, ph_off = unat (rd32 4 m), ph_vaddr = unat (rd32 8 m),
      ph_filesz = unat (rd32 16 m), ph_memsz = unat (rd32 20 m)\<rparr>)"

section \<open>Loading a segment\<close>

fun loaduvm_loop :: "nat \<Rightarrow> (nat \<Rightarrow> ('a kfile_ext) dev_read option) \<Rightarrow> nat \<Rightarrow> nat \<Rightarrow> nat \<Rightarrow> nat \<Rightarrow> nat \<Rightarrow> nat \<Rightarrow>
    'a kfile_scheme \<Rightarrow> (int \<times> 'a kfile_scheme) res" where
  "loaduvm_loop 0 devr pgdir addr ip offset i sz s = Inl Diverges"
| "loaduvm_loop (Suc k) devr pgdir addr ip offset i sz s =
     (if i < sz then
        bindR (walkpgdir pgdir (addr + i) False s) (\<lambda>(pte, s).
        if pte = 0 then Inl (Kpanic ''loaduvm: address should exist'')
        else
          let pa = PTE_ADDR (rd32 pte (mem s)); n = (if sz - i < PGSIZE then sz - i else PGSIZE) in
          bindR (readi devr ip ((offset + i) mod 2 ^ 32) n s) (\<lambda>(r, bytes, s).
          let dst = P2V pa;
              s = s\<lparr>mem := (\<lambda>a. if dst \<le> a \<and> a < dst + length bytes then bytes ! (a - dst) else mem s a)\<rparr>
          in if r \<noteq> int n then Inr (- 1, s)
             else loaduvm_loop k devr pgdir addr ip offset (i + PGSIZE) sz s))
      else Inr (0, s))"

definition loaduvm :: "(nat \<Rightarrow> ('a kfile_ext) dev_read option) \<Rightarrow> nat \<Rightarrow> nat \<Rightarrow> nat \<Rightarrow> nat \<Rightarrow> nat \<Rightarrow> 'a kfile_scheme \<Rightarrow> (int \<times> 'a kfile_scheme) res" where
  "loaduvm devr pgdir addr ip offset sz s =
     (if addr mod PGSIZE \<noteq> 0 then Inl (Kpanic ''loaduvm: addr must be page aligned'')
      else loaduvm_loop (NPAGES + 1) devr pgdir addr ip offset 0 sz s)"

text \<open>The loop over the program headers, \<open>k\<close> of them left; \<open>None\<close> is the jump to \<^verbatim>\<open>bad\<close>.\<close>

fun exec_load :: "nat \<Rightarrow> (nat \<Rightarrow> ('a kfile_ext) dev_read option) \<Rightarrow> nat \<Rightarrow> nat \<Rightarrow> nat \<Rightarrow> nat \<Rightarrow> 'a kfile_scheme \<Rightarrow>
    (nat option \<times> 'a kfile_scheme) res" where
  "exec_load 0 devr ip pgdir off sz s = Inr (Some sz, s)"
| "exec_load (Suc k) devr ip pgdir off sz s =
     bindR (readi devr ip off 32 s) (\<lambda>(r, bytes, s).
     if r \<noteq> 32 then Inr (None, s)
     else
       let ph = proghdr_of bytes; off' = (off + 32) mod 2 ^ 32 in
       if ph_type ph \<noteq> ELF_PROG_LOAD then exec_load k devr ip pgdir off' sz s
       else if ph_memsz ph < ph_filesz ph then Inr (None, s)
       else if (ph_vaddr ph + ph_memsz ph) mod 2 ^ 32 < ph_vaddr ph then Inr (None, s)
       else
         bindR (allocuvm pgdir sz ((ph_vaddr ph + ph_memsz ph) mod 2 ^ 32) s) (\<lambda>(sz, s).
         if sz = 0 then Inr (None, s)
         else if ph_vaddr ph mod PGSIZE \<noteq> 0 then Inr (None, s)
         else
           bindR (loaduvm devr pgdir (ph_vaddr ph) ip (ph_off ph) (ph_filesz ph) s) (\<lambda>(r, s).
           if r < 0 then Inr (None, s) else exec_load k devr ip pgdir off' sz s)))"

section \<open>The stack of the new program\<close>

text \<open>A stack pointer lowered by \<open>n\<close> bytes, and rounded down to a word.\<close>

definition lower :: "nat \<Rightarrow> nat \<Rightarrow> nat" where
  "lower sp n = unat (word_of_nat sp - word_of_nat n :: 32 word)"

definition align4 :: "nat \<Rightarrow> nat" where
  "align4 a = unat ((word_of_nat a :: 32 word) AND NOT 3)"

text \<open>The argument strings, pushed in order; the result is the stack pointer and their addresses.\<close>

fun push_args :: "nat \<Rightarrow> byte list list \<Rightarrow> nat \<Rightarrow> nat list \<Rightarrow> 'a kmem_scheme \<Rightarrow> ((nat \<times> nat list) option \<times> 'a kmem_scheme) res" where
  "push_args pgdir [] sp addrs s = Inr (Some (sp, addrs), s)"
| "push_args pgdir (arg # args) sp addrs s =
     (if length addrs \<ge> MAXARG then Inr (None, s)
      else
        let sp = align4 (lower sp (length arg + 1)) in
        bindR (copyout pgdir sp (arg @ [0]) s) (\<lambda>(r, s).
        if r < 0 then Inr (None, s) else push_args pgdir args sp (addrs @ [sp]) s))"

definition ustack_bytes :: "nat \<Rightarrow> nat list \<Rightarrow> byte list" where
  "ustack_bytes sp addrs =
     concat (map bytes32 ([0xFFFFFFFF, word_of_nat (length addrs), word_of_nat sp - word_of_nat ((length addrs + 1) * 4)] @
       map word_of_nat addrs @ [0]))"

definition base_name :: "byte list \<Rightarrow> byte list" where
  "base_name path = rev (takeWhile (\<lambda>c. c \<noteq> slash) (rev path))"

text \<open>Everything after the program is loaded: the stack, and the switch to the new image.\<close>

definition exec_commit :: "byte list \<Rightarrow> byte list list \<Rightarrow> nat \<Rightarrow> 32 word \<Rightarrow> nat \<Rightarrow> nat \<Rightarrow> 'a kvm_scheme \<Rightarrow> (int \<times> 'a kvm_scheme) res" where
  "exec_commit path argv p entry pgdir sz s =
     bindR (allocuvm pgdir (PGROUNDUP sz) (PGROUNDUP sz + 2 * PGSIZE) s) (\<lambda>(sz, s).
     if sz = 0 then bindR (freevm pgdir s) (\<lambda>s. Inr (- 1, s))
     else
       bindR (clearpteu pgdir (sz - 2 * PGSIZE) s) (\<lambda>s.
       bindR (push_args pgdir argv sz [] s) (\<lambda>(pushed, s).
       case pushed of None \<Rightarrow> bindR (freevm pgdir s) (\<lambda>s. Inr (- 1, s))
       | Some (sp, addrs) \<Rightarrow>
           let sp' = lower sp ((3 + length addrs + 1) * 4) in
           bindR (copyout pgdir sp' (ustack_bytes sp addrs) s) (\<lambda>(r, s).
           if r < 0 then bindR (freevm pgdir s) (\<lambda>s. Inr (- 1, s))
           else
             let old = p_pgdir (ptable s p);
                 s = upd_proc p (\<lambda>x. x\<lparr>p_name := take 15 (map (\<lambda>c. char_of (unat c)) (base_name path)), p_pgdir := pgdir, p_sz := sz,
                       p_tf := (p_tf x)\<lparr>tf_eip := entry, tf_esp := word_of_nat sp'\<rparr>\<rparr>) s
             in bindR (switchuvm (Some p) s) (\<lambda>s.
                bindR (freevm old s) (\<lambda>s. Inr (0, s)))))))"

definition exec_bad :: "nat \<Rightarrow> nat \<Rightarrow> 'a kfile_scheme \<Rightarrow> (int \<times> 'a kfile_scheme) res" where
  "exec_bad pgdir ip s =
     bindR (if pgdir \<noteq> 0 then freevm pgdir s else Inr s) (\<lambda>s.
     bindR (iunlockput (Some ip) s) fail_op)"

definition exec :: "(nat \<Rightarrow> ('a kfile_ext) dev_read option) \<Rightarrow> byte list \<Rightarrow> byte list list \<Rightarrow> 'a kfile_scheme \<Rightarrow> (int \<times> 'a kfile_scheme) res" where
  "exec devr path argv s =
     bindR (curproc s) (\<lambda>p.
     bindR (begin_op s) (\<lambda>s.
     bindR (namei path s) (\<lambda>(ipo, s).
     case ipo of None \<Rightarrow> fail_op s
     | Some ip \<Rightarrow>
         bindR (ilock (Some ip) s) (\<lambda>s.
         bindR (readi devr ip 0 52 s) (\<lambda>(r, bytes, s).
         let elf = elfhdr_of bytes in
         if r \<noteq> 52 \<or> e_magic elf \<noteq> ELF_MAGIC then exec_bad 0 ip s
         else
           bindR (setupkvm s) (\<lambda>(pgdir, s).
           if pgdir = 0 then exec_bad 0 ip s
           else
             bindR (exec_load (e_phnum elf) devr ip pgdir (e_phoff elf) 0 s) (\<lambda>(szo, s).
             case szo of None \<Rightarrow> exec_bad pgdir ip s
             | Some sz \<Rightarrow>
                 bindR (iunlockput (Some ip) s) (\<lambda>s.
                 bindR (end_op s) (exec_commit path argv p (e_entry elf) pgdir sz)))))))))"

text \<open>The argument vector in user memory, \<open>k\<close> entries of the kernel's array left.\<close>

fun fetch_argv :: "nat \<Rightarrow> nat \<Rightarrow> 'a kvm_scheme \<Rightarrow> byte list list option res" where
  "fetch_argv 0 uargv s = Inr None"
| "fetch_argv (Suc k) uargv s =
     bindR (fetchint uargv s) (\<lambda>a.
     case a of None \<Rightarrow> Inr None
     | Some uarg \<Rightarrow>
         if uarg = 0 then Inr (Some [])
         else
           bindR (fetchstr (unat uarg) s) (\<lambda>b.
           case b of None \<Rightarrow> Inr None
           | Some str \<Rightarrow> bindR (fetch_argv k ((uargv + 4) mod 2 ^ 32) s) (\<lambda>r. Inr (map_option (\<lambda>args. str # args) r))))"

definition sys_exec :: "(nat \<Rightarrow> ('a kfile_ext) dev_read option) \<Rightarrow> 'a kfile_scheme \<Rightarrow> (int \<times> 'a kfile_scheme) res" where
  "sys_exec devr s =
     bindR (argstr 0 s) (\<lambda>a.
     case a of None \<Rightarrow> Inr (- 1, s)
     | Some path \<Rightarrow>
         bindR (argint 1 s) (\<lambda>b.
         case b of None \<Rightarrow> Inr (- 1, s)
         | Some uargv \<Rightarrow>
             bindR (fetch_argv MAXARG (unat uargv) s) (\<lambda>c.
             case c of None \<Rightarrow> Inr (- 1, s) | Some argv \<Rightarrow> exec devr path argv s)))"

end
