(* ===== verification/Console.thy ===== *)
theory Console
  imports FileOps Printf
begin

text \<open>
  The console (\<^verbatim>\<open>console.c\<close>): output to the serial line and to the CGA screen, the line editor
  of the input with the process listing \<open>procdump\<close> (\<^verbatim>\<open>proc.c\<close>) that it calls, and the two operations
  in the device table.

  The cursor register of the CRT controller and its memory are state, the bytes handed to the
  serial line are a list. The characters that \<^verbatim>\<open>getc\<close> returns to \<open>consoleintr\<close> before it
  returns a negative number are its argument. A read that has to wait for input is the fault
  \<open>WouldSleep\<close>.
\<close>

section \<open>State\<close>

record input =
  in_buf :: "nat \<Rightarrow> byte"
  in_r :: "32 word"
  in_w :: "32 word"
  in_e :: "32 word"

record kcons = kfile +
  panicked :: bool
  uart_out :: "byte list"
  crt :: "nat \<Rightarrow> 16 word"
  crt_pos :: nat
  input_s :: input

definition BACKSPACE :: int where [params]: "BACKSPACE = 0x100"
definition INPUT_BUF :: nat where [params]: "INPUT_BUF = 128"
definition CONSOLE :: nat where [params]: "CONSOLE = 1"

section \<open>Output\<close>

definition next_pos :: "int \<Rightarrow> nat \<Rightarrow> nat" where
  "next_pos c p = (if c = 10 then p + (80 - p mod 80) else if c = BACKSPACE then (if p > 0 then p - 1 else p) else p + 1)"

definition cgaputc :: "int \<Rightarrow> 'a kcons_scheme \<Rightarrow> 'a kcons_scheme res" where
  "cgaputc c s =
     (let p0 = crt_pos s;
          m = (if c \<noteq> 10 \<and> c \<noteq> BACKSPACE then (crt s)(p0 := word_of_int (c mod 256) OR 0x0700) else crt s);
          pos = next_pos c p0
      in if pos > 25 * 80 then Inl (Kpanic ''pos under/overflow'')
         else
           let scroll = (pos div 80 \<ge> 24);
               m = (if scroll then (\<lambda>i. if i < 23 * 80 then m (i + 80) else m i) else m);
               pos = (if scroll then pos - 80 else pos);
               m = (if scroll then (\<lambda>i. if pos \<le> i \<and> i < 24 * 80 then 0 else m i) else m)
           in Inr (s\<lparr>crt := m(pos := 0x0720), crt_pos := pos\<rparr>))"

definition consputc :: "int \<Rightarrow> 'a kcons_scheme \<Rightarrow> 'a kcons_scheme res" where
  "consputc c s =
     (if panicked s then Inl Diverges
      else cgaputc c (s\<lparr>uart_out := uart_out s @ (if c = BACKSPACE then [8, 32, 8] else [word_of_int c])\<rparr>))"

section \<open>The process listing\<close>

text \<open>
  \<open>cprintf\<close> with the lock of the console, which it takes because \<open>consoleinit\<close> has set \<^verbatim>\<open>cons.locking\<close>:
  the bytes that the formatter of theory \<open>Printf\<close> computes go to \<open>consputc\<close> one by one.
\<close>

definition cons_printf :: "bmem \<Rightarrow> byte list \<Rightarrow> 32 word list \<Rightarrow> 'a kcons_scheme \<Rightarrow> 'a kcons_scheme res" where
  "cons_printf m fmt args s =
     bindR (acquire Lcons s) (\<lambda>s.
     bindR (cprintf m (Some fmt) args) (\<lambda>out.
     bindR (foldR (\<lambda>b. consputc (uint b)) out s) (release Lcons)))"

text \<open>\<open>getcallerpcs\<close> (\<^verbatim>\<open>spinlock.c\<close>) follows the chain of frame pointers for at most 10 frames.\<close>

fun callerpcs :: "nat \<Rightarrow> bmem \<Rightarrow> 32 word \<Rightarrow> 32 word list" where
  "callerpcs 0 m ebp = []"
| "callerpcs (Suc n) m ebp =
     (if ebp = 0 \<or> unat ebp < KERNBASE \<or> ebp = 0xFFFFFFFF then replicate (Suc n) 0
      else rd32 (unat (ebp + 4)) m # callerpcs n m (rd32 (unat ebp) m))"

definition getcallerpcs :: "32 word \<Rightarrow> bmem \<Rightarrow> 32 word list" where
  "getcallerpcs v m = callerpcs 10 m (v - 8)"

definition state_name :: "procstate \<Rightarrow> string" where
  "state_name st = (case st of UNUSED \<Rightarrow> ''unused'' | EMBRYO \<Rightarrow> ''embryo'' | SLEEPING \<Rightarrow> ''sleep '' | RUNNABLE \<Rightarrow> ''runble''
     | RUNNING \<Rightarrow> ''run   '' | ZOMBIE \<Rightarrow> ''zombie'')"

definition bytes_of :: "string \<Rightarrow> byte list" where
  "bytes_of = map of_char"

text \<open>
  The string arguments of \<open>cprintf\<close> are pointers: the two strings of a line are laid out one after
  the other from address 1 on, each with its terminator.
\<close>

definition two_strings :: "byte list \<Rightarrow> byte list \<Rightarrow> bmem" where
  "two_strings a b = (\<lambda>i. let l = 0 # a @ 0 # b in if i < length l then l ! i else 0)"

definition procdump_entry :: "nat \<Rightarrow> 'a kcons_scheme \<Rightarrow> 'a kcons_scheme res" where
  "procdump_entry i s =
     (let p = ptable s i; st = bytes_of (state_name (p_state p)) in
      if p_state p = UNUSED then Inr s
      else
        bindR (cons_printf (two_strings st (bytes_of (p_name p))) (bytes_of ''%d %s %s'')
                 [word_of_int (p_pid p), 1, word_of_nat (2 + length st)] s) (\<lambda>s.
        bindR (if p_state p = SLEEPING
               then foldR (\<lambda>pc. cons_printf (\<lambda>_. 0) (bytes_of '' %p'') [pc])
                      (takeWhile (\<lambda>pc. pc \<noteq> 0) (getcallerpcs (ctx_ebp (p_context p) + 8) (mem s))) s
               else Inr s)
          (cons_printf (\<lambda>_. 0) [10] [])))"

definition procdump :: "'a kcons_scheme \<Rightarrow> 'a kcons_scheme res" where
  "procdump s = foldR procdump_entry [0..<NPROC] s"

section \<open>Input\<close>

definition upd_input :: "(input \<Rightarrow> input) \<Rightarrow> 'a kcons_scheme \<Rightarrow> 'a kcons_scheme" where
  "upd_input f s = s\<lparr>input_s := f (input_s s)\<rparr>"

definition unread :: "input \<Rightarrow> input" where
  "unread x = x\<lparr>in_e := in_e x - 1\<rparr>"

text \<open>The loop of the kill-line key, with \<open>k\<close> the number of characters of the line left.\<close>

fun kill_line :: "nat \<Rightarrow> 'a kcons_scheme \<Rightarrow> 'a kcons_scheme res" where
  "kill_line 0 s = Inr s"
| "kill_line (Suc k) s =
     (if in_buf (input_s s) (unat (in_e (input_s s) - 1) mod INPUT_BUF) = 10 then Inr s
      else bindR (consputc BACKSPACE (upd_input unread s)) (kill_line k))"

definition put_char :: "byte \<Rightarrow> input \<Rightarrow> input" where
  "put_char c x = x\<lparr>in_buf := (in_buf x)(unat (in_e x) mod INPUT_BUF := c), in_e := in_e x + 1\<rparr>"

text \<open>One character of \<open>consoleintr\<close>; the boolean is \<^verbatim>\<open>doprocdump\<close>.\<close>

definition console_char :: "int \<Rightarrow> bool \<times> 'a kcons_scheme \<Rightarrow> (bool \<times> 'a kcons_scheme) res" where
  "console_char c ds =
     (case ds of (dump, s) \<Rightarrow>
      let x = input_s s in
      if c = 16 then Inr (True, s)
      else if c = 21 then bindR (kill_line (unat (in_e x - in_w x)) s) (\<lambda>s. Inr (dump, s))
      else if c = 8 \<or> c = 127 then
        if in_e x \<noteq> in_w x then bindR (consputc BACKSPACE (upd_input unread s)) (\<lambda>s. Inr (dump, s)) else Inr (dump, s)
      else if c \<noteq> 0 \<and> unat (in_e x - in_r x) < INPUT_BUF then
        let c = (if c = 13 then 10 else c) in
        bindR (consputc c (upd_input (put_char (word_of_int c)) s)) (\<lambda>s.
        if c = 10 \<or> c = 4 \<or> in_e (input_s s) = in_r (input_s s) + word_of_nat INPUT_BUF then
          bindR (wakeup (Some ChInput) (upd_input (\<lambda>x. x\<lparr>in_w := in_e x\<rparr>) s)) (\<lambda>s. Inr (dump, s))
        else Inr (dump, s))
      else Inr (dump, s))"

definition consoleintr :: "int list \<Rightarrow> 'a kcons_scheme \<Rightarrow> 'a kcons_scheme res" where
  "consoleintr cs s =
     bindR (acquire Lcons s) (\<lambda>s.
     bindR (foldR console_char cs (False, s)) (\<lambda>(doprocdump, s).
     bindR (release Lcons s) (\<lambda>s.
     if doprocdump then procdump s else Inr s)))"

section \<open>The device operations\<close>

text \<open>The loop of \<open>consoleread\<close> with \<open>n\<close> bytes left; the result is \<open>n\<close> at the end, \<open>None\<close> when killed.\<close>

fun consoleread_loop :: "nat \<Rightarrow> nat \<Rightarrow> 'a kcons_scheme \<Rightarrow> (nat option \<times> byte list \<times> 'a kcons_scheme) res" where
  "consoleread_loop target 0 s = Inr (Some 0, [], s)"
| "consoleread_loop target (Suc n) s =
     (let x = input_s s in
      if in_r x = in_w x then
        bindR (killed s) (\<lambda>k. if k then Inr (None, [], s) else Inl WouldSleep)
      else
        let c = in_buf x (unat (in_r x) mod INPUT_BUF); s' = upd_input (\<lambda>x. x\<lparr>in_r := in_r x + 1\<rparr>) s in
        if c = 4 then Inr (Some (Suc n), [], if Suc n < target then s else s')
        else if c = 10 then Inr (Some n, [c], s')
        else bindR (consoleread_loop target n s') (\<lambda>(r, cs, s). Inr (r, c # cs, s)))"

definition consoleread :: "nat \<Rightarrow> nat \<Rightarrow> 'a kcons_scheme \<Rightarrow> (int \<times> byte list \<times> 'a kcons_scheme) res" where
  "consoleread ip n s =
     (let target = nat (sint (word_of_nat n :: 32 word)) in
      bindR (iunlock (Some ip) s) (\<lambda>s.
      bindR (acquire Lcons s) (\<lambda>s.
      bindR (consoleread_loop target target s) (\<lambda>(r, cs, s).
      bindR (release Lcons s) (\<lambda>s.
      bindR (ilock (Some ip) s) (\<lambda>s.
      Inr (case r of None \<Rightarrow> - 1 | Some n \<Rightarrow> int target - int n, cs, s)))))))"

definition consolewrite :: "nat \<Rightarrow> (nat \<Rightarrow> byte) \<Rightarrow> nat \<Rightarrow> 'a kcons_scheme \<Rightarrow> (int \<times> 'a kcons_scheme) res" where
  "consolewrite ip buf n s =
     (let k = sint (word_of_nat n :: 32 word) in
      bindR (iunlock (Some ip) s) (\<lambda>s.
      bindR (acquire Lcons s) (\<lambda>s.
      bindR (foldR (\<lambda>i. consputc (uint (buf i))) [0..<nat k] s) (\<lambda>s.
      bindR (release Lcons s) (\<lambda>s.
      bindR (ilock (Some ip) s) (\<lambda>s. Inr (k, s)))))))"

text \<open>The device table after \<open>consoleinit\<close>.\<close>

definition devsw_read :: "nat \<Rightarrow> (('a kcons_ext) kfile_ext) dev_read option" where
  "devsw_read major = (if major = CONSOLE then Some consoleread else None)"

definition devsw_write :: "nat \<Rightarrow> (('a kcons_ext) kfile_ext) dev_write option" where
  "devsw_write major = (if major = CONSOLE then Some consolewrite else None)"

section \<open>The screen\<close>

lemma next_pos_le:
  assumes "p < 24 * 80"
  shows "next_pos c p \<le> 24 * 80"
proof -
  have lt: "p mod 80 < 80" by simp
  have "p + (80 - p mod 80) = p div 80 * 80 + 80" using div_mult_mod_eq [of p 80] lt by arith
  moreover have "p div 80 < 24" using assms by (simp add: less_mult_imp_div_less)
  ultimately show ?thesis using assms by (auto simp: next_pos_def)
qed

lemma cgaputc_ok:
  assumes "crt_pos s < 24 * 80"
  shows "\<exists>m p. cgaputc c s = Inr (s\<lparr>crt := m, crt_pos := p\<rparr>) \<and> p < 24 * 80"
proof -
  define p where "p = next_pos c (crt_pos s)"
  have le: "\<not> p > 25 * 80" "p \<le> 24 * 80" using next_pos_le [OF assms, of c] by (simp_all add: p_def)
  have "(if 24 \<le> p div 80 then p - 80 else p) < 24 * 80" using le(2) by auto
  then show ?thesis unfolding cgaputc_def Let_def p_def [symmetric] if_not_P [OF le(1)] by blast
qed

lemma consputc_ok:
  assumes "\<not> panicked s" "crt_pos s < 24 * 80"
  shows "\<exists>t. consputc c s = Inr t \<and> t = s\<lparr>uart_out := uart_out t, crt := crt t, crt_pos := crt_pos t\<rparr> \<and> crt_pos t < 24 * 80"
proof -
  let ?u = "s\<lparr>uart_out := uart_out s @ (if c = BACKSPACE then [8, 32, 8] else [word_of_int c])\<rparr>"
  obtain m p where "cgaputc c ?u = Inr (?u\<lparr>crt := m, crt_pos := p\<rparr>)" "p < 24 * 80" using cgaputc_ok [of ?u c] assms(2) by auto
  then show ?thesis using assms(1) by (simp add: consputc_def)
qed

section \<open>The input line as an edited list\<close>

definition in_items :: "input \<Rightarrow> byte list" where
  "in_items x = ring_items INPUT_BUF (in_buf x) (in_r x) (in_e x)"

definition mark :: "input \<Rightarrow> nat" where
  "mark x = unat (in_w x - in_r x)"

text \<open>The bytes ready for readers, and the line being edited.\<close>

definition in_view :: "input \<Rightarrow> byte list \<times> byte list" where
  "in_view x = (ring_items INPUT_BUF (in_buf x) (in_r x) (in_w x), ring_items INPUT_BUF (in_buf x) (in_w x) (in_e x))"

definition in_ok :: "input \<Rightarrow> bool" where
  "in_ok x \<longleftrightarrow> length (in_items x) \<le> INPUT_BUF \<and> mark x \<le> length (in_items x) \<and> 10 \<notin> set (snd (in_view x))"

definition next_char :: "input \<Rightarrow> input" where
  "next_char x = x\<lparr>in_r := in_r x + 1\<rparr>"

lemma inputbuf_ring: "INPUT_BUF dvd 2 ^ 32" "INPUT_BUF < 2 ^ 32"
  by (simp_all add: params)

lemma put_char_items: "length (in_items x) < INPUT_BUF \<Longrightarrow> in_items (put_char c x) = in_items x @ [c]"
  by (simp add: in_items_def put_char_def ring_put(1) [OF inputbuf_ring])

lemma next_char_items: "in_items x \<noteq> [] \<Longrightarrow> in_items x = in_buf x (unat (in_r x) mod INPUT_BUF) # in_items (next_char x)"
  using ring_get(1) [OF inputbuf_ring(1)] by (simp add: in_items_def next_char_def)

interpretation cq: fifo in_items put_char next_char INPUT_BUF
proof unfold_locales
  fix x assume "in_items x \<noteq> []"
  then show "in_items (next_char x) = tl (in_items x)" using next_char_items [of x] by (metis list.sel(3))
qed (rule put_char_items)

lemma view_split:
  assumes "mark x \<le> length (in_items x)"
  shows "in_view x = (take (mark x) (in_items x), drop (mark x) (in_items x))"
proof -
  have le: "unat (in_w x - in_r x) \<le> unat (in_e x - in_r x)" using assms by (simp add: in_items_def mark_def)
  show ?thesis unfolding in_view_def in_items_def mark_def
    using ring_prefix [OF le, of INPUT_BUF "in_buf x"] ring_suffix [OF inputbuf_ring(1) le, of "in_buf x"] by (rule arg_cong2)
qed

lemma mark_full: "in_e x = in_w x \<longleftrightarrow> mark x = length (in_items x)"
  by (auto simp: mark_def in_items_def) (metis diff_add_cancel word_unat_eq_iff)

text \<open>What a key does to the ready bytes and to the line.\<close>

definition edit :: "int \<Rightarrow> byte list \<times> byte list \<Rightarrow> byte list \<times> byte list" where
  "edit c pl =
     (case pl of (p, l) \<Rightarrow>
      if c = 16 then (p, l)
      else if c = 21 then (p, [])
      else if c = 8 \<or> c = 127 then (p, butlast l)
      else if c \<noteq> 0 \<and> length p + length l < INPUT_BUF then
        let c = (if c = 13 then 10 else c); l = l @ [word_of_int c] in
        if c = 10 \<or> c = 4 \<or> length p + length l = INPUT_BUF then (p @ l, []) else (p, l)
      else (p, l))"

lemma unread_ok:
  assumes ok: "in_ok x" and ne: "in_e x \<noteq> in_w x"
  shows "in_view (unread x) = (fst (in_view x), butlast (snd (in_view x)))" "in_ok (unread x)"
    "in_w (unread x) = in_w x" "unat (in_e x - in_w x) = Suc (unat (in_e (unread x) - in_w (unread x)))"
    "in_buf x (unat (in_e x - 1) mod INPUT_BUF) = last (snd (in_view x))"
proof -
  have m: "mark x < length (in_items x)" using ok mark_full [of x] ne by (simp add: in_ok_def)
  then have er: "in_e x \<noteq> in_r x" by (auto simp: in_items_def)
  have it: "in_items (unread x) = butlast (in_items x)" using ring_unput(1) [OF er] by (simp add: in_items_def unread_def)
  have mk: "mark (unread x) = mark x" by (simp add: mark_def unread_def)
  have le: "mark (unread x) \<le> length (in_items (unread x))" using m it mk by simp
  show v: "in_view (unread x) = (fst (in_view x), butlast (snd (in_view x)))"
    using view_split [OF le] view_split [of x] m by (simp add: it mk take_butlast drop_butlast)
  show "in_ok (unread x)" using ok v le it by (auto simp: in_ok_def dest: in_set_butlastD)
  show "in_w (unread x) = in_w x" by (simp add: unread_def)
  show "unat (in_e x - in_w x) = Suc (unat (in_e (unread x) - in_w (unread x)))"
    using ring_unput(2) [OF ne] by (simp add: unread_def)
  have k: "unat (in_e x - 1 - in_w x) = unat (in_e x - in_w x) - 1" using ring_unput(2) [OF ne] by linarith
  have "unat (in_e x - 1) mod INPUT_BUF = (unat (in_w x) + (unat (in_e x - in_w x) - 1)) mod INPUT_BUF"
    using unat_add_mod [OF inputbuf_ring(1), of "in_w x" "in_e x - 1 - in_w x"] unfolding k by simp
  moreover have "0 < unat (in_e x - in_w x)" using ne by (simp add: unat_gt_0)
  ultimately show "in_buf x (unat (in_e x - 1) mod INPUT_BUF) = last (snd (in_view x))"
    by (simp add: in_view_def ring_items_def last_conv_nth)
qed

lemma put_char_ok:
  assumes ok: "in_ok x" and lt: "length (fst (in_view x)) + length (snd (in_view x)) < INPUT_BUF"
  shows "in_items (put_char c x) = in_items x @ [c]" "mark (put_char c x) = mark x"
    "in_view (put_char c x) = (fst (in_view x), snd (in_view x) @ [c])" "length (in_items x) < INPUT_BUF"
proof -
  have le: "mark x \<le> length (in_items x)" using ok by (simp add: in_ok_def)
  show l: "length (in_items x) < INPUT_BUF" using lt view_split [OF le] le by simp
  show it: "in_items (put_char c x) = in_items x @ [c]" by (rule put_char_items [OF l])
  show mk: "mark (put_char c x) = mark x" by (simp add: mark_def put_char_def)
  have "mark (put_char c x) \<le> length (in_items (put_char c x))" using le it mk by simp
  then show "in_view (put_char c x) = (fst (in_view x), snd (in_view x) @ [c])"
    using view_split [OF le] le by (simp add: view_split it mk)
qed

lemma commit_view:
  assumes "mark x \<le> length (in_items x)"
  shows "in_view (x\<lparr>in_w := in_e x\<rparr>) = (fst (in_view x) @ snd (in_view x), [])" "in_items (x\<lparr>in_w := in_e x\<rparr>) = in_items x"
    "mark (x\<lparr>in_w := in_e x\<rparr>) = length (in_items x)"
proof -
  show it: "in_items (x\<lparr>in_w := in_e x\<rparr>) = in_items x" by (simp add: in_items_def)
  show mk: "mark (x\<lparr>in_w := in_e x\<rparr>) = length (in_items x)" by (simp add: mark_def in_items_def)
  show "in_view (x\<lparr>in_w := in_e x\<rparr>) = (fst (in_view x) @ snd (in_view x), [])"
    using view_split [of "x\<lparr>in_w := in_e x\<rparr>"] view_split [OF assms] it mk by simp
qed

lemma items_length: "in_ok x \<Longrightarrow> length (in_items x) = length (fst (in_view x)) + length (snd (in_view x))"
  by (simp add: in_ok_def view_split)

lemma full_iff: "in_e x = in_r x + word_of_nat INPUT_BUF \<longleftrightarrow> length (in_items x) = INPUT_BUF"
proof -
  have "unat (word_of_nat INPUT_BUF :: 32 word) = INPUT_BUF" by (simp add: params)
  then have "unat (in_e x - in_r x) = INPUT_BUF \<longleftrightarrow> in_e x - in_r x = word_of_nat INPUT_BUF" by (metis word_unat_eq_iff)
  then show ?thesis by (auto simp: in_items_def algebra_simps)
qed

section \<open>The listing returns\<close>














section \<open>\<open>consoleintr\<close> edits the line\<close>

definition cons_ok :: "'a kcons_scheme \<Rightarrow> bool" where
  "cons_ok s \<longleftrightarrow> \<not> panicked s \<and> crt_pos s < 24 * 80 \<and> Lptable \<notin> set (locks s) \<and> in_ok (input_s s)"

lemma upd_input_sel [simp]:
  "input_s (upd_input f s) = f (input_s s)" "panicked (upd_input f s) = panicked s" "crt_pos (upd_input f s) = crt_pos s"
  "locks (upd_input f s) = locks s" "ptable (upd_input f s) = ptable s" "myproc (upd_input f s) = myproc s"
  by (simp_all add: upd_input_def)

lemma consputc_edit:
  assumes "\<not> panicked s" "crt_pos s < 24 * 80"
  shows "\<exists>t. consputc c (upd_input f s) = Inr t \<and> \<not> panicked t \<and> crt_pos t < 24 * 80 \<and> input_s t = f (input_s s) \<and> locks t = locks s"
proof -
  obtain t where t: "consputc c (upd_input f s) = Inr t"
      "t = (upd_input f s)\<lparr>uart_out := uart_out t, crt := crt t, crt_pos := crt_pos t\<rparr>" "crt_pos t < 24 * 80"
    using consputc_ok [of "upd_input f s" c] assms by auto
  have "input_s t = f (input_s s)" "panicked t = panicked s" "locks t = locks s" by (subst t(2), simp)+
  then show ?thesis using t(1,3) assms by (intro exI [of _ t]) simp
qed

lemma kill_line_ok:
  assumes "cons_ok s" "k = unat (in_e (input_s s) - in_w (input_s s))"
  shows "\<exists>t. kill_line k s = Inr t \<and> cons_ok t \<and> in_view (input_s t) = (fst (in_view (input_s s)), []) \<and> locks t = locks s"
  using assms
proof (induction k arbitrary: s)
  case 0
  then have "snd (in_view (input_s s)) = []" by (simp add: in_view_def unat_eq_0)
  then show ?case using 0(1) by (metis kill_line.simps(1) prod.collapse)
next
  case (Suc k)
  note ok = Suc.prems(1) [unfolded cons_ok_def]
  have ne: "in_e (input_s s) \<noteq> in_w (input_s s)" using Suc.prems(2) by auto
  have x: "in_ok (input_s s)" using ok by simp
  note u = unread_ok [OF x ne]
  have "snd (in_view (input_s s)) \<noteq> []" using ne by (simp add: in_view_def)
  then have nl: "in_buf (input_s s) (unat (in_e (input_s s) - 1) mod INPUT_BUF) \<noteq> 10"
    using x u(5) last_in_set by (fastforce simp: in_ok_def)
  obtain t where t: "consputc BACKSPACE (upd_input unread s) = Inr t" "cons_ok t" "input_s t = unread (input_s s)" "locks t = locks s"
    using consputc_edit [of s BACKSPACE unread] ok u(2) unfolding cons_ok_def by metis
  have "k = unat (in_e (input_s t) - in_w (input_s t))" using Suc.prems(2) u(4) t(3) by simp
  then obtain v where "kill_line k t = Inr v" "cons_ok v" "in_view (input_s v) = (fst (in_view (input_s t)), [])" "locks v = locks t"
    using Suc.IH [OF t(2)] by blast
  then show ?case using t nl u(1) by simp
qed

lemma byte_newline: "0 < c \<Longrightarrow> c < 256 \<Longrightarrow> (word_of_int c :: byte) = 10 \<longleftrightarrow> c = 10"
proof
  assume c: "0 < c" "c < 256" and "(word_of_int c :: byte) = 10"
  then have "uint (word_of_int c :: byte) = 10" by simp
  then show "c = 10" using c by (simp add: uint_word_of_int)
qed simp

lemma type_char:
  assumes ok: "cons_ok s" and c: "0 < c" "c < 256" "c \<noteq> 16" "c \<noteq> 21" "c \<noteq> 8" "c \<noteq> 127"
    and lt: "length (fst (in_view (input_s s))) + length (snd (in_view (input_s s))) < INPUT_BUF"
  shows "\<exists>t. console_char c (d, s) = Inr (d, t) \<and> cons_ok t \<and> in_view (input_s t) = edit c (in_view (input_s s)) \<and> locks t = locks s"
proof -
  note k = ok [unfolded cons_ok_def]
  let ?x = "input_s s" and ?c = "if c = 13 then 10 else c"
  let ?y = "put_char (word_of_int ?c) ?x" and ?p = "fst (in_view (input_s s))" and ?l = "snd (in_view (input_s s))"
  have x: "in_ok ?x" using k by simp
  note u = put_char_ok(1-3) [OF x lt, where c = "word_of_int ?c"] put_char_ok(4) [OF x lt]
  have le: "mark ?y \<le> length (in_items ?y)" using x u(1,2) by (simp add: in_ok_def)
  have len: "length (in_items ?y) \<le> INPUT_BUF" "length (in_items ?y) = length ?p + length (?l @ [word_of_int ?c])"
    using u(1,4) items_length [OF x] by simp_all
  have room: "unat (in_e ?x - in_r ?x) < INPUT_BUF" using u(4) by (simp add: in_items_def)
  have nl: "?c \<noteq> 10 \<Longrightarrow> (word_of_int ?c :: byte) \<noteq> 10" using byte_newline [of ?c] c(1,2) by auto
  obtain t where t: "consputc ?c (upd_input (put_char (word_of_int ?c)) s) = Inr t" "\<not> panicked t" "crt_pos t < 24 * 80" "input_s t = ?y" "locks t = locks s"
    using consputc_edit [of s ?c "put_char (word_of_int ?c)"] k by blast
  let ?done = "?c = 10 \<or> ?c = 4 \<or> length (in_items ?y) = INPUT_BUF"
  have ch: "console_char c (d, s) = (if ?done then bindR (wakeup (Some ChInput) (upd_input (\<lambda>x. x\<lparr>in_w := in_e x\<rparr>) t)) (\<lambda>s. Inr (d, s)) else Inr (d, t))"
    using t(1,4) c room by (simp add: console_char_def Let_def full_iff)
  have ed: "edit c (in_view ?x) = (if ?done then (?p @ (?l @ [word_of_int ?c]), []) else (?p, ?l @ [word_of_int ?c]))"
    using c lt len(2) by (cases "in_view ?x") (simp add: edit_def Let_def)
  show ?thesis
  proof (cases ?done)
    case True
    let ?t = "upd_input (\<lambda>x. x\<lparr>in_w := in_e x\<rparr>) t"
    let ?w = "?t\<lparr>ptable := ptable (wakeup1 (Some ChInput) ?t)\<rparr>"
    have "wakeup (Some ChInput) ?t = Inr ?w" using t(5) k by (intro wakeup_ok) simp
    moreover note cv = commit_view [OF le]
    have "in_ok (?y\<lparr>in_w := in_e ?y\<rparr>)" using len(1) cv unfolding in_ok_def by simp
    then have "cons_ok ?w" "in_view (input_s ?w) = edit c (in_view ?x)" using t k cv(1) u(3) ed True by (simp_all add: cons_ok_def)
    ultimately show ?thesis using ch True t(5) by (intro exI [of _ ?w]) simp
  next
    case False
    then have "in_ok ?y" using x le len(1) u(3) nl by (auto simp: in_ok_def)
    then show ?thesis using ch False t k u(3) ed by (intro exI [of _ t]) (simp add: cons_ok_def)
  qed
qed

lemma console_char_ok:
  assumes ok: "cons_ok s" and c: "0 \<le> c" "c < 256"
  shows "\<exists>t. console_char c (d, s) = Inr (d \<or> c = 16, t) \<and> cons_ok t \<and> in_view (input_s t) = edit c (in_view (input_s s)) \<and> locks t = locks s"
proof -
  note k = ok [unfolded cons_ok_def]
  let ?x = "input_s s"
  have x: "in_ok ?x" using k by simp
  obtain p l where pl: "in_view ?x = (p, l)" by fastforce
  consider (procs) "c = 16" | (kill) "c = 21" | (rub) "c = 8 \<or> c = 127" | (typed) "0 < c" "c \<noteq> 16" "c \<noteq> 21" "c \<noteq> 8" "c \<noteq> 127" "length p + length l < INPUT_BUF"
    | (ignored) "c = 0 \<or> INPUT_BUF \<le> length p + length l" "c \<noteq> 16" "c \<noteq> 21" "c \<noteq> 8" "c \<noteq> 127" using c(1) by linarith
  then show ?thesis
  proof cases
    case procs
    then show ?thesis using ok pl by (simp add: console_char_def edit_def)
  next
    case kill
    then show ?thesis using kill_line_ok [OF ok refl] pl by (auto simp: console_char_def edit_def Let_def)
  next
    case rub
    show ?thesis
    proof (cases "in_e ?x = in_w ?x")
      case True
      then have "l = []" using pl by (auto simp: in_view_def)
      then show ?thesis using rub True ok pl by (auto simp: console_char_def edit_def)
    next
      case False
      note u = unread_ok [OF x False]
      obtain t where "consputc BACKSPACE (upd_input unread s) = Inr t" "\<not> panicked t" "crt_pos t < 24 * 80" "input_s t = unread ?x" "locks t = locks s"
        using consputc_edit [of s BACKSPACE unread] k by blast
      then show ?thesis using rub False u(1,2) pl k by (auto simp: console_char_def edit_def cons_ok_def)
    qed
  next
    case typed
    show ?thesis using type_char [OF ok typed(1) c(2) typed(2-5)] typed(2,6) pl by simp
  next
    case ignored
    moreover have "unat (in_e ?x - in_r ?x) = length p + length l" using items_length [OF x] pl by (simp add: in_items_def)
    ultimately show ?thesis using ok pl by (auto simp: console_char_def edit_def)
  qed
qed

lemma console_chars_ok:
  assumes "cons_ok s" "\<forall>c \<in> set cs. 0 \<le> c \<and> c < 256"
  shows "\<exists>t. foldR console_char cs (d, s) = Inr (d \<or> 16 \<in> set cs, t) \<and> cons_ok t \<and> in_view (input_s t) = fold edit cs (in_view (input_s s)) \<and> locks t = locks s"
  using assms
proof (induction cs arbitrary: s d)
  case Nil
  then show ?case by simp
next
  case (Cons c cs)
  have c: "0 \<le> c" "c < 256" "\<forall>c \<in> set cs. 0 \<le> c \<and> c < 256" using Cons.prems(2) by simp_all
  obtain t where t: "console_char c (d, s) = Inr (d \<or> c = 16, t)" "cons_ok t" "in_view (input_s t) = edit c (in_view (input_s s))" "locks t = locks s"
    using console_char_ok [OF Cons.prems(1) c(1,2)] by blast
  obtain v where v: "foldR console_char cs (d \<or> c = 16, t) = Inr ((d \<or> c = 16) \<or> 16 \<in> set cs, v)" "cons_ok v"
      "in_view (input_s v) = fold edit cs (in_view (input_s t))" "locks v = locks t"
    using Cons.IH [OF t(2) c(3)] by blast
  have "((d \<or> c = 16) \<or> 16 \<in> set cs) = (d \<or> 16 \<in> set (c # cs))" by auto
  then show ?case using t v by (intro exI [of _ v]) simp
qed

section \<open>Reading a line\<close>

lemma next_char_ok:
  assumes ok: "in_ok x" and v: "in_view x = (c # p, l)"
  shows "in_buf x (unat (in_r x) mod INPUT_BUF) = c" "in_view (next_char x) = (p, l)" "in_ok (next_char x)" "in_r x \<noteq> in_w x"
proof -
  have le: "mark x \<le> length (in_items x)" using ok by (simp add: in_ok_def)
  show ne: "in_r x \<noteq> in_w x" using v ring_items_Nil [of INPUT_BUF "in_buf x" "in_r x" "in_w x"] by (simp add: in_view_def del: ring_items_Nil)
  note g = ring_get(1) [OF inputbuf_ring(1) ne, of "in_buf x"] ring_get(2) [OF inputbuf_ring(1) ne]
  show "in_buf x (unat (in_r x) mod INPUT_BUF) = c" using g(1) v by (simp add: in_view_def)
  show nv: "in_view (next_char x) = (p, l)" using g(1) v by (simp add: in_view_def next_char_def)
  have "in_items x \<noteq> []" using ne le by (auto simp: in_items_def mark_def unat_eq_0)
  then have "length (in_items x) = Suc (length (in_items (next_char x)))" using next_char_items [of x] by (metis length_Cons)
  moreover have "mark x = Suc (mark (next_char x))" using g(2) by (simp add: mark_def next_char_def)
  ultimately show "in_ok (next_char x)" using ok nv v by (simp add: in_ok_def)
qed

lemma read_line_ok:
  assumes "cons_ok s" "in_view (input_s s) = (cs @ 10 # p, l)" "10 \<notin> set cs" "4 \<notin> set cs" "length cs < n"
  shows "\<exists>t. consoleread_loop target n s = Inr (Some (n - length cs - 1), cs @ [10], t) \<and> cons_ok t \<and> in_view (input_s t) = (p, l)"
  using assms
proof (induction cs arbitrary: n s)
  case Nil
  then obtain m where m: "n = Suc m" by (cases n) auto
  note u = next_char_ok [of "input_s s" 10 p l]
  have "in_ok (input_s s)" "in_view (input_s s) = (10 # p, l)" using Nil by (simp_all add: cons_ok_def)
  note u = next_char_ok [OF this, unfolded next_char_def]
  show ?case using u m Nil.prems(1) by (simp add: Let_def cons_ok_def)
next
  case (Cons c cs)
  then obtain m where m: "n = Suc m" by (cases n) auto
  have "in_ok (input_s s)" "in_view (input_s s) = (c # (cs @ 10 # p), l)" using Cons.prems by (simp_all add: cons_ok_def)
  note u = next_char_ok [OF this, unfolded next_char_def]
  let ?s = "upd_input (\<lambda>x. x\<lparr>in_r := in_r x + 1\<rparr>) s"
  have "\<exists>t. consoleread_loop target m ?s = Inr (Some (m - length cs - 1), cs @ [10], t) \<and> cons_ok t \<and> in_view (input_s t) = (p, l)"
    using Cons.prems u m by (intro Cons.IH) (simp_all add: cons_ok_def)
  then show ?case using u Cons.prems(3,4) m by (auto simp: Let_def)
qed

lemma fold_edit_plain:
  assumes "\<forall>c \<in> set cs. 32 \<le> c \<and> c < 127" "length p + length l + length cs < INPUT_BUF"
  shows "fold edit cs (p, l) = (p, l @ map word_of_int cs)"
  using assms
proof (induction cs arbitrary: l)
  case Nil
  then show ?case by simp
next
  case (Cons c cs)
  then have "edit c (p, l) = (p, l @ [word_of_int c])" by (auto simp: edit_def)
  then show ?case using Cons by simp
qed

section \<open>Properties\<close>

definition boot_kcons :: kcons where
  "boot_kcons = kfile.extend (boot_kfile small_disk)
     (kcons.fields False [] (\<lambda>_. 0) 0 \<lparr>in_buf = (\<lambda>_. 0), in_r = 0, in_w = 0, in_e = 0\<rparr>)"

lemma boot_cons_ok: "cons_ok boot_kcons" "in_view (input_s boot_kcons) = ([], [])" "locks boot_kcons = []"
proof -
  show l: "locks boot_kcons = []" using boot_kfile_sel(3) [of small_disk] by (simp add: boot_kcons_def kfile.defs)
  have s: "\<not> panicked boot_kcons" "crt_pos boot_kcons = 0" "input_s boot_kcons = \<lparr>in_buf = (\<lambda>_. 0), in_r = 0, in_w = 0, in_e = 0\<rparr>"
    by (simp_all add: boot_kcons_def kfile.defs kcons.defs)
  show v: "in_view (input_s boot_kcons) = ([], [])" by (simp add: s in_view_def)
  show "cons_ok boot_kcons" using v by (simp add: cons_ok_def s l in_ok_def in_items_def mark_def)
qed



text \<open>
  A line typed on an idle console, with the return key at its end, is what the next read
  of enough bytes returns, with a newline at its end, and nothing is left in the buffer.
\<close>

theorem console_line_roundtrip:
  assumes ok: "cons_ok s" "locks s = []" "in_view (input_s s) = ([], [])"
    and cs: "\<forall>c \<in> set cs. 32 \<le> c \<and> c < 127" "length cs + 1 < INPUT_BUF" "length cs < n"
  shows "\<exists>t u. consoleintr (cs @ [13]) s = Inr t \<and>
    consoleread_loop n n t = Inr (Some (n - length cs - 1), map word_of_int cs @ [10], u) \<and> in_view (input_s u) = ([], [])"
proof -
  let ?s = "s\<lparr>locks := [Lcons]\<rparr>" and ?b = "map word_of_int cs :: byte list"
  have r: "\<forall>c \<in> set (cs @ [13]). 0 \<le> c \<and> c < 256" "16 \<notin> set (cs @ [13])" using cs(1) by auto
  have "cons_ok ?s" using ok(1,2) by (simp add: cons_ok_def)
  then obtain t where t: "foldR console_char (cs @ [13]) (False, ?s) = Inr (False, t)" "cons_ok t"
      "in_view (input_s t) = fold edit (cs @ [13]) ([], [])" "locks t = [Lcons]"
    using console_chars_ok [of ?s "cs @ [13]" False] r ok(3) by auto
  let ?t = "t\<lparr>locks := []\<rparr>"
  have intr: "consoleintr (cs @ [13]) s = Inr ?t" using t(1,4) ok(2) by (simp add: consoleintr_def)
  have "fold edit (cs @ [13]) ([], []) = (?b @ [10], [])"
    using fold_edit_plain [of cs "[]" "[]"] cs by (simp add: edit_def)
  then have v: "in_view (input_s ?t) = (?b @ 10 # [], [])" using t(3) by simp
  have nb: "10 \<notin> set ?b" "4 \<notin> set ?b"
  proof -
    have "uint (word_of_int c :: byte) = c" if "c \<in> set cs" for c
    proof -
      have "0 \<le> c" "c < 256" using cs(1) that by fastforce+
      then show ?thesis by (simp add: uint_word_of_int)
    qed
    then have "32 \<le> uint b" if "b \<in> set ?b" for b using that cs(1) by auto
    then show "10 \<notin> set ?b" "4 \<notin> set ?b" by fastforce+
  qed
  have "cons_ok ?t" using t(2,4) by (simp add: cons_ok_def)
  from read_line_ok [OF this v nb, of n n] cs(3) show ?thesis using intr by auto
qed

theorem console_line_roundtrip_witness:
  "\<exists>t u. consoleintr [108, 115, 13] boot_kcons = Inr t \<and> consoleread_loop 100 100 t = Inr (Some 97, [108, 115, 10], u)"
  using console_line_roundtrip [OF boot_cons_ok(1,3,2), of "[108, 115]" 100] by (auto simp: params)

end
