(* ===== verification/Trap.thy ===== *)
theory Trap
  imports Exec Console
begin

text \<open>
  System calls and traps: the calls of \<^verbatim>\<open>sysproc.c\<close>, the dispatcher \<open>syscall\<close> of
  \<^verbatim>\<open>syscall.c\<close> over all calls of the kernel, and \<open>trap\<close> of \<^verbatim>\<open>trap.c\<close> with the timer tick that
  drives the scheduler.

  A call returns a value, sleeps in the kernel (\<open>Blocked\<close>) or ends the process (\<open>Exited\<close>).
\<close>

section \<open>Process calls\<close>

record ktrap = kcons +
  ticks :: "32 word"

datatype sysout = Returned int | Blocked nat | Exited

definition returned :: "(int \<times> 's) res \<Rightarrow> (sysout \<times> 's) res" where
  "returned m = bindR m (\<lambda>(r, s). Inr (Returned r, s))"

definition blocked :: "(int blocking \<times> 's) res \<Rightarrow> (sysout \<times> 's) res" where
  "blocked m = bindR m (\<lambda>(b, s). Inr (case b of Done r \<Rightarrow> Returned r | Asleep k \<Rightarrow> Blocked k, s))"

definition exited :: "'s res \<Rightarrow> (sysout \<times> 's) res" where
  "exited m = bindR m (\<lambda>s. Inr (Exited, s))"

definition with_int :: "nat \<Rightarrow> 'a ktrap_scheme \<Rightarrow> (int \<Rightarrow> (sysout \<times> 'a ktrap_scheme) res) \<Rightarrow> (sysout \<times> 'a ktrap_scheme) res" where
  "with_int n s k = bindR (argint n s) (\<lambda>a. case a of None \<Rightarrow> Inr (Returned (- 1), s) | Some w \<Rightarrow> k (sint w))"

definition sys_fork :: "'a ktrap_scheme \<Rightarrow> (sysout \<times> 'a ktrap_scheme) res" where
  "sys_fork s = returned (fork s)"

definition sys_exit :: "'a ktrap_scheme \<Rightarrow> (sysout \<times> 'a ktrap_scheme) res" where
  "sys_exit s = exited (exit s)"

definition sys_wait :: "'a ktrap_scheme \<Rightarrow> (sysout \<times> 'a ktrap_scheme) res" where
  "sys_wait s = blocked (wait s)"

definition sys_kill :: "'a ktrap_scheme \<Rightarrow> (sysout \<times> 'a ktrap_scheme) res" where
  "sys_kill s = with_int 0 s (\<lambda>pid. returned (kill pid s))"

definition sys_getppid :: "'a ktrap_scheme \<Rightarrow> (sysout \<times> 'a ktrap_scheme) res" where
  "sys_getppid s = bindR (getppid s) (\<lambda>r. Inr (Returned r, s))"

definition sys_getpid :: "'a ktrap_scheme \<Rightarrow> (sysout \<times> 'a ktrap_scheme) res" where
  "sys_getpid s = bindR (curproc s) (\<lambda>p. Inr (Returned (p_pid (ptable s p)), s))"

definition sys_sbrk :: "'a ktrap_scheme \<Rightarrow> (sysout \<times> 'a ktrap_scheme) res" where
  "sys_sbrk s =
     with_int 0 s (\<lambda>n.
     bindR (curproc s) (\<lambda>p.
     let addr = (if p_isthread (ptable s p) then p_sz (ptable s (thread_master p s)) else p_sz (ptable s p)) in
     bindR (growproc n s) (\<lambda>(r, s). Inr (Returned (if r < 0 then - 1 else sint (word_of_nat addr :: 32 word)), s))))"

text \<open>The loop of \<open>sys_sleep\<close> with \<open>tickslock\<close> held; the comparison is unsigned.\<close>

definition sleep_loop :: "32 word \<Rightarrow> int \<Rightarrow> 'a ktrap_scheme \<Rightarrow> (sysout \<times> 'a ktrap_scheme) res" where
  "sleep_loop ticks0 n s =
     (if ticks s - ticks0 < word_of_int n then
        bindR (killed s) (\<lambda>k.
        if k then bindR (release Lticks s) (\<lambda>s. Inr (Returned (- 1), s))
        else bindR (sleep_to_sched (Some ChTicks) (Some Lticks) s) (\<lambda>s. Inr (Blocked (unat ticks0), s)))
      else bindR (release Lticks s) (\<lambda>s. Inr (Returned 0, s)))"

definition sys_sleep :: "'a ktrap_scheme \<Rightarrow> (sysout \<times> 'a ktrap_scheme) res" where
  "sys_sleep s = with_int 0 s (\<lambda>n. bindR (acquire Lticks s) (\<lambda>s. sleep_loop (ticks s) n s))"

definition sys_sleep_resume :: "nat \<Rightarrow> 32 word \<Rightarrow> int \<Rightarrow> 'a ktrap_scheme \<Rightarrow> (sysout \<times> 'a ktrap_scheme) res" where
  "sys_sleep_resume q ticks0 n s = bindR (sleep_resume q Lticks s) (sleep_loop ticks0 n)"

definition sys_uptime :: "'a ktrap_scheme \<Rightarrow> (sysout \<times> 'a ktrap_scheme) res" where
  "sys_uptime s =
     bindR (acquire Lticks s) (\<lambda>s.
     let x = ticks s in bindR (release Lticks s) (\<lambda>s. Inr (Returned (sint x), s)))"

definition sys_yield :: "'a ktrap_scheme \<Rightarrow> (sysout \<times> 'a ktrap_scheme) res" where
  "sys_yield s =
     bindR (curproc s) (\<lambda>p.
     bindR (yield_to_sched (upd_proc p (\<lambda>x. x\<lparr>p_fqtick := (if p_fqtick x > 0 then p_fqtick x - 1 else p_fqtick x)\<rparr>) s)) (\<lambda>s.
     Inr (Blocked 0, s)))"

definition sys_getlev :: "'a ktrap_scheme \<Rightarrow> (sysout \<times> 'a ktrap_scheme) res" where
  "sys_getlev s = bindR (curproc s) (\<lambda>p. Inr (Returned (int (p_level (ptable s p))), s))"

definition sys_set_cpu_share :: "'a ktrap_scheme \<Rightarrow> (sysout \<times> 'a ktrap_scheme) res" where
  "sys_set_cpu_share s = with_int 0 s (\<lambda>n. returned (set_cpu_share n s))"

definition sys_thread_create :: "'a ktrap_scheme \<Rightarrow> (sysout \<times> 'a ktrap_scheme) res" where
  "sys_thread_create s =
     with_int 0 s (\<lambda>thread. with_int 1 s (\<lambda>start. with_int 2 s (\<lambda>arg.
     returned (thread_create (to_uint thread) (word_of_int start) (word_of_int arg) s))))"

definition sys_thread_exit :: "'a ktrap_scheme \<Rightarrow> (sysout \<times> 'a ktrap_scheme) res" where
  "sys_thread_exit s = with_int 0 s (\<lambda>retval. exited (thread_exit (word_of_int retval) s))"

definition sys_thread_join :: "'a ktrap_scheme \<Rightarrow> (sysout \<times> 'a ktrap_scheme) res" where
  "sys_thread_join s =
     with_int 0 s (\<lambda>thread. with_int 1 s (\<lambda>retval. blocked (thread_join thread (to_uint retval) s)))"

section \<open>The dispatcher\<close>

text \<open>The table \<^verbatim>\<open>syscalls\<close>; the numbers are those of \<^verbatim>\<open>syscall.h\<close>.\<close>

definition syscalls :: "int \<Rightarrow> ('a ktrap_scheme \<Rightarrow> (sysout \<times> 'a ktrap_scheme) res) option" where
  "syscalls num =
     map_of
       [(1, sys_fork), (2, sys_exit), (3, sys_wait), (4, \<lambda>s. returned (sys_pipe s)), (5, \<lambda>s. blocked (sys_read devsw_read s)),
        (6, sys_kill), (7, \<lambda>s. returned (sys_exec devsw_read s)), (8, \<lambda>s. returned (sys_fstat s)), (9, \<lambda>s. returned (sys_chdir s)),
        (10, \<lambda>s. returned (sys_dup s)), (11, sys_getpid), (12, sys_sbrk), (13, sys_sleep), (14, sys_uptime),
        (15, \<lambda>s. returned (sys_open s)), (16, \<lambda>s. blocked (sys_write devsw_write s)), (17, \<lambda>s. returned (sys_mknod s)),
        (18, \<lambda>s. returned (sys_unlink s)), (19, \<lambda>s. returned (sys_link s)), (20, \<lambda>s. returned (sys_mkdir s)),
        (21, \<lambda>s. returned (sys_close s)), (22, sys_yield), (23, sys_getlev), (24, sys_set_cpu_share),
        (25, sys_thread_create), (26, sys_thread_join), (27, sys_thread_exit),
        (28, \<lambda>s. returned (sys_sync s)), (29, \<lambda>s. Inr (Returned (sys_get_log_num s), s)),
        (30, \<lambda>s. blocked (sys_pread devsw_read s)), (31, \<lambda>s. blocked (sys_pwrite devsw_write s))] num"

text \<open>The value of a finished call goes to the saved register \<^verbatim>\<open>eax\<close> of the caller.\<close>

definition set_eax :: "nat \<Rightarrow> int \<Rightarrow> 'a kproc_scheme \<Rightarrow> 'a kproc_scheme" where
  "set_eax p r s = upd_proc p (\<lambda>x. x\<lparr>p_tf := (p_tf x)\<lparr>tf_eax := word_of_int r\<rparr>\<rparr>) s"

definition syscall :: "'a ktrap_scheme \<Rightarrow> (sysout \<times> 'a ktrap_scheme) res" where
  "syscall s =
     bindR (curproc s) (\<lambda>p.
     case syscalls (sint (tf_eax (p_tf (ptable s p)))) of
       Some f \<Rightarrow>
         bindR (f s) (\<lambda>(out, s).
         Inr (case out of Returned r \<Rightarrow> (Returned r, set_eax p r s) | _ \<Rightarrow> (out, s)))
     | None \<Rightarrow> Inr (Returned (- 1), set_eax p (- 1) s))"

section \<open>Traps\<close>

definition T_SYSCALL :: "32 word" where [params]: "T_SYSCALL = 64"
definition T_IRQ0 :: "32 word" where [params]: "T_IRQ0 = 32"
definition IRQ_TIMER :: "32 word" where [params]: "IRQ_TIMER = 0"
definition IRQ_KBD :: "32 word" where [params]: "IRQ_KBD = 1"
definition IRQ_COM1 :: "32 word" where [params]: "IRQ_COM1 = 4"
definition IRQ_IDE :: "32 word" where [params]: "IRQ_IDE = 14"
definition IRQ_SPURIOUS :: "32 word" where [params]: "IRQ_SPURIOUS = 31"

definition user_mode :: "trapframe \<Rightarrow> bool" where
  "user_mode tf \<longleftrightarrow> tf_cs tf AND 3 = DPL_USER"

text \<open>
  The switch of \<open>trap\<close>. Only the first CPU counts ticks; the interrupt routine of the memory
  disk does nothing; \<open>keys\<close> are the characters the keyboard or serial line delivers.
\<close>

definition trap_irq :: "bool \<Rightarrow> int list \<Rightarrow> trapframe \<Rightarrow> 'a ktrap_scheme \<Rightarrow> 'a ktrap_scheme res" where
  "trap_irq cpu0 keys tf s =
     (let no = tf_trapno tf in
      if no = T_IRQ0 + IRQ_TIMER then
        if cpu0 then
          bindR (acquire Lticks s) (\<lambda>s.
          bindR (wakeup (Some ChTicks) (s\<lparr>ticks := ticks s + 1\<rparr>)) (release Lticks))
        else Inr s
      else if no = T_IRQ0 + IRQ_IDE \<or> no = T_IRQ0 + IRQ_IDE + 1 then Inr s
      else if no = T_IRQ0 + IRQ_KBD \<or> no = T_IRQ0 + IRQ_COM1 then consoleintr keys s
      else if no = T_IRQ0 + 7 \<or> no = T_IRQ0 + IRQ_SPURIOUS then Inr s
      else case myproc s of None \<Rightarrow> Inl (Kpanic ''trap'')
        | Some p \<Rightarrow> if tf_cs tf AND 3 = 0 then Inl (Kpanic ''trap'') else Inr (upd_proc p (\<lambda>x. x\<lparr>p_killed := True\<rparr>) s))"

definition exit_if_killed :: "trapframe \<Rightarrow> 'a ktrap_scheme \<Rightarrow> (sysout \<times> 'a ktrap_scheme) res \<Rightarrow> (sysout \<times> 'a ktrap_scheme) res" where
  "exit_if_killed tf s k =
     (case myproc s of None \<Rightarrow> k
      | Some p \<Rightarrow> if p_killed (ptable s p) \<and> user_mode tf then exited (exit s) else k)"

text \<open>The end of \<open>trap\<close>: the clock tick of the running process, and the last look at \<^verbatim>\<open>killed\<close>.\<close>

definition trap_end :: "trapframe \<Rightarrow> 'a ktrap_scheme \<Rightarrow> (sysout \<times> 'a ktrap_scheme) res" where
  "trap_end tf s =
     exit_if_killed tf s
       (case myproc s of None \<Rightarrow> Inr (Returned 0, s)
        | Some p \<Rightarrow>
            if p_state (ptable s p) = RUNNING \<and> tf_trapno tf = T_IRQ0 + IRQ_TIMER then
              bindR (tick_add_MLFQ s) (\<lambda>(r, s).
              if r \<noteq> 0 then bindR (yield_to_sched s) (\<lambda>s. Inr (Blocked 0, s))
              else exit_if_killed tf s (Inr (Returned 0, s)))
            else exit_if_killed tf s (Inr (Returned 0, s)))"

definition trap_resume :: "trapframe \<Rightarrow> 'a ktrap_scheme \<Rightarrow> (sysout \<times> 'a ktrap_scheme) res" where
  "trap_resume tf s = bindR (release Lptable s) (\<lambda>s. exit_if_killed tf s (Inr (Returned 0, s)))"

definition trap :: "bool \<Rightarrow> int list \<Rightarrow> trapframe \<Rightarrow> 'a ktrap_scheme \<Rightarrow> (sysout \<times> 'a ktrap_scheme) res" where
  "trap cpu0 keys tf s =
     (if tf_trapno tf = T_SYSCALL then
        bindR (curproc s) (\<lambda>p.
        if p_killed (ptable s p) then exited (exit s)
        else
          bindR (syscall (upd_proc p (\<lambda>x. x\<lparr>p_tf := tf\<rparr>) s)) (\<lambda>(out, s).
          case out of
            Returned r \<Rightarrow> if p_killed (ptable s p) then exited (exit s) else Inr (out, s)
          | _ \<Rightarrow> Inr (out, s)))
      else bindR (trap_irq cpu0 keys tf s) (trap_end tf))"

end
