(* ===== verification/Spinlock.thy ===== *)
theory Spinlock
  imports Prelude
begin

text \<open>
  Spin locks on several CPUs (\<^verbatim>\<open>spinlock.c\<close>): \<open>pushcli\<close> and \<open>popcli\<close> with the nesting depth and
  the saved interrupt flag of each CPU, \<open>holding\<close>, and \<open>acquire\<close> and \<open>release\<close> split at every
  access to the lock that another CPU can see: the exchange, the two stores to \<^verbatim>\<open>lk->cpu\<close> and the store
  to \<^verbatim>\<open>lk->locked\<close>. \<open>pushcli\<close> and \<open>popcli\<close> touch only the data of their own CPU. \<open>holding\<close> reads
  the lock, but its answer on CPU \<open>c\<close> depends only on stores of \<open>c\<close>, so it is one step. The record
  \<^verbatim>\<open>pcs\<close> of call stacks is left out.

  The other theories use the view of theory \<open>Prelude\<close>, the list of locks one CPU holds. Here
  the code is shown to implement that view, and locks to exclude each other under every
  interleaving of the CPUs.
\<close>

section \<open>State and operations\<close>

record cpu =
  ncli :: int
  intena :: bool
  iflag :: bool

record spinlock =
  lk_locked :: bool
  lk_cpu :: "nat option"

record smp =
  cpus :: "nat \<Rightarrow> cpu"
  lks :: "lockid \<Rightarrow> spinlock"

definition upd_cpu :: "nat \<Rightarrow> (cpu \<Rightarrow> cpu) \<Rightarrow> smp \<Rightarrow> smp" where
  "upd_cpu c f s = s\<lparr>cpus := (cpus s)(c := f (cpus s c))\<rparr>"

definition upd_lock :: "lockid \<Rightarrow> (spinlock \<Rightarrow> spinlock) \<Rightarrow> smp \<Rightarrow> smp" where
  "upd_lock l f s = s\<lparr>lks := (lks s)(l := f (lks s l))\<rparr>"

definition initlock :: "lockid \<Rightarrow> smp \<Rightarrow> smp" where
  "initlock l s = upd_lock l (\<lambda>_. \<lparr>lk_locked = False, lk_cpu = None\<rparr>) s"

definition pushcli :: "nat \<Rightarrow> smp \<Rightarrow> smp" where
  "pushcli c s =
     upd_cpu c (\<lambda>x. x\<lparr>iflag := False, intena := (if ncli x = 0 then iflag x else intena x), ncli := ncli x + 1\<rparr>) s"

definition popcli :: "nat \<Rightarrow> smp \<Rightarrow> smp res" where
  "popcli c s =
     (if iflag (cpus s c) then Inl (Kpanic ''popcli - interruptible'')
      else
        let s = upd_cpu c (\<lambda>x. x\<lparr>ncli := ncli x - 1\<rparr>) s in
        if ncli (cpus s c) < 0 then Inl (Kpanic ''popcli'')
        else Inr (if ncli (cpus s c) = 0 \<and> intena (cpus s c) then upd_cpu c (\<lambda>x. x\<lparr>iflag := True\<rparr>) s else s))"

definition smp_holding :: "nat \<Rightarrow> lockid \<Rightarrow> smp \<Rightarrow> (bool \<times> smp) res" where
  "smp_holding c l s =
     (let s = pushcli c s; r = lk_locked (lks s l) \<and> lk_cpu (lks s l) = Some c
      in bindR (popcli c s) (\<lambda>s. Inr (r, s)))"

text \<open>\<open>acquire\<close> up to the loop, one successful exchange, and the rest.\<close>

definition acquire_enter :: "nat \<Rightarrow> lockid \<Rightarrow> smp \<Rightarrow> smp res" where
  "acquire_enter c l s =
     bindR (smp_holding c l (pushcli c s)) (\<lambda>(r, s). if r then Inl (Kpanic ''acquire'') else Inr s)"

definition acquire_xchg :: "lockid \<Rightarrow> smp \<Rightarrow> smp option" where
  "acquire_xchg l s = (if lk_locked (lks s l) then None else Some (upd_lock l (\<lambda>x. x\<lparr>lk_locked := True\<rparr>) s))"

definition acquire_own :: "nat \<Rightarrow> lockid \<Rightarrow> smp \<Rightarrow> smp" where
  "acquire_own c l s = upd_lock l (\<lambda>x. x\<lparr>lk_cpu := Some c\<rparr>) s"

text \<open>A whole call while no other CPU moves: it spins forever when another CPU has the lock.\<close>

definition smp_acquire :: "nat \<Rightarrow> lockid \<Rightarrow> smp \<Rightarrow> smp res" where
  "smp_acquire c l s =
     bindR (acquire_enter c l s) (\<lambda>s. case acquire_xchg l s of None \<Rightarrow> Inl Diverges | Some s \<Rightarrow> Inr (acquire_own c l s))"

text \<open>
  \<open>release\<close>: the test, the store that clears the owner, the store that frees the lock, and the
  \<open>popcli\<close> at the end; the whole call while no other CPU moves.
\<close>

definition release_check :: "nat \<Rightarrow> lockid \<Rightarrow> smp \<Rightarrow> smp res" where
  "release_check c l s = bindR (smp_holding c l s) (\<lambda>(r, s). if \<not> r then Inl (Kpanic ''release'') else Inr s)"

definition release_disown :: "lockid \<Rightarrow> smp \<Rightarrow> smp" where
  "release_disown l s = upd_lock l (\<lambda>x. x\<lparr>lk_cpu := None\<rparr>) s"

definition release_store :: "lockid \<Rightarrow> smp \<Rightarrow> smp" where
  "release_store l s = upd_lock l (\<lambda>x. x\<lparr>lk_locked := False\<rparr>) s"

definition smp_release :: "nat \<Rightarrow> lockid \<Rightarrow> smp \<Rightarrow> smp res" where
  "smp_release c l s = bindR (release_check c l s) (\<lambda>s. popcli c (release_store l (release_disown l s)))"

section \<open>Lemmas\<close>

lemma upd_sel [simp]:
  "cpus (upd_cpu c f s) = (cpus s)(c := f (cpus s c))" "lks (upd_cpu c f s) = lks s"
  "cpus (upd_lock l g s) = cpus s" "lks (upd_lock l g s) = (lks s)(l := g (lks s l))"
  by (simp_all add: upd_cpu_def upd_lock_def)

lemma upd_cpu_twice [simp]: "upd_cpu c f (upd_cpu c g s) = upd_cpu c (\<lambda>x. f (g x)) s"
  by (simp add: upd_cpu_def)

lemma length_remove_lock: "l \<in> set ls \<Longrightarrow> int (length (remove1 l ls)) = int (length ls) - 1"
  by (induction ls) auto

lemma upd_cpu_id: "f (cpus s c) = cpus s c \<Longrightarrow> upd_cpu c f s = s"
  by (simp add: upd_cpu_def)

text \<open>The flag is off whenever the depth is positive.\<close>

definition cpu_ok :: "cpu \<Rightarrow> bool" where
  "cpu_ok x \<longleftrightarrow> 0 \<le> ncli x \<and> (iflag x \<longrightarrow> ncli x = 0)"

lemma pushcli_popcli:
  assumes "cpu_ok (cpus s c)"
  shows "\<exists>i. popcli c (pushcli c s) = Inr (upd_cpu c (\<lambda>x. x\<lparr>intena := i\<rparr>) s) \<and> (0 < ncli (cpus s c) \<longrightarrow> i = intena (cpus s c))"
proof -
  let ?x = "cpus s c"
  let ?i = "if ncli ?x = 0 then iflag ?x else intena ?x"
  have "popcli c (pushcli c s) = Inr (upd_cpu c (\<lambda>x. x\<lparr>intena := ?i\<rparr>) s)"
    using assms by (cases ?x) (auto simp: popcli_def pushcli_def Let_def cpu_ok_def upd_cpu_def)
  then show ?thesis by auto
qed

lemma smp_holding_ok:
  assumes "cpu_ok (cpus s c)"
  shows "\<exists>i. smp_holding c l s = Inr (lk_locked (lks s l) \<and> lk_cpu (lks s l) = Some c, upd_cpu c (\<lambda>x. x\<lparr>intena := i\<rparr>) s) \<and>
    (0 < ncli (cpus s c) \<longrightarrow> upd_cpu c (\<lambda>x. x\<lparr>intena := i\<rparr>) s = s)"
proof -
  obtain i where i: "popcli c (pushcli c s) = Inr (upd_cpu c (\<lambda>x. x\<lparr>intena := i\<rparr>) s)" "0 < ncli (cpus s c) \<longrightarrow> i = intena (cpus s c)"
    using pushcli_popcli [OF assms] by blast
  have "lks (pushcli c s) = lks s" by (simp add: pushcli_def)
  then show ?thesis using i by (auto simp: smp_holding_def Let_def upd_cpu_id)
qed

lemma acquire_enter_ok:
  assumes "cpu_ok (cpus s c)"
  shows "acquire_enter c l s = (if lk_locked (lks s l) \<and> lk_cpu (lks s l) = Some c then Inl (Kpanic ''acquire'') else Inr (pushcli c s))"
proof -
  have ok: "cpu_ok (cpus (pushcli c s) c)" "0 < ncli (cpus (pushcli c s) c)" using assms by (auto simp: pushcli_def cpu_ok_def)
  show ?thesis using smp_holding_ok [OF ok(1), of l] ok(2) by (auto simp: acquire_enter_def pushcli_def)
qed

lemma release_check_ok:
  assumes "cpu_ok (cpus s c)"
  shows "lk_locked (lks s l) \<and> lk_cpu (lks s l) = Some c \<Longrightarrow> 0 < ncli (cpus s c) \<Longrightarrow> release_check c l s = Inr s"
    "\<not> (lk_locked (lks s l) \<and> lk_cpu (lks s l) = Some c) \<Longrightarrow> release_check c l s = Inl (Kpanic ''release'')"
  using smp_holding_ok [OF assms, of l] by (auto simp: release_check_def)

lemma popcli_ok:
  assumes "cpu_ok (cpus s c)" "0 < ncli (cpus s c)"
  shows "\<exists>t x. popcli c s = Inr t \<and> lks t = lks s \<and> cpus t = (cpus s)(c := x) \<and> ncli x = ncli (cpus s c) - 1 \<and> cpu_ok x"
proof -
  let ?u = "upd_cpu c (\<lambda>x. x\<lparr>ncli := ncli x - 1\<rparr>) s"
  let ?t = "if ncli (cpus s c) = 1 \<and> intena (cpus s c) then upd_cpu c (\<lambda>x. x\<lparr>iflag := True\<rparr>) ?u else ?u"
  have nf: "\<not> iflag (cpus s c)" using assms by (auto simp: cpu_ok_def)
  then have "popcli c s = Inr ?t" using assms(2) by (simp add: popcli_def Let_def)
  moreover have "cpu_ok (cpus ?t c)" "ncli (cpus ?t c) = ncli (cpus s c) - 1" "cpus ?t = (cpus s)(c := cpus ?t c)" "lks ?t = lks s"
    using assms(2) nf by (auto simp: cpu_ok_def)
  ultimately show ?thesis by blast
qed

lemma smp_release_ok:
  assumes "cpu_ok (cpus s c)" "lk_locked (lks s l)" "lk_cpu (lks s l) = Some c" "0 < ncli (cpus s c)"
  shows "\<exists>t x. smp_release c l s = Inr t \<and> lks t = (lks s)(l := (lks s l)\<lparr>lk_cpu := None, lk_locked := False\<rparr>) \<and>
    cpus t = (cpus s)(c := x) \<and> ncli x = ncli (cpus s c) - 1 \<and> cpu_ok x"
proof -
  let ?u = "release_store l (release_disown l s)"
  have u: "cpus ?u = cpus s" "lks ?u = (lks s)(l := (lks s l)\<lparr>lk_cpu := None, lk_locked := False\<rparr>)"
    by (simp_all add: release_store_def release_disown_def)
  obtain t x where "popcli c ?u = Inr t" "lks t = lks ?u" "cpus t = (cpus ?u)(c := x)" "ncli x = ncli (cpus ?u c) - 1" "cpu_ok x"
    using popcli_ok [of ?u c] assms(1,4) u(1) by auto
  moreover have "release_check c l s = Inr s" using release_check_ok(1) [OF assms(1)] assms(2-4) by blast
  ultimately show ?thesis using u by (intro exI [of _ t] exI [of _ x]) (simp add: smp_release_def)
qed

lemma smp_release_not:
  assumes "cpu_ok (cpus s c)" "\<not> (lk_locked (lks s l) \<and> lk_cpu (lks s l) = Some c)"
  shows "smp_release c l s = Inl (Kpanic ''release'')"
  using release_check_ok(2) [OF assms] by (simp add: smp_release_def)

section \<open>The view of one CPU\<close>

text \<open>The list of locks \<open>ls\<close> of theory \<open>Prelude\<close> describes the CPU \<open>c\<close> of the machine.\<close>

definition cpu_view :: "nat \<Rightarrow> lockid list \<Rightarrow> smp \<Rightarrow> bool" where
  "cpu_view c ls s \<longleftrightarrow> cpu_ok (cpus s c) \<and> distinct ls \<and> ncli (cpus s c) = int (length ls) \<and>
     (\<forall>l. l \<in> set ls \<longleftrightarrow> lk_locked (lks s l) \<and> lk_cpu (lks s l) = Some c)"

section \<open>All CPUs at once\<close>

datatype spinpc = Idle | Spin lockid | Own lockid | Drop lockid | Gone lockid | Pop

text \<open>
  \<open>smp_run h pc s\<close>: the machine is in state \<open>s\<close> after some interleaving of its CPUs; \<open>h c\<close> are the
  locks whose \<open>acquire\<close> has returned on CPU \<open>c\<close> and that it has not freed since, and \<open>pc c\<close>
  is where it is inside \<open>acquire\<close> (before the exchange, before it records itself as owner) or
  inside \<open>release\<close> (after the test, after it has cleared the owner, after it has freed the lock).
  A CPU may enable interrupts when it is at depth 0.
\<close>

inductive smp_run :: "(nat \<Rightarrow> lockid list) \<Rightarrow> (nat \<Rightarrow> spinpc) \<Rightarrow> smp \<Rightarrow> bool" where
  boot: "\<forall>l. \<not> lk_locked (lks s l) \<and> lk_cpu (lks s l) = None \<Longrightarrow> \<forall>c. ncli (cpus s c) = 0 \<Longrightarrow> smp_run (\<lambda>_. []) (\<lambda>_. Idle) s"
| enter: "smp_run h pc s \<Longrightarrow> pc c = Idle \<Longrightarrow> acquire_enter c l s = Inr t \<Longrightarrow> smp_run h (pc(c := Spin l)) t"
| xchg: "smp_run h pc s \<Longrightarrow> pc c = Spin l \<Longrightarrow> acquire_xchg l s = Some t \<Longrightarrow> smp_run h (pc(c := Own l)) t"
| own: "smp_run h pc s \<Longrightarrow> pc c = Own l \<Longrightarrow> smp_run (h(c := l # h c)) (pc(c := Idle)) (acquire_own c l s)"
| check: "smp_run h pc s \<Longrightarrow> pc c = Idle \<Longrightarrow> release_check c l s = Inr t \<Longrightarrow> smp_run h (pc(c := Drop l)) t"
| disown: "smp_run h pc s \<Longrightarrow> pc c = Drop l \<Longrightarrow> smp_run h (pc(c := Gone l)) (release_disown l s)"
| store: "smp_run h pc s \<Longrightarrow> pc c = Gone l \<Longrightarrow> smp_run (h(c := remove1 l (h c))) (pc(c := Pop)) (release_store l s)"
| pop: "smp_run h pc s \<Longrightarrow> pc c = Pop \<Longrightarrow> popcli c s = Inr t \<Longrightarrow> smp_run h (pc(c := Idle)) t"
| sti: "smp_run h pc s \<Longrightarrow> pc c = Idle \<Longrightarrow> ncli (cpus s c) = 0 \<Longrightarrow> smp_run h pc (upd_cpu c (\<lambda>x. x\<lparr>iflag := True\<rparr>) s)"

text \<open>The depth of a CPU beyond the locks it has, and the lock it has taken but is not recorded for.\<close>

fun extra :: "spinpc \<Rightarrow> int" where
  "extra (Spin l) = 1"
| "extra (Own l) = 1"
| "extra Pop = 1"
| "extra _ = 0"

definition gap :: "spinpc \<Rightarrow> lockid \<Rightarrow> bool" where
  "gap x l \<longleftrightarrow> x = Own l \<or> x = Gone l"

lemma gap_simps [simp]:
  "\<not> gap Idle l" "\<not> gap (Spin k) l" "gap (Own k) l \<longleftrightarrow> k = l" "\<not> gap (Drop k) l" "gap (Gone k) l \<longleftrightarrow> k = l" "\<not> gap Pop l"
  by (auto simp: gap_def)

definition smp_inv :: "(nat \<Rightarrow> lockid list) \<Rightarrow> (nat \<Rightarrow> spinpc) \<Rightarrow> smp \<Rightarrow> bool" where
  "smp_inv h pc s \<longleftrightarrow>
     (\<forall>c. cpu_ok (cpus s c) \<and> distinct (h c) \<and> ncli (cpus s c) = int (length (h c)) + extra (pc c)) \<and>
     (\<forall>c l. l \<in> set (h c) \<longleftrightarrow> pc c = Gone l \<or> lk_locked (lks s l) \<and> lk_cpu (lks s l) = Some c) \<and>
     (\<forall>c l. gap (pc c) l \<longrightarrow> lk_locked (lks s l) \<and> lk_cpu (lks s l) = None) \<and>
     (\<forall>c d l. gap (pc c) l \<longrightarrow> gap (pc d) l \<longrightarrow> c = d) \<and>
     (\<forall>c l. pc c = Drop l \<longrightarrow> lk_locked (lks s l) \<and> lk_cpu (lks s l) = Some c) \<and>
     (\<forall>l. \<not> lk_locked (lks s l) \<longrightarrow> lk_cpu (lks s l) = None)"

lemma smp_invD:
  assumes "smp_inv h pc s"
  shows "cpu_ok (cpus s c)" "distinct (h c)" "ncli (cpus s c) = int (length (h c)) + extra (pc c)"
    "l \<in> set (h c) \<longleftrightarrow> pc c = Gone l \<or> lk_locked (lks s l) \<and> lk_cpu (lks s l) = Some c"
    "gap (pc c) l \<Longrightarrow> lk_locked (lks s l) \<and> lk_cpu (lks s l) = None" "gap (pc c) l \<Longrightarrow> gap (pc d) l \<Longrightarrow> c = d"
    "pc c = Drop l \<Longrightarrow> lk_locked (lks s l) \<and> lk_cpu (lks s l) = Some c"
    "\<not> lk_locked (lks s l) \<Longrightarrow> lk_cpu (lks s l) = None"
  using assms by (auto simp: smp_inv_def)

lemma smp_run_inv: "smp_run h pc s \<Longrightarrow> smp_inv h pc s"
proof (induction rule: smp_run.induct)
  case (boot s)
  then show ?case by (simp add: smp_inv_def cpu_ok_def)
next
  case (enter h pc s c l t)
  note i = smp_invD [OF enter.IH]
  have t: "t = pushcli c s" using enter(3) acquire_enter_ok [OF i(1)] by (simp split: if_splits)
  show ?case using i enter(2) by (auto simp: smp_inv_def t pushcli_def cpu_ok_def)
next
  case (xchg h pc s c l t)
  note i = smp_invD [OF xchg.IH]
  have t: "t = upd_lock l (\<lambda>x. x\<lparr>lk_locked := True\<rparr>) s" "\<not> lk_locked (lks s l)" using xchg(3) by (auto simp: acquire_xchg_def split: if_splits)
  have n: "\<not> gap (pc d) l" "pc d \<noteq> Drop l" for d using i(5,7) [of d l] t(2) by auto
  show ?case using i t(2) xchg(2) n by (auto simp: smp_inv_def t(1))
next
  case (own h pc s c l)
  note i = smp_invD [OF own.IH]
  have g: "gap (pc c) l" using own(2) by simp
  have n: "lk_cpu (lks s l) = None" "pc d \<noteq> Drop l" "d \<noteq> c \<Longrightarrow> \<not> gap (pc d) l" "l \<notin> set (h c)" for d
    using i(4) [of l c] i(5) [OF g] i(6) [OF _ g, of d] i(7) [of d l] own(2) by auto
  show ?case using i own(2) n i(5) [OF g] by (auto simp: smp_inv_def acquire_own_def)
next
  case (check h pc s c l t)
  note i = smp_invD [OF check.IH]
  have l: "lk_locked (lks s l) \<and> lk_cpu (lks s l) = Some c"
    by (rule ccontr) (use release_check_ok(2) [OF i(1), of l c] check(3) in simp)
  then have "l \<in> set (h c)" using i(4) by blast
  then have "0 < ncli (cpus s c)" using i(3) [of c] check(2) by (cases "h c") auto
  then have "t = s" using release_check_ok(1) [OF i(1) l] check(3) by simp
  then show ?case using i l check(2) by (auto simp: smp_inv_def)
next
  case (disown h pc s c l)
  note i = smp_invD [OF disown.IH]
  have l: "lk_locked (lks s l)" "lk_cpu (lks s l) = Some c" using i(7) disown(2) by blast+
  have n: "\<not> gap (pc d) l" "d \<noteq> c \<Longrightarrow> pc d \<noteq> Drop l" "l \<in> set (h d) \<longleftrightarrow> d = c" for d
    using i(4) [of l d] i(5) [of d l] i(7) [of d l] l by (auto simp: gap_def)
  show ?case using i disown(2) l n by (auto simp: smp_inv_def release_disown_def)
next
  case (store h pc s c l)
  note i = smp_invD [OF store.IH]
  have g: "gap (pc c) l" using store(2) by simp
  have l: "lk_locked (lks s l)" "lk_cpu (lks s l) = None" "l \<in> set (h c)" using i(4) [of l c] i(5) [OF g] store(2) by auto
  have n: "d \<noteq> c \<Longrightarrow> \<not> gap (pc d) l" "pc d \<noteq> Drop l" "d \<noteq> c \<Longrightarrow> pc d \<noteq> Gone l" for d
    using i(4) [of l d] i(6) [OF _ g, of d] i(7) [of d l] l store(2) by (auto simp: gap_def)
  have len: "int (length (remove1 l (h c))) = int (length (h c)) - 1" by (rule length_remove_lock [OF l(3)])
  show ?case using i store(2) l n len by (auto simp: smp_inv_def release_store_def set_remove1_eq)
next
  case (pop h pc s c t)
  note i = smp_invD [OF pop.IH]
  have "0 < ncli (cpus s c)" using i(3) [of c] pop(2) by simp
  from popcli_ok [OF i(1) this] obtain x where t: "lks t = lks s" "cpus t = (cpus s)(c := x)" "ncli x = ncli (cpus s c) - 1" "cpu_ok x"
    using pop(3) by auto
  show ?case using i t pop(2) by (auto simp: smp_inv_def)
next
  case (sti h pc s c)
  note i = smp_invD [OF sti.IH]
  show ?case using i sti(2,3) by (auto simp: smp_inv_def cpu_ok_def)
qed

section \<open>Properties\<close>

definition boot_smp :: smp where
  "boot_smp = \<lparr>cpus = (\<lambda>_. \<lparr>ncli = 0, intena = False, iflag = True\<rparr>), lks = (\<lambda>_. \<lparr>lk_locked = False, lk_cpu = None\<rparr>)\<rparr>"

text \<open>
  C12. Under every interleaving of the CPUs no two of them are past the \<open>acquire\<close> of the same
  lock, up to the store of \<open>release\<close> that frees it, a CPU that holds a lock has its interrupts off,
  and the depth counter of a CPU outside \<open>acquire\<close> and \<open>release\<close> is the number of locks it holds.
\<close>

theorem spin_mutual_exclusion:
  assumes "smp_run h pc s"
  shows "(\<forall>c d l. l \<in> set (h c) \<and> l \<in> set (h d) \<longrightarrow> c = d) \<and> (\<forall>c. h c \<noteq> [] \<longrightarrow> \<not> iflag (cpus s c)) \<and>
    (\<forall>c. pc c = Idle \<longrightarrow> cpu_view c (h c) s)"
proof -
  note i = smp_invD [OF smp_run_inv [OF assms]]
  have "c = d" if "l \<in> set (h c)" "l \<in> set (h d)" for c d l
    using that i(4) [of l c] i(4) [of l d] i(5) [of c l] i(5) [of d l] i(6) [of c l d] by (auto simp: gap_def)
  moreover have "\<not> iflag (cpus s c)" if "h c \<noteq> []" for c
  proof -
    have "0 \<le> extra (pc c)" by (cases "pc c") auto
    then show ?thesis using i(1,3) [of c] that by (cases "h c") (auto simp: cpu_ok_def)
  qed
  moreover have "cpu_view c (h c) s" if "pc c = Idle" for c using i(1-4) that by (auto simp: cpu_view_def)
  ultimately show ?thesis by blast
qed

theorem spin_mutual_exclusion_witness: "\<exists>h pc s. smp_run h pc s \<and> h 0 = [Lptable] \<and> \<not> iflag (cpus s 0) \<and> cpu_view 0 [Lptable] s"
proof -
  let ?s = "acquire_own 0 Lptable (upd_lock Lptable (\<lambda>x. x\<lparr>lk_locked := True\<rparr>) (pushcli 0 boot_smp))"
  have r0: "smp_run (\<lambda>_. []) (\<lambda>_. Idle) boot_smp" by (rule smp_run.boot) (simp_all add: boot_smp_def)
  have e: "acquire_enter 0 Lptable boot_smp = Inr (pushcli 0 boot_smp)"
    by (subst acquire_enter_ok) (simp_all add: boot_smp_def cpu_ok_def)
  have x: "acquire_xchg Lptable (pushcli 0 boot_smp) = Some (upd_lock Lptable (\<lambda>x. x\<lparr>lk_locked := True\<rparr>) (pushcli 0 boot_smp))"
    by (simp add: acquire_xchg_def pushcli_def boot_smp_def)
  note r1 = smp_run.enter [OF r0 refl e]
  have r2: "smp_run (\<lambda>_. []) ((\<lambda>_. Idle)(0 := Spin Lptable, 0 := Own Lptable)) (upd_lock Lptable (\<lambda>x. x\<lparr>lk_locked := True\<rparr>) (pushcli 0 boot_smp))"
    by (rule smp_run.xchg [OF r1 _ x]) simp
  have r3: "smp_run ((\<lambda>_. [])(0 := [Lptable])) ((\<lambda>_. Idle)(0 := Spin Lptable, 0 := Own Lptable, 0 := Idle)) ?s"
    using smp_run.own [OF r2, of 0 Lptable] by simp
  from spin_mutual_exclusion [OF r3] have "\<not> iflag (cpus ?s 0)" "cpu_view 0 [Lptable] ?s" by (auto dest!: spec [of _ 0])
  then show ?thesis using r3 by (metis fun_upd_same)
qed

text \<open>
  C22. The code implements the list of held locks that the models of the kernel use: \<open>acquire\<close>
  and \<open>release\<close> panic exactly when they do on the list, otherwise they lead to a state that
  the new list describes, except that \<open>acquire\<close> spins while another CPU has the lock.
\<close>

theorem spinlock_refines:
  assumes v: "cpu_view c ls s"
  shows "(case acquire l \<lparr>locks = ls\<rparr> of
       Inl e \<Rightarrow> smp_acquire c l s = Inl e
     | Inr k \<Rightarrow> if lk_locked (lks s l) then smp_acquire c l s = Inl Diverges
               else \<exists>t. smp_acquire c l s = Inr t \<and> cpu_view c (locks k) t) \<and>
    (case release l \<lparr>locks = ls\<rparr> of
       Inl e \<Rightarrow> smp_release c l s = Inl e
     | Inr k \<Rightarrow> \<exists>t. smp_release c l s = Inr t \<and> cpu_view c (locks k) t)"
proof (cases "l \<in> set ls")
  case True
  then have l: "lk_locked (lks s l)" "lk_cpu (lks s l) = Some c" and ok: "cpu_ok (cpus s c)" and n: "0 < ncli (cpus s c)"
    using v by (auto simp: cpu_view_def)
  obtain t x where t: "smp_release c l s = Inr t" "lks t = (lks s)(l := (lks s l)\<lparr>lk_cpu := None, lk_locked := False\<rparr>)"
      "cpus t = (cpus s)(c := x)" "ncli x = ncli (cpus s c) - 1" "cpu_ok x"
    using smp_release_ok [OF ok l n] by blast
  have "int (length (remove1 l ls)) = ncli x" using v length_remove_lock [OF True] t(4) by (simp add: cpu_view_def)
  then have "cpu_view c (remove1 l ls) t" using v t by (auto simp: cpu_view_def)
  then show ?thesis using True l t(1) acquire_enter_ok [OF ok] by (simp add: smp_acquire_def release_def holding_def)
next
  case False
  then have nl: "\<not> (lk_locked (lks s l) \<and> lk_cpu (lks s l) = Some c)" and ok: "cpu_ok (cpus s c)" using v by (auto simp: cpu_view_def)
  have e: "acquire_enter c l s = Inr (pushcli c s)" "lks (pushcli c s) = lks s" using acquire_enter_ok [OF ok] nl by (auto simp: pushcli_def)
  have "cpu_view c (l # ls) (acquire_own c l (upd_lock l (\<lambda>x. x\<lparr>lk_locked := True\<rparr>) (pushcli c s)))"
    using v False by (auto simp: cpu_view_def acquire_own_def pushcli_def cpu_ok_def)
  then show ?thesis using False e smp_release_not [OF ok nl]
    by (simp add: smp_acquire_def acquire_xchg_def release_def holding_def)
qed

theorem spinlock_refines_witness:
  "\<exists>t. smp_acquire 0 Llog boot_smp = Inr t \<and> cpu_view 0 [Llog] t \<and> smp_release 0 Llog boot_smp = Inl (Kpanic ''release'')"
proof -
  have "cpu_view 0 [] boot_smp" by (simp add: cpu_view_def boot_smp_def cpu_ok_def)
  from spinlock_refines [OF this, of Llog] show ?thesis by (simp add: boot_smp_def release_def holding_def)
qed

end
