(* ===== verification/Grep.thy ===== *)
theory Grep
  imports StringLib
begin

text \<open>
  The pattern matcher and the line loop of \<^verbatim>\<open>grep.c\<close>. A C string is the list of its bytes
  before the terminating zero, so the cursor at the terminator is the empty list. What
  \<open>read\<close> delivers is a list of chunks: a call gets at most one chunk, and no chunk is left at
  the end of the file. A regular file is one chunk, a pipe may deliver several.
\<close>

section \<open>The matcher\<close>

text \<open>The bytes \<^verbatim>\<open>^\<close>, \<^verbatim>\<open>.\<close>, \<^verbatim>\<open>*\<close>, \<^verbatim>\<open>$\<close> and newline.\<close>

definition HAT :: byte where "HAT = 94"
definition DOT :: byte where "DOT = 46"
definition STAR :: byte where "STAR = 42"
definition DOLLAR :: byte where "DOLLAR = 36"
definition NL :: byte where "NL = 10"

function matchhere :: "byte list \<Rightarrow> byte list \<Rightarrow> bool"
  and matchstar :: "byte \<Rightarrow> byte list \<Rightarrow> byte list \<Rightarrow> bool" where
  "matchhere re text =
     (case re of
        [] \<Rightarrow> True
      | c # re' \<Rightarrow>
          if re' \<noteq> [] \<and> hd re' = STAR then matchstar c (tl re') text
          else if c = DOLLAR \<and> re' = [] then text = []
          else if text \<noteq> [] \<and> (c = DOT \<or> c = hd text) then matchhere re' (tl text)
          else False)"
| "matchstar c re text =
     (if matchhere re text then True
      else if text \<noteq> [] \<and> (hd text = c \<or> c = DOT) then matchstar c re (tl text)
      else False)"
  by pat_completeness auto
termination
  by (relation "measure (\<lambda>x. case x of Inl (re, t) \<Rightarrow> 2 * (length re + length t) | Inr (c, re, t) \<Rightarrow> 2 * (length re + length t) + 1)")
    (auto simp: neq_Nil_conv)

declare matchhere.simps [simp del] matchstar.simps [simp del]

fun match_from :: "byte list \<Rightarrow> byte list \<Rightarrow> bool" where
  "match_from re text = (matchhere re text \<or> (case text of [] \<Rightarrow> False | c # text \<Rightarrow> match_from re text))"

definition match :: "byte list \<Rightarrow> byte list \<Rightarrow> bool" where
  "match re text = (if re \<noteq> [] \<and> hd re = HAT then matchhere (tl re) text else match_from re text)"

section \<open>The line loop\<close>

text \<open>One \<open>read\<close> of at most \<open>k\<close> bytes.\<close>

fun read_chunk :: "nat \<Rightarrow> byte list list \<Rightarrow> byte list \<times> byte list list" where
  "read_chunk k [] = ([], [])"
| "read_chunk k (c # cs) = (take k c, if length c \<le> k then cs else drop k c # cs)"

definition GREPBUF :: nat where "GREPBUF = 1024"

text \<open>
  The inner loop over the lines of the buffer: \<open>p\<close> is the rest of the buffer, up to byte \<open>m\<close>
  where the zero is stored. \<open>strchr\<close> stops at the first zero byte. The result is what is
  written and the rest of the buffer at the end.
\<close>

definition cstr :: "byte list \<Rightarrow> byte list" where
  "cstr p = takeWhile (\<lambda>c. c \<noteq> 0) p"

function grep_lines :: "byte list \<Rightarrow> byte list \<Rightarrow> byte list \<times> byte list" where
  "grep_lines pattern p =
     (if NL \<in> set (cstr p) then
        let line = takeWhile (\<lambda>c. c \<noteq> NL) p; rest = drop (length line + 1) p;
            (out, r) = grep_lines pattern rest in
        (if match pattern line then line @ NL # out else out, r)
      else ([], p))"
  by pat_completeness auto
termination
  by (relation "measure (\<lambda>(pattern, p). length p)") (auto simp: cstr_def intro!: diff_less dest!: set_takeWhileD length_pos_if_in_set)

declare grep_lines.simps [simp del]

text \<open>
  The outer loop with \<open>b\<close> the first \<open>m\<close> bytes of \<^verbatim>\<open>buf\<close>. A read that returns nothing ends it;
  when no line was found the bytes in the buffer are dropped (\<^verbatim>\<open>m = 0\<close>).
\<close>

function grep_loop :: "byte list \<Rightarrow> byte list \<Rightarrow> byte list list \<Rightarrow> byte list" where
  "grep_loop pattern b input =
     (let (got, input') = read_chunk (GREPBUF - length b - 1) input in
      if got = [] then []
      else
        let b = b @ got; (out, p) = grep_lines pattern b in
        out @ grep_loop pattern (if length p = length b then [] else p) input')"
  by pat_completeness auto
termination
proof (relation "measure (\<lambda>(pattern, b, input). sum_list (map length input))", goal_cases)
  case 1
  then show ?case by simp
next
  case (2 pattern b input x got input' b' y out p)
  then show ?case by (cases input) (auto split: if_splits)
qed

declare grep_loop.simps [simp del]

definition grep :: "byte list \<Rightarrow> byte list list \<Rightarrow> byte list" where
  "grep pattern input = grep_loop pattern [] input"

section \<open>What a pattern means\<close>

text \<open>
  A pattern is a list of items: one character, any number of characters, or the end of the
  text. \<open>strings\<close> is the set of strings a list of items stands for.
\<close>

datatype item = One byte | Many byte | AtEnd

fun items :: "byte list \<Rightarrow> item list" where
  "items [] = []"
| "items [c] = (if c = DOLLAR then [AtEnd] else [One c])"
| "items (c # d # re) = (if d = STAR then Many c # items re else One c # items (d # re))"

definition chars :: "byte \<Rightarrow> byte set" where
  "chars c = (if c = DOT then UNIV else {c})"

fun strings :: "item list \<Rightarrow> byte list set" where
  "strings [] = {[]}"
| "strings (One c # is) = {x # u |x u. x \<in> chars c \<and> u \<in> strings is}"
| "strings (Many c # is) = {v @ u |v u. set v \<subseteq> chars c \<and> u \<in> strings is}"
| "strings (AtEnd # is) = strings is"

text \<open>A text starts with a string of the pattern, and ends there if the pattern asks for it.\<close>

definition starts :: "item list \<Rightarrow> byte list \<Rightarrow> bool" where
  "starts is ts \<longleftrightarrow> (\<exists>u v. ts = u @ v \<and> u \<in> strings is \<and> (AtEnd \<in> set is \<longrightarrow> v = []))"

lemma starts_Nil [simp]: "starts [] ts"
  by (simp add: starts_def)

lemma starts_AtEnd: "starts [AtEnd] ts \<longleftrightarrow> ts = []"
  by (auto simp: starts_def)

lemma startsI: "u \<in> strings is \<Longrightarrow> AtEnd \<in> set is \<longrightarrow> v = [] \<Longrightarrow> starts is (u @ v)"
  unfolding starts_def by blast

lemma startsE:
  assumes "starts is ts"
  obtains u v where "ts = u @ v" "u \<in> strings is" "AtEnd \<in> set is \<longrightarrow> v = []"
  using assms unfolding starts_def by blast

lemma starts_One: "starts (One c # is) ts \<longleftrightarrow> ts \<noteq> [] \<and> hd ts \<in> chars c \<and> starts is (tl ts)"
proof
  assume "starts (One c # is) ts"
  then obtain y v where y: "ts = y @ v" "y \<in> strings (One c # is)" "AtEnd \<in> set is \<longrightarrow> v = []"
    by (elim startsE) auto
  then obtain x u where "y = x # u" "x \<in> chars c" "u \<in> strings is" by auto
  with y show "ts \<noteq> [] \<and> hd ts \<in> chars c \<and> starts is (tl ts)" by (simp add: startsI)
next
  assume r: "ts \<noteq> [] \<and> hd ts \<in> chars c \<and> starts is (tl ts)"
  then obtain u v where u: "tl ts = u @ v" "u \<in> strings is" "AtEnd \<in> set is \<longrightarrow> v = []" by (elim conjE startsE)
  then have "starts (One c # is) ((hd ts # u) @ v)" using r by (intro startsI) auto
  moreover have "(hd ts # u) @ v = ts" using r u(1) by (cases ts) auto
  ultimately show "starts (One c # is) ts" by simp
qed

lemma starts_Many: "starts (Many c # is) ts \<longleftrightarrow> (\<exists>v w. ts = v @ w \<and> set v \<subseteq> chars c \<and> starts is w)"
proof
  assume "starts (Many c # is) ts"
  then obtain y v where y: "ts = y @ v" "y \<in> strings (Many c # is)" "AtEnd \<in> set is \<longrightarrow> v = []"
    by (elim startsE) auto
  then obtain w u where "y = w @ u" "set w \<subseteq> chars c" "u \<in> strings is" by auto
  with y have "ts = w @ (u @ v)" "set w \<subseteq> chars c" "starts is (u @ v)" by (auto intro: startsI)
  then show "\<exists>v w. ts = v @ w \<and> set v \<subseteq> chars c \<and> starts is w" by blast
next
  assume "\<exists>v w. ts = v @ w \<and> set v \<subseteq> chars c \<and> starts is w"
  then obtain w t where "ts = w @ t" "set w \<subseteq> chars c" "starts is t" by blast
  then obtain u v where u: "ts = (w @ u) @ v" "set w \<subseteq> chars c" "u \<in> strings is" "AtEnd \<in> set is \<longrightarrow> v = []"
    by (elim startsE) auto
  have "w @ u \<in> strings (Many c # is)" using u(2,3) by auto
  then show "starts (Many c # is) ts" unfolding u(1) by (rule startsI) (use u(4) in simp)
qed

lemma starts_Many_step:
  "starts (Many c # is) ts \<longleftrightarrow>
     starts is ts \<or> ts \<noteq> [] \<and> hd ts \<in> chars c \<and> starts (Many c # is) (tl ts)"
  (is "?l = (?a \<or> ?b)")
proof
  assume ?l
  then obtain v w where v: "ts = v @ w" "set v \<subseteq> chars c" "starts is w" by (auto simp: starts_Many)
  then show "?a \<or> ?b" by (cases v) (auto simp: starts_Many)
next
  assume "?a \<or> ?b"
  then show ?l
  proof
    assume ?a
    then show ?l by (force simp: starts_Many)
  next
    assume b: ?b
    then obtain v w where "tl ts = v @ w" "set v \<subseteq> chars c" "starts is w" by (auto simp: starts_Many)
    then have "ts = (hd ts # v) @ w" "set (hd ts # v) \<subseteq> chars c" using b by (cases ts; auto)+
    then show ?l using \<open>starts is w\<close> unfolding starts_Many by blast
  qed
qed

lemma items_Cons: "items (c # re) =
   (if re \<noteq> [] \<and> hd re = STAR then Many c # items (tl re)
    else if c = DOLLAR \<and> re = [] then [AtEnd] else One c # items re)"
  by (cases re) auto

lemma matcher_starts:
  "matchhere re ts \<longleftrightarrow> starts (items re) ts"
  "matchstar c re ts \<longleftrightarrow> starts (Many c # items re) ts"
proof (induction re ts and c re ts rule: matchhere_matchstar.induct)
  case (1 re ts)
  show ?case
  proof (cases re)
    case Nil
    then show ?thesis by (simp add: matchhere.simps)
  next
    case (Cons c re')
    show ?thesis unfolding Cons using 1 [OF Cons]
      by (simp add: matchhere.simps [of "c # re'"] items_Cons starts_AtEnd starts_One chars_def) auto
  qed
next
  case (2 c re ts)
  show ?case using 2
    by (subst matchstar.simps, subst starts_Many_step) (auto simp: chars_def)
qed

lemma match_from_starts: "match_from re ts \<longleftrightarrow> (\<exists>w t. ts = w @ t \<and> starts (items re) t)"
proof (induction ts)
  case Nil
  then show ?case by (simp add: matcher_starts)
next
  case (Cons c ts)
  have "match_from re (c # ts) \<longleftrightarrow> starts (items re) (c # ts) \<or> match_from re ts"
    by (simp add: matcher_starts)
  also have "\<dots> \<longleftrightarrow> (\<exists>w t. c # ts = w @ t \<and> starts (items re) t)"
    unfolding Cons by (metis append_Cons append_Nil append_eq_Cons_conv)
  finally show ?case .
qed

text \<open>
  C32. The matcher decides the meaning of the pattern: a pattern with a leading \<^verbatim>\<open>^\<close> matches a
  text that starts with one of its strings, any other pattern a text that contains one, up to
  the end of the text if the pattern ends with \<^verbatim>\<open>$\<close>.
\<close>

theorem match_correct:
  "match re ts \<longleftrightarrow>
     (if re \<noteq> [] \<and> hd re = HAT then starts (items (tl re)) ts
      else (\<exists>w t. ts = w @ t \<and> starts (items re) t))"
  by (simp add: match_def matcher_starts match_from_starts del: match_from.simps)

section \<open>The lines of a file\<close>

text \<open>The lines that end with a newline, without it, and what follows the last newline.\<close>

lemma rest_shorter: "NL \<in> set p \<Longrightarrow> length (tl (dropWhile (\<lambda>c. c \<noteq> NL) p)) < length p"
  by (metis diff_less dropWhile_eq_Nil_conv leD length_0_conv length_dropWhile_le length_pos_if_in_set length_tl
      less_imp_diff_less linorder_neqE_nat nat_less_le zero_less_one)

function flines :: "byte list \<Rightarrow> byte list list" where
  "flines p = (if NL \<in> set p then takeWhile (\<lambda>c. c \<noteq> NL) p # flines (tl (dropWhile (\<lambda>c. c \<noteq> NL) p)) else [])"
  by auto
termination by (relation "measure length") (auto intro: rest_shorter simp del: length_tl)

declare flines.simps [simp del]

definition ftail :: "byte list \<Rightarrow> byte list" where
  "ftail p = rev (takeWhile (\<lambda>c. c \<noteq> NL) (rev p))"

lemma split_line: "NL \<in> set p \<Longrightarrow> \<exists>l q. p = l @ NL # q \<and> NL \<notin> set l"
  by (metis split_list_first)

lemma flines_simps:
  "NL \<notin> set p \<Longrightarrow> flines p = []"
  "NL \<notin> set l \<Longrightarrow> flines (l @ NL # q) = l # flines q"
proof -
  assume "NL \<notin> set l"
  then have "takeWhile (\<lambda>c. c \<noteq> NL) (l @ NL # q) = l" "dropWhile (\<lambda>c. c \<noteq> NL) (l @ NL # q) = NL # q"
    by (auto simp: takeWhile_append dropWhile_append)
  then show "flines (l @ NL # q) = l # flines q" by (simp add: flines.simps [of "l @ NL # q"])
qed (simp add: flines.simps)

lemma ftail_simps:
  "NL \<notin> set p \<Longrightarrow> ftail p = p"
  "ftail (l @ NL # q) = ftail q"
proof -
  assume "NL \<notin> set p"
  then have t: "takeWhile (\<lambda>c. c \<noteq> NL) (rev p) = rev p" by (subst takeWhile_eq_all_conv) auto
  show "ftail p = p" unfolding ftail_def t by simp
qed (simp add: ftail_def takeWhile_append eq_commute [of "rev q"])

lemma lines_induct:
  assumes "\<And>p. NL \<notin> set p \<Longrightarrow> P p" and "\<And>l q. NL \<notin> set l \<Longrightarrow> P q \<Longrightarrow> P (l @ NL # q)"
  shows "P p"
proof (induction p rule: length_induct)
  case (1 p)
  show ?case
  proof (cases "NL \<in> set p")
    case True
    then obtain l q where p: "p = l @ NL # q" "NL \<notin> set l" using split_line by blast
    then have "P q" using 1 by simp
    then show ?thesis using assms(2) [OF p(2)] p(1) by simp
  qed (rule assms(1))
qed

lemma ftail_no_NL: "NL \<notin> set (ftail p)"
  by (induction p rule: lines_induct) (simp_all add: ftail_simps)

lemma ftail_length: "NL \<in> set p \<Longrightarrow> length (ftail p) < length p"
proof (induction p rule: lines_induct)
  case (2 l q)
  then show ?case by (cases "NL \<in> set q") (auto simp: ftail_simps)
qed simp

lemma ftail_subset: "set (ftail p) \<subseteq> set p"
  by (auto simp: ftail_def dest: set_takeWhileD)

lemma flines_append: "flines (p @ q) = flines p @ flines (ftail p @ q)"
  by (induction p rule: lines_induct) (simp_all add: ftail_simps flines_simps)

definition printed :: "byte list \<Rightarrow> byte list list \<Rightarrow> byte list" where
  "printed pattern ls = concat (map (\<lambda>l. l @ [NL]) (filter (match pattern) ls))"

lemma printed_append: "printed pattern (ls @ ms) = printed pattern ls @ printed pattern ms"
  by (simp add: printed_def)

lemma grep_lines_eq: "0 \<notin> set p \<Longrightarrow> grep_lines pattern p = (printed pattern (flines p), ftail p)"
proof (induction p rule: lines_induct)
  case (1 p)
  then have "cstr p = p" by (auto simp: cstr_def takeWhile_eq_all_conv)
  then show ?case using 1 by (simp add: grep_lines.simps [of _ p] flines_simps ftail_simps printed_def)
next
  case (2 l q)
  have c: "cstr (l @ NL # q) = l @ NL # q" using 2(3) unfolding cstr_def takeWhile_eq_all_conv by metis
  have t: "takeWhile (\<lambda>c. c \<noteq> NL) (l @ NL # q) = l" using 2(1) by (auto simp: takeWhile_append)
  show ?case using 2
    by (simp add: grep_lines.simps [of _ "l @ NL # q"] c t flines_simps ftail_simps printed_def)
qed

lemma grep_loop_eq:
  assumes "0 \<notin> set (b @ inp)" "NL \<notin> set b" "length b < GREPBUF - 1"
    and "\<forall>l \<in> set (flines (b @ inp)). length l < GREPBUF - 1"
  shows "grep_loop pattern b [inp] = printed pattern (flines (b @ inp))"
  using assms
proof (induction "length inp" arbitrary: b inp rule: less_induct)
  case less
  define k where "k = GREPBUF - length b - 1"
  have k: "0 < k" using less.prems(3) by (simp add: k_def)
  define got where "got = take k inp"
  define rest where "rest = drop k inp"
  have f: "inp = got @ rest" by (simp add: got_def rest_def)
  have rc: "read_chunk (GREPBUF - length b - 1) [inp] = (got, if length inp \<le> k then [] else [rest])"
    by (simp add: got_def rest_def k_def)
  have ne: "got = [] \<longleftrightarrow> inp = []" using k by (simp add: got_def)
  have "0 \<notin> set (b @ got)" using less.prems(1) by (auto simp: got_def dest: in_set_takeD)
  then have gl: "grep_lines pattern (b @ got) = (printed pattern (flines (b @ got)), ftail (b @ got))" by (rule grep_lines_eq)
  have step: "grep_loop pattern b [inp] =
      (if inp = [] then [] else printed pattern (flines (b @ got)) @
         grep_loop pattern (if length (ftail (b @ got)) = length (b @ got) then [] else ftail (b @ got))
           (if length inp \<le> k then [] else [rest]))"
    by (subst grep_loop.simps) (simp only: rc gl ne Let_def prod.case)
  show ?case
  proof (cases "length inp \<le> k")
    case True
    then have "got = inp" by (simp add: got_def)
    moreover have "grep_loop pattern c [] = []" for c by (simp add: grep_loop.simps)
    moreover have "inp = [] \<Longrightarrow> printed pattern (flines (b @ inp)) = []"
      using less.prems(2) by (simp add: flines_simps printed_def)
    ultimately show ?thesis using step True by simp
  next
    case False
    then have len: "length got = k" "length rest < length inp" "inp \<noteq> []" using k by (auto simp: got_def rest_def)
    have fl: "flines (b @ inp) = flines (b @ got) @ flines (ftail (b @ got) @ rest)"
      using flines_append [of "b @ got" rest] f by simp
    show ?thesis
    proof (cases "NL \<in> set (b @ got)")
      case True
      have s: "length (ftail (b @ got)) < length (b @ got)" by (rule ftail_length [OF True])
      then have "length (ftail (b @ got)) < GREPBUF - 1" using len(1) k_def k by simp
      moreover have "0 \<notin> set (ftail (b @ got) @ rest)" using less.prems(1) ftail_subset [of "b @ got"] f by auto
      moreover have "\<forall>l \<in> set (flines (ftail (b @ got) @ rest)). length l < GREPBUF - 1"
        using less.prems(4) fl by simp
      ultimately have "grep_loop pattern (ftail (b @ got)) [rest] = printed pattern (flines (ftail (b @ got) @ rest))"
        using less.hyps [OF len(2)] ftail_no_NL by blast
      then show ?thesis using step fl s False len(3) by (simp add: printed_append)
    next
      case no: False
      have nr: "NL \<notin> set rest"
      proof
        assume "NL \<in> set rest"
        then obtain l q where lq: "rest = l @ NL # q" "NL \<notin> set l" using split_line by blast
        then have "flines (b @ inp) = (b @ got @ l) # flines q"
          using flines_simps(2) [of "b @ got @ l" q] no f by simp
        then have "length (b @ got @ l) < GREPBUF - 1" using less.prems(4) by simp
        then show False using len(1) k_def k by simp
      qed
      have "grep_loop pattern [] [rest] = printed pattern (flines rest)"
        using less.hyps [OF len(2), of "[]"] less.prems(1) f nr by (simp add: flines_simps GREPBUF_def)
      then show ?thesis using step no nr False len(3) f by (simp add: ftail_simps flines_simps printed_def)
    qed
  qed
qed

text \<open>
  C33. On a regular file without zero bytes whose lines fit the buffer, \<open>grep\<close> prints exactly the
  lines, ended by a newline, that the pattern matches, in order.
\<close>

theorem grep_correct:
  assumes "0 \<notin> set inp" "\<forall>l \<in> set (flines inp). length l < 1023"
  shows "grep pattern [inp] = concat (map (\<lambda>l. l @ [NL]) (filter (match pattern) (flines inp)))"
  using grep_loop_eq [of "[]" inp pattern] assms by (simp add: grep_def printed_def GREPBUF_def)

theorem grep_correct_witness:
  "grep [HAT, 97, STAR, 98, DOLLAR] [[98, NL, 97, 97, 98, NL, 99, 98, NL, 97, 98]] = [98, NL, 97, 97, 98, NL]"
proof -
  let ?f = "[98, NL, 97, 97, 98, NL, 99, 98, NL, 97, 98] :: byte list"
  have l: "flines ?f = [[98], [97, 97, 98], [99, 98]]" by (simp add: flines.simps NL_def)
  have "grep [HAT, 97, STAR, 98, DOLLAR] [?f] =
      concat (map (\<lambda>l. l @ [NL]) (filter (match [HAT, 97, STAR, 98, DOLLAR]) (flines ?f)))"
    by (rule grep_correct) (simp_all add: l, simp add: NL_def)
  then show ?thesis
    by (simp add: l match_def HAT_def STAR_def DOLLAR_def DOT_def matchhere.simps matchstar.simps)
qed

text \<open>
  When the bytes come in pieces, as from a pipe, \<open>grep\<close> loses the start of a line that is
  split: a buffer without a newline is dropped although it is not full.
\<close>

theorem grep_split_line_lost:
  assumes "0 \<notin> set (b @ c)" "NL \<notin> set b" "NL \<notin> set c" "b \<noteq> []" "length b < 1023" "length c < 1023" "match pattern c"
  shows "grep pattern [b, c @ [NL]] = c @ [NL]"
proof -
  have nz: "NL \<noteq> 0" by (simp add: NL_def)
  have b: "grep_lines pattern b = ([], b)" "grep_lines pattern (c @ [NL]) = (c @ [NL], [])"
    using assms flines_simps(2) [of c "[]"] nz by (simp_all add: grep_lines_eq flines_simps ftail_simps printed_def)
  have "grep_loop pattern [] [c @ [NL]] = c @ [NL]"
    using assms(6) b(2) by (simp add: grep_loop.simps GREPBUF_def)
  moreover have "grep_loop pattern [] [b, c @ [NL]] = grep_loop pattern [] [c @ [NL]]"
    using assms(4,5) b(1) by (subst grep_loop.simps) (simp add: GREPBUF_def)
  ultimately show ?thesis by (simp add: grep_def)
qed

theorem grep_split_line_lost_witness:
  "grep [HAT, 99, DOLLAR] [[97, 98], [99, NL]] = [99, NL] \<and> \<not> match [HAT, 99, DOLLAR] [97, 98, 99]"
proof -
  have m: "match [HAT, 99, DOLLAR] [99]" "\<not> match [HAT, 99, DOLLAR] [97, 98, 99]"
    by (simp_all add: match_def HAT_def DOLLAR_def DOT_def STAR_def matchhere.simps)
  show ?thesis using grep_split_line_lost [of "[97, 98]" "[99]" "[HAT, 99, DOLLAR]"] m by (simp add: NL_def)
qed

end
