(* ===== verification/Shell.thy ===== *)
theory Shell
  imports StringLib Params
begin

text \<open>
  The shell (\<^verbatim>\<open>sh.c\<close>): tokens, the recursive descent parser, \<open>nulterminate\<close> and \<open>runcmd\<close>. The
  command line is the buffer, a function from offsets to bytes; \<^verbatim>\<open>char *\<close> values are offsets
  and \<open>es\<close> is the end of the line, where the terminating zero is. \<open>panic\<close> of the shell prints its
  argument and exits: the fault \<open>Kpanic\<close>. The command nodes that \<open>malloc\<close> provides are values of
  a datatype; \<open>parseexec\<close>, which goes on filling a node it has already wrapped, keeps the
  arguments and the wrappers apart.

  The parser carries a bound on the depth of its calls. \<open>parsecmd\<close> starts with five times
  the length of the line plus five, and no line uses it up: between two calls of \<open>parseline\<close>
  at most four calls nest, and at least one character is consumed.
\<close>

section \<open>Tokens\<close>

definition whitespace :: "byte list" where "whitespace = [32, 9, 13, 10, 11]"
definition symbols :: "byte list" where "symbols = [60, 124, 62, 38, 59, 40, 41]"

function skip_space :: "(nat \<Rightarrow> byte) \<Rightarrow> nat \<Rightarrow> nat \<Rightarrow> nat" where
  "skip_space b es s = (if s < es \<and> b s \<in> set whitespace then skip_space b es (s + 1) else s)"
  by auto
termination by (relation "measure (\<lambda>(b, es, s). es - s)") auto

function skip_word :: "(nat \<Rightarrow> byte) \<Rightarrow> nat \<Rightarrow> nat \<Rightarrow> nat" where
  "skip_word b es s =
     (if s < es \<and> b s \<notin> set whitespace \<and> b s \<notin> set symbols then skip_word b es (s + 1) else s)"
  by auto
termination by (relation "measure (\<lambda>(b, es, s). es - s)") auto

declare skip_space.simps [simp del] skip_word.simps [simp del]

text \<open>\<open>gettoken\<close>: the token, its limits \<^verbatim>\<open>q\<close> and \<^verbatim>\<open>eq\<close>, and the new cursor. A word is the token \<^verbatim>\<open>'a'\<close>.\<close>

definition gettoken :: "(nat \<Rightarrow> byte) \<Rightarrow> nat \<Rightarrow> nat \<Rightarrow> byte \<times> nat \<times> nat \<times> nat" where
  "gettoken b es s =
     (let q = skip_space b es s;
          (ret, eq) =
            (if b q = 0 then (0, q)
             else if b q \<in> {124, 40, 41, 59, 38, 60} then (b q, q + 1)
             else if b q = 62 then if b (q + 1) = 62 then (43, q + 2) else (62, q + 1)
             else (97, skip_word b es q))
      in (ret, q, eq, skip_space b es eq))"

definition peek :: "(nat \<Rightarrow> byte) \<Rightarrow> nat \<Rightarrow> nat \<Rightarrow> byte list \<Rightarrow> bool \<times> nat" where
  "peek b es s toks = (let s = skip_space b es s in (b s \<noteq> 0 \<and> b s \<in> set toks, s))"

section \<open>The parser\<close>

datatype cmd =
    EXEC "(nat \<times> nat) list"
  | REDIR cmd nat nat "32 word" nat
  | PIPE cmd cmd
  | LIST cmd cmd
  | BACK cmd

definition MAXARGS :: nat where "MAXARGS = 10"

text \<open>A redirection wraps the command: the function that a chain of them stands for.\<close>

fun parseredirs :: "(nat \<Rightarrow> byte) \<Rightarrow> nat \<Rightarrow> nat \<Rightarrow> (cmd \<Rightarrow> cmd) \<Rightarrow> nat \<Rightarrow> ((cmd \<Rightarrow> cmd) \<times> nat) res" where
  "parseredirs b es 0 wrap s = Inl Diverges"
| "parseredirs b es (Suc n) wrap s =
     (let (more, s) = peek b es s [60, 62] in
      if \<not> more then Inr (wrap, s)
      else
        let (tok, q0, eq0, s) = gettoken b es s; (t, q, eq, s) = gettoken b es s in
        if t \<noteq> 97 then Inl (Kpanic ''missing file for redirection'')
        else parseredirs b es n
          (if tok = 60 then (\<lambda>c. REDIR (wrap c) q eq O_RDONLY 0)
           else if tok = 62 then (\<lambda>c. REDIR (wrap c) q eq (O_WRONLY OR O_CREATE) 1)
           else if tok = 43 then (\<lambda>c. REDIR (wrap c) q eq (O_WRONLY OR O_CREATE) 1)
           else wrap) s)"

text \<open>The argument loop of \<open>parseexec\<close>.\<close>

fun parseargs :: "(nat \<Rightarrow> byte) \<Rightarrow> nat \<Rightarrow> nat \<Rightarrow> (nat \<times> nat) list \<Rightarrow> (cmd \<Rightarrow> cmd) \<Rightarrow> nat \<Rightarrow> (cmd \<times> nat) res" where
  "parseargs b es 0 argv wrap s = Inl Diverges"
| "parseargs b es (Suc n) argv wrap s =
     (let (stop, s) = peek b es s [124, 41, 38, 59] in
      if stop then Inr (wrap (EXEC argv), s)
      else
        let (tok, q, eq, s) = gettoken b es s in
        if tok = 0 then Inr (wrap (EXEC argv), s)
        else if tok \<noteq> 97 then Inl (Kpanic ''syntax'')
        else
          let argv = argv @ [(q, eq)] in
          if length argv \<ge> MAXARGS then Inl (Kpanic ''too many args'')
          else bindR (parseredirs b es n wrap s) (\<lambda>(wrap, s). parseargs b es n argv wrap s))"

fun backs :: "(nat \<Rightarrow> byte) \<Rightarrow> nat \<Rightarrow> nat \<Rightarrow> cmd \<Rightarrow> nat \<Rightarrow> (cmd \<times> nat) res" where
  "backs b es 0 c s = Inl Diverges"
| "backs b es (Suc n) c s =
     (let (more, s) = peek b es s [38] in
      if more then let (_, _, _, s) = gettoken b es s in backs b es n (BACK c) s
      else Inr (c, s))"

fun parseline :: "(nat \<Rightarrow> byte) \<Rightarrow> nat \<Rightarrow> nat \<Rightarrow> nat \<Rightarrow> (cmd \<times> nat) res"
  and parsepipe :: "(nat \<Rightarrow> byte) \<Rightarrow> nat \<Rightarrow> nat \<Rightarrow> nat \<Rightarrow> (cmd \<times> nat) res"
  and parseexec :: "(nat \<Rightarrow> byte) \<Rightarrow> nat \<Rightarrow> nat \<Rightarrow> nat \<Rightarrow> (cmd \<times> nat) res"
  and parseblock :: "(nat \<Rightarrow> byte) \<Rightarrow> nat \<Rightarrow> nat \<Rightarrow> nat \<Rightarrow> (cmd \<times> nat) res" where
  "parseline b es 0 s = Inl Diverges"
| "parseline b es (Suc n) s =
     bindR (parsepipe b es n s) (\<lambda>(c, s).
     bindR (backs b es n c s) (\<lambda>(c, s).
     let (more, s) = peek b es s [59] in
     if more then
       let (_, _, _, s) = gettoken b es s in
       bindR (parseline b es n s) (\<lambda>(d, s). Inr (LIST c d, s))
     else Inr (c, s)))"
| "parsepipe b es 0 s = Inl Diverges"
| "parsepipe b es (Suc n) s =
     bindR (parseexec b es n s) (\<lambda>(c, s).
     let (more, s) = peek b es s [124] in
     if more then
       let (_, _, _, s) = gettoken b es s in
       bindR (parsepipe b es n s) (\<lambda>(d, s). Inr (PIPE c d, s))
     else Inr (c, s))"
| "parseexec b es 0 s = Inl Diverges"
| "parseexec b es (Suc n) s =
     (let (block, s) = peek b es s [40] in
      if block then parseblock b es n s
      else bindR (parseredirs b es n (\<lambda>c. c) s) (\<lambda>(wrap, s). parseargs b es n [] wrap s))"
| "parseblock b es 0 s = Inl Diverges"
| "parseblock b es (Suc n) s =
     (let (open, s) = peek b es s [40] in
      if open then
        let (_, _, _, s) = gettoken b es s in
        bindR (parseline b es n s) (\<lambda>(c, s).
        let (close, s) = peek b es s [41] in
        if close then
          let (_, _, _, s) = gettoken b es s in
          bindR (parseredirs b es n (\<lambda>c. c) s) (\<lambda>(wrap, s). Inr (wrap c, s))
        else Inl (Kpanic ''syntax - missing )''))
      else Inl (Kpanic ''parseblock''))"

text \<open>\<open>nulterminate\<close> ends every word with a zero byte in the buffer.\<close>

fun nulterminate :: "cmd \<Rightarrow> (nat \<Rightarrow> byte) \<Rightarrow> nat \<Rightarrow> byte" where
  "nulterminate (EXEC argv) b = fold (\<lambda>(q, eq) b. b(eq := 0)) argv b"
| "nulterminate (REDIR c q eq m fd) b = (nulterminate c b)(eq := 0)"
| "nulterminate (PIPE l r) b = nulterminate r (nulterminate l b)"
| "nulterminate (LIST l r) b = nulterminate r (nulterminate l b)"
| "nulterminate (BACK c) b = nulterminate c b"

definition parsecmd :: "(nat \<Rightarrow> byte) \<Rightarrow> (cmd \<times> (nat \<Rightarrow> byte)) res" where
  "parsecmd b =
     (case strlen b of
        None \<Rightarrow> Inl Diverges
      | Some es \<Rightarrow>
          bindR (parseline b es (5 * es + 5) 0) (\<lambda>(c, s).
          let (_, s) = peek b es s [] in
          if s \<noteq> es then Inl (Kpanic ''syntax'') else Inr (c, nulterminate c b)))"

section \<open>Every line is parsed or refused\<close>

text \<open>A line: \<open>es\<close> bytes that are not zero, then a zero. A word has no blanks and no symbols.\<close>

definition is_line :: "(nat \<Rightarrow> byte) \<Rightarrow> nat \<Rightarrow> bool" where
  "is_line b es \<longleftrightarrow> b es = 0 \<and> (\<forall>i < es. b i \<noteq> 0)"

definition wordchar :: "byte \<Rightarrow> bool" where
  "wordchar c \<longleftrightarrow> c \<noteq> 0 \<and> c \<notin> set whitespace \<and> c \<notin> set symbols"

definition is_word :: "(nat \<Rightarrow> byte) \<Rightarrow> nat \<Rightarrow> nat \<times> nat \<Rightarrow> bool" where
  "is_word b es x \<longleftrightarrow> fst x < snd x \<and> snd x \<le> es \<and> (\<forall>i. fst x \<le> i \<and> i < snd x \<longrightarrow> wordchar (b i)) \<and> \<not> wordchar (b (snd x))"

fun words :: "cmd \<Rightarrow> (nat \<times> nat) list" where
  "words (EXEC argv) = argv"
| "words (REDIR c q eq m fd) = words c @ [(q, eq)]"
| "words (PIPE l r) = words l @ words r"
| "words (LIST l r) = words l @ words r"
| "words (BACK c) = words c"

fun args_fit :: "cmd \<Rightarrow> bool" where
  "args_fit (EXEC argv) \<longleftrightarrow> length argv < MAXARGS"
| "args_fit (REDIR c q eq m fd) \<longleftrightarrow> args_fit c"
| "args_fit (PIPE l r) \<longleftrightarrow> args_fit l \<and> args_fit r"
| "args_fit (LIST l r) \<longleftrightarrow> args_fit l \<and> args_fit r"
| "args_fit (BACK c) \<longleftrightarrow> args_fit c"

definition good :: "(nat \<Rightarrow> byte) \<Rightarrow> nat \<Rightarrow> cmd \<Rightarrow> bool" where
  "good b es c \<longleftrightarrow> list_all (is_word b es) (words c) \<and> args_fit c"

lemma good_simps [simp]:
  "good b es (EXEC argv) \<longleftrightarrow> list_all (is_word b es) argv \<and> length argv < MAXARGS"
  "good b es (REDIR c q eq m fd) \<longleftrightarrow> good b es c \<and> is_word b es (q, eq)"
  "good b es (PIPE l r) \<longleftrightarrow> good b es l \<and> good b es r"
  "good b es (LIST l r) \<longleftrightarrow> good b es l \<and> good b es r"
  "good b es (BACK c) \<longleftrightarrow> good b es c"
  by (auto simp: good_def)

lemma skip_space_spec:
  "s \<le> es \<Longrightarrow> s \<le> skip_space b es s \<and> skip_space b es s \<le> es \<and>
     (skip_space b es s = es \<or> b (skip_space b es s) \<notin> set whitespace)"
proof (induction "es - s" arbitrary: s)
  case 0
  then show ?case by (simp add: skip_space.simps)
next
  case (Suc d)
  have lt: "s < es" using Suc(2) by simp
  show ?case
  proof (cases "b s \<in> set whitespace")
    case True
    then have "skip_space b es s = skip_space b es (s + 1)" using lt by (subst skip_space.simps) simp
    moreover have "d = es - (s + 1)" "s + 1 \<le> es" using Suc(2) lt by simp_all
    ultimately show ?thesis using Suc(1) [of "s + 1"] by auto
  next
    case False
    then have "skip_space b es s = s" by (subst skip_space.simps) auto
    then show ?thesis using False Suc(3) by simp
  qed
qed

lemma skip_word_spec:
  "s \<le> es \<Longrightarrow> s \<le> skip_word b es s \<and> skip_word b es s \<le> es \<and>
     (\<forall>i. s \<le> i \<and> i < skip_word b es s \<longrightarrow> b i \<notin> set whitespace \<and> b i \<notin> set symbols) \<and>
     (skip_word b es s = es \<or> b (skip_word b es s) \<in> set whitespace \<or> b (skip_word b es s) \<in> set symbols)"
proof (induction "es - s" arbitrary: s)
  case 0
  then show ?case by (auto simp: skip_word.simps)
next
  case (Suc d)
  have lt: "s < es" using Suc(2) by simp
  show ?case
  proof (cases "b s \<notin> set whitespace \<and> b s \<notin> set symbols")
    case True
    have e: "skip_word b es s = skip_word b es (s + 1)" using True lt by (subst skip_word.simps) simp
    have "d = es - (s + 1)" "s + 1 \<le> es" using Suc(2) lt by simp_all
    note IH = Suc(1) [OF this]
    have "b i \<notin> set whitespace \<and> b i \<notin> set symbols" if "s \<le> i \<and> i < skip_word b es (s + 1)" for i
      using IH True that by (cases "i = s") auto
    then show ?thesis using IH unfolding e by auto
  next
    case False
    then have "skip_word b es s = s" by (subst skip_word.simps) auto
    then show ?thesis using False Suc(3) by auto
  qed
qed

lemma peek_spec:
  assumes "is_line b es" "s \<le> es" "peek b es s toks = (r, t)"
  shows "s \<le> t" "t \<le> es" "r \<Longrightarrow> t < es \<and> b t \<in> set toks" "b t \<notin> set whitespace"
proof -
  have t: "t = skip_space b es s" "r \<longleftrightarrow> b t \<noteq> 0 \<and> b t \<in> set toks" using assms(3) by (auto simp: peek_def Let_def)
  have k: "s \<le> t \<and> t \<le> es \<and> (t = es \<or> b t \<notin> set whitespace)" using skip_space_spec [OF assms(2)] t(1) by simp
  show "s \<le> t" "t \<le> es" using k by simp_all
  show "t < es \<and> b t \<in> set toks" if "r" using t(2) that k assms(1) by (auto simp: is_line_def le_less)
  show "b t \<notin> set whitespace" using k assms(1) by (auto simp: is_line_def whitespace_def)
qed

lemma gettoken_spec:
  assumes l: "is_line b es" and s: "s \<le> es" and g: "gettoken b es s = (t, q, e, s')"
  shows "s \<le> q" "q \<le> e" "e \<le> s'" "s' \<le> es" "t \<noteq> 0 \<Longrightarrow> q < e" "t = 97 \<Longrightarrow> is_word b es (q, e)"
proof -
  have q: "q = skip_space b es s" using g by (auto simp: gettoken_def Let_def split: prod.splits)
  have k: "s \<le> q \<and> q \<le> es \<and> (q = es \<or> b q \<notin> set whitespace)" using skip_space_spec [OF s] q by simp
  have lt: "q < es" if "b q \<noteq> 0" using that k l by (auto simp: is_line_def le_less)
  have lt2: "q + 1 < es" if "b q \<noteq> 0" "b (q + 1) = 62"
  proof -
    have "q + 1 \<noteq> es" using that(2) l by (auto simp: is_line_def)
    then show ?thesis using lt [OF that(1)] by simp
  qed
  have te: "(t, e) = (if b q = 0 then (0, q)
             else if b q \<in> {124, 40, 41, 59, 38, 60} then (b q, q + 1)
             else if b q = 62 then if b (q + 1) = 62 then (43, q + 2) else (62, q + 1)
             else (97, skip_word b es q))"
    and s': "s' = skip_space b es e" using g q by (auto simp: gettoken_def Let_def split: prod.splits)
  have w: "q < e \<and> e \<le> es \<and> is_word b es (q, e)" if n: "b q \<noteq> 0" "b q \<notin> {124, 40, 41, 59, 38, 60}" "b q \<noteq> 62" "e = skip_word b es q"
  proof -
    have c: "b q \<notin> set whitespace" "b q \<notin> set symbols" using n k lt by (auto simp: symbols_def)
    have "q \<noteq> e" using c lt [OF n(1)] n(4) skip_word_spec [of "q + 1" es b] by (subst (asm) skip_word.simps) auto
    moreover have "q \<le> e \<and> e \<le> es \<and> (\<forall>i. q \<le> i \<and> i < e \<longrightarrow> b i \<notin> set whitespace \<and> b i \<notin> set symbols) \<and>
        (e = es \<or> b e \<in> set whitespace \<or> b e \<in> set symbols)" using skip_word_spec [of q es b] k n(4) by blast
    ultimately show ?thesis using l by (auto simp: is_word_def wordchar_def is_line_def)
  qed
  have e: "q \<le> e \<and> e \<le> es \<and> (t \<noteq> 0 \<longrightarrow> q < e) \<and> (t = 97 \<longrightarrow> is_word b es (q, e))"
    using te lt lt2 w k by (auto split: if_splits)
  show "s \<le> q" "q \<le> e" "t \<noteq> 0 \<Longrightarrow> q < e" "t = 97 \<Longrightarrow> is_word b es (q, e)" using k e by simp_all
  show "e \<le> s'" "s' \<le> es" using skip_space_spec [of e es b] e s' by simp_all
qed

text \<open>The token after a successful \<open>peek\<close> consumes something.\<close>

lemma skip_space_stop: "b s \<notin> set whitespace \<Longrightarrow> skip_space b es s = s"
  by (subst skip_space.simps) simp

lemma peek_gettoken:
  assumes l: "is_line b es" and s: "s \<le> es" and p: "peek b es s toks = (r, t)" "r"
    and g: "gettoken b es t = (tok, q, e, s1)"
  shows "s < s1" "s1 \<le> es"
proof -
  note P = peek_spec [OF l s p(1)]
  have q: "q = t" using g skip_space_stop [of b t es] P(4) by (auto simp: gettoken_def Let_def split: prod.splits)
  have "b t \<noteq> 0" using p by (auto simp: peek_def Let_def)
  then have "tok \<noteq> 0" using g q by (auto simp: gettoken_def Let_def split: prod.splits if_splits)
  then show "s < s1" "s1 \<le> es" using P(1) gettoken_spec [OF l P(2) g] by auto
qed

text \<open>An outcome of a parser function that started at \<open>s\<close>.\<close>

definition outcome :: "(nat \<Rightarrow> byte) \<Rightarrow> nat \<Rightarrow> nat \<Rightarrow> (cmd \<times> nat) res \<Rightarrow> bool" where
  "outcome b es s r \<longleftrightarrow> (case r of Inl e \<Rightarrow> (\<exists>m. e = Kpanic m) | Inr (c, t) \<Rightarrow> s \<le> t \<and> t \<le> es \<and> good b es c)"

lemma outcome_simps [simp]:
  "outcome b es s (Inl e) \<longleftrightarrow> (\<exists>m. e = Kpanic m)"
  "outcome b es s (Inr (c, t)) \<longleftrightarrow> s \<le> t \<and> t \<le> es \<and> good b es c"
  by (simp_all add: outcome_def)

lemma outcome_mono: "outcome b es t r \<Longrightarrow> s \<le> t \<Longrightarrow> outcome b es s r"
  by (auto simp: outcome_def split: sum.splits)

lemma outcome_bind:
  assumes "outcome b es s m" "\<And>c t. s \<le> t \<Longrightarrow> t \<le> es \<Longrightarrow> good b es c \<Longrightarrow> outcome b es t (f (c, t))"
  shows "outcome b es s (bindR m f)"
proof (cases m)
  case (Inr x)
  obtain c t where x: "x = (c, t)" by (cases x)
  have t: "s \<le> t" "t \<le> es" "good b es c" using assms(1) Inr x by simp_all
  show ?thesis using outcome_mono [OF assms(2) [OF t] t(1)] Inr x by simp
qed (use assms(1) in auto)

definition wraps :: "(nat \<Rightarrow> byte) \<Rightarrow> nat \<Rightarrow> (cmd \<Rightarrow> cmd) \<Rightarrow> bool" where
  "wraps b es w \<longleftrightarrow> (\<forall>c. good b es c \<longrightarrow> good b es (w c))"

lemma parseredirs_total:
  assumes "is_line b es" "s \<le> es" "wraps b es w" "es - s < n"
  shows "(\<exists>m. parseredirs b es n w s = Inl (Kpanic m)) \<or>
         (\<exists>w' t. parseredirs b es n w s = Inr (w', t) \<and> s \<le> t \<and> t \<le> es \<and> wraps b es w')"
  using assms(2-)
proof (induction n arbitrary: w s)
  case (Suc n)
  obtain r t where p: "peek b es s [60, 62] = (r, t)" by (cases "peek b es s [60, 62]")
  note pk = peek_spec [OF assms(1) Suc.prems(1) p]
  show ?case
  proof (cases r)
    case False
    then show ?thesis using p pk(1,2) Suc.prems(2) by simp
  next
    case True
    obtain tok q0 e0 s1 where g: "gettoken b es t = (tok, q0, e0, s1)" by (cases "gettoken b es t") 
    obtain u q e s2 where h: "gettoken b es s1 = (u, q, e, s2)" by (cases "gettoken b es s1")
    note G = gettoken_spec [OF assms(1) pk(2) g]
    note H = gettoken_spec [OF assms(1) G(4) h]
    let ?w = "if tok = 60 then (\<lambda>c. REDIR (w c) q e O_RDONLY 0)
           else if tok = 62 then (\<lambda>c. REDIR (w c) q e (O_WRONLY OR O_CREATE) 1)
           else if tok = 43 then (\<lambda>c. REDIR (w c) q e (O_WRONLY OR O_CREATE) 1)
           else w"
    have step: "parseredirs b es (Suc n) w s =
        (if u \<noteq> 97 then Inl (Kpanic ''missing file for redirection'') else parseredirs b es n ?w s2)"
      using p True g h by simp
    show ?thesis
    proof (cases "u = 97")
      case w: True
      have "wraps b es ?w" using Suc.prems(2) H(6) [OF w] by (auto simp: wraps_def)
      moreover have "s < s2" using pk(1) G(1,2,3) H(1,2,3) H(5) w by auto
      moreover have "es - s2 < n" using \<open>s < s2\<close> H(4) Suc.prems(3) by simp
      ultimately have "(\<exists>m. parseredirs b es n ?w s2 = Inl (Kpanic m)) \<or>
          (\<exists>w' t. parseredirs b es n ?w s2 = Inr (w', t) \<and> s2 \<le> t \<and> t \<le> es \<and> wraps b es w')"
        using Suc.IH [OF H(4)] by blast
      then show ?thesis unfolding step using w \<open>s < s2\<close> by fastforce
    qed (simp add: step del: parseredirs.simps)
  qed
qed simp

lemma outcome_redirs:
  assumes "is_line b es" "s \<le> es" "wraps b es w" "es - s < n"
    and "\<And>w' t. s \<le> t \<Longrightarrow> t \<le> es \<Longrightarrow> wraps b es w' \<Longrightarrow> outcome b es t (f (w', t))"
  shows "outcome b es s (bindR (parseredirs b es n w s) f)"
  using parseredirs_total [OF assms(1-4)]
proof (elim disjE exE conjE)
  fix w' t
  assume "parseredirs b es n w s = Inr (w', t)" "s \<le> t" "t \<le> es" "wraps b es w'"
  then show ?thesis using outcome_mono [OF assms(5)] by simp
qed simp

lemma parseargs_total:
  assumes "is_line b es" "s \<le> es" "wraps b es w" "list_all (is_word b es) argv" "length argv < MAXARGS" "es - s < n"
  shows "outcome b es s (parseargs b es n argv w s)"
  using assms(2-)
proof (induction n arbitrary: argv w s)
  case (Suc n)
  obtain r t where p: "peek b es s [124, 41, 38, 59] = (r, t)" by (cases "peek b es s [124, 41, 38, 59]")
  note pk = peek_spec [OF assms(1) Suc.prems(1) p]
  obtain tok q e s1 where g: "gettoken b es t = (tok, q, e, s1)" by (cases "gettoken b es t") 
  note G = gettoken_spec [OF assms(1) pk(2) g]
  have ok: "good b es (w (EXEC argv))" using Suc.prems(2-4) by (simp add: wraps_def)
  have step: "parseargs b es (Suc n) argv w s =
     (if r then Inr (w (EXEC argv), t)
      else if tok = 0 then Inr (w (EXEC argv), s1)
      else if tok \<noteq> 97 then Inl (Kpanic ''syntax'')
      else if length (argv @ [(q, e)]) \<ge> MAXARGS then Inl (Kpanic ''too many args'')
      else bindR (parseredirs b es n w s1) (\<lambda>(w, s). parseargs b es n (argv @ [(q, e)]) w s))"
    using p g by simp
  have "outcome b es s (bindR (parseredirs b es n w s1) (\<lambda>(w, s). parseargs b es n (argv @ [(q, e)]) w s))"
    if tok: "tok = 97" and len: "\<not> length (argv @ [(q, e)]) \<ge> MAXARGS"
  proof -
    have lt: "s < s1" using pk(1) G(1,2,3,5) tok by auto
    have "outcome b es s1 (bindR (parseredirs b es n w s1) (\<lambda>(w, s). parseargs b es n (argv @ [(q, e)]) w s))"
    proof (rule outcome_redirs [OF assms(1) G(4) Suc.prems(2)])
      show "es - s1 < n" using lt G(4) Suc.prems(5) by simp
      fix w' u
      assume u: "s1 \<le> u" "u \<le> es" "wraps b es w'"
      have "outcome b es u (parseargs b es n (argv @ [(q, e)]) w' u)"
        using Suc.IH [OF u(2,3), of "argv @ [(q, e)]"] Suc.prems(3,5) G(6) [OF tok] len lt u(1,2) by simp
      then show "outcome b es u (case (w', u) of (w, s) \<Rightarrow> parseargs b es n (argv @ [(q, e)]) w s)" by simp
    qed
    then show ?thesis using lt outcome_mono by (meson less_imp_le_nat)
  qed
  then show ?case unfolding step using ok pk(1,2) G(1-4) by simp
qed simp

lemma backs_total:
  assumes "is_line b es" "s \<le> es" "good b es c" "es - s < n"
  shows "outcome b es s (backs b es n c s)"
  using assms(2-)
proof (induction n arbitrary: c s)
  case (Suc n)
  obtain r t where p: "peek b es s [38] = (r, t)" by (cases "peek b es s [38]")
  note pk = peek_spec [OF assms(1) Suc.prems(1) p]
  obtain tok q e s1 where g: "gettoken b es t = (tok, q, e, s1)" by (cases "gettoken b es t") 
  note G = gettoken_spec [OF assms(1) pk(2) g]
  have step: "backs b es (Suc n) c s = (if r then backs b es n (BACK c) s1 else Inr (c, t))" using p g by simp
  show ?case
  proof (cases r)
    case True
    have "s < s1" by (rule peek_gettoken [OF assms(1) Suc.prems(1) p True g])
    then have "outcome b es s1 (backs b es n (BACK c) s1)" using Suc.IH [of s1 "BACK c"] Suc.prems G(4) by simp
    then show ?thesis unfolding step using True \<open>s < s1\<close> outcome_mono by (simp add: less_imp_le_nat)
  qed (use step pk(1,2) Suc.prems(2) in simp)
qed simp


lemma outcome_token:
  assumes "is_line b es" "s \<le> es" "\<And>t. s < t \<Longrightarrow> t \<le> es \<Longrightarrow> outcome b es t (f t)"
    and "\<And>t. s \<le> t \<Longrightarrow> t \<le> es \<Longrightarrow> outcome b es t (g t)"
  shows "outcome b es s (let (more, s) = peek b es s toks in
           if more then let (_, _, _, s) = gettoken b es s in f s else g s)"
proof -
  obtain r u where p: "peek b es s toks = (r, u)" by (cases "peek b es s toks")
  obtain tok q e t where gt: "gettoken b es u = (tok, q, e, t)" by (cases "gettoken b es u")
  note P = peek_spec [OF assms(1,2) p]
  have "outcome b es s (f t)" if r
    using peek_gettoken [OF assms(1,2) p that gt] outcome_mono [OF assms(3) [of t], of s] by simp
  moreover have "outcome b es s (g u)" using outcome_mono [OF assms(4) [OF P(1,2)] P(1)] .
  ultimately show ?thesis using p gt by simp
qed

lemma parser_total:
  assumes l: "is_line b es"
  shows "s \<le> es \<Longrightarrow> 5 * (es - s) + 4 \<le> n \<Longrightarrow> outcome b es s (parseline b es n s)"
    and "s \<le> es \<Longrightarrow> 5 * (es - s) + 3 \<le> n \<Longrightarrow> outcome b es s (parsepipe b es n s)"
    and "s \<le> es \<Longrightarrow> 5 * (es - s) + 2 \<le> n \<Longrightarrow> outcome b es s (parseexec b es n s)"
    and "s \<le> es \<Longrightarrow> 5 * (es - s) + 1 \<le> n \<Longrightarrow> outcome b es s (parseblock b es n s)"
proof (induction n arbitrary: s)
  case (Suc n)
  {
    case 1
    show ?case unfolding parseline.simps
    proof (rule outcome_bind, use 1 Suc.IH(2) in simp, unfold prod.case)
      fix c t assume t: "s \<le> t" "t \<le> es" "good b es c"
      show "outcome b es t (bindR (backs b es n c t) (\<lambda>(c, s). let (more, s) = peek b es s [59] in
          if more then let (_, _, _, s) = gettoken b es s in bindR (parseline b es n s) (\<lambda>(d, s). Inr (LIST c d, s))
          else Inr (c, s)))"
      proof (rule outcome_bind, rule backs_total [OF l t(2,3)], use 1(2) t(1,2) in simp, unfold prod.case, rule outcome_token [OF l])
        fix c u v assume u: "t \<le> u" "u < v" "v \<le> es" "good b es c"
        have "outcome b es v (parseline b es n v)" using Suc.IH(1) [of v] 1(2) t(1) u by simp
        then show "outcome b es v (bindR (parseline b es n v) (\<lambda>(d, s). Inr (LIST c d, s)))"
          by (rule outcome_bind) (use u(4) in simp)
      qed simp_all
    qed
  next
    case 2
    show ?case unfolding parsepipe.simps
    proof (rule outcome_bind, use 2 Suc.IH(3) in simp, unfold prod.case, rule outcome_token [OF l])
      fix c u v assume u: "s \<le> u" "u < v" "v \<le> es" "good b es c"
      have "outcome b es v (parsepipe b es n v)" using Suc.IH(2) [of v] 2(2) u by simp
      then show "outcome b es v (bindR (parsepipe b es n v) (\<lambda>(d, s). Inr (PIPE c d, s)))"
        by (rule outcome_bind) (use u(4) in simp)
    qed simp_all
  next
    case 3
    obtain r v where p: "peek b es s [40] = (r, v)" by (cases "peek b es s [40]")
    note P = peek_spec [OF l 3(1) p]
    have "outcome b es v (parseblock b es n v)" using Suc.IH(4) [of v] 3(2) P(1,2) by simp
    moreover have "outcome b es v (bindR (parseredirs b es n (\<lambda>c. c) v) (\<lambda>(w, s). parseargs b es n [] w s))"
    proof (rule outcome_redirs [OF l P(2)], simp add: wraps_def, use 3(2) P(1) in simp, unfold prod.case)
      fix w t assume t: "v \<le> t" "t \<le> es" "wraps b es w"
      show "outcome b es t (parseargs b es n [] w t)"
        by (rule parseargs_total [OF l t(2,3)]) (use 3(2) P(1) t(1) in \<open>simp_all add: MAXARGS_def\<close>)
    qed
    ultimately show ?case using p outcome_mono [OF _ P(1)] by simp
  next
    case 4
    show ?case unfolding parseblock.simps
    proof (rule outcome_token [OF l 4(1)])
      fix t assume t: "s < t" "t \<le> es"
      have "outcome b es t (parseline b es n t)" using Suc.IH(1) [of t] 4(2) t by simp
      then show "outcome b es t (bindR (parseline b es n t) (\<lambda>(c, s). let (close, s) = peek b es s [41] in
        if close then let (_, _, _, s) = gettoken b es s in bindR (parseredirs b es n (\<lambda>c. c) s) (\<lambda>(wrap, s). Inr (wrap c, s))
        else Inl (Kpanic ''syntax - missing )'')))"
      proof (rule outcome_bind, unfold prod.case, intro outcome_token [OF l])
        fix c u v assume u: "t \<le> u" "u < v" "v \<le> es" "good b es c"
        show "outcome b es v (bindR (parseredirs b es n (\<lambda>c. c) v) (\<lambda>(wrap, s). Inr (wrap c, s)))"
          by (rule outcome_redirs [OF l u(3)]) (use 4(2) t u in \<open>auto simp: wraps_def\<close>)
      qed simp_all
    qed simp
  }
qed simp_all

text \<open>The strings of the command after \<open>nulterminate\<close>.\<close>

definition string_at :: "(nat \<Rightarrow> byte) \<Rightarrow> nat \<Rightarrow> byte list \<Rightarrow> bool" where
  "string_at b q w \<longleftrightarrow> strlen (\<lambda>i. b (q + i)) = Some (length w) \<and> (\<forall>i < length w. b (q + i) = w ! i)"

lemma fold_ends: "fold (\<lambda>(q, eq) b. b(eq := 0)) argv b = (\<lambda>i. if i \<in> snd ` set argv then 0 else b i)" for b :: "nat \<Rightarrow> byte"
  by (induction argv arbitrary: b) (auto simp: fun_eq_iff)

lemma nulterminate_eq: "nulterminate c b = (\<lambda>i. if i \<in> snd ` set (words c) then 0 else b i)"
  by (induction c arbitrary: b) (auto simp: fun_eq_iff fold_ends)

lemma nulterminate_word:
  assumes "good b es c" "(q, e) \<in> set (words c)"
  shows "string_at (nulterminate c b) q (map b [q..<e])"
proof -
  have w: "is_word b es x" if "x \<in> set (words c)" for x using assms(1) that by (auto simp: good_def list_all_iff)
  have qe: "is_word b es (q, e)" using w [OF assms(2)] .
  have inner: "nulterminate c b i = b i" "b i \<noteq> 0" if "q \<le> i" "i < e" for i
  proof -
    have c: "wordchar (b i)" using qe that by (auto simp: is_word_def)
    then have "i \<notin> snd ` set (words c)" using w by (auto simp: is_word_def)
    then show "nulterminate c b i = b i" "b i \<noteq> 0" using c by (simp_all add: nulterminate_eq wordchar_def)
  qed
  have "e \<in> snd ` set (words c)" using assms(2) by force
  then have "nulterminate c b e = 0" by (simp add: nulterminate_eq)
  moreover have lt: "q < e" using qe by (simp add: is_word_def)
  ultimately have "strlen (\<lambda>i. nulterminate c b (q + i)) = Some (e - q)" using inner by (intro strlen_eq) auto
  then show ?thesis using inner by (simp add: string_at_def)
qed

lemma is_line_strlen: "is_line b es \<Longrightarrow> strlen b = Some es"
  by (simp add: is_line_def strlen_eq)

lemma parsecmd_outcome:
  assumes l: "is_line b es"
  shows "(\<exists>m. parsecmd b = Inl (Kpanic m)) \<or> (\<exists>c. parsecmd b = Inr (c, nulterminate c b) \<and> good b es c)"
proof -
  have "outcome b es 0 (parseline b es (5 * es + 5) 0)" by (rule parser_total(1) [OF l]) simp_all
  then show ?thesis
    by (cases "parseline b es (5 * es + 5) 0") (auto simp: parsecmd_def is_line_strlen [OF l] split: prod.splits)
qed

text \<open>
  C35. Parsing ends on every line: \<open>parsecmd\<close> gives up with a message or returns a command. In
  the command no argument vector is longer than its array, and every argument and file name
  is the string of a word of the line, inside the line buffer and ended by a zero, that
  \<open>nulterminate\<close> has not cut short.
\<close>

theorem parsecmd_total:
  assumes "is_line b es"
  shows "(\<exists>m. parsecmd b = Inl (Kpanic m)) \<or>
    (\<exists>c b'. parsecmd b = Inr (c, b') \<and> args_fit c \<and>
      (\<forall>(q, e) \<in> set (words c). q < e \<and> e \<le> es \<and> string_at b' q (map b [q..<e]) \<and> list_all wordchar (map b [q..<e])))"
proof -
  have "q < e \<and> e \<le> es \<and> string_at (nulterminate c b) q (map b [q..<e]) \<and> list_all wordchar (map b [q..<e])"
    if "good b es c" "(q, e) \<in> set (words c)" for c q e
  proof -
    have "is_word b es (q, e)" using that by (auto simp: good_def list_all_iff)
    then show ?thesis using nulterminate_word [OF that] by (auto simp: is_word_def list_all_iff)
  qed
  then show ?thesis using parsecmd_outcome [OF assms] unfolding good_def by blast
qed

theorem parsecmd_total_witness:
  "(\<exists>m. parsecmd (\<lambda>i. if i = 0 then 62 else 0) = Inl (Kpanic m)) \<or>
    (\<exists>c b'. parsecmd (\<lambda>i. if i = 0 then 62 else 0) = Inr (c, b') \<and> args_fit c \<and>
      (\<forall>(q, e) \<in> set (words c). q < e \<and> e \<le> 1 \<and> string_at b' q (map (\<lambda>i. if i = 0 then 62 else 0) [q..<e]) \<and>
        list_all wordchar (map (\<lambda>i. if i = 0 then 62 else 0) [q..<e])))"
  by (rule parsecmd_total) (simp add: is_line_def)

section \<open>Printing and parsing\<close>

datatype scmd =
    SExec "byte list list"
  | SRedir scmd "byte list" bool
  | SPipe scmd scmd
  | SList scmd scmd
  | SBack scmd

fun join :: "byte list list \<Rightarrow> byte list" where
  "join [] = []"
| "join [w] = w"
| "join (w # ws) = w @ 32 # join ws"

fun print_cmd :: "scmd \<Rightarrow> byte list" where
  "print_cmd (SExec ws) = join ws"
| "print_cmd (SRedir c f inp) = 40 # print_cmd c @ 41 # (if inp then 60 else 62) # f"
| "print_cmd (SPipe c d) = 40 # print_cmd c @ 41 # 124 # 40 # print_cmd d @ [41]"
| "print_cmd (SList c d) = 40 # print_cmd c @ 41 # 59 # 40 # print_cmd d @ [41]"
| "print_cmd (SBack c) = 40 # print_cmd c @ [41, 38]"

definition valid_word :: "byte list \<Rightarrow> bool" where
  "valid_word w \<longleftrightarrow> w \<noteq> [] \<and> list_all wordchar w"

fun printable :: "scmd \<Rightarrow> bool" where
  "printable (SExec ws) \<longleftrightarrow> length ws < MAXARGS \<and> list_all valid_word ws"
| "printable (SRedir c f inp) \<longleftrightarrow> printable c \<and> valid_word f"
| "printable (SPipe c d) \<longleftrightarrow> printable c \<and> printable d"
| "printable (SList c d) \<longleftrightarrow> printable c \<and> printable d"
| "printable (SBack c) \<longleftrightarrow> printable c"

text \<open>The command tree in a buffer that stands for a command: \<open>at\<close> says what a word is.\<close>

fun same_cmd :: "(nat \<times> nat \<Rightarrow> byte list \<Rightarrow> bool) \<Rightarrow> cmd \<Rightarrow> scmd \<Rightarrow> bool" where
  "same_cmd at (EXEC argv) (SExec ws) \<longleftrightarrow> list_all2 at argv ws"
| "same_cmd at (REDIR c q e m fd) (SRedir d f inp) \<longleftrightarrow>
     same_cmd at c d \<and> at (q, e) f \<and> (m, fd) = (if inp then (O_RDONLY, 0) else (O_WRONLY OR O_CREATE, 1))"
| "same_cmd at (PIPE c d) (SPipe c' d') \<longleftrightarrow> same_cmd at c c' \<and> same_cmd at d d'"
| "same_cmd at (LIST c d) (SList c' d') \<longleftrightarrow> same_cmd at c c' \<and> same_cmd at d d'"
| "same_cmd at (BACK c) (SBack c') \<longleftrightarrow> same_cmd at c c'"
| "same_cmd at _ _ \<longleftrightarrow> False"

text \<open>The input left at \<open>s\<close> is \<open>cs\<close>.\<close>

definition rem_at :: "(nat \<Rightarrow> byte) \<Rightarrow> nat \<Rightarrow> nat \<Rightarrow> byte list \<Rightarrow> bool" where
  "rem_at b es s cs \<longleftrightarrow> b es = 0 \<and> s + length cs = es \<and> (\<forall>i < length cs. b (s + i) = cs ! i \<and> cs ! i \<noteq> 0)"

definition no_blank :: "byte list \<Rightarrow> bool" where
  "no_blank cs \<longleftrightarrow> cs = [] \<or> hd cs \<notin> set whitespace"

lemma rem_atD:
  assumes "rem_at b es s cs"
  shows "s + length cs = es" "b s = (if cs = [] then 0 else hd cs)" "cs \<noteq> [] \<Longrightarrow> hd cs \<noteq> 0"
  using assms by (auto simp: rem_at_def hd_conv_nth)

lemma rem_at_append: "rem_at b es s (xs @ ys) \<Longrightarrow> rem_at b es (s + length xs) ys"
  by (auto simp: rem_at_def nth_append) (metis add.assoc add_diff_cancel_left' nat_add_left_cancel_less not_add_less1)+

lemma rem_at_Cons: "rem_at b es s (x # ys) \<Longrightarrow> rem_at b es (s + 1) ys"
  using rem_at_append [of b es s "[x]" ys] by simp

lemma rem_at_word: "rem_at b es s (w @ ys) \<Longrightarrow> map b [s..<s + length w] = w"
  by (auto simp: rem_at_def nth_append intro!: nth_equalityI)

lemma skip_space_rem: "rem_at b es s cs \<Longrightarrow> no_blank cs \<Longrightarrow> skip_space b es s = s"
  using rem_atD [of b es s cs] by (intro skip_space_stop) (auto simp: no_blank_def whitespace_def split: if_splits)

lemma peek_rem: "rem_at b es s cs \<Longrightarrow> no_blank cs \<Longrightarrow> peek b es s toks = (cs \<noteq> [] \<and> hd cs \<in> set toks, s)"
  using rem_atD [of b es s cs] by (auto simp: peek_def skip_space_rem)

lemma gettoken_symbol:
  assumes "rem_at b es s (c # cs)" "c \<in> {124, 40, 41, 59, 38, 60} \<or> c = 62 \<and> (cs = [] \<or> hd cs \<noteq> 62)" "no_blank cs"
  shows "\<exists>q e. gettoken b es s = (c, q, e, s + 1)"
proof -
  have c: "no_blank (c # cs)" using assms(2) by (auto simp: no_blank_def whitespace_def)
  have "b (s + 1) = (if cs = [] then 0 else hd cs)" using rem_atD(2) [OF rem_at_Cons [OF assms(1)]] .
  then show ?thesis using assms(2) rem_atD(2) [OF assms(1)] skip_space_rem [OF assms(1) c]
      skip_space_rem [OF rem_at_Cons [OF assms(1)] assms(3)]
    by (auto simp: gettoken_def Let_def)
qed


lemma skip_word_rem:
  "rem_at b es s (w @ cs) \<Longrightarrow> list_all wordchar w \<Longrightarrow> cs = [] \<or> \<not> wordchar (hd cs) \<Longrightarrow> skip_word b es s = s + length w"
proof (induction w arbitrary: s)
  case Nil
  then have "\<not> wordchar (b s)" "s + length cs = es" "cs \<noteq> [] \<Longrightarrow> b s \<noteq> 0"
    using rem_atD [of b es s cs] by (auto simp: wordchar_def)
  then show ?case by (subst skip_word.simps) (auto simp: wordchar_def)
next
  case (Cons x w)
  have s: "b s = x" "s < es" using rem_atD [OF Cons.prems(1)] by simp_all
  have "skip_word b es s = skip_word b es (s + 1)" using s Cons.prems(2) by (subst skip_word.simps) (simp add: wordchar_def)
  then show ?case using Cons.IH [of "s + 1"] rem_at_Cons [of b es s x "w @ cs"] Cons.prems by simp
qed

lemma valid_wordD:
  assumes "valid_word w"
  shows "no_blank (w @ cs)" "w @ cs \<noteq> []" "hd (w @ cs) = hd w" "wordchar (hd w)" "hd w \<notin> set symbols" "0 < length w"
  using assms by (auto simp: valid_word_def no_blank_def wordchar_def neq_Nil_conv)

lemma gettoken_word:
  assumes r: "rem_at b es s (w @ cs)" and w: "valid_word w" and cs: "cs = [] \<or> \<not> wordchar (hd cs)"
  shows "gettoken b es s = (97, s, s + length w, skip_space b es (s + length w))"
proof -
  have b: "b s = hd w" using rem_atD(2) [OF r] w by (auto simp: valid_word_def)
  have "wordchar (hd w)" using valid_wordD(4) [OF w] .
  then have "b s \<noteq> 0" "b s \<notin> {124, 40, 41, 59, 38, 60}" "b s \<noteq> 62" unfolding b by (auto simp: wordchar_def symbols_def)
  then show ?thesis using skip_space_rem [OF r valid_wordD(1) [OF w]] skip_word_rem [OF r _ cs] w
    by (simp add: gettoken_def valid_word_def)
qed

definition word_at :: "(nat \<Rightarrow> byte) \<Rightarrow> nat \<times> nat \<Rightarrow> byte list \<Rightarrow> bool" where
  "word_at b x w \<longleftrightarrow> map b [fst x..<snd x] = w"

lemma parseredirs_none:
  assumes "rem_at b es s cs" "no_blank cs" "cs = [] \<or> hd cs \<notin> {60, 62}" "0 < n"
  shows "parseredirs b es n w s = Inr (w, s)"
  using assms by (cases n) (auto simp: peek_rem)

definition ends_args :: "byte list \<Rightarrow> bool" where
  "ends_args cs \<longleftrightarrow> cs = [] \<or> hd cs \<in> {124, 41, 38, 59}"

lemma ends_argsD:
  assumes "ends_args cs"
  shows "no_blank cs" "cs = [] \<or> \<not> wordchar (hd cs)" "cs = [] \<or> hd cs \<notin> {60, 62}" "cs \<noteq> [] \<Longrightarrow> hd cs \<in> {124, 41, 38, 59}"
  using assms by (auto simp: ends_args_def no_blank_def wordchar_def whitespace_def symbols_def)

lemma join_lead: "list_all valid_word ws \<Longrightarrow> ends_args cs \<Longrightarrow>
    no_blank (join ws @ cs) \<and> (join ws @ cs = [] \<or> hd (join ws @ cs) \<notin> {60, 62}) \<and> length ws \<le> length (join ws)"
proof (induction ws rule: join.induct)
  case 1
  then show ?case using ends_argsD by auto
next
  case (2 w)
  then show ?case using valid_wordD(1,2,3) [of w cs] valid_wordD(5,6) [of w] by (auto simp: symbols_def Suc_le_eq)
next
  case (3 w v ws)
  then show ?case using valid_wordD(1,2,3) [of w "32 # join (v # ws) @ cs"] valid_wordD(5,6) [of w] by (auto simp: symbols_def Suc_le_eq)
qed

lemma parseargs_print:
  assumes "ends_args cs" "list_all valid_word ws" "rem_at b es s (join ws @ cs)" "length argv + length ws < MAXARGS" "es - s < n"
  shows "\<exists>ps. parseargs b es n argv wrap s = Inr (wrap (EXEC (argv @ ps)), s + length (join ws)) \<and> list_all2 (word_at b) ps ws"
  using assms(2-)
proof (induction ws arbitrary: argv s n)
  case Nil
  then obtain m where n: "n = Suc m" by (cases n) auto
  have r: "rem_at b es s cs" using Nil by simp
  note E = ends_argsD [OF assms(1)]
  show ?case
  proof (cases "cs = []")
    case True
    then have "s = es" "b s = 0" using rem_atD [OF r] by simp_all
    then show ?thesis using peek_rem [OF r E(1)] True skip_space_rem [OF r E(1)] n by (simp add: gettoken_def)
  next
    case False
    then show ?thesis using peek_rem [OF r E(1)] E(4) n by simp
  qed
next
  case (Cons w ws)
  obtain m where n: "n = Suc m" using Cons.prems(4) by (cases n) auto
  define cs' where "cs' = (if ws = [] then cs else 32 # join ws @ cs)"
  have j: "join (w # ws) @ cs = w @ cs'" by (cases ws) (simp_all add: cs'_def)
  have w: "valid_word w" "list_all valid_word ws" using Cons.prems(1) by simp_all
  have r: "rem_at b es s (w @ cs')" using Cons.prems(2) j by simp
  have c': "cs' = [] \<or> \<not> wordchar (hd cs')"
    using ends_argsD(2) [OF assms(1)] by (auto simp: cs'_def wordchar_def whitespace_def)
  define t where "t = skip_space b es (s + length w)"
  note g = gettoken_word [OF r w(1) c', folded t_def]
  note J = join_lead [OF w(2) assms(1)]
  have t: "t = s + length w + (if ws = [] then 0 else 1)" "rem_at b es t (join ws @ cs)"
  proof -
    have r': "rem_at b es (s + length w) cs'" by (rule rem_at_append [OF r])
    have "t = s + length w + (if ws = [] then 0 else 1) \<and> rem_at b es t (join ws @ cs)"
    proof (cases "ws = []")
      case True
      then show ?thesis using r' skip_space_rem [OF r'] ends_argsD(1) [OF assms(1)] by (simp add: cs'_def t_def)
    next
      case False
      then have c: "cs' = 32 # join ws @ cs" by (simp add: cs'_def)
      have r2: "rem_at b es (s + length w + 1) (join ws @ cs)" using rem_at_Cons r' c by metis
      have "b (s + length w) = 32" "s + length w < es" using rem_atD [OF r'] c by auto
      then have "t = skip_space b es (s + length w + 1)" unfolding t_def by (subst skip_space.simps) (simp add: whitespace_def)
      then show ?thesis using skip_space_rem [OF r2] J r2 False by simp
    qed
    then show "t = s + length w + (if ws = [] then 0 else 1)" "rem_at b es t (join ws @ cs)" by blast+
  qed
  have es: "s + length (w @ cs') = es" "0 < length w" using rem_atD(1) [OF r] valid_wordD(6) [OF w(1)] by simp_all
  moreover have "s + length w \<le> t" using t(1) by simp
  ultimately have m: "0 < m" "es - t < m" using Cons.prems(4) n unfolding length_append by linarith+
  have p: "peek b es s [124, 41, 38, 59] = (False, s)"
    using peek_rem [OF r valid_wordD(1) [OF w(1)], of "[124, 41, 38, 59]"] valid_wordD(3,5) [OF w(1)] by (auto simp: symbols_def)
  have len: "\<not> MAXARGS \<le> length (argv @ [(s, s + length w)])" using Cons.prems(3) by simp
  have step: "parseargs b es n argv wrap s = parseargs b es m (argv @ [(s, s + length w)]) wrap t"
    using p g len parseredirs_none [OF t(2) _ _ m(1)] J n by simp
  obtain ps where ps: "parseargs b es m (argv @ [(s, s + length w)]) wrap t =
      Inr (wrap (EXEC ((argv @ [(s, s + length w)]) @ ps)), t + length (join ws))" "list_all2 (word_at b) ps ws"
    using Cons.IH [OF w(2) t(2) _ m(2), of "argv @ [(s, s + length w)]"] Cons.prems(3) by auto
  have "t + length (join ws) = s + length (join (w # ws))" using t(1) by (cases ws) simp_all
  moreover have "word_at b (s, s + length w) w" using rem_at_word [OF r] by (simp add: word_at_def)
  ultimately show ?case using ps step by (intro exI [of _ "(s, s + length w) # ps"]) simp
qed


definition ends_line :: "byte list \<Rightarrow> bool" where
  "ends_line cs \<longleftrightarrow> cs = [] \<or> hd cs = 41"

text \<open>\<open>parseline\<close> reads a printed command back.\<close>

definition reads_back :: "(nat \<Rightarrow> byte) \<Rightarrow> nat \<Rightarrow> scmd \<Rightarrow> bool" where
  "reads_back b es d \<longleftrightarrow>
     (\<forall>n s cs. rem_at b es s (print_cmd d @ cs) \<longrightarrow> ends_line cs \<longrightarrow> 5 * (es - s) + 4 \<le> n \<longrightarrow>
       (\<exists>c. parseline b es n s = Inr (c, s + length (print_cmd d)) \<and> same_cmd (word_at b) c d))"

lemma print_lead: "printable d \<Longrightarrow> ends_args cs \<Longrightarrow> no_blank (print_cmd d @ cs)"
  by (cases d) (auto simp: join_lead, simp_all add: no_blank_def whitespace_def)

lemma block_print:
  assumes d: "reads_back b es d" "printable d" and r: "rem_at b es s (40 # print_cmd d @ 41 # cs)"
    and nb: "no_blank cs" and n: "5 * (es - s) + 2 \<le> n"
  shows "\<exists>c m. same_cmd (word_at b) c d \<and> rem_at b es (s + length (print_cmd d) + 2) cs \<and> es - s < m \<and>
     parseexec b es n s = bindR (parseredirs b es m (\<lambda>c. c) (s + length (print_cmd d) + 2)) (\<lambda>(w, s). Inr (w c, s))"
proof -
  let ?cs = "print_cmd d @ 41 # cs"
  have es: "s + (length ?cs + 1) = es" using rem_atD(1) [OF r] by simp
  define m where "m = n - 2"
  then have m: "n = Suc (Suc m)" using n by simp
  have nb1: "no_blank ?cs" by (rule print_lead [OF d(2)]) (simp add: ends_args_def)
  have r1: "rem_at b es (s + 1) ?cs" by (rule rem_at_Cons [OF r])
  have p: "peek b es s [40] = (True, s)" using peek_rem [OF r, of "[40]"] by (simp add: no_blank_def whitespace_def)
  obtain q e where g: "gettoken b es s = (40, q, e, s + 1)" using gettoken_symbol [OF r _ nb1] by auto
  have "5 * (es - (s + 1)) + 4 \<le> m" using n m es by simp
  then obtain c where c: "parseline b es m (s + 1) = Inr (c, s + 1 + length (print_cmd d))" "same_cmd (word_at b) c d"
    using d(1) [unfolded reads_back_def, rule_format, OF r1, of m] by (auto simp: ends_line_def)
  let ?t = "s + 1 + length (print_cmd d)"
  have r2: "rem_at b es ?t (41 # cs)" by (rule rem_at_append [OF r1])
  have p2: "peek b es ?t [41] = (True, ?t)" using peek_rem [OF r2, of "[41]"] by (simp add: no_blank_def whitespace_def)
  obtain q2 e2 where g2: "gettoken b es ?t = (41, q2, e2, ?t + 1)" using gettoken_symbol [OF r2 _ nb] by auto
  have "parseexec b es n s = bindR (parseredirs b es m (\<lambda>c. c) (?t + 1)) (\<lambda>(w, s). Inr (w c, s))"
    using p g c(1) p2 g2 m by simp
  moreover have "rem_at b es (?t + 1) cs" by (rule rem_at_Cons [OF r2])
  moreover have "es - s < m" using n m es by simp
  ultimately show ?thesis using c(2) by (intro exI [of _ c] exI [of _ m]) (simp add: add.commute add.left_commute)
qed

lemma exec_paren:
  assumes "reads_back b es d" "printable d" "rem_at b es s (40 # print_cmd d @ 41 # cs)"
    and "no_blank cs" "cs = [] \<or> hd cs \<notin> {60, 62}" "5 * (es - s) + 2 \<le> n"
  shows "\<exists>c. parseexec b es n s = Inr (c, s + length (print_cmd d) + 2) \<and> same_cmd (word_at b) c d"
  using block_print [OF assms(1-4,6)] parseredirs_none [OF _ assms(4,5)] by fastforce

lemma pipe_single:
  assumes "parseexec b es n s = Inr (c, t)" "rem_at b es t cs" "no_blank cs" "cs = [] \<or> hd cs \<noteq> 124"
  shows "parsepipe b es (Suc n) s = Inr (c, t)"
  using assms by (auto simp: peek_rem)

lemma line_single:
  assumes "parsepipe b es n s = Inr (c, t)" "rem_at b es t cs" "no_blank cs" "cs = [] \<or> hd cs \<notin> {38, 59}" "0 < n"
  shows "parseline b es (Suc n) s = Inr (c, t)"
  using assms by (cases n) (auto simp: peek_rem)

lemma ends_lineD:
  assumes "ends_line cs"
  shows "no_blank cs" "ends_args cs" "cs = [] \<or> hd cs \<notin> {60, 62}" "cs = [] \<or> hd cs \<noteq> 124" "cs = [] \<or> hd cs \<notin> {38, 59}"
  using assms by (auto simp: ends_line_def no_blank_def whitespace_def ends_args_def)

lemma exec_lead: "list_all valid_word ws \<Longrightarrow> ends_args cs \<Longrightarrow> join ws @ cs = [] \<or> hd (join ws @ cs) \<noteq> 40"
proof (induction ws rule: join.induct)
  case 1
  then show ?case by (auto simp: ends_args_def)
next
  case (2 w)
  then show ?case using valid_wordD(5) [of w] valid_wordD(3) [of w cs] by (auto simp: symbols_def)
next
  case (3 w v ws)
  then show ?case using valid_wordD(5) [of w] valid_wordD(3) [of w "32 # join (v # ws) @ cs"] by (auto simp: symbols_def)
qed

lemma reads_exec:
  assumes "printable (SExec ws)"
  shows "reads_back b es (SExec ws)"
  unfolding reads_back_def
proof (intro allI impI)
  fix n s cs
  assume r: "rem_at b es s (print_cmd (SExec ws) @ cs)" and e: "ends_line cs" and n: "5 * (es - s) + 4 \<le> n"
  note E = ends_lineD [OF e]
  define m where "m = n - 3"
  then have m: "n = Suc (Suc (Suc m))" "5 * (es - s) < m" using n by simp_all
  have w: "list_all valid_word ws" "length ws < MAXARGS" using assms by simp_all
  have r1: "rem_at b es s (join ws @ cs)" using r by simp
  have J: "no_blank (join ws @ cs)" "join ws @ cs = [] \<or> hd (join ws @ cs) \<notin> {60, 62}" using join_lead [OF w(1) E(2)] by blast+
  have p: "peek b es s [40] = (False, s)" using peek_rem [OF r1 J(1), of "[40]"] exec_lead [OF w(1) E(2)] by auto
  obtain ps where ps: "parseargs b es m [] (\<lambda>c. c) s = Inr (EXEC ps, s + length (join ws))" "list_all2 (word_at b) ps ws"
    using parseargs_print [OF E(2) w(1) r1, of "[]" m "\<lambda>c. c"] w(2) m(2) by auto
  have r2: "rem_at b es (s + length (join ws)) cs" by (rule rem_at_append [OF r1])
  have "parseexec b es (Suc m) s = Inr (EXEC ps, s + length (join ws))"
    using p parseredirs_none [OF r1 J, of m] ps(1) m(2) by simp
  then have "parsepipe b es (Suc (Suc m)) s = Inr (EXEC ps, s + length (join ws))"
    by (rule pipe_single [OF _ r2 E(1,4)])
  then have "parseline b es n s = Inr (EXEC ps, s + length (join ws))"
    unfolding m(1) by (rule line_single [OF _ r2 E(1,5)]) simp
  then show "\<exists>c. parseline b es n s = Inr (c, s + length (print_cmd (SExec ws))) \<and> same_cmd (word_at b) c (SExec ws)"
    using ps(2) by simp
qed

lemma pipe_paren:
  assumes "reads_back b es d" "printable d" "rem_at b es s (40 # print_cmd d @ 41 # cs)"
    and "no_blank cs" "cs = [] \<or> hd cs \<notin> {60, 62, 124}" "5 * (es - s) + 3 \<le> n"
  shows "\<exists>c. parsepipe b es n s = Inr (c, s + length (print_cmd d) + 2) \<and> same_cmd (word_at b) c d \<and>
     rem_at b es (s + length (print_cmd d) + 2) cs"
proof -
  obtain m where m: "n = Suc m" using assms(6) by (cases n) auto
  have r: "rem_at b es (s + length (print_cmd d) + 2) cs"
    using rem_at_append [of b es s "40 # print_cmd d @ [41]" cs] assms(3) by simp
  obtain c where c: "parseexec b es m s = Inr (c, s + length (print_cmd d) + 2)" "same_cmd (word_at b) c d"
    using exec_paren [OF assms(1-4), of m] assms(5,6) m by auto
  show ?thesis using pipe_single [OF c(1) r assms(4)] assms(5) c(2) r m by auto
qed

lemma line_paren:
  assumes "reads_back b es d" "printable d" "rem_at b es s (40 # print_cmd d @ 41 # cs)" "ends_line cs" "5 * (es - s) + 4 \<le> n"
  shows "\<exists>c. parseline b es n s = Inr (c, s + length (print_cmd d) + 2) \<and> same_cmd (word_at b) c d"
proof -
  obtain m where m: "n = Suc m" using assms(5) by (cases n) auto
  note E = ends_lineD [OF assms(4)]
  obtain c where c: "parsepipe b es m s = Inr (c, s + length (print_cmd d) + 2)" "same_cmd (word_at b) c d"
      "rem_at b es (s + length (print_cmd d) + 2) cs"
    using pipe_paren [OF assms(1-3) E(1), of m] E(3,4) assms(5) m by auto
  show ?thesis using line_single [OF c(1,3) E(1,5)] c(2) m assms(5) by auto
qed

lemma symbol_lead: "c \<in> {124, 40, 41, 59, 38, 60, 62} \<Longrightarrow> no_blank (c # cs)"
  by (auto simp: no_blank_def whitespace_def)

lemma reads_redir:
  assumes "reads_back b es d" "printable (SRedir d f inp)"
  shows "reads_back b es (SRedir d f inp)"
  unfolding reads_back_def
proof (intro allI impI)
  fix n s cs
  assume r: "rem_at b es s (print_cmd (SRedir d f inp) @ cs)" and e: "ends_line cs" and n: "5 * (es - s) + 4 \<le> n"
  note E = ends_lineD [OF e]
  have pd: "printable d" "valid_word f" using assms(2) by simp_all
  define op :: byte where "op = (if inp then 60 else 62)"
  define t where "t = s + length (print_cmd d) + 2"
  define k where "k = n - 2"
  then have k: "n = Suc (Suc k)" "5 * (es - s) + 2 \<le> k" using n by simp_all
  have r0: "rem_at b es s (40 # print_cmd d @ 41 # op # f @ cs)" using r by (simp add: op_def)
  have opl: "no_blank (op # f @ cs)" by (rule symbol_lead) (simp add: op_def)
  obtain c m where c: "same_cmd (word_at b) c d" "rem_at b es t (op # f @ cs)" "es - s < m"
      "parseexec b es k s = bindR (parseredirs b es m (\<lambda>c. c) t) (\<lambda>(w, s). Inr (w c, s))"
    using block_print [OF assms(1) pd(1) r0 opl k(2)] unfolding t_def by blast
  have es: "t + length (op # f @ cs) = es" using rem_atD(1) [OF c(2)] .
  obtain m' where m': "m = Suc (Suc m')" using c(3) es unfolding t_def by (cases m; cases "m - 1") auto
  have r1: "rem_at b es (t + 1) (f @ cs)" by (rule rem_at_Cons [OF c(2)])
  have r2: "rem_at b es (t + 1 + length f) cs" by (rule rem_at_append [OF r1])
  have p: "peek b es t [60, 62] = (True, t)" using peek_rem [OF c(2) opl, of "[60, 62]"] by (simp add: op_def)
  have "f @ cs \<noteq> []" "hd (f @ cs) \<noteq> 62" using valid_wordD(2,3) [of f cs] valid_wordD(5) [of f] pd(2) by (auto simp: symbols_def)
  then have "op \<in> {124, 40, 41, 59, 38, 60} \<or> op = 62 \<and> (f @ cs = [] \<or> hd (f @ cs) \<noteq> 62)" by (simp add: op_def)
  then obtain q1 e1 where g1: "gettoken b es t = (op, q1, e1, t + 1)"
    using gettoken_symbol [OF c(2) _ valid_wordD(1) [OF pd(2)]] by blast
  have g2: "gettoken b es (t + 1) = (97, t + 1, t + 1 + length f, t + 1 + length f)"
    using gettoken_word [OF r1 pd(2) ends_argsD(2) [OF E(2)]] skip_space_rem [OF r2 E(1)] by simp
  let ?c = "REDIR c (t + 1) (t + 1 + length f) (if inp then O_RDONLY else O_WRONLY OR O_CREATE) (if inp then 0 else 1)"
  have "parseexec b es k s = Inr (?c, t + 1 + length f)"
    using c(4) p g1 g2 m' parseredirs_none [OF r2 E(1,3), of "Suc m'"] by (simp add: op_def)
  then have "parsepipe b es (Suc k) s = Inr (?c, t + 1 + length f)" by (rule pipe_single [OF _ r2 E(1,4)])
  then have "parseline b es n s = Inr (?c, t + 1 + length f)" unfolding k(1) by (rule line_single [OF _ r2 E(1,5)]) simp
  moreover have "t + 1 + length f = s + length (print_cmd (SRedir d f inp))" by (simp add: t_def)
  moreover have "word_at b (t + 1, t + 1 + length f) f" using rem_at_word [OF r1] by (simp add: word_at_def)
  ultimately show "\<exists>c. parseline b es n s = Inr (c, s + length (print_cmd (SRedir d f inp))) \<and> same_cmd (word_at b) c (SRedir d f inp)"
    using c(1) by (intro exI [of _ ?c]) simp
qed

lemma reads_back_back:
  assumes "reads_back b es d" "printable d"
  shows "reads_back b es (SBack d)"
  unfolding reads_back_def
proof (intro allI impI)
  fix n s cs
  assume r: "rem_at b es s (print_cmd (SBack d) @ cs)" and e: "ends_line cs" and n: "5 * (es - s) + 4 \<le> n"
  note E = ends_lineD [OF e]
  define m where "m = n - 3"
  then have m: "n = Suc (Suc (Suc m))" "5 * (es - s) < m" using n by simp_all
  let ?t = "s + length (print_cmd d) + 2"
  obtain c where c: "parsepipe b es (Suc (Suc m)) s = Inr (c, ?t)" "same_cmd (word_at b) c d" "rem_at b es ?t (38 # cs)"
    using pipe_paren [OF assms, of s "38 # cs" "Suc (Suc m)"] symbol_lead [of 38 cs] r m n by auto
  have p: "peek b es ?t [38] = (True, ?t)" using peek_rem [OF c(3) symbol_lead, of "[38]"] by simp
  obtain q1 e1 where g: "gettoken b es ?t = (38, q1, e1, ?t + 1)" using gettoken_symbol [OF c(3) _ E(1)] by auto
  have r2: "rem_at b es (?t + 1) cs" by (rule rem_at_Cons [OF c(3)])
  have pn: "peek b es (?t + 1) [38] = (False, ?t + 1)" "peek b es (?t + 1) [59] = (False, ?t + 1)"
    using peek_rem [OF r2 E(1), of "[38]"] peek_rem [OF r2 E(1), of "[59]"] E(5) by auto
  have "backs b es (Suc (Suc m)) c ?t = Inr (BACK c, ?t + 1)" using p g pn(1) by simp
  then have "parseline b es n s = Inr (BACK c, ?t + 1)" using c(1) pn(2) unfolding m(1) parseline.simps by simp
  then show "\<exists>c. parseline b es n s = Inr (c, s + length (print_cmd (SBack d))) \<and> same_cmd (word_at b) c (SBack d)"
    using c(2) by (intro exI [of _ "BACK c"]) simp
qed

lemma reads_list:
  assumes d: "reads_back b es d" "printable d" and f: "reads_back b es f" "printable f"
  shows "reads_back b es (SList d f)"
  unfolding reads_back_def
proof (intro allI impI)
  fix n s cs
  assume r: "rem_at b es s (print_cmd (SList d f) @ cs)" and e: "ends_line cs" and n: "5 * (es - s) + 4 \<le> n"
  define m where "m = n - 1"
  then have m: "n = Suc m" "5 * (es - s) + 3 \<le> m" using n by simp_all
  let ?t = "s + length (print_cmd d) + 2" and ?cs = "59 # 40 # print_cmd f @ 41 # cs"
  have r0: "rem_at b es s (40 # print_cmd d @ 41 # ?cs)" using r by simp
  obtain c where c: "parsepipe b es m s = Inr (c, ?t)" "same_cmd (word_at b) c d" "rem_at b es ?t ?cs"
    using pipe_paren [OF d r0 symbol_lead _ m(2)] by auto
  have p: "peek b es ?t [38] = (False, ?t)" "peek b es ?t [59] = (True, ?t)"
    using peek_rem [OF c(3) symbol_lead, of "[38]"] peek_rem [OF c(3) symbol_lead, of "[59]"] by simp_all
  obtain q1 e1 where g: "gettoken b es ?t = (59, q1, e1, ?t + 1)" using gettoken_symbol [OF c(3) _ symbol_lead] by auto
  have r1: "rem_at b es (?t + 1) (40 # print_cmd f @ 41 # cs)" by (rule rem_at_Cons [OF c(3)])
  have "es = ?t + length ?cs" using rem_atD(1) [OF c(3)] by simp
  then have "5 * (es - (?t + 1)) + 4 \<le> m" using m(2) by simp
  then obtain c' where c': "parseline b es m (?t + 1) = Inr (c', ?t + 1 + length (print_cmd f) + 2)" "same_cmd (word_at b) c' f"
    using line_paren [OF f r1 e] by blast
  have "backs b es m c ?t = Inr (c, ?t)" using p(1) m(2) by (cases m) simp_all
  then have "parseline b es n s = Inr (LIST c c', ?t + 1 + length (print_cmd f) + 2)"
    using c(1) p(2) g c'(1) unfolding m(1) parseline.simps by simp
  then show "\<exists>c. parseline b es n s = Inr (c, s + length (print_cmd (SList d f))) \<and> same_cmd (word_at b) c (SList d f)"
    using c(2) c'(2) by (intro exI [of _ "LIST c c'"]) simp
qed

lemma reads_pipe:
  assumes d: "reads_back b es d" "printable d" and f: "reads_back b es f" "printable f"
  shows "reads_back b es (SPipe d f)"
  unfolding reads_back_def
proof (intro allI impI)
  fix n s cs
  assume r: "rem_at b es s (print_cmd (SPipe d f) @ cs)" and e: "ends_line cs" and n: "5 * (es - s) + 4 \<le> n"
  note E = ends_lineD [OF e]
  define m where "m = n - 2"
  then have m: "n = Suc (Suc m)" "5 * (es - s) + 2 \<le> m" using n by simp_all
  let ?t = "s + length (print_cmd d) + 2" and ?cs = "124 # 40 # print_cmd f @ 41 # cs"
  have r0: "rem_at b es s (40 # print_cmd d @ 41 # ?cs)" using r by simp
  obtain c where c: "parseexec b es m s = Inr (c, ?t)" "same_cmd (word_at b) c d"
    using exec_paren [OF d r0 symbol_lead _ m(2)] by auto
  have rt: "rem_at b es ?t ?cs" using rem_at_append [of b es s "40 # print_cmd d @ [41]" ?cs] r0 by simp
  have p: "peek b es ?t [124] = (True, ?t)" using peek_rem [OF rt symbol_lead, of "[124]"] by simp
  obtain q1 e1 where g: "gettoken b es ?t = (124, q1, e1, ?t + 1)" using gettoken_symbol [OF rt _ symbol_lead] by auto
  have r1: "rem_at b es (?t + 1) (40 # print_cmd f @ 41 # cs)" by (rule rem_at_Cons [OF rt])
  have "es = ?t + length ?cs" using rem_atD(1) [OF rt] by simp
  then have "5 * (es - (?t + 1)) + 3 \<le> m" using m(2) by simp
  then obtain c' where c': "parsepipe b es m (?t + 1) = Inr (c', ?t + 1 + length (print_cmd f) + 2)" "same_cmd (word_at b) c' f"
      "rem_at b es (?t + 1 + length (print_cmd f) + 2) cs"
    using pipe_paren [OF f r1 E(1)] E(3,4) by blast
  have "parsepipe b es (Suc m) s = Inr (PIPE c c', ?t + 1 + length (print_cmd f) + 2)" using c(1) p g c'(1) by simp
  then have "parseline b es n s = Inr (PIPE c c', ?t + 1 + length (print_cmd f) + 2)"
    unfolding m(1) by (rule line_single [OF _ c'(3) E(1,5)]) simp
  then show "\<exists>c. parseline b es n s = Inr (c, s + length (print_cmd (SPipe d f))) \<and> same_cmd (word_at b) c (SPipe d f)"
    using c(2) c'(2) by (intro exI [of _ "PIPE c c'"]) simp
qed

lemma reads_all: "printable d \<Longrightarrow> reads_back b es d"
  by (induction d) (simp_all add: reads_exec reads_redir reads_back_back reads_list reads_pipe)

lemma join_nonzero: "list_all valid_word ws \<Longrightarrow> 0 \<notin> set (join ws)"
  by (induction ws rule: join.induct) (auto simp: valid_word_def list_all_iff wordchar_def)

lemma print_nonzero: "printable d \<Longrightarrow> 0 \<notin> set (print_cmd d)"
  by (induction d) (auto simp: join_nonzero valid_word_def list_all_iff wordchar_def)

lemma list_all2_weaken: "list_all2 P xs ys \<Longrightarrow> (\<And>x y. x \<in> set xs \<Longrightarrow> P x y \<Longrightarrow> Q x y) \<Longrightarrow> list_all2 Q xs ys"
  by (erule list.rel_mono_strong) auto

lemma same_cmd_mono:
  "same_cmd at c d \<Longrightarrow> (\<And>x w. x \<in> set (words c) \<Longrightarrow> at x w \<Longrightarrow> at' x w) \<Longrightarrow> same_cmd at' c d"
  by (induction at c d rule: same_cmd.induct) (auto intro: list_all2_weaken)

definition line_buffer :: "byte list \<Rightarrow> nat \<Rightarrow> byte" where
  "line_buffer cs i = (if i < length cs then cs ! i else 0)"

lemma parsecmd_print_ex:
  assumes "printable d"
  shows "\<exists>c b'. parsecmd (line_buffer (print_cmd d)) = Inr (c, b') \<and> same_cmd (\<lambda>x. string_at b' (fst x)) c d"
proof -
  define b where "b = line_buffer (print_cmd d)"
  define es where "es = length (print_cmd d)"
  have nz: "print_cmd d ! i \<noteq> 0" if "i < es" for i using print_nonzero [OF assms] that unfolding es_def by (metis nth_mem)
  have l: "is_line b es" using nz by (auto simp: is_line_def b_def line_buffer_def es_def)
  have r: "rem_at b es 0 (print_cmd d @ [])" using nz by (auto simp: rem_at_def b_def line_buffer_def es_def)
  obtain c where c: "parseline b es (5 * es + 5) 0 = Inr (c, es)" "same_cmd (word_at b) c d"
    using reads_all [OF assms, of b es, unfolded reads_back_def, rule_format, OF r, of "5 * es + 5"]
    by (auto simp: ends_line_def es_def)
  have g: "good b es c" using parser_total(1) [OF l, of 0 "5 * es + 5"] c(1) by simp
  have "skip_space b es es = es" using l by (intro skip_space_stop) (simp add: is_line_def whitespace_def)
  then have p: "parsecmd b = Inr (c, nulterminate c b)" using c(1) by (simp add: parsecmd_def is_line_strlen [OF l] peek_def)
  have "same_cmd (\<lambda>x. string_at (nulterminate c b) (fst x)) c d"
    using c(2) by (rule same_cmd_mono) (use nulterminate_word [OF g] in \<open>fastforce simp: word_at_def\<close>)
  then show ?thesis using p unfolding b_def by blast
qed

text \<open>
  C34. The parser inverts the printer. Every command, whatever the nesting of lists, pipes, background commands
  and redirections, whose words are made of word characters and whose argument vectors fit,
  is read back from its printed form with the same structure, and each argument and file name
  is the zero-terminated string it was printed from.
\<close>

theorem parsecmd_print:
  assumes "printable d"
  shows "\<exists>c b'. parsecmd (line_buffer (print_cmd d)) = Inr (c, b') \<and> same_cmd (\<lambda>x. string_at b' (fst x)) c d"
  by (rule parsecmd_print_ex [OF assms])

theorem parsecmd_print_witness:
  "\<exists>c b'. parsecmd (line_buffer [40, 99, 97, 116, 41, 124, 40, 119, 99, 32, 120, 41]) = Inr (c, b') \<and>
     same_cmd (\<lambda>x. string_at b' (fst x)) c (SPipe (SExec [[99, 97, 116]]) (SExec [[119, 99], [120]]))"
proof -
  have p: "printable (SPipe (SExec [[99, 97, 116]]) (SExec [[119, 99], [120]]))"
    by (simp add: MAXARGS_def valid_word_def wordchar_def whitespace_def symbols_def)
  show ?thesis using parsecmd_print [OF p] by simp
qed

end
