(* ===== verification/ShellRun.thy ===== *)
theory ShellRun
  imports Shell
begin

text \<open>
  The processes of the shell (\<^verbatim>\<open>sh.c\<close>): \<open>runcmd\<close> and the loop of \<^verbatim>\<open>main\<close>. Every process has its
  own descriptor table; \<open>open\<close>, \<open>dup\<close> and \<open>pipe\<close> take the lowest free descriptors, as \<open>fdalloc\<close> of
  the kernel does. Whether a file opens and whether a \<open>fork\<close> succeeds is decided by the arguments
  \<open>opens\<close> and \<open>forks\<close>; a process is named by the path of its forks, and a pipe by the process
  that creates it. Since no process looks at another one's table, the result is the list of the
  calls of \<open>exec\<close> and of the messages, in the order in which the processes are created.
\<close>

type_synonym path = "nat list"

datatype fobj = Console | FileAt "byte list" "32 word" | ReadEnd path | WriteEnd path

type_synonym fds = "nat \<Rightarrow> fobj option"

datatype event = Exec_call "byte list list" fds | Open_failed "byte list" | Message string | Chdir "byte list"

definition lowest :: "fds \<Rightarrow> nat option" where
  "lowest fds = find (\<lambda>fd. fds fd = None) [0..<NOFILE]"

definition sh_close :: "nat \<Rightarrow> fds \<Rightarrow> fds" where
  "sh_close fd fds = fds(fd := None)"

definition sh_open :: "(byte list \<Rightarrow> 32 word \<Rightarrow> bool) \<Rightarrow> byte list \<Rightarrow> 32 word \<Rightarrow> fds \<Rightarrow> fds option" where
  "sh_open opens file mode fds =
     (if opens file mode then map_option (\<lambda>fd. fds(fd \<mapsto> FileAt file mode)) (lowest fds) else None)"

definition sh_dup :: "nat \<Rightarrow> fds \<Rightarrow> fds" where
  "sh_dup old fds =
     (case (fds old, lowest fds) of (Some f, Some fd) \<Rightarrow> fds(fd \<mapsto> f) | _ \<Rightarrow> fds)"

definition sh_pipe :: "path \<Rightarrow> fds \<Rightarrow> (nat \<times> nat \<times> fds) option" where
  "sh_pipe p fds =
     (case lowest fds of
        None \<Rightarrow> None
      | Some r \<Rightarrow>
          let fds = fds(r \<mapsto> ReadEnd p) in
          map_option (\<lambda>w. (r, w, fds(w \<mapsto> WriteEnd p))) (lowest fds))"

text \<open>The string at an address of the buffer.\<close>

definition cstring :: "(nat \<Rightarrow> byte) \<Rightarrow> nat \<Rightarrow> byte list" where
  "cstring b q = (case strlen (\<lambda>i. b (q + i)) of None \<Rightarrow> [] | Some n \<Rightarrow> map (\<lambda>i. b (q + i)) [0..<n])"

text \<open>\<open>runcmd\<close> in the process \<open>p\<close>; it never returns, so the result is all that happens.\<close>

fun runcmd :: "(byte list \<Rightarrow> 32 word \<Rightarrow> bool) \<Rightarrow> (path \<Rightarrow> bool) \<Rightarrow> (nat \<Rightarrow> byte) \<Rightarrow> path \<Rightarrow> cmd \<Rightarrow> fds \<Rightarrow> event list" where
  "runcmd opens forks b p (EXEC argv) fds =
     (if argv = [] then [] else [Exec_call (map (\<lambda>x. cstring b (fst x)) argv) fds])"
| "runcmd opens forks b p (REDIR c q e mode fd) fds =
     (case sh_open opens (cstring b q) mode (sh_close fd fds) of
        None \<Rightarrow> [Open_failed (cstring b q)]
      | Some fds \<Rightarrow> runcmd opens forks b p c fds)"
| "runcmd opens forks b p (LIST l r) fds =
     (if forks (p @ [0]) then
        runcmd opens forks b (p @ [0]) l fds @ runcmd opens forks b (p @ [1]) r fds
      else [Message ''fork''])"
| "runcmd opens forks b p (PIPE l r) fds =
     (case sh_pipe p fds of
        None \<Rightarrow> [Message ''pipe'']
      | Some (p0, p1, fds) \<Rightarrow>
          if \<not> forks (p @ [0]) then [Message ''fork'']
          else
            runcmd opens forks b (p @ [0]) l (sh_close p1 (sh_close p0 (sh_dup p1 (sh_close 1 fds)))) @
            (if \<not> forks (p @ [1]) then [Message ''fork'']
             else runcmd opens forks b (p @ [1]) r (sh_close p1 (sh_close p0 (sh_dup p0 (sh_close 0 fds))))))"
| "runcmd opens forks b p (BACK c) fds =
     (if forks (p @ [0]) then runcmd opens forks b (p @ [0]) c fds else [Message ''fork''])"

text \<open>\<open>getcmd\<close> and the loop of \<^verbatim>\<open>main\<close>, with the bytes of the standard input left and the number of commands run.\<close>

definition CMDBUF :: nat where "CMDBUF = 100"

definition getcmd :: "byte list \<Rightarrow> ((nat \<Rightarrow> byte) \<times> byte list) option" where
  "getcmd input =
     (let (buf, rest) = gets (\<lambda>_. 0) (int CMDBUF) input in if buf 0 = 0 then None else Some (buf, rest))"

lemma gets_loop_shorter: "gets_loop n i input buf = (buf', rest) \<Longrightarrow> length rest \<le> length input"
  by (induction n i input buf rule: gets_loop.induct) (fastforce simp: Let_def split: list.splits if_splits)+

lemma getcmd_shorter: "getcmd input = Some (buf, rest) \<Longrightarrow> length rest < length input"
proof (cases input)
  case Nil
  assume "getcmd input = Some (buf, rest)"
  then show ?thesis using Nil by (simp add: getcmd_def gets_def CMDBUF_def numeral_eq_Suc)
next
  case (Cons c cs)
  assume "getcmd input = Some (buf, rest)"
  then have "gets_loop (Suc 98) 0 (c # cs) (\<lambda>_. 0) = (buf, rest)"
    using Cons by (auto simp: getcmd_def gets_def CMDBUF_def Let_def split: prod.splits if_splits)
  then have "rest = cs \<or> (\<exists>b. gets_loop 98 1 cs b = (buf, rest))"
    unfolding gets_loop.simps by (auto simp: Let_def split: if_splits)
  then show ?thesis using gets_loop_shorter Cons by fastforce
qed

function sh_main :: "(byte list \<Rightarrow> 32 word \<Rightarrow> bool) \<Rightarrow> (path \<Rightarrow> bool) \<Rightarrow> nat \<Rightarrow> fds \<Rightarrow> byte list \<Rightarrow> event list" where
  "sh_main opens forks k fds input =
     (case getcmd input of
        None \<Rightarrow> []
      | Some (buf, rest) \<Rightarrow>
          (if buf 0 = 99 \<and> buf 1 = 100 \<and> buf 2 = 32 then
             [Chdir (cstring (buf(length (cstring buf 0) - 1 := 0)) 3)]
           else if forks [k] then
             (case parsecmd buf of Inl (Kpanic m) \<Rightarrow> [Message m] | Inl _ \<Rightarrow> [] | Inr (c, b) \<Rightarrow> runcmd opens forks b [k] c fds)
           else [Message ''fork'']) @
          (if \<not> (buf 0 = 99 \<and> buf 1 = 100 \<and> buf 2 = 32) \<and> \<not> forks [k] then []
           else sh_main opens forks (k + 1) fds rest))"
  by pat_completeness auto
termination by (relation "measure (\<lambda>(opens, forks, k, fds, input). length input)") (auto simp: getcmd_shorter)


section \<open>What a command does\<close>

fun meaning :: "path \<Rightarrow> scmd \<Rightarrow> fds \<Rightarrow> event list" where
  "meaning p (SExec ws) fds = (if ws = [] then [] else [Exec_call ws fds])"
| "meaning p (SRedir c f inp) fds =
     meaning p c (if inp then fds(0 \<mapsto> FileAt f O_RDONLY) else fds(1 \<mapsto> FileAt f (O_WRONLY OR O_CREATE)))"
| "meaning p (SPipe c d) fds = meaning (p @ [0]) c (fds(1 \<mapsto> WriteEnd p)) @ meaning (p @ [1]) d (fds(0 \<mapsto> ReadEnd p))"
| "meaning p (SList c d) fds = meaning (p @ [0]) c fds @ meaning (p @ [1]) d fds"
| "meaning p (SBack c) fds = meaning (p @ [0]) c fds"

text \<open>The standard input and output are open and two more descriptors are free.\<close>

definition fds_ready :: "fds \<Rightarrow> bool" where
  "fds_ready fds \<longleftrightarrow> fds 0 \<noteq> None \<and> fds 1 \<noteq> None \<and> (\<exists>i j. i < j \<and> j < NOFILE \<and> fds i = None \<and> fds j = None)"


lemma lowest_Some: "lowest fds = Some i \<longleftrightarrow> i < NOFILE \<and> fds i = None \<and> (\<forall>j < i. fds j \<noteq> None)"
  by (auto simp: lowest_def find_upt_Some)

lemma fds_readyE:
  assumes "fds_ready fds"
  obtains i j where "i < j" "j < NOFILE" "fds i = None" "fds j = None" "fds 0 \<noteq> None" "fds 1 \<noteq> None"
  using assms unfolding fds_ready_def by blast

lemma fds_ready_std: "fds_ready fds \<Longrightarrow> \<exists>f g. fds 0 = Some f \<and> fds 1 = Some g \<and> fds (Suc 0) = Some g"
  by (auto simp: fds_ready_def)

lemma fds_ready_upd:
  assumes "fds_ready fds" "k < 2"
  shows "fds_ready (fds(k \<mapsto> f))"
proof -
  obtain i j where ij: "i < j" "j < NOFILE" "fds i = None" "fds j = None" "fds 0 \<noteq> None" "fds 1 \<noteq> None"
    using fds_readyE [OF assms(1)] .
  have "fds k \<noteq> None" using ij assms(2) by (auto simp: less_2_cases_iff)
  then have "(fds(k \<mapsto> f)) i = None" "(fds(k \<mapsto> f)) j = None" using ij by auto
  moreover have "(fds(k \<mapsto> f)) 0 \<noteq> None" "(fds(k \<mapsto> f)) 1 \<noteq> None" using ij by auto
  ultimately show ?thesis unfolding fds_ready_def using ij(1,2) by blast
qed

lemma ready_open:
  assumes "fds_ready fds" "fd < 2" "opens f m"
  shows "sh_open opens f m (sh_close fd fds) = Some (fds(fd \<mapsto> FileAt f m))"
proof -
  have "lowest (sh_close fd fds) = Some fd"
    using assms(2) fds_ready_std [OF assms(1)] by (auto simp: lowest_Some sh_close_def params less_2_cases_iff)
  then show ?thesis using assms(3) by (simp add: sh_open_def sh_close_def)
qed

lemma ready_pipe:
  assumes "fds_ready fds"
  shows "\<exists>r w. sh_pipe p fds = Some (r, w, fds(r \<mapsto> ReadEnd p, w \<mapsto> WriteEnd p)) \<and> 2 \<le> r \<and> 2 \<le> w \<and> r \<noteq> w \<and> fds r = None \<and> fds w = None"
proof -
  obtain i j where ij: "i < j" "j < NOFILE" "fds i = None" "fds j = None" and o: "fds 0 \<noteq> None" "fds 1 \<noteq> None"
    using fds_readyE [OF assms] by metis
  have two: "2 \<le> k" if "fds k = None" for k using that o by (cases k; cases "k - 1") auto
  obtain r where r: "lowest fds = Some r" using ij find_upt_ex [of 0 i NOFILE "\<lambda>fd. fds fd = None"] by (auto simp: lowest_def)
  have rr: "r < NOFILE" "fds r = None" "\<forall>k < r. fds k \<noteq> None" using r by (simp_all add: lowest_Some)
  have "r \<le> i" using rr(3) ij(3) by (meson not_less)
  then have "(fds(r \<mapsto> ReadEnd p)) j = None" using ij by simp
  then obtain w where w: "lowest (fds(r \<mapsto> ReadEnd p)) = Some w"
    using ij(2) find_upt_ex [of 0 j NOFILE "\<lambda>fd. (fds(r \<mapsto> ReadEnd p)) fd = None"] by (auto simp: lowest_def)
  then have ww: "w \<noteq> r" "fds w = None" by (auto simp: lowest_Some split: if_splits)
  show ?thesis using r w ww rr(2) two by (auto simp: sh_pipe_def)
qed

lemma plumb:
  fixes p :: path
  assumes "fds_ready fds" "2 \<le> r" "2 \<le> w" "r \<noteq> w" "fds r = None" "fds w = None"
  defines "g \<equiv> fds(r \<mapsto> ReadEnd p, w \<mapsto> WriteEnd p)"
  shows "sh_close w (sh_close r (sh_dup w (sh_close 1 g))) = fds(1 \<mapsto> WriteEnd p)"
    and "sh_close w (sh_close r (sh_dup r (sh_close 0 g))) = fds(0 \<mapsto> ReadEnd p)"
proof -
  have "lowest (sh_close 1 g) = Some 1" "lowest (sh_close 0 g) = Some 0"
    using assms(2-4) fds_ready_std [OF assms(1)] by (auto simp: lowest_Some sh_close_def g_def params)
  then show "sh_close w (sh_close r (sh_dup w (sh_close 1 g))) = fds(1 \<mapsto> WriteEnd p)"
    "sh_close w (sh_close r (sh_dup r (sh_close 0 g))) = fds(0 \<mapsto> ReadEnd p)"
    using assms(2-6) by (auto simp: sh_dup_def sh_close_def g_def fun_eq_iff)
qed

lemma cstring_at: "string_at b q w \<Longrightarrow> cstring b q = w"
  by (auto simp: string_at_def cstring_def intro!: nth_equalityI)

lemma runcmd_meaning:
  assumes "\<And>f m. opens f m" "\<And>p. forks p"
  shows "same_cmd (\<lambda>x. string_at b (fst x)) c d \<Longrightarrow> fds_ready fds \<Longrightarrow> runcmd opens forks b p c fds = meaning p d fds"
proof (induction "\<lambda>x :: nat \<times> nat. string_at b (fst x)" c d arbitrary: p fds rule: same_cmd.induct)
  case (1 argv ws)
  have "map (\<lambda>x. cstring b (fst x)) argv = ws" using 1(1) by (auto simp: list_all2_conv_all_nth cstring_at intro!: nth_equalityI)
  moreover have "argv = [] \<longleftrightarrow> ws = []" using 1(1) by (auto simp: list_all2_conv_all_nth)
  ultimately show ?case by simp
next
  case (2 c q e m fd d f inp)
  have fd: "fd < 2" "m = (if inp then O_RDONLY else O_WRONLY OR O_CREATE)" "fd = (if inp then 0 else 1)" using 2(2) by (auto split: if_splits)
  have "runcmd opens forks b p c (fds(fd \<mapsto> FileAt f m)) = meaning p d (fds(fd \<mapsto> FileAt f m))"
    using 2(1,2) fds_ready_upd [OF 2(3) fd(1)] by simp
  moreover have "cstring b q = f" using 2(2) by (simp add: cstring_at)
  ultimately show ?case using ready_open [OF 2(3) fd(1), of opens f m] assms(1) fd(2,3) by (cases inp) simp_all
next
  case (3 c d c' d')
  obtain r w where rw: "sh_pipe p fds = Some (r, w, fds(r \<mapsto> ReadEnd p, w \<mapsto> WriteEnd p))"
      "2 \<le> r" "2 \<le> w" "r \<noteq> w" "fds r = None" "fds w = None"
    using ready_pipe [OF 3(4)] by blast
  show ?case using 3(1,2) [OF _ fds_ready_upd [OF 3(4)]] 3(3) rw(1) assms(2) plumb [OF 3(4) rw(2-)] by simp
qed (use assms(2) in simp_all)

text \<open>
  C36. The shell runs what was typed. When files open and forks succeed, a printed command that
  is parsed and run calls \<open>exec\<close> exactly for its simple commands, in order, each with its own
  arguments and with the descriptors that redirections and pipes ask for: no end of a pipe is
  left open in a process besides the one that it uses.
\<close>

theorem runcmd_correct:
  assumes "printable d" "fds_ready fds" "\<And>f m. opens f m" "\<And>p. forks p"
  shows "\<exists>c b. parsecmd (line_buffer (print_cmd d)) = Inr (c, b) \<and> runcmd opens forks b p c fds = meaning p d fds"
  using parsecmd_print_ex [OF assms(1)] runcmd_meaning [of opens forks, OF assms(3,4) _ assms(2)] by blast

theorem runcmd_correct_witness:
  "\<exists>c b. parsecmd (line_buffer [40, 97, 41, 124, 40, 98, 41]) = Inr (c, b) \<and>
     runcmd (\<lambda>_ _. True) (\<lambda>_. True) b [] c (\<lambda>fd. if fd < 3 then Some Console else None) =
       [Exec_call [[97]] (\<lambda>fd. if fd = 1 then Some (WriteEnd []) else if fd < 3 then Some Console else None),
        Exec_call [[98]] (\<lambda>fd. if fd = 0 then Some (ReadEnd []) else if fd < 3 then Some Console else None)]"
proof -
  let ?d = "SPipe (SExec [[97]]) (SExec [[98]])" and ?fds = "\<lambda>fd :: nat. if fd < 3 then Some Console else None"
  have p: "printable ?d" by (simp add: MAXARGS_def valid_word_def wordchar_def whitespace_def symbols_def)
  have "(3::nat) < 4 \<and> 4 < NOFILE \<and> ?fds 3 = None \<and> ?fds 4 = None" by (simp add: params)
  then have r: "fds_ready ?fds" unfolding fds_ready_def by (intro conjI exI [of _ 3] exI [of _ 4]) simp_all
  have m: "meaning [] ?d ?fds = [Exec_call [[97]] (\<lambda>fd. if fd = 1 then Some (WriteEnd []) else if fd < 3 then Some Console else None),
        Exec_call [[98]] (\<lambda>fd. if fd = 0 then Some (ReadEnd []) else if fd < 3 then Some Console else None)]"
    by (auto simp: fun_eq_iff)
  show ?thesis using runcmd_correct [OF p r, of "\<lambda>_ _. True" "\<lambda>_. True" "[]"] m by simp
qed

end
