(* ===== verification/Ide.thy ===== *)
theory Ide
  imports Pipe
begin

text \<open>
  The interrupt-driven disk driver (\<^verbatim>\<open>ide.c\<close>) that the standard build uses in place of
  \<^verbatim>\<open>memide.c\<close>. Requests wait in a list that is linked through the buffers; the request at its
  head is the one the drive works on. The drive is hardware: it has the registers that
  \<open>idestart\<close> loads and its contents, and \<open>drive_step\<close> is the execution of the command it was
  given, which ends with an interrupt. The drive of unit 1 is the \<open>disk\<close> of theory \<open>Bio\<close>. A wait for the
  drive to become ready returns its status, an argument of \<open>ideintr\<close>.

  \<open>ide_drain\<close> shows that serving a queue by interrupts does to buffers and disk what the
  synchronous driver does when it is called for the same buffers in the order of the queue.
\<close>

section \<open>Data\<close>

definition SECTOR_SIZE :: nat where [params]: "SECTOR_SIZE = 512"
definition IDE_DF :: byte where [params]: "IDE_DF = 0x20"
definition IDE_ERR :: byte where [params]: "IDE_ERR = 0x01"
definition IDE_CMD_READ :: byte where [params]: "IDE_CMD_READ = 0x20"
definition IDE_CMD_WRITE :: byte where [params]: "IDE_CMD_WRITE = 0x30"
definition IDE_CMD_RDMUL :: byte where [params]: "IDE_CMD_RDMUL = 0xc4"
definition IDE_CMD_WRMUL :: byte where [params]: "IDE_CMD_WRMUL = 0xc5"

text \<open>The registers at the ports \<^verbatim>\<open>0x1f2\<close> to \<^verbatim>\<open>0x1f7\<close>, and the data written to port \<^verbatim>\<open>0x1f0\<close>.\<close>

record ide_regs =
  r_nsect :: byte
  r_lba0 :: byte
  r_lba1 :: byte
  r_lba2 :: byte
  r_devsel :: byte
  r_cmd :: byte
  r_data :: block

record kide = kbio +
  disk0 :: "nat \<Rightarrow> block"
  regs :: ide_regs
  idequeue :: "nat option"
  qnext :: "nat \<Rightarrow> nat option"
  havedisk1 :: bool

section \<open>The driver\<close>

definition idewait :: "bool \<Rightarrow> byte \<Rightarrow> int" where
  "idewait checkerr r = (if checkerr \<and> r AND (IDE_DF OR IDE_ERR) \<noteq> 0 then - 1 else 0)"

text \<open>\<open>ideinit\<close> with the status the drive shows at each of the 1000 reads.\<close>

definition ideinit :: "(nat \<Rightarrow> byte) \<Rightarrow> 'a kide_scheme \<Rightarrow> 'a kide_scheme" where
  "ideinit status s = (case find (\<lambda>i. status i \<noteq> 0) [0..<1000] of None \<Rightarrow> s | Some i \<Rightarrow> s\<lparr>havedisk1 := True\<rparr>)"

definition idestart :: "nat option \<Rightarrow> 'a kide_scheme \<Rightarrow> 'a kide_scheme res" where
  "idestart bo s =
     (case bo of None \<Rightarrow> Inl (Kpanic ''idestart'')
      | Some b \<Rightarrow>
          let x = bcache s b; spb = BSIZE div SECTOR_SIZE in
          if b_blockno x \<ge> FSSIZE then Inl (Kpanic ''incorrect blockno'')
          else if spb > 7 then Inl (Kpanic ''idestart'')
          else
            let sector = word_of_nat (b_blockno x * spb) :: 32 word;
                read_cmd = (if spb = 1 then IDE_CMD_READ else IDE_CMD_RDMUL);
                write_cmd = (if spb = 1 then IDE_CMD_WRITE else IDE_CMD_WRMUL)
            in Inr (s\<lparr>regs := \<lparr>r_nsect = word_of_nat spb, r_lba0 = ucast (sector AND 0xFF),
                 r_lba1 = ucast (drop_bit 8 sector AND 0xFF), r_lba2 = ucast (drop_bit 16 sector AND 0xFF),
                 r_devsel = 0xE0 OR push_bit 4 (word_of_nat (b_dev x) AND 1) OR ucast (drop_bit 24 sector AND 0x0F),
                 r_cmd = (if b_dirty x then write_cmd else read_cmd),
                 r_data = (if b_dirty x then b_data x else r_data (regs s))\<rparr>\<rparr>))"

text \<open>What the registers ask for: the sector and the unit.\<close>

definition reg_sector :: "ide_regs \<Rightarrow> nat" where
  "reg_sector r = unat (r_lba0 r) + 2 ^ 8 * unat (r_lba1 r) + 2 ^ 16 * unat (r_lba2 r) + 2 ^ 24 * unat (r_devsel r AND 0x0F)"

definition reg_unit :: "ide_regs \<Rightarrow> bool" where
  "reg_unit r \<longleftrightarrow> bit (r_devsel r) 4"

definition drive_step :: "'a kide_scheme \<Rightarrow> 'a kide_scheme" where
  "drive_step s =
     (let r = regs s; n = reg_sector r in
      if r_cmd r = IDE_CMD_WRITE then
        if reg_unit r then s\<lparr>disk := (disk s)(n := r_data r), dtrace := dtrace s @ [(n, r_data r)]\<rparr>
        else s\<lparr>disk0 := (disk0 s)(n := r_data r)\<rparr>
      else s)"

definition drive_data :: "'a kide_scheme \<Rightarrow> block" where
  "drive_data s = (if reg_unit (regs s) then disk s else disk0 s) (reg_sector (regs s))"

definition ideintr :: "byte \<Rightarrow> 'a kide_scheme \<Rightarrow> 'a kide_scheme res" where
  "ideintr status s =
     bindR (acquire Lide s) (\<lambda>s.
     case idequeue s of None \<Rightarrow> release Lide s
     | Some b \<Rightarrow>
         let s = s\<lparr>idequeue := qnext s b\<rparr>;
             s = (if \<not> b_dirty (bcache s b) \<and> idewait True status \<ge> 0 then upd_buf b (\<lambda>x. x\<lparr>b_data := drive_data s\<rparr>) s else s);
             s = upd_buf b (\<lambda>x. x\<lparr>b_valid := True, b_dirty := False\<rparr>) s
         in bindR (wakeup (Some (ChBuf b)) s) (\<lambda>s.
            bindR (if idequeue s \<noteq> None then idestart (idequeue s) s else Inr s) (release Lide)))"

text \<open>
  The walk of \<open>iderw\<close> to the end of the list and the new link there; the bound is the number of
  buffers, and the lemmas show that it is enough.
\<close>

fun append_to :: "nat \<Rightarrow> nat \<Rightarrow> nat \<Rightarrow> 'a kide_scheme \<Rightarrow> 'a kide_scheme res" where
  "append_to 0 b q s = Inl Diverges"
| "append_to (Suc n) b q s =
     (case qnext s q of None \<Rightarrow> Inr (s\<lparr>qnext := (qnext s)(q := Some b)\<rparr>) | Some r \<Rightarrow> append_to n b r s)"

text \<open>The wait of \<open>iderw\<close>, with the lock held.\<close>

definition iderw_wait :: "nat \<Rightarrow> 'a kide_scheme \<Rightarrow> (unit blocking \<times> 'a kide_scheme) res" where
  "iderw_wait b s =
     (if b_valid (bcache s b) \<and> \<not> b_dirty (bcache s b) then bindR (release Lide s) (\<lambda>s. Inr (Done (), s))
      else bindR (sleep_to_sched (Some (ChBuf b)) (Some Lide) s) (\<lambda>s. Inr (Asleep b, s)))"

definition ide_iderw :: "nat \<Rightarrow> 'a kide_scheme \<Rightarrow> (unit blocking \<times> 'a kide_scheme) res" where
  "ide_iderw b s =
     bindR (curpid s) (\<lambda>pid.
     if \<not> holdingsleep pid (b_lock (bcache s b)) then Inl (Kpanic ''iderw: buf not locked'')
     else if b_valid (bcache s b) \<and> \<not> b_dirty (bcache s b) then Inl (Kpanic ''iderw: nothing to do'')
     else if b_dev (bcache s b) \<noteq> 0 \<and> \<not> havedisk1 s then Inl (Kpanic ''iderw: ide disk 1 not present'')
     else
       bindR (acquire Lide s) (\<lambda>s.
       let s = s\<lparr>qnext := (qnext s)(b := None)\<rparr> in
       bindR (case idequeue s of None \<Rightarrow> Inr (s\<lparr>idequeue := Some b\<rparr>) | Some q \<Rightarrow> append_to NBUF b q s) (\<lambda>s.
       bindR (if idequeue s = Some b then idestart (Some b) s else Inr s) (iderw_wait b))))"

definition ide_iderw_resume :: "nat \<Rightarrow> nat \<Rightarrow> 'a kide_scheme \<Rightarrow> (unit blocking \<times> 'a kide_scheme) res" where
  "ide_iderw_resume p b s = bindR (sleep_resume p Lide s) (iderw_wait b)"

section \<open>The registers\<close>

lemma low_byte: "unat (ucast (w AND 0xFF) :: byte) = unat w mod 2 ^ 8" for w :: "32 word"
proof -
  have "w AND 0xFF = take_bit 8 w" by (simp add: take_bit_eq_mask mask_eq_exp_minus_1)
  then have "unat (ucast (w AND 0xFF) :: byte) = take_bit 8 (take_bit 8 (unat w))"
    by (simp only: unsigned_ucast_eq unsigned_take_bit_eq) simp
  then show ?thesis by (simp add: take_bit_eq_mod)
qed

lemma low_nibble: "(0xE0 OR x OR ucast (w AND 0x0F) :: byte) AND 0x0F = ucast (take_bit 4 w)" if "take_bit 4 x = 0" for w :: "32 word"
proof -
  have f: "0x0F = (mask 4 :: byte)" "0x0F = (mask 4 :: 32 word)" by (simp_all add: mask_eq_exp_minus_1)
  have "take_bit 4 (0xE0 OR x OR ucast (w AND 0x0F) :: byte) = take_bit 4 (ucast (w AND 0x0F))"
    using that by (simp add: take_bit_or)
  also have "\<dots> = ucast (take_bit 4 w)"
    unfolding f take_bit_eq_mask [symmetric] by (simp add: bit_eq_iff bit_take_bit_iff bit_ucast_iff)
  finally show ?thesis unfolding f take_bit_eq_mask [symmetric] by simp
qed

lemma unat_shift: "unat (drop_bit k w) = unat w div 2 ^ k" for w :: "32 word"
proof -
  have "take_bit 32 (unat w) = unat w" using unsigned_less [where ?'a = nat and w = w] by (simp add: take_bit_eq_mod)
  then show ?thesis by (simp only: unsigned_drop_bit_eq) (simp add: drop_bit_eq_div)
qed

lemma sector_bytes:
  "n mod 2 ^ 8 + 2 ^ 8 * (n div 2 ^ 8 mod 2 ^ 8) + 2 ^ 16 * (n div 2 ^ 16 mod 2 ^ 8) + 2 ^ 24 * (n div 2 ^ 24) = (n :: nat)"
proof -
  define a b c where "a = n div 2 ^ 8" and "b = a div 2 ^ 8" and "c = b div 2 ^ 8"
  have e: "n div 2 ^ 16 = b" "n div 2 ^ 24 = c" by (simp_all add: a_def b_def c_def div_mult2_eq [symmetric])
  define x y z where "x = n mod 2 ^ 8" and "y = a mod 2 ^ 8" and "z = b mod 2 ^ 8"
  have "n = 256 * a + x" "a = 256 * b + y" "b = 256 * c + z"
    unfolding x_def y_def z_def c_def b_def a_def by simp_all
  then show ?thesis unfolding e a_def [symmetric] x_def [symmetric] y_def [symmetric] z_def [symmetric] by simp
qed

lemma unat_sector:
  assumes "n < 2 ^ 28"
  shows "unat (word_of_nat n :: 32 word) = n"
  using assms by (simp add: unat_of_nat)

text \<open>The registers that \<open>idestart\<close> loads name the block, the drive and the direction of the request.\<close>

definition loaded :: "buf \<Rightarrow> ide_regs \<Rightarrow> bool" where
  "loaded x r \<longleftrightarrow> reg_sector r = b_blockno x \<and> (reg_unit r \<longleftrightarrow> odd (b_dev x)) \<and>
     r_cmd r = (if b_dirty x then IDE_CMD_WRITE else IDE_CMD_READ) \<and> (b_dirty x \<longrightarrow> r_data r = b_data x)"

lemma idestart_loads:
  assumes "b_blockno (bcache s b) < FSSIZE"
  shows "\<exists>r. idestart (Some b) s = Inr (s\<lparr>regs := r\<rparr>) \<and> loaded (bcache s b) r"
proof -
  let ?x = "bcache s b"
  let ?w = "word_of_nat (b_blockno ?x) :: 32 word" and ?d = "push_bit 4 (word_of_nat (b_dev ?x) AND 1) :: byte"
  have n: "b_blockno ?x < 2 ^ 28" using assms by (simp add: params)
  note w = unat_sector [OF n]
  let ?r = "\<lparr>r_nsect = 1, r_lba0 = ucast (?w AND 0xFF), r_lba1 = ucast (drop_bit 8 ?w AND 0xFF),
    r_lba2 = ucast (drop_bit 16 ?w AND 0xFF), r_devsel = 0xE0 OR ?d OR ucast (drop_bit 24 ?w AND 0x0F),
    r_cmd = (if b_dirty ?x then IDE_CMD_WRITE else IDE_CMD_READ), r_data = (if b_dirty ?x then b_data ?x else r_data (regs s))\<rparr>"
  have r: "idestart (Some b) s = Inr (s\<lparr>regs := ?r\<rparr>)" using assms by (simp add: idestart_def params Let_def)
  have "take_bit 4 ?d = 0" by (simp add: take_bit_push_bit)
  then have "unat (r_devsel ?r AND 0x0F) = unat (ucast (take_bit 4 (drop_bit 24 ?w)) :: byte)" by (simp add: low_nibble)
  also have "\<dots> = take_bit 8 (take_bit 4 (unat ?w div 2 ^ 24))"
    by (simp only: unsigned_ucast_eq unsigned_take_bit_eq unat_shift) simp
  also have "\<dots> = b_blockno ?x div 2 ^ 24" using n w by (simp add: take_bit_eq_mod)
  finally have hi: "unat (r_devsel ?r AND 0x0F) = b_blockno ?x div 2 ^ 24" .
  have "reg_sector ?r = b_blockno ?x"
    unfolding reg_sector_def hi using sector_bytes [of "b_blockno ?x"] w by (simp add: low_byte unat_shift)
  moreover have "reg_unit ?r \<longleftrightarrow> odd (b_dev ?x)"
    by (simp add: reg_unit_def bit_or_iff bit_push_bit_iff bit_and_iff bit_unsigned_iff bit_0)
  ultimately show ?thesis using r by (intro exI [of _ ?r]) (simp add: loaded_def)
qed

section \<open>The queue\<close>

fun linked :: "(nat \<Rightarrow> nat option) \<Rightarrow> nat option \<Rightarrow> nat list \<Rightarrow> bool" where
  "linked nx h [] \<longleftrightarrow> h = None"
| "linked nx h (b # bs) \<longleftrightarrow> h = Some b \<and> linked nx (nx b) bs"

definition pending :: "buf \<Rightarrow> bool" where
  "pending x \<longleftrightarrow> b_blockno x < FSSIZE \<and> b_dev x = 1 \<and> \<not> (b_valid x \<and> \<not> b_dirty x)"

definition ide_ok :: "nat list \<Rightarrow> 'a kide_scheme \<Rightarrow> bool" where
  "ide_ok qs s \<longleftrightarrow> linked (qnext s) (idequeue s) qs \<and> distinct qs \<and>
     (\<forall>b \<in> set qs. b < NBUF \<and> pending (bcache s b)) \<and> (qs \<noteq> [] \<longrightarrow> loaded (bcache s (hd qs)) (regs s))"

lemma linked_frame: "b \<notin> set qs \<Longrightarrow> linked (nx(b := x)) h qs = linked nx h qs"
  by (induction qs arbitrary: h) auto

lemma linked_snoc:
  "linked nx h (qs @ [q]) \<Longrightarrow> distinct (qs @ [q]) \<Longrightarrow> b \<notin> set (qs @ [q]) \<Longrightarrow> nx b = None \<Longrightarrow>
     linked (nx(q := Some b)) h (qs @ [q, b])"
  by (induction qs arbitrary: h) auto

lemma append_to_ok:
  "linked (qnext s) (Some q) (q # qs) \<Longrightarrow> length qs < n \<Longrightarrow> e = last (q # qs) \<Longrightarrow>
     append_to n b q s = Inr (s\<lparr>qnext := (qnext s)(e := Some b)\<rparr>)"
proof (induction qs arbitrary: q n)
  case Nil
  obtain m where n: "n = Suc m" using Nil(2) by (cases n) simp_all
  have "qnext s q = None" using Nil(1) by simp
  then show ?case using Nil(3) unfolding n by (simp add: fun_upd_def)
next
  case (Cons r qs)
  obtain m where n: "n = Suc m" "length qs < m" using Cons.prems(2) by (cases n) simp_all
  have "qnext s q = Some r" "linked (qnext s) (Some r) (r # qs)" using Cons.prems(1) by simp_all
  then show ?case using Cons.IH [OF _ n(2), of r] n(1) Cons.prems(3) by simp
qed

text \<open>What the synchronous driver does to buffer and disk.\<close>

definition served :: "nat \<Rightarrow> 'a kbio_scheme \<Rightarrow> 'a kbio_scheme" where
  "served b s =
     (let p = b_blockno (bcache s b) in
      if b_dirty (bcache s b) then
        upd_buf b (\<lambda>x. x\<lparr>b_dirty := False, b_valid := True\<rparr>)
          (s\<lparr>disk := (disk s)(p := b_data (bcache s b)), dtrace := dtrace s @ [(p, b_data (bcache s b))]\<rparr>)
      else upd_buf b (\<lambda>x. x\<lparr>b_data := disk s p, b_valid := True\<rparr>) s)"

lemma iderw_served:
  assumes "curpid s = Inr pid" "holdingsleep pid (b_lock (bcache s b))" "pending (bcache s b)" "FSSIZE \<le> disksize s"
  shows "iderw b s = Inr (served b s)"
  using assms by (auto simp: iderw_def served_def pending_def Let_def)

definition serve_buf :: "(nat \<Rightarrow> block) \<Rightarrow> buf \<Rightarrow> buf" where
  "serve_buf d x = x\<lparr>b_dirty := False, b_valid := True, b_data := (if b_dirty x then b_data x else d (b_blockno x))\<rparr>"

lemma served_sel [simp]:
  "bcache (served b s) = (bcache s)(b := serve_buf (disk s) (bcache s b))"
  "disk (served b s) = (if b_dirty (bcache s b) then (disk s)(b_blockno (bcache s b) := b_data (bcache s b)) else disk s)"
  "dtrace (served b s) = (if b_dirty (bcache s b) then dtrace s @ [(b_blockno (bcache s b), b_data (bcache s b))] else dtrace s)"
  "ptable (served b s) = ptable s" "locks (served b s) = locks s" "myproc (served b s) = myproc s"
  by (auto simp: served_def upd_buf_def Let_def serve_buf_def)

lemma served_ide [simp]:
  "qnext (served b s) = qnext s" "idequeue (served b s) = idequeue s" "havedisk1 (served b s) = havedisk1 s" "regs (served b s) = regs s"
  for s :: "'a kide_scheme"
  by (simp_all add: served_def upd_buf_def Let_def)

text \<open>The same result for the parts of the state that the cache and the log see.\<close>

definition same_io :: "'a kbio_scheme \<Rightarrow> 'b kbio_scheme \<Rightarrow> bool" where
  "same_io s t \<longleftrightarrow> bcache s = bcache t \<and> disk s = disk t \<and> dtrace s = dtrace t"

lemma served_same_io: "same_io s t \<Longrightarrow> same_io (served b s) (served b t)"
  by (simp add: same_io_def)

lemma flags_order: "x\<lparr>b_valid := v, b_dirty := d\<rparr> = x\<lparr>b_dirty := d, b_valid := v\<rparr>" for x :: buf
  by (cases x) simp

lemma cmd_differ: "IDE_CMD_READ \<noteq> IDE_CMD_WRITE"
  by (simp add: params)

lemma ideintr_ok:
  assumes ok: "ide_ok (b # qs) s" and l: "locks s = []" and st: "idewait True st = 0"
  shows "\<exists>t. ideintr st (drive_step s) = Inr t \<and> ide_ok qs t \<and> locks t = [] \<and> same_io t (served b s) \<and>
     ptable t = ptable (wakeup1 (Some (ChBuf b)) s) \<and> myproc t = myproc s \<and> havedisk1 t = havedisk1 s"
proof -
  note O = ok [unfolded ide_ok_def]
  let ?x = "bcache s b"
  have lo: "loaded ?x (regs s)" and pe: "pending ?x" and q: "idequeue s = Some b" "linked (qnext s) (qnext s b) qs" "b \<notin> set qs"
    using O by simp_all
  define u where "u = (served b s)\<lparr>locks := [Lide], idequeue := qnext s b\<rparr>"
  define v where "v = u\<lparr>ptable := ptable (wakeup1 (Some (ChBuf b)) s)\<rparr>"
  have b': "bcache v c = bcache s c" if "c \<noteq> b" for c using that by (simp add: v_def u_def)
  have vs: "qnext v = qnext s" "idequeue v = qnext s b" "locks v = [Lide]" "same_io v (served b s)"
      "ptable v = ptable (wakeup1 (Some (ChBuf b)) s)" "myproc v = myproc s" "havedisk1 v = havedisk1 s"
    by (simp_all add: v_def u_def same_io_def)
  have step: "ideintr st (drive_step s) = bindR (if idequeue v \<noteq> None then idestart (idequeue v) v else Inr v) (release Lide)"
  proof (cases "b_dirty ?x")
    case True
    have dr: "drive_step s = s\<lparr>disk := disk (served b s), dtrace := dtrace (served b s)\<rparr>"
      using lo pe True by (simp add: drive_step_def loaded_def pending_def Let_def)
    let ?w = "(drive_step s)\<lparr>locks := [Lide], idequeue := qnext s b,
        bcache := (bcache s)(b := ?x\<lparr>b_valid := True, b_dirty := False\<rparr>), ptable := ptable (wakeup1 (Some (ChBuf b)) s)\<rparr>"
    have "?w = v" unfolding v_def u_def dr
      by (rule kide.equality) (use True in \<open>simp_all add: serve_buf_def served_def upd_buf_def Let_def flags_order\<close>)
    moreover have "ideintr st (drive_step s) = bindR (if idequeue ?w \<noteq> None then idestart (idequeue ?w) ?w else Inr ?w) (release Lide)"
      unfolding dr using True l q(1) by (simp add: ideintr_def Let_def wakeup_ok upd_buf_def wakeup1_eq cong: if_cong)
    ultimately show ?thesis by simp
  next
    case False
    then have dr: "drive_step s = s" "drive_data (s\<lparr>locks := [Lide], idequeue := qnext s b\<rparr>) = disk s (b_blockno ?x)"
      using lo pe cmd_differ by (simp_all add: drive_step_def drive_data_def loaded_def pending_def Let_def)
    have bx: "?x\<lparr>b_data := d, b_dirty := False, b_valid := True\<rparr> = ?x\<lparr>b_data := d, b_valid := True\<rparr>" for d
      using False by (cases ?x) simp
    let ?w = "s\<lparr>locks := [Lide], idequeue := qnext s b,
        bcache := (bcache s)(b := ?x\<lparr>b_data := disk s (b_blockno ?x), b_valid := True, b_dirty := False\<rparr>),
        ptable := ptable (wakeup1 (Some (ChBuf b)) s)\<rparr>"
    have "?w = v" unfolding v_def u_def
      by (rule kide.equality) (use False in \<open>simp_all add: served_def upd_buf_def Let_def flags_order bx\<close>)
    moreover have "ideintr st (drive_step s) = bindR (if idequeue ?w \<noteq> None then idestart (idequeue ?w) ?w else Inr ?w) (release Lide)"
      unfolding dr(1) using False l q(1) st dr(2) by (simp add: ideintr_def Let_def wakeup_ok upd_buf_def wakeup1_eq cong: if_cong)
    ultimately show ?thesis by simp
  qed
  show ?thesis
  proof (cases qs)
    case Nil
    then have "idequeue v = None" using q(2) vs(2) by simp
    then show ?thesis using step vs Nil by (intro exI [of _ "v\<lparr>locks := []\<rparr>"]) (simp add: ide_ok_def same_io_def)
  next
    case (Cons c cs)
    have c: "idequeue v = Some c" "c \<noteq> b" "pending (bcache s c)" using q vs(2) O Cons by auto
    obtain r where r: "idestart (Some c) v = Inr (v\<lparr>regs := r\<rparr>)" "loaded (bcache v c) r"
      using idestart_loads [of v c] c(3) b' [OF c(2)] by (auto simp: pending_def)
    have "linked (qnext v) (idequeue v) qs" using q(2) vs(1,2) by simp
    moreover have "b' < NBUF \<and> pending (bcache v b')" if "b' \<in> set qs" for b'
    proof -
      have "bcache v b' = bcache s b'" using that q(3) by (intro b') auto
      then show ?thesis using O that by simp
    qed
    ultimately have "ide_ok qs (v\<lparr>regs := r, locks := []\<rparr>)" using O r(2) Cons by (simp add: ide_ok_def)
    then show ?thesis using step r(1) c(1) vs by (intro exI [of _ "v\<lparr>regs := r, locks := []\<rparr>"]) (simp add: same_io_def)
  qed
qed


lemma fold_served_io: "same_io s t \<Longrightarrow> same_io (fold served qs s) (fold served qs t)"
  by (induction qs arbitrary: s t) (simp_all add: served_same_io)

lemma same_io_trans: "same_io s t \<Longrightarrow> same_io t u \<Longrightarrow> same_io s u"
  by (simp add: same_io_def)

lemma asleep_woken:
  "ptable t = ptable (wakeup1 (Some ch) s) \<Longrightarrow> asleep_on ch' t = (if ch' = ch then {} else asleep_on ch' s)"
  by (auto simp: asleep_on_def wakeup1_eq)

lemma ide_drain:
  assumes "ide_ok qs s" "locks s = []" "\<And>b. idewait True (st b) = 0"
  shows "\<exists>t. foldR (\<lambda>b s. ideintr (st b) (drive_step s)) qs s = Inr t \<and> ide_ok [] t \<and> locks t = [] \<and>
     same_io t (fold served qs s) \<and> (\<forall>ch. asleep_on ch t = (if \<exists>b \<in> set qs. ch = ChBuf b then {} else asleep_on ch s))"
  using assms(1,2)
proof (induction qs arbitrary: s)
  case Nil
  then show ?case by (simp add: same_io_def)
next
  case (Cons b qs)
  obtain t where t: "ideintr (st b) (drive_step s) = Inr t" "ide_ok qs t" "locks t = []" "same_io t (served b s)"
      "ptable t = ptable (wakeup1 (Some (ChBuf b)) s)"
    using ideintr_ok [OF Cons.prems assms(3)] by blast
  obtain u where u: "foldR (\<lambda>b s. ideintr (st b) (drive_step s)) qs t = Inr u" "ide_ok [] u" "locks u = []"
      "same_io u (fold served qs t)" "\<forall>ch. asleep_on ch u = (if \<exists>b \<in> set qs. ch = ChBuf b then {} else asleep_on ch t)"
    using Cons.IH [OF t(2,3)] by blast
  have io: "same_io u (fold served (b # qs) s)" using same_io_trans [OF u(4) fold_served_io [OF t(4)]] by simp
  have "asleep_on ch u = (if \<exists>c \<in> set (b # qs). ch = ChBuf c then {} else asleep_on ch s)" for ch
    using u(5) asleep_woken [OF t(5), of ch] by auto
  then show ?case using t(1) u(1-3) io by simp
qed

lemma ide_ok_cong:
  assumes "qnext t = qnext s" "idequeue t = idequeue s" "bcache t = bcache s" "regs t = regs s"
  shows "ide_ok qs t = ide_ok qs s"
  using assms by (simp add: ide_ok_def)

lemma ide_submit:
  assumes ok: "ide_ok qs s" and l: "locks s = []" and p: "myproc s = Some p" "holdingsleep (p_pid (ptable s p)) (b_lock (bcache s b))"
    and b: "pending (bcache s b)" "b < NBUF" "b \<notin> set qs" and d: "havedisk1 s"
  shows "\<exists>t. ide_iderw b s = Inr (Asleep b, t) \<and> ide_ok (qs @ [b]) t \<and> same_io t s \<and> locks t = [Lptable] \<and>
     ptable t = (ptable s)(p := (ptable s p)\<lparr>p_chan := Some (ChBuf b), p_state := SLEEPING\<rparr>)"
proof -
  note O = ok [unfolded ide_ok_def]
  let ?s = "s\<lparr>locks := [Lide], qnext := (qnext s)(b := None)\<rparr>"
  have nq: "linked (qnext ?s) (idequeue s) qs" using O linked_frame [OF b(3)] by simp
  have "length qs < NBUF"
  proof -
    have "insert b (set qs) \<subseteq> {..<NBUF}" using O b(2) by auto
    then have "card (insert b (set qs)) \<le> NBUF" using card_mono [of "{..<NBUF}"] by fastforce
    then show ?thesis using O b(3) by (simp add: distinct_card)
  qed
  then have "\<exists>u. (case idequeue ?s of None \<Rightarrow> Inr (?s\<lparr>idequeue := Some b\<rparr>) | Some q \<Rightarrow> append_to NBUF b q ?s) = Inr u \<and>
      linked (qnext u) (idequeue u) (qs @ [b]) \<and> u = ?s\<lparr>qnext := qnext u, idequeue := idequeue u\<rparr> \<and> (idequeue u = Some b \<longleftrightarrow> qs = [])"
  proof (cases qs rule: rev_cases)
    case Nil
    then show ?thesis using nq by (intro exI [of _ "?s\<lparr>idequeue := Some b\<rparr>"]) simp
  next
    case (snoc rs q)
    obtain h ts where h1: "qs = h # ts" using snoc by (cases rs) auto
    have "last qs = q" using snoc by simp
    then have h: "qs = h # ts" "idequeue s = Some h" "q = last (h # ts)" using nq h1 by auto
    have "append_to NBUF b h ?s = Inr (?s\<lparr>qnext := (qnext ?s)(q := Some b)\<rparr>)"
      using nq h \<open>length qs < NBUF\<close> by (intro append_to_ok [of _ _ ts]) simp_all
    moreover have "linked ((qnext ?s)(q := Some b)) (idequeue s) (qs @ [b])"
      using linked_snoc [of "qnext ?s" "idequeue s" rs q b] nq O b(3) snoc by simp
    moreover have "h \<noteq> b" using h(1) b(3) by auto
    ultimately show ?thesis using h by (intro exI [of _ "?s\<lparr>qnext := (qnext ?s)(q := Some b)\<rparr>"]) simp
  qed
  then obtain u where u: "(case idequeue ?s of None \<Rightarrow> Inr (?s\<lparr>idequeue := Some b\<rparr>) | Some q \<Rightarrow> append_to NBUF b q ?s) = Inr u"
      "linked (qnext u) (idequeue u) (qs @ [b])" "u = ?s\<lparr>qnext := qnext u, idequeue := idequeue u\<rparr>" "idequeue u = Some b \<longleftrightarrow> qs = []"
    by blast
  have us: "bcache u = bcache s" "locks u = [Lide]" "myproc u = Some p" "ptable u = ptable s" "regs u = regs s"
      "disk u = disk s" "dtrace u = dtrace s" by (subst u(3), simp add: p(1))+
  obtain v where v: "(if idequeue u = Some b then idestart (Some b) u else Inr u) = Inr v" "v = u\<lparr>regs := regs v\<rparr>"
      "loaded (bcache s (hd (qs @ [b]))) (regs v)"
  proof (cases "qs = []")
    case True
    obtain r where "idestart (Some b) u = Inr (u\<lparr>regs := r\<rparr>)" "loaded (bcache u b) r"
      using idestart_loads [of u b] b(1) us(1) by (auto simp: pending_def)
    then show ?thesis using that [of "u\<lparr>regs := r\<rparr>"] True u(4) us(1) by simp
  next
    case False
    then show ?thesis using that [of u] u(4) O us(5) by simp
  qed
  let ?t = "v\<lparr>ptable := (ptable v)(p := (ptable v p)\<lparr>p_chan := Some (ChBuf b), p_state := SLEEPING\<rparr>), locks := [Lptable]\<rparr>"
  have vs: "bcache v = bcache s" "locks v = [Lide]" "myproc v = Some p" "ptable v = ptable s" "qnext v = qnext u" "idequeue v = idequeue u"
      "disk v = disk s" "dtrace v = dtrace s" by (subst v(2), simp add: us)+
  have nv: "\<not> (b_valid (bcache s b) \<and> \<not> b_dirty (bcache s b))" using b(1) by (simp add: pending_def)
  have "iderw_wait b v = Inr (Asleep b, ?t)"
    unfolding iderw_wait_def vs(1) if_not_P [OF nv] using sleep_ok [OF vs(3,2), of "ChBuf b"] by simp
  then have "ide_iderw b s = Inr (Asleep b, ?t)"
    unfolding ide_iderw_def if_not_P [OF nv] using l p d u(1) v(1)
    by (simp add: curpid_def Let_def cong: option.case_cong)
  moreover have "ide_ok (qs @ [b]) ?t" using u(2) O b vs v(3) by (simp add: ide_ok_def)
  moreover have "same_io ?t s" using vs by (simp add: same_io_def)
  ultimately show ?thesis using vs(4) by (intro exI [of _ ?t]) simp
qed

text \<open>
  C37. The interrupt-driven driver does what the synchronous one does. A process that asks for a
  buffer is put to sleep behind the requests that wait; when the drive has answered every
  request with an interrupt, the buffers, the disk and the order of the disk writes are those
  of the synchronous driver called for the same buffers in the order of the queue, nobody sleeps on one of
  them any more, and the call of the process returns when it runs again.
\<close>

theorem ide_refines:
  fixes s :: "'a kide_scheme"
  assumes "ide_ok qs s" "locks s = []" "myproc s = Some p" "holdingsleep (p_pid (ptable s p)) (b_lock (bcache s b))"
    "pending (bcache s b)" "b < NBUF" "b \<notin> set qs" "havedisk1 s" "\<And>b. idewait True (st b) = 0"
  shows "\<exists>t u v. ide_iderw b s = Inr (Asleep b, t) \<and> p \<in> {q. p_state (ptable t q) = SLEEPING \<and> p_chan (ptable t q) = Some (ChBuf b)} \<and>
     foldR (\<lambda>b s. ideintr (st b) (drive_step s)) (qs @ [b]) (t\<lparr>locks := []\<rparr>) = Inr u \<and> ide_ok [] u \<and>
     same_io u (fold served (qs @ [b]) s) \<and> (\<forall>c \<in> set (qs @ [b]). asleep_on (ChBuf c) u = {}) \<and>
     ide_iderw_resume p b (u\<lparr>locks := [Lptable]\<rparr>) = Inr (Done (), v) \<and> same_io v u \<and>
     (FSSIZE \<le> disksize s \<longrightarrow> iderw b s = Inr (served b s))"
proof -
  obtain t where t: "ide_iderw b s = Inr (Asleep b, t)" "ide_ok (qs @ [b]) t" "same_io t s"
      "ptable t = (ptable s)(p := (ptable s p)\<lparr>p_chan := Some (ChBuf b), p_state := SLEEPING\<rparr>)"
    using ide_submit [OF assms(1-8)] by blast
  have pt: "ptable t p = (ptable s p)\<lparr>p_chan := Some (ChBuf b), p_state := SLEEPING\<rparr>" using t(4) by simp
  have "ide_ok (qs @ [b]) (t\<lparr>locks := []\<rparr>)" using t(2) by (simp add: ide_ok_def)
  then obtain u where u: "foldR (\<lambda>b s. ideintr (st b) (drive_step s)) (qs @ [b]) (t\<lparr>locks := []\<rparr>) = Inr u" "ide_ok [] u"
      "locks u = []" "same_io u (fold served (qs @ [b]) (t\<lparr>locks := []\<rparr>))" "\<forall>c \<in> set (qs @ [b]). asleep_on (ChBuf c) u = {}"
    using ide_drain [of "qs @ [b]" "t\<lparr>locks := []\<rparr>" st] assms(9) by auto
  have "same_io (t\<lparr>locks := []\<rparr>) s" using t(3) by (simp add: same_io_def)
  from same_io_trans [OF u(4) fold_served_io [OF this]] have io: "same_io u (fold served (qs @ [b]) s)" .
  then have "b_valid (bcache u b)" "\<not> b_dirty (bcache u b)" by (simp_all add: same_io_def serve_buf_def)
  then have "\<exists>v. ide_iderw_resume p b (u\<lparr>locks := [Lptable]\<rparr>) = Inr (Done (), v) \<and> same_io v u"
    by (simp add: ide_iderw_resume_def sleep_resume_def iderw_wait_def upd_proc_def same_io_def)
  moreover have "FSSIZE \<le> disksize s \<longrightarrow> iderw b s = Inr (served b s)"
    using iderw_served [of s, OF _ assms(4,5)] assms(3) by (simp add: curpid_def)
  ultimately show ?thesis using t(1) pt u(1,2,5) io by auto
qed

definition boot_kide :: "(nat \<Rightarrow> block) \<Rightarrow> kide" where
  "boot_kide d = kbio.extend
     ((boot_kbio d FSSIZE)\<lparr>bcache := \<lambda>b. zero_buf\<lparr>b_dev := 1, b_blockno := b + 4, b_lock := \<lparr>sl_locked = True, sl_pid = 0\<rparr>\<rparr>\<rparr>)
     (kide.fields (\<lambda>_ _. 0) \<lparr>r_nsect = 0, r_lba0 = 0, r_lba1 = 0, r_lba2 = 0, r_devsel = 0, r_cmd = 0, r_data = (\<lambda>_. 0)\<rparr>
       None (\<lambda>_. None) True)"

lemma boot_kide_sel [simp]:
  "bcache (boot_kide d) b = zero_buf\<lparr>b_dev := 1, b_blockno := b + 4, b_lock := \<lparr>sl_locked = True, sl_pid = 0\<rparr>\<rparr>"
  "disk (boot_kide d) = d" "disksize (boot_kide d) = FSSIZE" "locks (boot_kide d) = []" "myproc (boot_kide d) = Some 0"
  "p_pid (ptable (boot_kide d) q) = 0" "idequeue (boot_kide d) = None" "havedisk1 (boot_kide d)"
  by (simp_all add: boot_kide_def boot_kbio_def boot_kmem_def kproc.defs kmem.defs kvm.defs kbio.defs kide.defs boot_kproc_def zero_proc_def)

theorem ide_refines_witness:
  "\<exists>t u. ide_iderw 3 (boot_kide (\<lambda>n i. word_of_nat n)) = Inr (Asleep 3, t) \<and>
     ideintr 0x40 (drive_step (t\<lparr>locks := []\<rparr>)) = Inr u \<and> b_valid (bcache u 3) \<and> b_data (bcache u 3) 0 = 7"
proof -
  let ?s = "boot_kide (\<lambda>n i. word_of_nat n)"
  have ok: "ide_ok [] ?s" by (simp add: ide_ok_def)
  have h: "holdingsleep (p_pid (ptable ?s 0)) (b_lock (bcache ?s 3))" by (simp add: holdingsleep_def)
  have pe: "pending (bcache ?s 3)" by (simp add: pending_def zero_buf_def params)
  have w: "idewait True 0x40 = 0" by (simp add: idewait_def params)
  obtain t u where t: "ide_iderw 3 ?s = Inr (Asleep 3, t)"
      "foldR (\<lambda>b s. ideintr 0x40 (drive_step s)) ([] @ [3 :: nat]) (t\<lparr>locks := []\<rparr>) = Inr u" "same_io u (fold served ([] @ [3]) ?s)"
    using ide_refines [OF ok _ _ h pe, of "\<lambda>_. 0x40"] w by (auto simp: params simp del: foldR.simps)
  then show ?thesis by (auto simp: same_io_def serve_buf_def zero_buf_def res_iff)
qed

text \<open>
  A drive error is not noticed: a buffer whose read failed is marked valid with the bytes it had
  before.
\<close>

lemma ideintr_ignores_error:
  assumes "ide_ok [b] s" "locks s = []" "\<not> b_dirty (bcache s b)" "st AND (IDE_DF OR IDE_ERR) \<noteq> 0"
  shows "\<exists>t. ideintr st (drive_step s) = Inr t \<and> b_valid (bcache t b) \<and> b_data (bcache t b) = b_data (bcache s b)"
proof -
  note O = assms(1) [unfolded ide_ok_def]
  have dr: "drive_step s = s" using O assms(3) cmd_differ by (simp add: drive_step_def loaded_def Let_def)
  have q: "idequeue s = Some b" "qnext s b = None" using O by simp_all
  show ?thesis unfolding dr using assms(2-4) q
    by (simp add: ideintr_def Let_def wakeup_ok upd_buf_def idewait_def release_def holding_def)
qed

end
