(* ===== verification/FileWrite.thy ===== *)
theory FileWrite
  imports FileOps FsInode
begin

text \<open>
  Writing through an open file (\<open>filewrite\<close> and \<open>filepwrite\<close> of \<^verbatim>\<open>file.c\<close>): a loop of
  transactions, each of which begins an operation, locks the inode, writes at most 1536 bytes,
  unlocks and ends the operation, which may commit. The lemmas put together what the log, the inode
  layer and the file layer promise.
\<close>

section \<open>Between transactions\<close>

text \<open>No operation runs, and less than half of the log is used.\<close>

definition fs_idle :: "int \<Rightarrow> 'a kfs_scheme \<Rightarrow> bool" where
  "fs_idle pid s \<longleftrightarrow> log_wf pid s \<and> held s = {} \<and> \<not> lg_committing s \<and> lg_outstanding s = 0 \<and> lg_size s = int LOGSIZE \<and>
     lg_n s \<le> lg_size s div 2 \<and> fs_wf s"

text \<open>An inode with a reference that nobody has locked.\<close>

definition inode_open :: "'a kfs_scheme \<Rightarrow> nat \<Rightarrow> bool" where
  "inode_open s ip \<longleftrightarrow> file_ok s ip \<and> 1 \<le> i_ref (icache s ip) \<and> \<not> sl_locked (i_lock (icache s ip)) \<and> i_valid (icache s ip) \<and>
     i_type (icache s ip) \<noteq> T_DEV \<and> i_inum (icache s ip) < unat (sb_ninodes (fs_sb s))"

lemma upd_inode_committing [simp]: "lg_committing (upd_inode ip f s) = lg_committing s"
  by (simp add: upd_inode_def)

lemma fs_frame:
  fixes s t :: "'a kfs_scheme"
  assumes wf: "fs_wf s" and v: "\<And>b. b \<in> home_blocks s \<Longrightarrow> view t b = view s b"
    and eq: "fs_sb t = fs_sb s" "home_blocks t = home_blocks s" "disksize t = disksize s"
  shows "fs_wf t" "data t = data s"
    "tree_ok (view s) B (data s) \<Longrightarrow> tree_ok (view t) B (data t) \<and> tree (view t) B = tree (view s) B \<and>
      (\<forall>p. pos_ok p \<longrightarrow> lookup (view t) B p = lookup (view s) B p) \<and>
      (\<forall>x. x div BSIZE < MAXFILE \<longrightarrow> content (view t) B x = content (view s) B x)"
proof -
  have fz: "fsize t = fsize s" "meta t = meta s" using eq by (simp_all add: fsize_def meta_def)
  have "view t (BBLOCK c (fs_sb s)) = view s (BBLOCK c (fs_sb s))" if "c < fsize s" for c
    using v wf that by (auto simp: fs_wf_def meta_def)
  then have fr: "free t = free s" using eq fz by (auto simp: free_def)
  then show "fs_wf t" using wf eq fz by (simp add: fs_wf_def)
  show d: "data t = data s" using eq fz fr by (simp add: data_def)
  assume B: "tree_ok (view s) B (data s)"
  then have sm: "view t a = view s a" if "a \<in> tree (view s) B" for a using that v by (auto simp: tree_ok_def data_def)
  have l: "lookup (view t) B p = lookup (view s) B p" if "pos_ok p" for p using sm that by (rule lookup_frame)
  have "content (view t) B x = content (view s) B x" if "x div BSIZE < MAXFILE" for x
  proof -
    have q: "pos_ok (bpath (x div BSIZE))" using bpath_leaf [OF that] by (simp add: leaf_def)
    then show ?thesis using l [OF q] sm [OF tree_memI [OF q]] by (simp add: content_def Let_def)
  qed
  then show "tree_ok (view t) B (data t) \<and> tree (view t) B = tree (view s) B \<and> (\<forall>p. pos_ok p \<longrightarrow> lookup (view t) B p = lookup (view s) B p) \<and>
      (\<forall>x. x div BSIZE < MAXFILE \<longrightarrow> content (view t) B x = content (view s) B x)"
    using B d tree_frame [of "view s" B "view t", OF sm] l by auto
qed

lemma mapped_frame:
  assumes "mapped s ip a m" "a + m \<le> MAXFILE * BSIZE" "addrs t ip = addrs s ip"
    "\<And>p. pos_ok p \<Longrightarrow> lookup (view t) (addrs s ip) p = lookup (view s) (addrs s ip) p"
  shows "mapped t ip a m"
proof -
  have "pos_ok (bpath ((a + i) div BSIZE))" if "i < m" for i
    using that assms(2) bpath_leaf [of "(a + i) div BSIZE"] by (simp add: leaf_def less_mult_imp_div_less)
  then show ?thesis using assms(1,3,4) by (simp add: mapped_def)
qed

lemma span_card: "n \<le> 1536 \<Longrightarrow> card (span off n) \<le> 4"
proof -
  assume n: "n \<le> 1536"
  have "span off n \<subseteq> {off div 512..<off div 512 + 4}"
  proof
    fix b assume "b \<in> span off n"
    then obtain i where i: "i < n" "b = (off + i) div 512" by (auto simp: span_def params)
    have "(off + i) div 512 \<le> (off + 1535) div 512" using i(1) n by (intro div_le_mono) simp
    also have "\<dots> \<le> off div 512 + 3" by simp
    finally show "b \<in> {off div 512..<off div 512 + 4}" using i(2) by (simp add: div_le_mono)
  qed
  then have "card (span off n) \<le> card {off div 512..<off div 512 + 4}" by (intro card_mono) auto
  then show ?thesis by simp
qed

lemma unmapped_mapped: "mapped s ip off n \<Longrightarrow> unmapped s ip (span off n) = 0"
  by (auto simp: unmapped_def mapped_def span_def)

section \<open>One transaction\<close>

text \<open>The first half of a round: the operation has begun and the inode is locked.\<close>

lemma enter_ok:
  fixes s :: "'a kfs_scheme"
  assumes idle: "fs_idle pid s" and io: "inode_open s ip"
  defines "t \<equiv> upd_inode ip (\<lambda>x. x\<lparr>i_lock := \<lparr>sl_locked = True, sl_pid = pid\<rparr>\<rparr>) (s\<lparr>lg_outstanding := 1\<rparr>)"
  shows "begin_op s = Inr (s\<lparr>lg_outstanding := 1\<rparr>)" "ilock (Some ip) (s\<lparr>lg_outstanding := 1\<rparr>) = Inr t"
    "fs_ok pid t" "file_ok t ip" "view t = view s" "addrs t = addrs s" "log_space t = log_space s"
    "apart s ip B \<Longrightarrow> apart t ip B" "14 \<le> log_space s" "free t = free s"
proof -
  let ?s = "s\<lparr>lg_outstanding := 1\<rparr>"
  have w: "log_wf pid s" "held s = {}" "lg_outstanding s = 0" "\<not> lg_committing s" "lg_size s = int LOGSIZE" "lg_n s \<le> lg_size s div 2"
    "fs_wf s" using idle unfolding fs_idle_def by blast+
  have lk: "locks s = []" "curpid s = Inr pid" using w(1) by (simp_all add: log_wf_def bio_wf_def)
  show "begin_op s = Inr ?s" using w lk by (simp add: begin_op_eq params)
  have cp: "curpid ?s = Inr pid" using lk(2) by (simp add: curpid_def split: option.splits)
  show "ilock (Some ip) ?s = Inr t"
    using io cp by (simp add: ilock_def lock_inode_def acquiresleep_def inode_open_def t_def)
  have vs: "view ?s = view s" "held ?s = held s" by (rule obs_cong; simp)+
  have fr: "fs_wf ?s" "data ?s = data s" by (rule fs_frame [OF w(7)]; simp add: vs home_blocks_def log_area_def)+
  show "fs_ok pid t" using w fr(1) vs by (simp add: t_def fs_ok_def txn_def)
  show vt: "view t = view s" by (simp add: t_def vs)
  show A: "addrs t = addrs s" by (auto simp: t_def addrs_def fun_eq_iff upd_inode_def)
  have dt: "data t = data s" by (simp add: t_def fr)
  show "file_ok t ip" using io A vt dt by (simp add: inode_open_def file_ok_def) (simp add: t_def)
  show "log_space t = log_space s" by (simp add: t_def log_space_def)
  show "14 \<le> log_space s" using w by (simp add: log_space_def params)
  have "fsize ?s = fsize s" by (simp add: fsize_def)
  then show "free t = free s" by (simp add: t_def) (simp add: free_def vs)
  show "apart t ip B" if "apart s ip B" using that A vt dt by (simp add: apart_def)
qed

text \<open>The second half: the inode is unlocked and the operation ends.\<close>

lemma leave_ok:
  fixes s :: "'a kfs_scheme"
  assumes ok: "fs_ok pid s" and l: "lg_outstanding s = 1" "\<not> lg_committing s" "lg_size s = int LOGSIZE"
    and lk: "holdingsleep pid (i_lock (icache s ip))" "1 \<le> i_ref (icache s ip)"
  shows "\<exists>t u. iunlock (Some ip) s = Inr t \<and> end_op t = Inr u \<and> fs_idle pid u \<and>
    icache u = (icache s)(ip := (icache s ip)\<lparr>i_lock := releasesleep (i_lock (icache s ip))\<rparr>) \<and> fs_sb u = fs_sb s \<and>
    kfs.more u = kfs.more s \<and> (\<forall>b \<in> home_blocks s. view u b = view s b) \<and> home_blocks u = home_blocks s \<and> disksize u = disksize s"
proof -
  note w = fs_okD [OF ok]
  have cp: "curpid s = Inr pid" "locks s = []" using w(1) by (simp_all add: log_wf_def bio_wf_def)
  let ?r = "upd_inode ip (\<lambda>x. x\<lparr>i_lock := releasesleep (i_lock x)\<rparr>) s"
  let ?t = "?r\<lparr>ptable := ptable (wakeup1 (Some (ChInode ip)) ?r)\<rparr>"
  have un: "iunlock (Some ip) s = Inr ?t" using cp lk by (simp add: iunlock_def unlock_inode_def wakeup_ok)
  have o: "held ?t = held ?r" "view ?t = view ?r" by (rule obs_cong; simp)+
  have wt: "log_wf pid ?t" "held ?t = {}" "\<not> lg_committing ?t" using log_wf_wakeup [of pid ?r ?r] w(1,2) l(2) o by simp_all
  obtain u where u: "end_op ?t = Inr u" "log_wf pid u" "held u = {}" "\<not> lg_committing u" "lg_outstanding u = 0" "lg_size u = lg_size s"
      "lg_start u = lg_start s" "disksize u = disksize s" "lg_n u \<le> lg_size s div 2"
      "\<forall>b. b \<notin> log_area ?t \<longrightarrow> view u b = view ?t b" "log_step (?t\<lparr>lg_outstanding := 0\<rparr>) u"
    using end_op_ok [OF wt] l by (auto split: if_splits)
  have ic: "icache u = icache ?r" "fs_sb u = fs_sb s" using log_step_fs(1,2) [OF u(11)] by simp_all
  have m: "kfs.more u = kfs.more s"
    using arg_cong [OF u(11) [unfolded log_step_def], of kfs.more] by (simp add: upd_inode_def)
  have hb: "home_blocks u = home_blocks s" using u(6-8) by (simp add: home_blocks_def log_area_def)
  have vw: "view u b = view s b" if "b \<in> home_blocks s" for b
    using u(10) that o by (simp add: home_blocks_def log_area_def)
  have "fs_wf u" by (rule fs_frame(1) [OF w(4) vw ic(2) hb u(8)])
  then have "fs_idle pid u" using u l by (simp add: fs_idle_def)
  then show ?thesis using un u(1,8) ic m hb vw by (simp add: upd_inode_def fun_upd_def)
qed

text \<open>
  What a write of the \<open>n\<close> bytes \<open>src\<close> at offset \<open>off\<close> does to a file, and that it does nothing
  else: no other file changes and no part of this one is unmapped.
\<close>

definition file_written :: "nat \<Rightarrow> (nat \<Rightarrow> byte) \<Rightarrow> nat \<Rightarrow> nat \<Rightarrow> 'a kfs_scheme \<Rightarrow> 'a kfs_scheme \<Rightarrow> bool" where
  "file_written ip src off n s t \<longleftrightarrow> i_size (icache t ip) = max (i_size (icache s ip)) (off + n) \<and>
     (\<forall>x. x div BSIZE < MAXFILE \<longrightarrow>
       content (view t) (addrs t ip) x = (if off \<le> x \<and> x < off + n then src (x - off) else content (view s) (addrs s ip) x)) \<and>
     (\<forall>a m. mapped s ip a m \<and> a + m \<le> MAXFILE * BSIZE \<longrightarrow> mapped t ip a m) \<and>
     (\<forall>B. apart s ip B \<longrightarrow> apart t ip B \<and> (\<forall>x. x div BSIZE < MAXFILE \<longrightarrow> content (view t) B x = content (view s) B x))"

lemma file_written_none: "off \<le> i_size (icache s ip) \<Longrightarrow> file_written ip src off 0 s s"
  by (auto simp: file_written_def max_def)

lemma file_written_append:
  assumes "file_written ip src off n s t" "file_written ip (\<lambda>k. src (n + k)) (off + n) m t u"
  shows "file_written ip src off (n + m) s u"
proof -
  have "content (view u) (addrs u ip) x = (if off \<le> x \<and> x < off + (n + m) then src (x - off) else content (view s) (addrs s ip) x)"
    if "x div BSIZE < MAXFILE" for x
  proof -
    have "n + (x - (off + n)) = x - off" if "off + n \<le> x" using that by simp
    then show ?thesis using assms that by (auto simp: file_written_def)
  qed
  then show ?thesis using assms by (auto simp: file_written_def)
qed

lemma ftable_more: "kfs.more s = kfs.more t \<Longrightarrow> ftable s = ftable t" for s t :: "'a kfile_scheme"
  by (cases s, cases t) simp

lemma write_round_ok:
  fixes s :: "'a kfile_scheme"
  assumes idle: "fs_idle pid s" and io: "inode_open s ip" and f: "f_ip (ftable s f) = Some ip"
    and off: "off \<le> i_size (icache s ip)" and n: "0 < n" "n \<le> 1536" "off + n \<le> MAXFILE * BSIZE"
    and sp: "4 * unmapped s ip (span off n) \<le> card (free s)" "12 * int (unmapped s ip (span off n)) + int (card (span off n)) + 1 \<le> log_space s"
    and after: "\<And>r u. after r u = u\<lparr>ftable := g r (ftable u)\<rparr>"
  shows "\<exists>t. write_round devw f src off (int n) after s = Inr (int n, t) \<and> fs_idle pid t \<and> inode_open t ip \<and>
    ftable t = g (int n) (ftable s) \<and> file_written ip src off n s t \<and> mapped t ip off n \<and>
    card (free s) \<le> card (free t) + 4 * unmapped s ip (span off n)"
proof -
  let ?s = "upd_inode ip (\<lambda>x. x\<lparr>i_lock := \<lparr>sl_locked = True, sl_pid = pid\<rparr>\<rparr>) (s\<lparr>lg_outstanding := 1\<rparr>)"
  note e = enter_ok [OF idle io]
  have un: "unmapped ?s ip (span off n) = unmapped s ip (span off n)" using e(5,6) by (simp add: unmapped_def)
  have sz: "i_size (icache ?s ip) = i_size (icache s ip)" by simp
  have w: "\<not> lg_committing s" "lg_size s = int LOGSIZE" using idle unfolding fs_idle_def by blast+
  obtain t where t: "writei devw ip src off n ?s = Inr (int n, t)" "fs_ok pid t" "file_ok t ip"
      "icache t = (icache ?s)(ip := (icache ?s ip)\<lparr>i_size := max (i_size (icache ?s ip)) (off + n), i_addrs := addrs t ip\<rparr>)"
      "\<forall>x. x div BSIZE < MAXFILE \<longrightarrow> content (view t) (addrs t ip) x =
         (if off \<le> x \<and> x < off + n then src (x - off) else content (view ?s) (addrs ?s ip) x)"
      "\<forall>B. apart ?s ip B \<longrightarrow> apart t ip B \<and> (\<forall>x. x div BSIZE < MAXFILE \<longrightarrow> content (view t) B x = content (view ?s) B x)"
      "fs_step ?s t" "\<forall>a m. mapped ?s ip a m \<and> a + m \<le> MAXFILE * BSIZE \<longrightarrow> mapped t ip a m" "mapped t ip off n"
      "card (free s) \<le> card (free t) + 4 * unmapped s ip (span off n)"
    using writei_ok [OF e(3,4), of off n devw src] off n sp e(7,10) un io
    by (auto simp: inode_open_def)
  let ?u = "t\<lparr>ftable := g (int n) (ftable t)\<rparr>"
  have uv: "view ?u = view t" "held ?u = held t" by (rule obs_cong; simp)+
  have wu: "log_wf pid ?u = log_wf pid t"
  proof -
    have "bio_wf pid ?u = bio_wf pid t" by (rule bio_wf_cong) (simp_all add: curpid_def split: option.split)
    then show ?thesis using uv obs_cong(3) [of ?u t] by (simp add: log_wf_def log_area_def logged_def)
  qed
  note wt = fs_okD [OF t(2)]
  have fu: "fs_wf ?u" by (rule fs_frame(1) [OF wt(4)]) (simp_all add: uv home_blocks_def log_area_def)
  note st = fs_step_sel [OF t(7)]
  have ft: "ftable t = ftable s" using arg_cong [OF t(7) [unfolded fs_step_def], of ftable] by (simp add: upd_inode_def)
  have ict: "icache ?u ip = (icache s ip)\<lparr>i_lock := \<lparr>sl_locked = True, sl_pid = pid\<rparr>, i_size := max (i_size (icache s ip)) (off + n), i_addrs := addrs t ip\<rparr>"
    using arg_cong [OF t(4), of "\<lambda>f. f ip"] by simp
  have "fs_ok pid ?u" using wt wu uv fu st(8) by (simp add: fs_ok_def txn_def)
  moreover have "lg_outstanding ?u = 1" "\<not> lg_committing ?u" "lg_size ?u = int LOGSIZE" using st(7-9) w by simp_all
  moreover have "holdingsleep pid (i_lock (icache ?u ip))" "1 \<le> i_ref (icache ?u ip)"
    using ict io by (simp_all add: holdingsleep_def inode_open_def)
  ultimately obtain x v where v: "iunlock (Some ip) ?u = Inr x" "end_op x = Inr v" "fs_idle pid v"
      "icache v = (icache ?u)(ip := (icache ?u ip)\<lparr>i_lock := releasesleep (i_lock (icache ?u ip))\<rparr>)" "fs_sb v = fs_sb ?u"
      "kfs.more v = kfs.more ?u" "\<And>b. b \<in> home_blocks ?u \<Longrightarrow> view v b = view ?u b" "home_blocks v = home_blocks ?u" "disksize v = disksize ?u"
    using leave_ok [of pid ?u ip] by blast
  have icv: "icache v ip = (icache s ip)\<lparr>i_lock := \<lparr>sl_locked = False, sl_pid = 0\<rparr>, i_size := max (i_size (icache s ip)) (off + n), i_addrs := addrs t ip\<rparr>"
    using arg_cong [OF v(4), of "\<lambda>f. f ip"] ict by (simp add: releasesleep_def)
  have A: "addrs v ip = addrs t ip" using icv by (simp add: addrs_def)
  have vt: "view v b = view t b" if "b \<in> home_blocks t" for b using v(7) [of b] that uv by (simp add: home_blocks_def log_area_def)
  have hv: "fs_sb v = fs_sb t" "home_blocks v = home_blocks t" "disksize v = disksize t" using v(5,8,9) by (simp_all add: home_blocks_def log_area_def)
  note fr = fs_frame [OF wt(4) vt hv, simplified]
  have own: "tree_ok (view t) (addrs t ip) (data t)" using t(3) by (simp add: file_ok_def)
  note fo = fr(3) [OF own]
  have "write_round devw f src off (int n) after s = Inr (int n, v)"
    using e(1,2) f t(1) v(1,2) n(3) by (simp add: write_round_def after to_uint_def params upd_inode_def)
  moreover have "ftable v = g (int n) (ftable s)"
    using ftable_more [OF v(6)] ft by simp
  moreover have "inode_open v ip" using io icv fo A hv st(11) by (simp add: inode_open_def file_ok_def)
  moreover have "file_written ip src off n s v"
    unfolding file_written_def
  proof (intro conjI allI impI)
    show "i_size (icache v ip) = max (i_size (icache s ip)) (off + n)" using icv by simp
    show "content (view v) (addrs v ip) x = (if off \<le> x \<and> x < off + n then src (x - off) else content (view s) (addrs s ip) x)"
      if "x div BSIZE < MAXFILE" for x using that fo A t(5) e(5,6) by simp
    show "mapped v ip a m" if "mapped s ip a m \<and> a + m \<le> MAXFILE * BSIZE" for a m
    proof (rule mapped_frame [OF _ _ A])
      have "mapped ?s ip a m" using that e(5,6) by (simp add: mapped_def)
      then show "mapped t ip a m" using t(8) that by blast
    qed (use that fo in auto)
    fix B assume B: "apart s ip B"
    note o = t(6) [rule_format, OF e(8) [OF B]]
    then have "tree_ok (view t) B (data t)" by (simp add: apart_def)
    note fb = fr(3) [OF this]
    show "apart v ip B" using o fb fo A by (simp add: apart_def)
    show "content (view v) B x = content (view s) B x" if "x div BSIZE < MAXFILE" for x using that o fb e(5) by simp
  qed
  moreover have "mapped v ip off n" by (rule mapped_frame [OF t(9) n(3) A]) (use fo in auto)
  moreover have "card (free s) \<le> card (free v) + 4 * unmapped s ip (span off n)"
  proof -
    have "BBLOCK b (fs_sb t) \<in> home_blocks t" if "b < fsize t" for b using wt(4) that by (auto simp: fs_wf_def meta_def)
    then have "free v = free t" using vt hv(1) by (auto simp: free_def fsize_def)
    then show ?thesis using t(10) by simp
  qed
  ultimately show ?thesis using v(3) by blast
qed

section \<open>Room for a write\<close>

text \<open>
  A write that allocates needs free blocks, and every transaction needs room in the log. A
  missing block may need four new blocks, three of them on the path to it, and each of them at
  most three log entries; the blocks of the range and the inode add their own. The first
  transaction has what is left of the log, a later one the 14 entries that are left when the
  log is as full as it can be between transactions.
\<close>

definition round_cost :: "'a kfs_scheme \<Rightarrow> nat \<Rightarrow> nat \<Rightarrow> nat \<Rightarrow> int" where
  "round_cost s ip off k = 12 * int (unmapped s ip (span off k)) + int (card (span off k)) + 1"

definition write_room :: "'a kfs_scheme \<Rightarrow> nat \<Rightarrow> nat \<Rightarrow> nat \<Rightarrow> bool" where
  "write_room s ip off n \<longleftrightarrow> 4 * unmapped s ip (span off n) \<le> card (free s) \<and>
     (\<forall>j. 1536 * j < n \<longrightarrow> round_cost s ip (off + 1536 * j) (min 1536 (n - 1536 * j)) \<le> (if j = 0 then log_space s else 14))"

lemma mapped_room:
  assumes "mapped s ip off n" "14 \<le> log_space s"
  shows "write_room s ip off n"
proof -
  have "round_cost s ip (off + 1536 * j) (min 1536 (n - 1536 * j)) \<le> 14" if "1536 * j < n" for j
  proof -
    have "lookup (view s) (addrs s ip) (bpath ((off + (1536 * j + i)) div BSIZE)) \<noteq> 0" if "i < min 1536 (n - 1536 * j)" for i
      using assms(1) [unfolded mapped_def, rule_format, of "1536 * j + i"] that by linarith
    then have "mapped s ip (off + 1536 * j) (min 1536 (n - 1536 * j))" by (simp add: mapped_def add.assoc)
    from unmapped_mapped [OF this] show ?thesis using span_card [of "min 1536 (n - 1536 * j)" "off + 1536 * j"] by (simp add: round_cost_def)
  qed
  note c = this
  have "round_cost s ip (off + 1536 * j) (min 1536 (n - 1536 * j)) \<le> (if j = 0 then log_space s else 14)" if "1536 * j < n" for j
    using order_trans [OF c [OF that] assms(2)] c [OF that] by (cases "j = 0") (simp_all only: if_True if_False simp_thms)
  then show ?thesis using unmapped_mapped [OF assms(1)] by (simp add: write_room_def)
qed

text \<open>What is left to map after the first transaction of a write.\<close>

lemma span_split: "k \<le> n \<Longrightarrow> span off n = span off k \<union> span (off + k) (n - k)"
proof -
  assume "k \<le> n"
  moreover have "x \<in> (\<lambda>i. k + i) ` {..<n - k}" if "x < n" "\<not> x < k" for x
    using that by (intro image_eqI [of _ _ "x - k"]) simp_all
  ultimately have "{..<n} = {..<k} \<union> (\<lambda>i. k + i) ` {..<n - k}" by auto
  then show ?thesis by (simp add: span_def image_Un image_image add.assoc)
qed

lemma span_unmapped_le:
  assumes t: "\<And>a m. mapped s ip a m \<Longrightarrow> a + m \<le> MAXFILE * BSIZE \<Longrightarrow> mapped t ip a m" and n: "off + n \<le> MAXFILE * BSIZE" "X \<subseteq> span off n"
  shows "{bn \<in> X. lookup (view t) (addrs t ip) (bpath bn) = 0} \<subseteq> {bn \<in> X. lookup (view s) (addrs s ip) (bpath bn) = 0}"
proof
  fix bn assume b: "bn \<in> {bn \<in> X. lookup (view t) (addrs t ip) (bpath bn) = 0}"
  then obtain i where i: "i < n" "bn = (off + i) div BSIZE" using n(2) by (auto simp: span_def)
  have "\<not> mapped s ip (off + i) 1" using t [of "off + i" 1] b i n(1) by (auto simp: mapped_def)
  then show "bn \<in> {bn \<in> X. lookup (view s) (addrs s ip) (bpath bn) = 0}" using b i(2) by (simp add: mapped_def)
qed

lemma room_next:
  assumes room: "write_room s ip off m" and m: "0 < m" "off + m \<le> MAXFILE * BSIZE" and k: "k = min m 1536"
    and t: "\<And>a j. mapped s ip a j \<Longrightarrow> a + j \<le> MAXFILE * BSIZE \<Longrightarrow> mapped t ip a j" "mapped t ip off k" "14 \<le> log_space t"
      "card (free s) \<le> card (free t) + 4 * unmapped s ip (span off k)"
  shows "write_room t ip (off + k) (m - k)"
proof -
  let ?z = "\<lambda>u X. {bn \<in> X. lookup (view u) (addrs u ip) (bpath bn) = 0}"
  have km: "k \<le> m" using k by simp
  have le: "unmapped t ip (span a j) \<le> unmapped s ip (span a j)" if "a + j \<le> MAXFILE * BSIZE" for a j
    using span_unmapped_le [OF t(1) that subset_refl] by (auto simp: unmapped_def intro!: card_mono)
  have "?z t (span off k) = {}" using unmapped_mapped [OF t(2)] by (simp add: unmapped_def)
  then have "?z t (span (off + k) (m - k)) \<subseteq> ?z t (span off m) - span off k" using span_split [OF km, of off] by auto
  also have "\<dots> \<subseteq> ?z s (span off m) - ?z s (span off k)" using span_unmapped_le [OF t(1) m(2) subset_refl] by auto
  finally have "unmapped t ip (span (off + k) (m - k)) \<le> card (?z s (span off m) - ?z s (span off k))"
    unfolding unmapped_def by (intro card_mono) auto
  also have "\<dots> = unmapped s ip (span off m) - unmapped s ip (span off k)"
    unfolding unmapped_def using span_split [OF km, of off] by (intro card_Diff_subset) auto
  finally have "4 * unmapped t ip (span (off + k) (m - k)) \<le> card (free t)"
    using room [unfolded write_room_def, THEN conjunct1] t(4) by linarith
  moreover have "round_cost t ip (off + k + 1536 * j) (min 1536 (m - k - 1536 * j)) \<le> (if j = 0 then log_space t else 14)" if j: "1536 * j < m - k" for j
  proof -
    have k': "k = 1536" using j k by auto
    have "1536 * Suc j < m" using j k' by simp
    then have "round_cost s ip (off + 1536 * Suc j) (min 1536 (m - 1536 * Suc j)) \<le> 14"
      using room [unfolded write_room_def, THEN conjunct2, rule_format, of "Suc j"] by (simp only: nat.distinct if_False)
    moreover have "off + 1536 * Suc j + min 1536 (m - 1536 * Suc j) \<le> MAXFILE * BSIZE" using m(2) \<open>1536 * Suc j < m\<close> by simp
    from le [OF this] have "round_cost t ip (off + 1536 * Suc j) (min 1536 (m - 1536 * Suc j)) \<le> round_cost s ip (off + 1536 * Suc j) (min 1536 (m - 1536 * Suc j))"
      by (simp add: round_cost_def)
    moreover have e: "off + k + 1536 * j = off + 1536 * Suc j" "m - k - 1536 * j = m - 1536 * Suc j" using k' by simp_all
    ultimately have "round_cost t ip (off + k + 1536 * j) (min 1536 (m - k - 1536 * j)) \<le> 14" unfolding e by linarith
    then show ?thesis by (rule order_trans) (use t(3) in simp)
  qed
  ultimately show ?thesis by (simp add: write_room_def)
qed

section \<open>The loops\<close>

lemma filewrite_loop_ok:
  fixes s :: "'a kfile_scheme"
  assumes "fs_idle pid s" "inode_open s ip" "f_ip (ftable s f) = Some ip" "f_off (ftable s f) \<le> i_size (icache s ip)"
    "f_off (ftable s f) + m \<le> MAXFILE * BSIZE" "write_room s ip (f_off (ftable s f)) m"
  shows "\<exists>t. filewrite_loop devw f addr (int (i + m)) (int i) s = Inr (int (i + m), t) \<and> fs_idle pid t \<and> inode_open t ip \<and> mapped t ip (f_off (ftable s f)) m \<and>
    ftable t = (ftable s)(f := (ftable s f)\<lparr>f_off := f_off (ftable s f) + m\<rparr>) \<and>
    file_written ip (\<lambda>k. addr (i + k)) (f_off (ftable s f)) m s t"
  using assms
proof (induction m arbitrary: i s rule: less_induct)
  case (less m)
  show ?case
  proof (cases "m = 0")
    case True
    then show ?thesis using less.prems file_written_none [OF less.prems(4)] by (subst filewrite_loop.simps) (simp add: mapped_def)
  next
    case False
    let ?off = "f_off (ftable s f)"
    define k where "k = min m 1536"
    have k: "0 < k" "k \<le> 1536" "k \<le> m" "m - k < m" "k + (m - k) = m" using False by (auto simp: k_def)
    have n1: "(if int (i + m) - int i > write_max then write_max else int (i + m) - int i) = int k"
      by (auto simp: k_def write_max_val)
    have mk: "4 * unmapped s ip (span ?off k) \<le> card (free s)" "12 * int (unmapped s ip (span ?off k)) + int (card (span ?off k)) + 1 \<le> log_space s"
    proof -
      have "unmapped s ip (span ?off k) \<le> unmapped s ip (span ?off m)"
        unfolding unmapped_def using span_split [OF k(3), of ?off] by (intro card_mono) auto
      then show "4 * unmapped s ip (span ?off k) \<le> card (free s)" using less.prems(6) by (simp add: write_room_def)
      show "12 * int (unmapped s ip (span ?off k)) + int (card (span ?off k)) + 1 \<le> log_space s"
        using less.prems(6) False unfolding write_room_def by (auto simp: round_cost_def k_def min.commute dest!: spec [of _ 0])
    qed
    have lim: "?off + k \<le> MAXFILE * BSIZE" using less.prems(5) k(3) by simp
    define adv where "adv = (\<lambda>(r :: int) (ft :: nat \<Rightarrow> file_t). if r > 0 then ft(f := (ft f)\<lparr>f_off := (f_off (ft f) + nat r) mod 2 ^ 32\<rparr>) else ft)"
    have adv: "advance f r u = u\<lparr>ftable := adv r (ftable u)\<rparr>" for r and u :: "'a kfile_scheme"
      by (simp add: advance_def upd_file_def adv_def)
    obtain t where t: "write_round devw f (\<lambda>j. addr (i + j)) ?off (int k) (advance f) s = Inr (int k, t)" "fs_idle pid t" "inode_open t ip"
        "ftable t = (ftable s)(f := (ftable s f)\<lparr>f_off := (?off + k) mod 2 ^ 32\<rparr>)" "file_written ip (\<lambda>j. addr (i + j)) ?off k s t" "mapped t ip ?off k"
        "card (free s) \<le> card (free t) + 4 * unmapped s ip (span ?off k)"
      using write_round_ok [where devw = devw and src = "\<lambda>j. addr (i + j)" and after = "advance f" and g = adv, OF less.prems(1-4) k(1,2) lim mk, OF adv] k(1)
      by (auto simp: adv_def)
    have wr: "(?off + k) mod 2 ^ 32 = ?off + k" using lim maxfile_word by simp
    have pr: "f_ip (ftable t f) = Some ip" "f_off (ftable t f) = ?off + k" using t(4) less.prems(3) wr by simp_all
    have "f_off (ftable t f) \<le> i_size (icache t ip)" using t(5) pr(2) by (simp add: file_written_def)
    moreover have "f_off (ftable t f) + (m - k) \<le> MAXFILE * BSIZE" using pr(2) less.prems(5) k(3) by simp
    moreover have "write_room t ip (f_off (ftable t f)) (m - k)" unfolding pr(2)
      by (rule room_next [OF less.prems(6) _ less.prems(5) k_def _ t(6) enter_ok(9) [OF t(2,3)] t(7)]) (use False t(5) in \<open>auto simp: file_written_def\<close>)
    ultimately obtain u where u: "filewrite_loop devw f addr (int ((i + k) + (m - k))) (int (i + k)) t = Inr (int ((i + k) + (m - k)), u)"
        "fs_idle pid u" "inode_open u ip" "mapped u ip (f_off (ftable t f)) (m - k)" "ftable u = (ftable t)(f := (ftable t f)\<lparr>f_off := f_off (ftable t f) + (m - k)\<rparr>)"
        "file_written ip (\<lambda>j. addr ((i + k) + j)) (f_off (ftable t f)) (m - k) t u"
      using less.IH [OF k(4) t(2,3) pr(1), of "i + k"] by blast
    have ik: "(i + k) + (m - k) = i + m" using k(3) by simp
    have ftu: "ftable u = (ftable s)(f := (ftable s f)\<lparr>f_off := ?off + m\<rparr>)" using u(5) t(4) wr k(3) by simp
    have "filewrite_loop devw f addr (int (i + m)) (int i) s = Inr (int (i + m), u)"
      by (subst filewrite_loop.simps) (use n1 t(1) u(1) ik False in \<open>simp add: Let_def\<close>)
    moreover have "file_written ip (\<lambda>j. addr (i + j)) ?off m s u"
      using file_written_append [OF t(5), of "m - k" u] u(6) pr(2) k(5) by (simp add: add.assoc)
    moreover have "mapped u ip ?off m"
    proof -
      have "mapped u ip ?off k" using u(6) t(6) lim by (simp add: file_written_def)
      moreover have "lookup (view u) (addrs u ip) (bpath ((?off + x) div BSIZE)) \<noteq> 0" if "k \<le> x" "x < m" for x
        using u(4) [unfolded mapped_def pr(2), rule_format, of "x - k"] that by simp
      ultimately show ?thesis unfolding mapped_def by (metis not_le)
    qed
    ultimately show ?thesis using u(2,3) ftu by blast
  qed
qed

text \<open>
  \<open>filepwrite\<close> never moves the offset between the rounds, so a second round overwrites the bytes
  of the first.
\<close>

lemma filepwrite_round:
  fixes s :: "'a kfile_scheme"
  assumes "fs_idle pid s" "inode_open s ip" "f_ip (ftable s f) = Some ip" "off \<le> i_size (icache s ip)"
    "0 < k" "k \<le> 1536" "off + k \<le> MAXFILE * BSIZE" "mapped s ip off k" and k: "k = min m 1536"
  shows "\<exists>t. filepwrite_loop devw f addr off (int (i + m)) (int i) s = filepwrite_loop devw f addr off (int (i + m)) (int (i + k)) t \<and>
    fs_idle pid t \<and> inode_open t ip \<and> ftable t = ftable s \<and> file_written ip (\<lambda>j. addr (i + j)) off k s t"
proof -
  have n1: "(if int (i + m) - int i > write_max then write_max else int (i + m) - int i) = int k"
    by (auto simp: k write_max_val)
  have sp: "4 * unmapped s ip (span off k) \<le> card (free s)" "12 * int (unmapped s ip (span off k)) + int (card (span off k)) + 1 \<le> log_space s"
    using unmapped_mapped [OF assms(8)] span_card [OF assms(6), of off] enter_ok(9) [OF assms(1,2)] by simp_all
  obtain t where t: "write_round devw f (\<lambda>j. addr (i + j)) off (int k) (\<lambda>_ s. s) s = Inr (int k, t)" "fs_idle pid t" "inode_open t ip"
      "ftable t = ftable s" "file_written ip (\<lambda>j. addr (i + j)) off k s t"
    using write_round_ok [where devw = devw and src = "\<lambda>j. addr (i + j)" and after = "\<lambda>_ s. s" and g = "\<lambda>_ ft. ft", OF assms(1-7) sp] by auto
  have "filepwrite_loop devw f addr off (int (i + m)) (int i) s = filepwrite_loop devw f addr off (int (i + m)) (int (i + k)) t"
    by (subst filepwrite_loop.simps) (use n1 t(1) assms(5) k in \<open>simp add: Let_def\<close>)
  then show ?thesis using t by blast
qed

section \<open>A file with some blocks\<close>

definition blocks_file :: "nat \<Rightarrow> kfile" where
  "blocks_file b = (upd_inode 0 (\<lambda>_. zero_inode\<lparr>i_dev := 1, i_inum := 1, i_ref := 1, i_valid := True, i_type := T_FILE,
       i_addrs := \<lambda>i. if i < b then 50 + i else 0\<rparr>) (boot_kfile small_disk))
     \<lparr>lg_outstanding := 0, ftable := \<lambda>_. zero_file\<lparr>f_type := FD_INODE, f_writable := True, f_ip := Some 0\<rparr>\<rparr>"

lemma blocks_file_sel [simp]:
  "icache (blocks_file b) 0 = zero_inode\<lparr>i_dev := 1, i_inum := 1, i_ref := 1, i_valid := True, i_type := T_FILE,
     i_addrs := \<lambda>i. if i < b then 50 + i else 0\<rparr>"
  "ftable (blocks_file b) f = zero_file\<lparr>f_type := FD_INODE, f_writable := True, f_ip := Some 0\<rparr>"
  "fs_sb (blocks_file b) = small_sb"
  by (simp_all add: blocks_file_def boot_kfile_def kfs.defs kfile.defs)

lemma blocks_file_idle: "fs_idle 0 (blocks_file b)" "data (blocks_file b) = data (boot_kfs small_disk)" "view (blocks_file b) = small_disk"
  "free (blocks_file b) = free (boot_kfs small_disk)" "log_space (blocks_file b) = 29"
proof -
  let ?s = "boot_kfs small_disk"
  have eq: "bcache (blocks_file b) = bcache ?s" "disk (blocks_file b) = disk ?s" "disksize (blocks_file b) = disksize ?s" "locks (blocks_file b) = locks ?s"
    "ptable (blocks_file b) = ptable ?s" "myproc (blocks_file b) = myproc ?s" "lg_dev (blocks_file b) = lg_dev ?s" "lg_n (blocks_file b) = lg_n ?s"
    "lg_block (blocks_file b) = lg_block ?s" "lg_start (blocks_file b) = lg_start ?s" "lg_size (blocks_file b) = lg_size ?s"
    "lg_committing (blocks_file b) = lg_committing ?s" "lg_outstanding (blocks_file b) = 0"
    by (simp_all add: blocks_file_def boot_kfile_def upd_inode_def kfs.defs kfile.defs)
  have o: "held (blocks_file b) = held ?s" "view (blocks_file b) = view ?s" "dirty (blocks_file b) = dirty ?s" by (rule obs_cong; fact eq)+
  have "curpid (blocks_file b) = curpid ?s" by (simp add: curpid_def eq split: option.split)
  then have "bio_wf 0 (blocks_file b) = bio_wf 0 ?s" by (intro bio_wf_cong) (simp_all add: eq)
  then have wf: "log_wf 0 (blocks_file b) = log_wf 0 ?s" by (simp add: log_wf_def log_area_def logged_def eq o)
  have hb: "home_blocks (blocks_file b) = home_blocks ?s" by (simp add: home_blocks_def log_area_def eq)
  have fz: "fsize (blocks_file b) = fsize ?s" "meta (blocks_file b) = meta ?s" by (simp_all add: fsize_def meta_def)
  then show fr: "free (blocks_file b) = free ?s" by (simp add: free_def o)
  show "log_space (blocks_file b) = 29" by (simp add: log_space_def eq) (simp add: small_disk_def rd32_def params)
  show "view (blocks_file b) = small_disk" using o by simp
  show "data (blocks_file b) = data ?s" by (simp add: data_def hb fz fr)
  have "\<not> lg_committing ?s" by (simp add: boot_kfs_def boot_klog_def klog.defs kbio.defs)
  moreover have "fs_wf (blocks_file b) = fs_wf ?s" by (simp add: fs_wf_def hb fz fr eq)
  ultimately show "fs_idle 0 (blocks_file b)"
    by (simp add: fs_idle_def wf o eq small_wf) (simp add: small_disk_def rd32_def params)
qed

lemma blocks_file_open:
  assumes b4: "b \<le> 4"
  shows "inode_open (blocks_file b) 0" "n \<le> 512 * b \<Longrightarrow> mapped (blocks_file b) 0 0 n"
proof -
  have A: "addrs (blocks_file b) 0 = (\<lambda>i. if i < b then 50 + i else 0)" by (simp add: addrs_def)
  have l: "lookup (view (blocks_file b)) (addrs (blocks_file b) 0) p = (if fst p < b then 50 + fst p else 0)" if "pos_ok p" for p
    using that b4 by (auto simp: lookup_def A pos_ok_def params)
  have D: "{41..<64} \<subseteq> data (blocks_file b)"
    unfolding blocks_file_idle(2) by (auto simp: data_def small_free)
  have "tree (view (blocks_file b)) (addrs (blocks_file b) 0) \<subseteq> {50..<54}" using l b4 by (auto simp: tree_def split: if_splits)
  moreover have "{50..<54} \<subseteq> data (blocks_file b)" by (rule subset_trans [OF _ D]) simp
  moreover have "p = q" if "pos_ok p" "pos_ok q" "fst p < b" "fst p = fst q" for p q
    using that b4 by (cases p, cases q) (simp add: pos_ok_def params)
  then have "inj_on (lookup (view (blocks_file b)) (addrs (blocks_file b) 0)) {p. pos_ok p \<and> lookup (view (blocks_file b)) (addrs (blocks_file b) 0) p \<noteq> 0}"
    using l by (intro inj_onI) (auto split: if_splits)
  ultimately have "tree_ok (view (blocks_file b)) (addrs (blocks_file b) 0) (data (blocks_file b))" by (simp add: tree_ok_def subset_trans)
  then show "inode_open (blocks_file b) 0" by (simp add: inode_open_def file_ok_def) (simp add: zero_inode_def initsleeplock_def small_sb_def params)
  show "mapped (blocks_file b) 0 0 n" if "n \<le> 512 * b"
  proof -
    have "lookup (view (blocks_file b)) (addrs (blocks_file b) 0) (bpath (i div BSIZE)) \<noteq> 0" if "i < n" for i
    proof -
      have b: "i div BSIZE < b" using that \<open>n \<le> 512 * b\<close> by (simp add: params less_mult_imp_div_less)
      then have "bpath (i div BSIZE) = (i div BSIZE, [])" using b4 by (simp add: bpath_def params)
      then show ?thesis using b by (simp add: lookup_def A)
    qed
    then show ?thesis by (simp add: mapped_def)
  qed
qed

section \<open>Properties\<close>

text \<open>
  C4. \<open>filewrite\<close> on an inode writes a range that the file already has blocks for, of any length, or
  one that makes it allocate blocks, within the budget \<open>write_room\<close>: enough free blocks, and at
  most two missing blocks in the first transaction when the log is empty (with a fuller log, and
  in later transactions, one missing block that the transaction does not go beyond). The
  transactions it is cut into then never fill the log, the call returns the number of bytes,
  moves the offset of the file behind them, replaces exactly that range of the file, maps it,
  extends the size when the range ends behind it, and leaves every other file alone; afterwards
  the log is idle and the inode unlocked. Allocating writes beyond the budget are not covered:
  the bound on the log entries does not use that entries of the same block are shared.
\<close>

theorem filewrite_correct:
  fixes s :: "'a kfile_scheme"
  assumes "fs_idle pid s" "inode_open s ip" "f_type (ftable s f) = FD_INODE" "f_writable (ftable s f)" "f_ip (ftable s f) = Some ip"
    "f_off (ftable s f) \<le> i_size (icache s ip)" "f_off (ftable s f) + n \<le> MAXFILE * BSIZE"
    "mapped s ip (f_off (ftable s f)) n \<or> write_room s ip (f_off (ftable s f)) n"
  shows "\<exists>t. filewrite devw f addr (int n) s = Inr (Done (int n), t) \<and> fs_idle pid t \<and> inode_open t ip \<and> mapped t ip (f_off (ftable s f)) n \<and>
    ftable t = (ftable s)(f := (ftable s f)\<lparr>f_off := f_off (ftable s f) + n\<rparr>) \<and> file_written ip addr (f_off (ftable s f)) n s t"
proof -
  have "write_room s ip (f_off (ftable s f)) n" using assms(8) mapped_room enter_ok(9) [OF assms(1,2)] by blast
  then show ?thesis using filewrite_loop_ok [OF assms(1,2,5-7), of devw addr 0] assms(3,4) by (auto simp: filewrite_def)
qed

text \<open>
  The first write stores 2000 bytes into blocks the file has, in two transactions; the second
  writes 600 bytes to an empty file without blocks, for which two blocks are allocated.
\<close>

theorem filewrite_correct_witness:
  "(\<exists>t. filewrite (\<lambda>_. None) 3 (\<lambda>i. word_of_nat i) 2000 (blocks_file 4) = Inr (Done 2000, t) \<and> fs_idle 0 t \<and>
     f_off (ftable t 3) = 2000 \<and> i_size (icache t 0) = 2000 \<and> content (view t) (addrs t 0) 1700 = 164) \<and>
   (\<exists>t. filewrite (\<lambda>_. None) 3 (\<lambda>i. word_of_nat i) 600 (blocks_file 0) = Inr (Done 600, t) \<and> fs_idle 0 t \<and>
     f_off (ftable t 3) = 600 \<and> i_size (icache t 0) = 600 \<and> mapped t 0 0 600 \<and> content (view t) (addrs t 0) 599 = 87)"
proof
  have lim: "(2000 :: nat) \<le> MAXFILE * BSIZE" "(1700 :: nat) div BSIZE < MAXFILE" "(600 :: nat) \<le> MAXFILE * BSIZE" "(599 :: nat) div BSIZE < MAXFILE"
    by (simp_all add: params)
  have m: "mapped (blocks_file 4) 0 0 2000" by (rule blocks_file_open(2)) simp_all
  obtain t where t: "filewrite (\<lambda>_. None) 3 (\<lambda>i. word_of_nat i) (int 2000) (blocks_file 4) = Inr (Done (int 2000), t)" "fs_idle 0 t"
      "ftable t = (ftable (blocks_file 4))(3 := (ftable (blocks_file 4) 3)\<lparr>f_off := f_off (ftable (blocks_file 4) 3) + 2000\<rparr>)"
      "file_written 0 (\<lambda>i. word_of_nat i) (f_off (ftable (blocks_file 4) 3)) 2000 (blocks_file 4) t"
    using filewrite_correct [OF blocks_file_idle(1) blocks_file_open(1) [OF order_refl], of 3 2000 "\<lambda>_. None" "\<lambda>i. word_of_nat i"] lim m
    by (auto simp: zero_file_def zero_inode_def)
  then show "\<exists>t. filewrite (\<lambda>_. None) 3 (\<lambda>i. word_of_nat i) 2000 (blocks_file 4) = Inr (Done 2000, t) \<and> fs_idle 0 t \<and>
     f_off (ftable t 3) = 2000 \<and> i_size (icache t 0) = 2000 \<and> content (view t) (addrs t 0) 1700 = 164"
    using lim by (auto simp: file_written_def zero_file_def zero_inode_def)
  have sp: "span 0 600 = {0, 1}"
  proof -
    have "(\<lambda>i. i div BSIZE) ` {..<600} = {0, 1}"
    proof
      show "{0, 1} \<subseteq> (\<lambda>i. i div BSIZE) ` {..<600}" by (auto simp: params image_iff intro: bexI [of _ 0] bexI [of _ 512])
    qed (auto simp: params)
    then show ?thesis by (simp add: span_def)
  qed
  have "unmapped (blocks_file 0) 0 (span 0 600) \<le> card {0, 1 :: nat}"
    unfolding unmapped_def sp by (intro card_mono) auto
  then have r: "4 * unmapped (blocks_file 0) 0 (span 0 600) \<le> card (free (blocks_file 0))" "round_cost (blocks_file 0) 0 0 600 \<le> 29"
    by (simp_all add: round_cost_def sp blocks_file_idle(4) small_free)
  have "write_room (blocks_file 0) 0 0 600" unfolding write_room_def
  proof (intro conjI allI impI)
    fix j :: nat assume "1536 * j < 600"
    then have "j = 0" by (cases j) auto
    then show "round_cost (blocks_file 0) 0 (0 + 1536 * j) (min 1536 (600 - 1536 * j)) \<le> (if j = 0 then log_space (blocks_file 0) else 14)"
      using r(2) by (simp add: blocks_file_idle(5))
  qed (rule r(1))
  then obtain u where u: "filewrite (\<lambda>_. None) 3 (\<lambda>i. word_of_nat i) (int 600) (blocks_file 0) = Inr (Done (int 600), u)" "fs_idle 0 u" "mapped u 0 0 600"
      "ftable u = (ftable (blocks_file 0))(3 := (ftable (blocks_file 0) 3)\<lparr>f_off := f_off (ftable (blocks_file 0) 3) + 600\<rparr>)"
      "file_written 0 (\<lambda>i. word_of_nat i) (f_off (ftable (blocks_file 0) 3)) 600 (blocks_file 0) u"
    using filewrite_correct [OF blocks_file_idle(1) blocks_file_open(1), of 0 3 600 "\<lambda>_. None" "\<lambda>i. word_of_nat i"] lim
    by (auto simp: zero_file_def zero_inode_def)
  then show "\<exists>t. filewrite (\<lambda>_. None) 3 (\<lambda>i. word_of_nat i) 600 (blocks_file 0) = Inr (Done 600, t) \<and> fs_idle 0 t \<and>
     f_off (ftable t 3) = 600 \<and> i_size (icache t 0) = 600 \<and> mapped t 0 0 600 \<and> content (view t) (addrs t 0) 599 = 87"
    using lim by (auto simp: file_written_def zero_file_def zero_inode_def)
qed

text \<open>
  C38. \<open>filepwrite\<close> is right only up to 1536 bytes. A longer write, here of two transactions, stores
  the second part over the beginning of the first and leaves the rest of the range as it was,
  yet it returns the full number of bytes.
\<close>

theorem filepwrite_overwrites:
  fixes s :: "'a kfile_scheme"
  assumes "fs_idle pid s" "inode_open s ip" "f_type (ftable s f) = FD_INODE" "f_writable (ftable s f)" "f_ip (ftable s f) = Some ip"
    "off \<le> i_size (icache s ip)" "off + n \<le> MAXFILE * BSIZE" "mapped s ip off n" "0 < n" "n \<le> 3072"
  shows "\<exists>t. filepwrite devw f addr (int n) (int off) s = Inr (Done (int n), t) \<and> fs_idle pid t \<and> inode_open t ip \<and> ftable t = ftable s \<and>
    (if n \<le> 1536 then file_written ip addr off n s t
     else \<forall>x. x div BSIZE < MAXFILE \<longrightarrow> content (view t) (addrs t ip) x =
       (if off \<le> x \<and> x < off + (n - 1536) then addr (1536 + (x - off)) else if off \<le> x \<and> x < off + 1536 then addr (x - off)
        else content (view s) (addrs s ip) x))"
proof -
  define k where "k = min n 1536"
  have k: "0 < k" "k \<le> 1536" "k \<le> n" "off + k \<le> MAXFILE * BSIZE" "mapped s ip off k"
    using assms(7-9) by (auto simp: k_def mapped_def)
  have uo: "to_uint (int off) = off" using assms(7) by (simp add: to_uint_def params)
  have fin: "filepwrite_loop devw f addr off (int n) (int n) t = Inr (int n, t)" for t :: "'a kfile_scheme"
    by (subst filepwrite_loop.simps) simp
  obtain t where t: "filepwrite_loop devw f addr off (int n) 0 s = filepwrite_loop devw f addr off (int n) (int k) t"
      "fs_idle pid t" "inode_open t ip" "ftable t = ftable s" "file_written ip addr off k s t"
    using filepwrite_round [where i = 0 and m = n and devw = devw and addr = addr, OF assms(1,2,5,6) k(1,2,4,5) k_def] by auto
  show ?thesis
  proof (cases "n \<le> 1536")
    case True
    then show ?thesis using t fin uo assms(3,4) by (auto simp: filepwrite_def k_def)
  next
    case False
    let ?m = "n - 1536"
    have m: "0 < ?m" "?m \<le> 1536" "?m = min ?m 1536" "off + ?m \<le> MAXFILE * BSIZE" "k = 1536" using False assms(7,10) by (auto simp: k_def)
    have "mapped t ip off n" using t(5) assms(7,8) by (simp add: file_written_def)
    then have mt: "mapped t ip off ?m" by (simp add: mapped_def)
    have "f_ip (ftable t f) = Some ip" "off \<le> i_size (icache t ip)" using t(4,5) assms(5,6) by (simp_all add: file_written_def)
    then obtain u where "filepwrite_loop devw f addr off (int (1536 + ?m)) (int 1536) t = filepwrite_loop devw f addr off (int (1536 + ?m)) (int (1536 + ?m)) u"
        "fs_idle pid u" "inode_open u ip" "ftable u = ftable t" "file_written ip (\<lambda>j. addr (1536 + j)) off ?m t u"
      using filepwrite_round [where i = 1536 and m = ?m and devw = devw and addr = addr, OF t(2,3) _ _ m(1,2,4) mt m(3)] by auto
    moreover have "1536 + ?m = n" using False by simp
    ultimately have "filepwrite_loop devw f addr off (int n) 0 s = Inr (int n, u)" "fs_idle pid u" "inode_open u ip" "ftable u = ftable s"
        "file_written ip (\<lambda>j. addr (1536 + j)) off ?m t u"
      using t(1,4) m(5) fin by simp_all
    moreover have "file_written ip addr off 1536 s t" using t(5) m(5) by simp
    ultimately show ?thesis using False uo assms(3,4) by (intro exI [of _ u]) (simp add: filepwrite_def file_written_def)
  qed
qed

theorem filepwrite_overwrites_witness:
  "\<exists>t. filepwrite (\<lambda>_. None) 3 (\<lambda>i. if i < 1536 then 1 else 2) 2000 0 (blocks_file 4) = Inr (Done 2000, t) \<and>
     content (view t) (addrs t 0) 0 = 2 \<and> content (view t) (addrs t 0) 1999 = content (view (blocks_file 4)) (addrs (blocks_file 4) 0) 1999"
proof -
  have lim: "(2000 :: nat) \<le> MAXFILE * BSIZE" "(0 :: nat) div BSIZE < MAXFILE" "(1999 :: nat) div BSIZE < MAXFILE" by (simp_all add: params)
  have m: "mapped (blocks_file 4) 0 0 2000" by (rule blocks_file_open(2)) simp_all
  show ?thesis
    using filepwrite_overwrites [OF blocks_file_idle(1) blocks_file_open(1) [OF order_refl], of 3 0 2000 "\<lambda>_. None" "\<lambda>i. if i < 1536 then 1 else 2"] lim m
    by (auto simp: zero_file_def zero_inode_def)
qed

end
