(* ===== verification/VmCopy.thy ===== *)
theory VmCopy
  imports Vm
begin

text \<open>
  A second page table with a copy of the user memory of a first (\<open>setupkvm\<close> and \<open>copyuvm\<close> of
  \<^verbatim>\<open>vm.c\<close>, as \<open>fork\<close> uses them). The lemmas keep account of the free pages: a directory, at
  most one page table for each of its slots and one frame for each page of the process are
  enough, and nothing else in memory is written.
\<close>

section \<open>Frames\<close>

lemma pt_wf_apart: "pt_wf D ps s \<Longrightarrow> q \<in> ptpages D s \<Longrightarrow> q \<notin> set ps \<and> page_ok (kend s) q"
  by (auto simp: pt_wf_def ptpages_def tables_ok_def)

lemma same_page_rd32: "same_page s t q \<Longrightarrow> k < 1024 \<Longrightarrow> rd32 (q + 4 * k) (mem t) = rd32 (q + 4 * k) (mem s)"
  by (intro rd32_cong) (simp add: same_page_def add.assoc params)

lemma pt_frame:
  assumes wf: "pt_wf D ps s" and fr: "free_wf ps' t" "ptpages D s \<inter> set ps' = {}" "kend t = kend s"
    and eq: "\<And>q. q \<in> ptpages D s \<Longrightarrow> same_page s t q"
  shows "pt_wf D ps' t" "translate t D va = translate s D va" "ptpages D t = ptpages D s" "absent D t = absent D s"
proof -
  have D: "D \<in> ptpages D s" by (simp add: ptpages_def)
  have pd: "pde t D i = pde s D i" if "i < 1024" for i using same_page_rd32 [OF eq [OF D] that] by (simp add: pde_def)
  then have tb: "tab t D i = tab s D i" if "i < 1024" for i using that by (simp add: tab_def)
  have sets: "{i. i < 1024 \<and> present (pde t D i)} = {i. i < 1024 \<and> present (pde s D i)}"
    "{i. i < 1024 \<and> \<not> present (pde t D i)} = {i. i < 1024 \<and> \<not> present (pde s D i)}" using pd by auto
  then show "ptpages D t = ptpages D s" "absent D t = absent D s" using tb by (auto simp: ptpages_def absent_def)
  have "rd32 (tab s D (PDX va) + 4 * PTX va) (mem t) = rd32 (tab s D (PDX va) + 4 * PTX va) (mem s)" if "present (pde s D (PDX va))"
    by (rule same_page_rd32 [OF eq PTX_less]) (use that in \<open>auto simp: ptpages_def\<close>)
  then show "translate t D va = translate s D va" using pd tb by (simp add: translate_def)
  have "D \<notin> set ps'" "\<And>i. i < 1024 \<Longrightarrow> present (pde s D i) \<Longrightarrow> tab s D i \<notin> set ps'" using fr(2) by (auto simp: ptpages_def)
  then show "pt_wf D ps' t" using wf fr(1,3) pd tb by (auto simp: pt_wf_def tables_ok_def tables_inj_def)
qed

lemma frame_aligned: "frame s D va mod PGSIZE = 0"
proof -
  have "take_bit 12 (w AND NOT 0xFFF) = 0" for w :: "32 word"
  proof (rule bit_word_eqI)
    fix n assume "n < LENGTH(32)"
    show "bit (take_bit 12 (w AND NOT 0xFFF)) n = bit (0 :: 32 word) n"
      unfolding bit_take_bit_iff bit_and_iff bit_not_iff mask_bits by auto
  qed
  then have "take_bit 12 (unat (translate s D va AND NOT 0xFFF)) = 0"
    by (metis unsigned_take_bit_eq unsigned_0)
  then have "PTE_ADDR (translate s D va) mod 2 ^ 12 = 0" by (simp only: PTE_ADDR_def take_bit_eq_mod)
  then have "(PTE_ADDR (translate s D va) + KERNBASE) mod 2 ^ 32 mod 4096 = 0"
    by (simp add: params mod_mod_cancel mod_eq_0_iff_dvd)
  then show ?thesis by (simp add: frame_def P2V_def params)
qed

text \<open>A range of whole pages, with more free pages than empty directory slots.\<close>

lemma map_range:
  assumes wf: "pt_wf D ps s" and lk: "can_lock s" and va: "va mod PGSIZE = 0" "len mod PGSIZE = 0" "0 < len" "va + len \<le> 2 ^ 32"
    and np: "\<forall>a. va \<le> a \<and> a < va + len \<longrightarrow> \<not> present (translate s D a)" and room: "absent D s < length ps"
  shows "\<exists>t ps'. mappages D va len pa perm s = Inr (0, t) \<and> pt_wf D ps' t \<and> pt_step D ps s ps' t \<and> can_lock t \<and> absent D t < length ps' \<and>
    t = s\<lparr>mem := mem t, freelist := freelist t\<rparr> \<and>
    (\<forall>a < 2 ^ 32. translate t D a = (if va \<le> a \<and> a < va + len then of_nat (pa + (PGROUNDDOWN a - va)) OR perm OR PTE_P else translate s D a))"
proof -
  have gd: "PGROUNDDOWN va = va" using va(1) div_mult_mod_eq [of va PGSIZE] by (simp add: PGROUNDDOWN_def)
  define j where "j = len div PGSIZE"
  then have j: "len = j * PGSIZE" using va(2) div_mult_mod_eq [of len PGSIZE] by simp
  then obtain k where "j = Suc k" using va(3) by (cases j) auto
  with j have k: "len = Suc k * PGSIZE" by simp
  have "(va + len - 1) div PGSIZE = va div PGSIZE + k"
  proof -
    have "va + len - 1 = PGSIZE - 1 + (va div PGSIZE + k) * PGSIZE"
      using gd k by (simp add: PGROUNDDOWN_def algebra_simps) (simp add: params)
    then show ?thesis by (simp add: params)
  qed
  then have gd2: "PGROUNDDOWN (va + len - 1) + PGSIZE = va + len" using gd k by (simp add: PGROUNDDOWN_def algebra_simps)
  obtain r t ps' where t: "mappages D va len pa perm s = Inr (r, t)" "pt_wf D ps' t" "set ps' \<subseteq> set ps" "r = 0 \<or> r = - 1 \<and> ps' = []"
      "t = s\<lparr>mem := mem t, freelist := freelist t\<rparr>" "pt_step D ps s ps' t"
      "\<forall>a < 2 ^ 32. if va \<le> a \<and> a < va + len then r = 0 \<longrightarrow> translate t D a = of_nat (pa + (PGROUNDDOWN a - va)) OR perm OR PTE_P
        else translate t D a = translate s D a"
    using mappages_ok [OF wf lk va(3,4), of pa perm] np unfolding gd gd2 by blast
  have r: "r = 0" using t(4,6) room by (auto simp: pt_step_def)
  have "translate t D a = (if va \<le> a \<and> a < va + len then of_nat (pa + (PGROUNDDOWN a - va)) OR perm OR PTE_P else translate s D a)"
    if "a < 2 ^ 32" for a using t(7) r that by (auto split: if_splits)
  moreover have "can_lock t" using lk by (subst t(5)) (simp add: can_lock_def)
  moreover have "absent D t < length ps'" using t(6) room by (simp add: pt_step_def)
  ultimately show ?thesis using t(1,2,5,6) unfolding r by (intro exI [of _ t] exI [of _ ps'] conjI) auto
qed

lemma map_one:
  assumes wf: "pt_wf D ps s" and lk: "can_lock s" and va: "va mod PGSIZE = 0" "va < 2 ^ 32"
    and np: "\<not> present (translate s D va)" and room: "absent D s < length ps"
  shows "\<exists>t ps'. mappages D va PGSIZE pa perm s = Inr (0, t) \<and> pt_wf D ps' t \<and> pt_step D ps s ps' t \<and>
    t = s\<lparr>mem := mem t, freelist := freelist t\<rparr> \<and>
    (\<forall>a < 2 ^ 32. translate t D a = (if a div PGSIZE = va div PGSIZE then of_nat pa OR perm OR PTE_P else translate s D a))"
proof -
  have lim: "0 < PGSIZE" "PGSIZE mod PGSIZE = 0" "va + PGSIZE \<le> 2 ^ 32" using pages_apart [of va "2 ^ 32"] va by (simp_all add: params)
  have in_page: "va \<le> a \<and> a < va + PGSIZE \<longleftrightarrow> a div PGSIZE = va div PGSIZE" for a using page_same [OF va(1), of a] by blast
  have gd: "PGROUNDDOWN a = va" if "a div PGSIZE = va div PGSIZE" for a
    using that va(1) div_mult_mod_eq [of va PGSIZE] by (simp add: PGROUNDDOWN_def)
  have "\<not> present (translate s D a)" if a: "va \<le> a \<and> a < va + PGSIZE" for a
  proof -
    have "a < 2 ^ 32" using a lim(3) by linarith
    moreover have "a div PGSIZE = va div PGSIZE" using a in_page by blast
    ultimately show ?thesis using translate_page [of a va s D] va(2) np by simp
  qed
  then have free: "\<forall>a. va \<le> a \<and> a < va + PGSIZE \<longrightarrow> \<not> present (translate s D a)" by blast
  obtain t ps' where t: "mappages D va PGSIZE pa perm s = Inr (0, t)" "pt_wf D ps' t" "pt_step D ps s ps' t" "t = s\<lparr>mem := mem t, freelist := freelist t\<rparr>"
    "\<forall>a < 2 ^ 32. translate t D a = (if va \<le> a \<and> a < va + PGSIZE then of_nat (pa + (PGROUNDDOWN a - va)) OR perm OR PTE_P else translate s D a)"
    using map_range [OF wf lk va(1) lim(2,1,3) free room, of pa perm] by (elim exE conjE) (rule that, assumption+)
  have "translate t D a = (if a div PGSIZE = va div PGSIZE then of_nat pa OR perm OR PTE_P else translate s D a)" if "a < 2 ^ 32" for a
    using t(5) that gd [of a] in_page [of a] by (cases "a div PGSIZE = va div PGSIZE") auto
  then show ?thesis using t(1-4) by (intro exI [of _ t] exI [of _ ps'] conjI) auto
qed

section \<open>The copy loop\<close>

lemma memmove_page:
  assumes "p mod PGSIZE = 0" "q mod PGSIZE = 0" "q \<noteq> p"
  shows "same_page s (s\<lparr>mem := memmove p f PGSIZE (mem s)\<rparr>) q"
  using pages_apart [OF assms(2,1,3)] by (auto simp: same_page_def memmove_def copy_down_eq copy_up_eq)

lemma memmove_copy: "i < PGSIZE \<Longrightarrow> memmove p f PGSIZE m (p + i) = m (f + i)"
  by (simp add: memmove_def copy_down_eq copy_up_eq)

text \<open>The entry of a copied page: its own frame with the flags of the original.\<close>

lemma copied_entry:
  assumes "page_ok e p" "present w"
  shows "PTE_ADDR (of_nat (V2P p) OR PTE_FLAGS w OR PTE_P) = V2P p" "PTE_FLAGS (of_nat (V2P p) OR PTE_FLAGS w OR PTE_P) = PTE_FLAGS w"
    "present (of_nat (V2P p) OR PTE_FLAGS w OR PTE_P)"
proof -
  have v: "V2P p mod 4096 = 0" "V2P p < 2 ^ 32"
    using assms page_ok_bounds(4) [OF assms(1)] by (auto simp: page_ok_def params mod_eq_0_iff_dvd intro: dvd_diff_nat)
  have f: "PTE_FLAGS w OR PTE_P = PTE_FLAGS w"
  proof (rule bit_word_eqI)
    fix n assume "n < LENGTH(32)"
    show "bit (PTE_FLAGS w OR PTE_P) n = bit (PTE_FLAGS w) n"
      using assms(2) by (auto simp: PTE_FLAGS_def PTE_P_def bit_or_iff bit_and_iff mask_bits bit_1_iff)
  qed
  have "PTE_FLAGS w AND NOT 0xFFF = 0" by (simp add: PTE_FLAGS_def and.assoc)
  from entry_split [OF v this]
  show "PTE_ADDR (of_nat (V2P p) OR PTE_FLAGS w OR PTE_P) = V2P p" "PTE_FLAGS (of_nat (V2P p) OR PTE_FLAGS w OR PTE_P) = PTE_FLAGS w"
    by (simp_all add: or.assoc f)
  show "present (of_nat (V2P p) OR PTE_FLAGS w OR PTE_P)" by (simp add: bit_or_iff PTE_P_def)
qed

text \<open>One page: a fresh frame with the bytes of the original, mapped at the same address.\<close>

lemma copy_page:
  assumes wD: "pt_wf D (p # rest) s" and wd: "pt_wf d (p # rest) s" and lk: "can_lock s"
    and dis: "ptpages D s \<inter> ptpages d s = {}" and va: "va mod PGSIZE = 0" "va < 2 ^ 32"
    and src: "present (translate s D va)" "frame s D va \<noteq> p"
    and np: "\<not> present (translate s d va)" and room: "absent d s < length rest"
  shows "\<exists>t ps'. copyuvm_loop (Suc n) D d va sz s = (if va < sz then copyuvm_loop n D d ((va + PGSIZE) mod 2 ^ 32) sz t else Inr (d, s)) \<and>
    pt_wf D ps' t \<and> pt_wf d ps' t \<and> set ps' \<subseteq> set rest \<and> can_lock t \<and> t = s\<lparr>mem := mem t, freelist := freelist t\<rparr> \<and>
    ptpages D t = ptpages D s \<and> ptpages d t \<subseteq> ptpages d s \<union> set rest \<and> (\<forall>x. translate t D x = translate s D x) \<and>
    length rest + absent d t = length ps' + absent d s \<and>
    (\<forall>q. q mod PGSIZE = 0 \<and> q \<notin> set (p # rest) \<and> q \<notin> ptpages d s \<longrightarrow> same_page s t q) \<and>
    (\<forall>i < PGSIZE. mem t (p + i) = mem s (frame s D va + i)) \<and>
    (\<forall>a < 2 ^ 32. translate t d a = (if a div PGSIZE = va div PGSIZE then of_nat (V2P p) OR PTE_FLAGS (translate s D va) OR PTE_P
       else translate s d a))"
proof -
  have fw: "free_wf (p # rest) s" using wD by (simp add: pt_wf_def)
  obtain s1 where s1: "kalloc s = Inr (p, s1)" "free_wf rest s1" "page_ok (kend s) p" "p \<notin> set rest" "s1 = s\<lparr>freelist := freelist s1\<rparr>"
    using kalloc_ok [OF fw lk] by auto
  have al: "p mod PGSIZE = 0" using page_ok_bounds(3) [OF s1(3)] .
  define u where "u = s1\<lparr>mem := memmove p (frame s D va) PGSIZE (mem s1)\<rparr>"
  have eq: "mem s1 = mem s" "kend s1 = kend s" "can_lock s1 = can_lock s" by (subst s1(5), simp add: can_lock_def)+
  have uf: "u = s\<lparr>mem := mem u, freelist := freelist u\<rparr>" unfolding u_def by (subst s1(5)) simp
  have fu: "free_wf rest u"
    by (rule free_wf_frame [OF s1(2) al s1(4)]) (auto simp: u_def memmove_def copy_down_eq copy_up_eq)
  have spg: "same_page s u q" if "q mod PGSIZE = 0" "q \<noteq> p" for q
    using memmove_page [OF al that, of s1] eq(1) by (simp add: same_page_def u_def)
  have pg: "same_page s u q" if "q \<in> ptpages E s" "pt_wf E (p # rest) s" for q E
    using pt_wf_apart [OF that(2,1)] by (intro spg) (auto dest: page_ok_bounds(3))
  have ku: "kend u = kend s" by (simp add: u_def eq)
  have sub: "ptpages E s \<inter> set rest = {}" if "pt_wf E (p # rest) s" for E using pt_wf_apart [OF that] by auto
  note D = pt_frame [OF wD fu sub [OF wD] ku pg [OF _ wD]] and d = pt_frame [OF wd fu sub [OF wd] ku pg [OF _ wd]]
  have lu: "can_lock u" using lk eq(3) by (simp add: u_def can_lock_def)
  obtain t ps' where t: "mappages d va PGSIZE (V2P p) (PTE_FLAGS (translate s D va)) u = Inr (0, t)" "pt_wf d ps' t" "pt_step d rest u ps' t"
      "t = u\<lparr>mem := mem t, freelist := freelist t\<rparr>"
      "\<forall>a < 2 ^ 32. translate t d a = (if a div PGSIZE = va div PGSIZE then of_nat (V2P p) OR PTE_FLAGS (translate s D va) OR PTE_P else translate u d a)"
    using map_one [OF d(1) lu va, of "V2P p" "PTE_FLAGS (translate s D va)"] np room d(2,4) by auto
  have tf: "t = s\<lparr>mem := mem t, freelist := freelist t\<rparr>" by (subst t(4), subst uf) simp
  have st: "set ps' \<subseteq> set rest" "ptpages d t \<subseteq> ptpages d s \<union> set rest" "length rest + absent d t = length ps' + absent d s"
    "\<And>q. q mod PGSIZE = 0 \<Longrightarrow> q \<notin> set rest \<Longrightarrow> q \<notin> ptpages d s \<Longrightarrow> same_page u t q"
    using t(3) d(3,4) by (auto simp: pt_step_def)
  have pr: "present (pde s D (PDX va))" using src(1) by (auto simp: translate_def split: if_splits)
  have tab0: "tab s D (PDX va) \<noteq> 0"
    using tables_okD(1) [OF _ PDX_less pr] wD page_ok_bounds(1) unfolding pt_wf_def by blast
  have pte: "rd32 (tab s D (PDX va) + 4 * PTX va) (mem s) = translate s D va" using pr by (simp add: translate_def)
  have call: "copyuvm_loop (Suc n) D d va sz s = (if va < sz then copyuvm_loop n D d ((va + PGSIZE) mod 2 ^ 32) sz t else Inr (d, s))"
    using walkpgdir_found [OF pr, of False] tab0 src(1) s1(1) page_ok_bounds(1) [OF s1(3)] t(1)
    by (simp add: pte and_1_zero Let_def frame_def [symmetric] u_def [symmetric])
  have kt: "kend t = kend u" "can_lock t" using lu by (subst t(4), simp add: can_lock_def)+
  have Dt: "same_page u t q" if "q \<in> ptpages D u" for q
  proof (rule st(4))
    have q: "q \<in> ptpages D s" using that D(3) by simp
    show "q mod PGSIZE = 0" "q \<notin> set rest" using pt_wf_apart [OF wD q] page_ok_bounds(3) by auto
    show "q \<notin> ptpages d s" using dis q by blast
  qed
  have ft: "free_wf ps' t" using t(2) by (simp add: pt_wf_def)
  have "ptpages D u \<inter> set ps' = {}" using pt_wf_apart [OF D(1)] st(1) by auto
  note D2 = pt_frame [OF D(1) ft this kt(1) Dt]
  have "same_page s t q" if "q mod PGSIZE = 0" "q \<notin> set (p # rest)" "q \<notin> ptpages d s" for q
    using spg [of q] st(4) [of q] that by (simp add: same_page_def)
  moreover have "mem t (p + i) = mem s (frame s D va + i)" if "i < PGSIZE" for i
  proof -
    have "p \<notin> ptpages d s" using pt_wf_apart [OF wd] by auto
    then have "mem t (p + i) = mem u (p + i)" using st(4) [OF al s1(4)] that by (simp add: same_page_def)
    then show ?thesis using memmove_copy [OF that] eq(1) by (simp add: u_def)
  qed
  ultimately show ?thesis using call D2 D(2,3) t(2,5) d(2) st(1-3) kt(2) tf
    by (intro exI [of _ t] exI [of _ ps']) auto
qed

text \<open>
  The pages from \<open>i\<close> on are copied: they have the flags and the bytes of the original and
  frames that were free before and belong to nobody else.
\<close>

definition copied :: "nat \<Rightarrow> nat \<Rightarrow> nat \<Rightarrow> nat \<Rightarrow> nat set \<Rightarrow> 'a kmem_scheme \<Rightarrow> 'a kmem_scheme \<Rightarrow> bool" where
  "copied D d i sz F s t \<longleftrightarrow>
     (\<forall>va. i \<le> va \<and> va < sz \<longrightarrow> present (translate t d va) \<and> PTE_FLAGS (translate t d va) = PTE_FLAGS (translate s D va) \<and>
        frame t d va \<in> F \<and> ubyte t d va = ubyte s D va) \<and>
     (\<forall>va vb. i \<le> va \<and> va < sz \<and> i \<le> vb \<and> vb < sz \<and> frame t d va = frame t d vb \<longrightarrow> va div PGSIZE = vb div PGSIZE)"

lemma copied_inj:
  "copied D d i sz F s t \<Longrightarrow> i \<le> va \<Longrightarrow> va < sz \<Longrightarrow> i \<le> vb \<Longrightarrow> vb < sz \<Longrightarrow> frame t d va = frame t d vb \<Longrightarrow>
     va div PGSIZE = vb div PGSIZE"
  unfolding copied_def by blast

lemma copied_from:
  assumes c: "copied D d i sz F t u" and "F \<subseteq> F'" "\<And>va. translate t D va = translate s D va"
    "\<And>va. va < sz \<Longrightarrow> ubyte t D va = ubyte s D va"
  shows "copied D d i sz F' s u"
  using c assms(2) unfolding copied_def assms(3) by (auto simp: assms(4))

lemma copyuvm_loop_ok:
  assumes "pt_wf D ps s" "pt_wf d ps s" "can_lock s" "ptpages D s \<inter> ptpages d s = {}" "i mod PGSIZE = 0"
    "\<forall>va. i \<le> va \<and> va < sz \<longrightarrow> present (translate s D va) \<and> frame s D va \<notin> set ps \<and> frame s D va \<notin> ptpages d s"
    "sz \<le> KERNBASE" "\<forall>va. i \<le> va \<and> va < KERNBASE \<longrightarrow> \<not> present (translate s d va)"
    "sz \<le> i + m * PGSIZE" "absent d s + m < length ps" "m < n"
  shows "\<exists>t ps'. copyuvm_loop n D d i sz s = Inr (d, t) \<and> pt_wf D ps' t \<and> pt_wf d ps' t \<and> set ps' \<subseteq> set ps \<and> can_lock t \<and>
    t = s\<lparr>mem := mem t, freelist := freelist t\<rparr> \<and> ptpages D t = ptpages D s \<and> ptpages d t \<subseteq> ptpages d s \<union> set ps \<and>
    (\<forall>x. translate t D x = translate s D x) \<and>
    (\<forall>q. q mod PGSIZE = 0 \<and> q \<notin> set ps \<and> q \<notin> ptpages d s \<longrightarrow> same_page s t q) \<and>
    (\<forall>va < 2 ^ 32. va < i \<or> sz \<le> PGROUNDDOWN va \<longrightarrow> translate t d va = translate s d va) \<and>
    copied D d i sz (set ps - set ps' - ptpages d t) s t"
  using assms
proof (induction n arbitrary: i s ps m)
  case (Suc n)
  show ?case
  proof (cases "i < sz")
    case False
    then have "copyuvm_loop (Suc n) D d i sz s = Inr (d, s)" by simp
    then show ?thesis using Suc.prems(1-3) False
      by (intro exI [of _ s] exI [of _ ps]) (auto simp: copied_def same_page_def)
  next
    case True
    then obtain k where k: "m = Suc k" using Suc.prems(9) by (cases m) auto
    obtain p rest where ps: "ps = p # rest" using Suc.prems(10) by (cases ps) auto
    have i32: "i < 2 ^ 32" "i < KERNBASE" using True Suc.prems(7) by (auto simp: params)
    have src: "present (translate s D i)" "frame s D i \<noteq> p" "\<not> present (translate s d i)" using Suc.prems(6,8) True i32 ps by auto
    obtain t ps1 where t: "copyuvm_loop (Suc n) D d i sz s = copyuvm_loop n D d ((i + PGSIZE) mod 2 ^ 32) sz t"
      "pt_wf D ps1 t" "pt_wf d ps1 t" "set ps1 \<subseteq> set rest" "can_lock t" "t = s\<lparr>mem := mem t, freelist := freelist t\<rparr>"
      "ptpages D t = ptpages D s" "ptpages d t \<subseteq> ptpages d s \<union> set rest" "\<And>x. translate t D x = translate s D x"
      "length rest + absent d t = length ps1 + absent d s"
      "\<And>q. q mod PGSIZE = 0 \<Longrightarrow> q \<notin> set ps \<Longrightarrow> q \<notin> ptpages d s \<Longrightarrow> same_page s t q"
      "\<And>j. j < PGSIZE \<Longrightarrow> mem t (p + j) = mem s (frame s D i + j)"
      "\<And>a. a < 2 ^ 32 \<Longrightarrow> translate t d a = (if a div PGSIZE = i div PGSIZE then of_nat (V2P p) OR PTE_FLAGS (translate s D i) OR PTE_P else translate s d a)"
      using copy_page [OF Suc.prems(1,2) [unfolded ps] Suc.prems(3,4,5) i32(1) src, of n sz] True Suc.prems(10) k ps by auto
    have ipg: "i + PGSIZE \<le> KERNBASE" using pages_apart [of i KERNBASE] Suc.prems(5) i32(2) by (simp add: params)
    have nx: "(i + PGSIZE) mod 2 ^ 32 = i + PGSIZE" "(i + PGSIZE) mod PGSIZE = 0" using ipg Suc.prems(5) by (simp_all add: params)
    note same = page_same [OF Suc.prems(5)]
    have pok: "page_ok (kend s) p" "p \<notin> set rest" "p \<notin> ptpages d s" "p \<notin> ptpages D s" "p mod PGSIZE = 0"
      using Suc.prems(1,2) pt_wf_apart [of _ ps s p] page_ok_bounds(3) [of "kend s" p] ps by (auto simp: pt_wf_def free_wf_def)
    have frm: "frame t D va = frame s D va" for va by (simp add: frame_def t(9))
    have np: "\<forall>va. i + PGSIZE \<le> va \<and> va < KERNBASE \<longrightarrow> \<not> present (translate t d va)"
    proof (intro allI impI)
      fix va assume va: "i + PGSIZE \<le> va \<and> va < KERNBASE"
      then have "va < 2 ^ 32" "va div PGSIZE \<noteq> i div PGSIZE" using same [of va] by (auto simp: params)
      then show "\<not> present (translate t d va)" using t(13) [of va] Suc.prems(8) va by simp
    qed
    have sr: "\<forall>va. i + PGSIZE \<le> va \<and> va < sz \<longrightarrow> present (translate t D va) \<and> frame t D va \<notin> set ps1 \<and> frame t D va \<notin> ptpages d t"
    proof (intro allI impI)
      fix va assume "i + PGSIZE \<le> va \<and> va < sz"
      then have "present (translate s D va)" "frame s D va \<notin> set ps" "frame s D va \<notin> ptpages d s" using Suc.prems(6) by auto
      then show "present (translate t D va) \<and> frame t D va \<notin> set ps1 \<and> frame t D va \<notin> ptpages d t"
        using t(4,8,9) frm ps by auto
    qed
    have dis: "ptpages D t \<inter> ptpages d t = {}"
      using Suc.prems(4) t(7,8) pt_wf_apart [OF Suc.prems(1)] ps by auto
    have room: "sz \<le> i + PGSIZE + k * PGSIZE" "absent d t + k < length ps1" "k < n" using Suc.prems(9-11) k t(10) ps by auto
    from Suc.IH [OF t(2,3,5) dis nx(2) sr Suc.prems(7) np room]
    obtain u ps2 where u: "copyuvm_loop n D d (i + PGSIZE) sz t = Inr (d, u)" "pt_wf D ps2 u" "pt_wf d ps2 u" "set ps2 \<subseteq> set ps1" "can_lock u"
       "u = t\<lparr>mem := mem u, freelist := freelist u\<rparr>" "ptpages D u = ptpages D t" "ptpages d u \<subseteq> ptpages d t \<union> set ps1"
       "\<forall>x. translate u D x = translate t D x"
       "\<forall>q. q mod PGSIZE = 0 \<and> q \<notin> set ps1 \<and> q \<notin> ptpages d t \<longrightarrow> same_page t u q"
       "\<forall>va < 2 ^ 32. va < i + PGSIZE \<or> sz \<le> PGROUNDDOWN va \<longrightarrow> translate u d va = translate t d va"
       "copied D d (i + PGSIZE) sz (set ps1 - set ps2 - ptpages d u) t u"
      by (elim exE conjE) (rule that, assumption+)
    note u9 = u(9) [rule_format] and u10 = u(10) [rule_format] and u11 = u(11) [rule_format]
    have pt: "p \<notin> set ps1" "p \<notin> ptpages d t" "p \<notin> ptpages d u" using pok t(4,8) u(8) by auto
    have sub: "set ps1 - set ps2 - ptpages d u \<subseteq> set ps - set ps2 - ptpages d u" "p \<in> set ps - set ps2 - ptpages d u"
      using t(4) u(4) pt ps by auto
    have here: "present (translate u d va) \<and> PTE_FLAGS (translate u d va) = PTE_FLAGS (translate s D va) \<and> frame u d va = p \<and>
        ubyte u d va = ubyte s D va" if va: "i \<le> va" "va < i + PGSIZE" for va
    proof -
      have v: "va < 2 ^ 32" "va div PGSIZE = i div PGSIZE" using va same [of va] ipg by (auto simp: params)
      have tr: "translate u d va = of_nat (V2P p) OR PTE_FLAGS (translate s D i) OR PTE_P" using u11 [OF v(1)] t(13) [OF v(1)] v(2) va by simp
      have tD: "translate s D va = translate s D i" using translate_page [OF v(1) i32(1) v(2)] .
      note ce = copied_entry [OF pok(1) src(1)]
      have f: "frame u d va = p" using ce(1) tr page_ok_bounds(5) [OF pok(1)] by (simp add: frame_def)
      have md: "va mod PGSIZE < PGSIZE" by (simp add: params)
      have "ubyte u d va = mem t (p + va mod PGSIZE)" using u10 [of p] pok(5) pt(1,2) md f by (simp add: ubyte_def same_page_def)
      also have "\<dots> = ubyte s D va" using t(12) [OF md] tD by (simp add: ubyte_def frame_def)
      finally show ?thesis using f ce(2,3) tr tD by simp
    qed
    have later: "present (translate u d va) \<and> PTE_FLAGS (translate u d va) = PTE_FLAGS (translate s D va) \<and> frame u d va \<in> set ps1 - set ps2 - ptpages d u \<and>
        ubyte u d va = ubyte s D va" if va: "i + PGSIZE \<le> va" "va < sz" for va
    proof -
      have "same_page s t (frame s D va)" using Suc.prems(6) va by (intro t(11) frame_aligned) auto
      moreover have "va mod PGSIZE < PGSIZE" by (simp add: params)
      ultimately have "ubyte t D va = ubyte s D va" by (simp add: ubyte_def frm same_page_def)
      then show ?thesis using u(12) va by (simp add: copied_def t(9))
    qed
    have cp: "copied D d i sz (set ps - set ps2 - ptpages d u) s u"
      unfolding copied_def
    proof (intro conjI allI impI)
      fix va assume va: "i \<le> va \<and> va < sz"
      show "present (translate u d va)" "PTE_FLAGS (translate u d va) = PTE_FLAGS (translate s D va)"
        "frame u d va \<in> set ps - set ps2 - ptpages d u" "ubyte u d va = ubyte s D va"
        using here [of va] later [of va] va sub by (cases "va < i + PGSIZE"; auto)+
    next
      fix va vb assume v: "i \<le> va \<and> va < sz \<and> i \<le> vb \<and> vb < sz \<and> frame u d va = frame u d vb"
      then show "va div PGSIZE = vb div PGSIZE"
      proof (cases "va < i + PGSIZE"; cases "vb < i + PGSIZE")
        assume "va < i + PGSIZE" "vb < i + PGSIZE"
        then show ?thesis using v same [of va] same [of vb] by simp
      next
        assume "va < i + PGSIZE" "\<not> vb < i + PGSIZE"
        then show ?thesis using v here [of va] later [of vb] pt(1) by auto
      next
        assume "\<not> va < i + PGSIZE" "vb < i + PGSIZE"
        then show ?thesis using v here [of vb] later [of va] pt(1) by auto
      next
        assume "\<not> va < i + PGSIZE" "\<not> vb < i + PGSIZE"
        then show ?thesis using v u(12) by (simp add: copied_def)
      qed
    qed
    have "same_page s u q" if "q mod PGSIZE = 0" "q \<notin> set ps" "q \<notin> ptpages d s" for q
    proof -
      have "q \<notin> set ps1" "q \<notin> ptpages d t" using that t(4,8) ps by auto
      then show ?thesis using t(11) [OF that] u10 [of q] that(1) by (simp add: same_page_def)
    qed
    moreover have "translate u d va = translate s d va" if "va < 2 ^ 32" "va < i \<or> sz \<le> PGROUNDDOWN va" for va
    proof -
      have "i div PGSIZE * PGSIZE = i" using Suc.prems(5) div_mult_mod_eq [of i PGSIZE] by simp
      then have "va div PGSIZE \<noteq> i div PGSIZE" using same [of va] that(2) True by (auto simp: PGROUNDDOWN_def)
      then show ?thesis using u11 [OF that(1)] t(13) [OF that(1)] that(2) by auto
    qed
    moreover have "u = s\<lparr>mem := mem u, freelist := freelist u\<rparr>" by (subst u(6), subst t(6)) simp
    moreover have "ptpages d u \<subseteq> ptpages d s \<union> set ps" "set ps2 \<subseteq> set ps" using u(4,8) t(4,8) ps by auto
    ultimately show ?thesis using t(1,7,9) nx(1) u(1-3,5,7,9) cp
      by (intro exI [of _ u] exI [of _ ps2]) simp
  qed
qed simp

section \<open>The kernel part of a new table\<close>

text \<open>A line of \<open>kmap\<close> as a range of addresses, and its entry for an address.\<close>

definition klen :: "nat \<times> nat \<times> nat \<times> 32 word \<Rightarrow> nat" where
  "klen k = (case k of (v, a, b, perm) \<Rightarrow> (b + 2 ^ 32 - a) mod 2 ^ 32)"

definition in_range :: "nat \<times> nat \<times> nat \<times> 32 word \<Rightarrow> nat \<Rightarrow> bool" where
  "in_range k va \<longleftrightarrow> fst k \<le> va \<and> va < fst k + klen k"

definition kentry :: "nat \<times> nat \<times> nat \<times> 32 word \<Rightarrow> nat \<Rightarrow> 32 word" where
  "kentry k va = (case k of (v, a, b, perm) \<Rightarrow> of_nat (a + (PGROUNDDOWN va - v)) OR perm OR PTE_P)"

definition range_ok :: "nat \<times> nat \<times> nat \<times> 32 word \<Rightarrow> bool" where
  "range_ok k \<longleftrightarrow> fst k mod PGSIZE = 0 \<and> klen k mod PGSIZE = 0 \<and> 0 < klen k \<and> fst k + klen k \<le> 2 ^ 32"

lemma setupkvm_loop_ok:
  assumes "pt_wf d ps s" "can_lock s" "absent d s < length ps" "\<forall>k \<in> set ks. range_ok k"
    "sorted_wrt (\<lambda>k k'. fst k + klen k \<le> fst k') ks" "\<forall>k \<in> set ks. \<forall>a. in_range k a \<longrightarrow> \<not> present (translate s d a)"
  shows "\<exists>t ps'. setupkvm_loop d ks s = Inr (d, t) \<and> pt_wf d ps' t \<and> pt_step d ps s ps' t \<and> can_lock t \<and> absent d t < length ps' \<and>
    t = s\<lparr>mem := mem t, freelist := freelist t\<rparr> \<and>
    (\<forall>a < 2 ^ 32. (\<forall>k \<in> set ks. \<not> in_range k a) \<longrightarrow> translate t d a = translate s d a) \<and>
    (\<forall>k \<in> set ks. \<forall>a. in_range k a \<longrightarrow> translate t d a = kentry k a)"
  using assms
proof (induction ks arbitrary: s ps)
  case Nil
  then show ?case by (intro exI [of _ s] exI [of _ ps]) simp
next
  case (Cons k ks)
  obtain v a b perm where k: "k = (v, a, b, perm)" by (cases k)
  let ?n = "klen k"
  have r: "v mod PGSIZE = 0" "?n mod PGSIZE = 0" "0 < ?n" "v + ?n \<le> 2 ^ 32" using Cons.prems(4) k by (simp_all add: range_ok_def)
  have np: "\<forall>x. v \<le> x \<and> x < v + ?n \<longrightarrow> \<not> present (translate s d x)" using Cons.prems(6) k by (auto simp: in_range_def)
  from map_range [OF Cons.prems(1,2) r np Cons.prems(3), of a perm]
  obtain t ps1 where t: "mappages d v ?n a perm s = Inr (0, t)" "pt_wf d ps1 t" "pt_step d ps s ps1 t" "can_lock t" "absent d t < length ps1"
      "t = s\<lparr>mem := mem t, freelist := freelist t\<rparr>"
      "\<forall>x < 2 ^ 32. translate t d x = (if v \<le> x \<and> x < v + ?n then of_nat (a + (PGROUNDDOWN x - v)) OR perm OR PTE_P else translate s d x)"
    by (elim exE conjE) (rule that, assumption+)
  have tr: "translate t d x = (if in_range k x then kentry k x else translate s d x)" if "x < 2 ^ 32" for x
    using t(7) that by (simp add: in_range_def kentry_def k)
  have apart: "\<not> in_range k x" if "in_range k' x" "k' \<in> set ks" for k' x
    using that Cons.prems(5) by (auto simp: in_range_def)
  have lim: "x < 2 ^ 32" if "in_range k' x" "k' \<in> set (k # ks)" for k' x
    using that Cons.prems(4) by (auto simp: in_range_def range_ok_def)
  have np2: "\<forall>k' \<in> set ks. \<forall>x. in_range k' x \<longrightarrow> \<not> present (translate t d x)"
  proof (intro ballI allI impI)
    fix k' x assume k': "k' \<in> set ks" "in_range k' x"
    then show "\<not> present (translate t d x)" using tr [of x] lim [of k' x] apart [of k' x] Cons.prems(6) by simp
  qed
  have "\<forall>k' \<in> set ks. range_ok k'" "sorted_wrt (\<lambda>k k'. fst k + klen k \<le> fst k') ks" using Cons.prems(4,5) by simp_all
  from Cons.IH [OF t(2,4,5) this np2]
  obtain u ps2 where u: "setupkvm_loop d ks t = Inr (d, u)" "pt_wf d ps2 u" "pt_step d ps1 t ps2 u" "can_lock u" "absent d u < length ps2"
      "u = t\<lparr>mem := mem u, freelist := freelist u\<rparr>"
      "\<forall>a < 2 ^ 32. (\<forall>k \<in> set ks. \<not> in_range k a) \<longrightarrow> translate u d a = translate t d a"
      "\<forall>k \<in> set ks. \<forall>a. in_range k a \<longrightarrow> translate u d a = kentry k a"
    by (elim exE conjE) (rule that, assumption+)
  have "setupkvm_loop d (k # ks) s = Inr (d, u)" using t(1) u(1) by (simp add: k klen_def)
  moreover have "u = s\<lparr>mem := mem u, freelist := freelist u\<rparr>" by (subst u(6), subst t(6)) simp
  moreover have "translate u d x = translate s d x" if "x < 2 ^ 32" "\<forall>k \<in> set (k # ks). \<not> in_range k x" for x
    using that u(7) tr [of x] by simp
  moreover have "translate u d x = kentry k' x" if "k' \<in> set (k # ks)" "in_range k' x" for k' x
  proof (cases "k' \<in> set ks")
    case True
    then show ?thesis using u(8) that by blast
  next
    case False
    then have "k' = k" using that by simp
    moreover have "\<forall>k'' \<in> set ks. \<not> in_range k'' x" using that(2) apart \<open>k' = k\<close> by blast
    ultimately show ?thesis using u(7) tr [of x] lim [OF that(2,1)] that(2) by simp
  qed
  ultimately show ?case using u(2,4,5) pt_step_trans [OF t(3) u(3)] by (intro exI [of _ u] exI [of _ ps2]) blast
qed

definition kernel_end :: "'a kvm_scheme \<Rightarrow> bool" where
  "kernel_end s \<longleftrightarrow> KERNLINK < kdata s \<and> kdata s < KERNBASE + PHYSTOP \<and> kdata s mod PGSIZE = 0"

lemma klen_eq: "a \<le> b \<Longrightarrow> b - a < 2 ^ 32 \<Longrightarrow> klen (v, a, b, w) = b - a"
proof -
  assume "a \<le> b" "b - a < 2 ^ 32"
  then have "b + 2 ^ 32 - a = (b - a) + 2 ^ 32" "(b - a) mod 2 ^ 32 = b - a" by simp_all
  then show ?thesis by (simp only: klen_def prod.case mod_add_self2)
qed

lemma kmap_ranges:
  assumes "kernel_end s"
  shows "\<forall>k \<in> set (kmap (kdata s)). range_ok k \<and> KERNBASE \<le> fst k" "sorted_wrt (\<lambda>k k'. fst k + klen k \<le> fst k') (kmap (kdata s))"
proof -
  have k: "KERNLINK < kdata s" "kdata s < KERNBASE + PHYSTOP" "kdata s mod PGSIZE = 0" using assms by (simp_all add: kernel_end_def)
  have v: "V2P (kdata s) = kdata s - KERNBASE" "V2P KERNLINK = EXTMEM"
    using k V2P_kernel [of "kdata s"] V2P_kernel [of KERNLINK] by (simp_all add: params)
  have l: "klen (KERNBASE, 0, EXTMEM, w) = EXTMEM" "klen (KERNLINK, EXTMEM, kdata s - KERNBASE, w) = kdata s - KERNLINK"
    "klen (kdata s, kdata s - KERNBASE, PHYSTOP, w) = KERNBASE + PHYSTOP - kdata s" "klen (DEVSPACE, DEVSPACE, 0, w) = 2 ^ 32 - DEVSPACE" for w
    using k by (simp_all add: klen_eq params) (simp_all add: klen_def)
  have m: "(kdata s - KERNLINK) mod PGSIZE = 0" "(KERNBASE + PHYSTOP - kdata s) mod PGSIZE = 0"
    using k by (auto simp: params mod_eq_0_iff_dvd intro!: dvd_diff_nat)
  show "\<forall>k \<in> set (kmap (kdata s)). range_ok k \<and> KERNBASE \<le> fst k"
    unfolding kmap_def v using k m by (simp add: range_ok_def l) (simp add: params)
  show "sorted_wrt (\<lambda>k k'. fst k + klen k \<le> fst k') (kmap (kdata s))"
    unfolding kmap_def v using k by (simp add: l) (simp add: params)
qed

lemma setupkvm_ok:
  fixes s :: "'a kvm_scheme"
  assumes fw: "free_wf (d # rest) s" and lk: "can_lock s" and ke: "kernel_end s" and room: "1024 < length rest"
  shows "\<exists>t ps'. setupkvm s = Inr (d, t) \<and> pt_wf d ps' t \<and> can_lock t \<and> set ps' \<subseteq> set rest \<and> length ps' + 1024 = length rest + absent d t \<and>
    t = s\<lparr>mem := mem t, freelist := freelist t\<rparr> \<and> ptpages d t \<subseteq> insert d (set rest) \<and>
    (\<forall>q. q mod PGSIZE = 0 \<and> q \<notin> set (d # rest) \<longrightarrow> same_page s t q) \<and>
    (\<forall>va < KERNBASE. translate t d va = 0) \<and> (\<forall>k \<in> set (kmap (kdata s)). \<forall>va. in_range k va \<longrightarrow> translate t d va = kentry k va)"
proof -
  obtain s1 where s1: "kalloc s = Inr (d, s1)" "free_wf rest s1" "page_ok (kend s) d" "d \<notin> set rest" "s1 = s\<lparr>freelist := freelist s1\<rparr>"
    using kalloc_ok [OF fw lk] by auto
  have al: "d mod PGSIZE = 0" using page_ok_bounds(3) [OF s1(3)] .
  have eq: "mem s1 = mem s" "kend s1 = kend s" "kdata s1 = kdata s" by (subst s1(5), simp)+
  define u where "u = s1\<lparr>mem := memset d 0 PGSIZE (mem s1)\<rparr>"
  have uf: "u = s\<lparr>mem := mem u, freelist := freelist u\<rparr>" unfolding u_def by (subst s1(5)) simp
  have lu: "can_lock u" using lk by (subst uf) (simp add: can_lock_def)
  have pd: "pde u d i = 0" if "i < 1024" for i using rd32_memset_same [OF that] by (simp add: pde_def u_def)
  have pg: "ptpages d u = {d}" "absent d u = 1024" using pd by (auto simp: ptpages_def absent_def cong: conj_cong)
  have tr: "translate u d va = 0" for va using pd by (simp add: translate_def)
  have "free_wf rest u" by (rule free_wf_frame [OF s1(2) al s1(4)]) (auto simp: u_def memset_eq)
  then have wf: "pt_wf d rest u" using s1(3,4) pd by (simp add: pt_wf_def tables_ok_def tables_inj_def u_def eq)
  have ku: "kernel_end u" using ke by (subst uf) (simp add: kernel_end_def)
  have kd: "kdata u = kdata s" by (simp add: u_def eq)
  note km = kmap_ranges [OF ke]
  have "\<forall>k \<in> set (kmap (kdata s)). range_ok k" "\<forall>k \<in> set (kmap (kdata s)). \<forall>a. in_range k a \<longrightarrow> \<not> present (translate u d a)"
    "absent d u < length rest" using km(1) tr room pg(2) by auto
  from setupkvm_loop_ok [OF wf lu this(3,1) km(2) this(2)]
  obtain t ps' where t: "setupkvm_loop d (kmap (kdata s)) u = Inr (d, t)" "pt_wf d ps' t" "pt_step d rest u ps' t" "can_lock t" "absent d t < length ps'"
      "t = u\<lparr>mem := mem t, freelist := freelist t\<rparr>"
      "\<forall>a < 2 ^ 32. (\<forall>k \<in> set (kmap (kdata s)). \<not> in_range k a) \<longrightarrow> translate t d a = translate u d a"
      "\<forall>k \<in> set (kmap (kdata s)). \<forall>a. in_range k a \<longrightarrow> translate t d a = kentry k a"
    by (elim exE conjE) (rule that, assumption+)
  have "setupkvm s = Inr (d, t)"
    using s1(1) page_ok_bounds(1) [OF s1(3)] t(1) kd by (simp add: setupkvm_def Let_def u_def [symmetric]) (simp add: P2V_def params)
  moreover have "t = s\<lparr>mem := mem t, freelist := freelist t\<rparr>" by (subst t(6), subst uf) simp
  moreover have "translate t d va = 0" if "va < KERNBASE" for va
  proof -
    have "\<forall>k \<in> set (kmap (kdata s)). \<not> in_range k va" using km(1) that by (auto simp: in_range_def)
    moreover have "va < 2 ^ 32" using that by (simp add: params)
    ultimately show ?thesis using t(7) tr by simp
  qed
  moreover have "same_page s t q" if "q mod PGSIZE = 0" "q \<notin> set (d # rest)" for q
  proof -
    have "same_page u t q" using t(3) that pg(1) by (simp add: pt_step_def)
    moreover have "same_page s u q" using pages_apart [OF that(1) al] that(2) eq(1) by (auto simp: same_page_def u_def memset_eq)
    ultimately show ?thesis by (simp add: same_page_def)
  qed
  ultimately show ?thesis using t(2,3,4,8) pg by (intro exI [of _ t] exI [of _ ps']) (auto simp: pt_step_def)
qed

section \<open>The copy of an address space\<close>

lemma copyuvm_ok:
  fixes s :: "'a kvm_scheme"
  assumes wf: "pt_wf D (d # rest) s" and lk: "can_lock s" and ke: "kernel_end s" and sz: "sz \<le> KERNBASE"
    and src: "\<forall>va < sz. present (translate s D va) \<and> frame s D va \<notin> set (d # rest)"
    and room: "1024 + (sz + PGSIZE - 1) div PGSIZE < length rest"
  shows "\<exists>t ps'. copyuvm D sz s = Inr (d, t) \<and> pt_wf D ps' t \<and> pt_wf d ps' t \<and> can_lock t \<and> set ps' \<subseteq> set rest \<and>
    t = s\<lparr>mem := mem t, freelist := freelist t\<rparr> \<and> (\<forall>x. translate t D x = translate s D x) \<and>
    (\<forall>q. q mod PGSIZE = 0 \<and> q \<notin> set (d # rest) \<longrightarrow> same_page s t q) \<and>
    (\<forall>va < KERNBASE. sz \<le> PGROUNDDOWN va \<longrightarrow> translate t d va = 0) \<and>
    (\<forall>k \<in> set (kmap (kdata s)). \<forall>va. in_range k va \<longrightarrow> translate t d va = kentry k va) \<and>
    copied D d 0 sz (set rest - set ps' - ptpages d t) s t"
proof -
  have fw: "free_wf (d # rest) s" using wf by (simp add: pt_wf_def)
  have d0: "d \<noteq> 0" using fw page_ok_bounds(1) by (auto simp: free_wf_def)
  have "1024 < length rest" using room by simp
  from setupkvm_ok [OF fw lk ke this]
  obtain t ps1 where t: "setupkvm s = Inr (d, t)" "pt_wf d ps1 t" "can_lock t" "set ps1 \<subseteq> set rest" "length ps1 + 1024 = length rest + absent d t"
      "t = s\<lparr>mem := mem t, freelist := freelist t\<rparr>" "ptpages d t \<subseteq> insert d (set rest)"
      "\<forall>q. q mod PGSIZE = 0 \<and> q \<notin> set (d # rest) \<longrightarrow> same_page s t q" "\<forall>va < KERNBASE. translate t d va = 0"
      "\<forall>k \<in> set (kmap (kdata s)). \<forall>va. in_range k va \<longrightarrow> translate t d va = kentry k va"
    by (elim exE conjE) (rule that, assumption+)
  have kt: "kend t = kend s" by (subst t(6)) simp
  have Ds: "same_page s t q" if "q \<in> ptpages D s" for q
    using pt_wf_apart [OF wf that] t(8) page_ok_bounds(3) by blast
  have dj: "ptpages D s \<inter> set ps1 = {}" using pt_wf_apart [OF wf] t(4) by auto
  have ft: "free_wf ps1 t" using t(2) by (simp add: pt_wf_def)
  note D = pt_frame [OF wf ft dj kt Ds]
  have dis: "ptpages D t \<inter> ptpages d t = {}" using pt_wf_apart [OF wf] t(7) D(3) by auto
  have frm: "frame t D va = frame s D va" for va by (simp add: frame_def D(2))
  have sr: "\<forall>va. 0 \<le> va \<and> va < sz \<longrightarrow> present (translate t D va) \<and> frame t D va \<notin> set ps1 \<and> frame t D va \<notin> ptpages d t"
  proof (intro allI impI)
    fix va assume "0 \<le> va \<and> va < sz"
    then have "present (translate s D va)" "frame s D va \<notin> set (d # rest)" using src by auto
    then show "present (translate t D va) \<and> frame t D va \<notin> set ps1 \<and> frame t D va \<notin> ptpages d t" using t(4,7) frm D(2) by auto
  qed
  let ?m = "(sz + PGSIZE - 1) div PGSIZE"
  have md: "(sz + PGSIZE - 1) mod PGSIZE \<le> PGSIZE - 1" by (simp add: params)
  have "sz + PGSIZE - 1 = ?m * PGSIZE + (sz + PGSIZE - 1) mod PGSIZE" by simp
  then have "sz \<le> 0 + ?m * PGSIZE" using md by (simp add: params)
  moreover have "absent d t + ?m < length ps1" using room t(5) by linarith
  moreover have "?m < NPAGES + 1" using div_le_mono [of "sz + PGSIZE - 1" "KERNBASE + PGSIZE - 1" PGSIZE] sz by (simp add: params)
  moreover have "\<forall>va. 0 \<le> va \<and> va < KERNBASE \<longrightarrow> \<not> present (translate t d va)" using t(9) by simp
  moreover have "0 mod PGSIZE = 0" by simp
  ultimately have "\<exists>u ps'. copyuvm_loop (NPAGES + 1) D d 0 sz t = Inr (d, u) \<and> pt_wf D ps' u \<and> pt_wf d ps' u \<and> set ps' \<subseteq> set ps1 \<and> can_lock u \<and>
    u = t\<lparr>mem := mem u, freelist := freelist u\<rparr> \<and> ptpages D u = ptpages D t \<and> ptpages d u \<subseteq> ptpages d t \<union> set ps1 \<and>
    (\<forall>x. translate u D x = translate t D x) \<and>
    (\<forall>q. q mod PGSIZE = 0 \<and> q \<notin> set ps1 \<and> q \<notin> ptpages d t \<longrightarrow> same_page t u q) \<and>
    (\<forall>va < 2 ^ 32. va < 0 \<or> sz \<le> PGROUNDDOWN va \<longrightarrow> translate u d va = translate t d va) \<and>
    copied D d 0 sz (set ps1 - set ps' - ptpages d u) t u"
    by (intro copyuvm_loop_ok [OF D(1) t(2,3) dis _ sr sz])
  then obtain u ps' where u: "copyuvm_loop (NPAGES + 1) D d 0 sz t = Inr (d, u)" "pt_wf D ps' u" "pt_wf d ps' u" "set ps' \<subseteq> set ps1" "can_lock u"
      "u = t\<lparr>mem := mem u, freelist := freelist u\<rparr>" "\<forall>x. translate u D x = translate t D x"
      "\<forall>q. q mod PGSIZE = 0 \<and> q \<notin> set ps1 \<and> q \<notin> ptpages d t \<longrightarrow> same_page t u q"
      "\<forall>va < 2 ^ 32. va < 0 \<or> sz \<le> PGROUNDDOWN va \<longrightarrow> translate u d va = translate t d va"
      "copied D d 0 sz (set ps1 - set ps' - ptpages d u) t u"
    by (elim exE conjE) (rule that, assumption+)
  have "copyuvm D sz s = Inr (d, u)" using t(1) d0 u(1) by (simp add: copyuvm_def)
  moreover have "u = s\<lparr>mem := mem u, freelist := freelist u\<rparr>" by (subst u(6), subst t(6)) simp
  moreover have "\<forall>x. translate u D x = translate s D x" using u(7) D(2) by simp
  moreover have "\<forall>q. q mod PGSIZE = 0 \<and> q \<notin> set (d # rest) \<longrightarrow> same_page s u q"
  proof (intro allI impI)
    fix q assume q: "q mod PGSIZE = 0 \<and> q \<notin> set (d # rest)"
    then have "q \<notin> set ps1" "q \<notin> ptpages d t" using t(4,7) by auto
    then show "same_page s u q" using t(8) u(8) q by (simp add: same_page_def)
  qed
  moreover have "\<forall>va < KERNBASE. sz \<le> PGROUNDDOWN va \<longrightarrow> translate u d va = 0" using u(9) t(9) by (simp add: params)
  moreover have "\<forall>k \<in> set (kmap (kdata s)). \<forall>va. in_range k va \<longrightarrow> translate u d va = kentry k va"
  proof (intro ballI allI impI)
    fix k va assume k: "k \<in> set (kmap (kdata s))" "in_range k va"
    have r: "range_ok k" "KERNBASE \<le> fst k" using kmap_ranges(1) [OF ke] k(1) by blast+
    have va: "KERNBASE \<le> va" "va < 2 ^ 32" using r k(2) unfolding in_range_def range_ok_def by linarith+
    have "KERNBASE div PGSIZE * PGSIZE \<le> PGROUNDDOWN va" unfolding PGROUNDDOWN_def by (intro mult_le_mono1 div_le_mono va(1))
    moreover have "KERNBASE div PGSIZE * PGSIZE = KERNBASE" by (simp add: params)
    ultimately have "sz \<le> PGROUNDDOWN va" using sz by linarith
    then have "translate u d va = translate t d va" using u(9) va(2) by blast
    then show "translate u d va = kentry k va" using t(10) k by simp
  qed
  moreover have "copied D d 0 sz (set rest - set ps' - ptpages d u) s u"
  proof -
    have "ubyte t D va = ubyte s D va" if "va < sz" for va
    proof -
      have "frame s D va \<notin> set (d # rest)" using src that by simp
      then have "same_page s t (frame s D va)" using t(8) [rule_format, of "frame s D va"] frame_aligned [of s D va] by simp
      moreover have "va mod PGSIZE < PGSIZE" by (simp add: params)
      ultimately show ?thesis by (simp add: ubyte_def frm same_page_def)
    qed
    moreover have "set ps1 - set ps' - ptpages d u \<subseteq> set rest - set ps' - ptpages d u" using t(4) by blast
    ultimately show ?thesis using copied_from [OF u(10)] D(2) by blast
  qed
  moreover have "set ps' \<subseteq> set rest" using u(4) t(4) by blast
  ultimately show ?thesis using u(2,3,5) by (intro exI [of _ u] exI [of _ ps'] conjI)
qed

section \<open>A process with one page and a long free list\<close>

definition free_page :: "nat \<Rightarrow> nat" where
  "free_page k = KERNBASE + 0x500000 + k * PGSIZE"

definition links :: "nat \<Rightarrow> bmem \<Rightarrow> bmem" where
  "links n m = fold (\<lambda>k. wr32 (free_page k) (if Suc k < n then of_nat (free_page (Suc k)) else 0)) [0..<n] m"

lemma free_page_apart: "j \<noteq> k \<Longrightarrow> free_page j + PGSIZE \<le> free_page k \<or> free_page k + PGSIZE \<le> free_page j"
  using pages_apart [of "free_page j" "free_page k"] by (simp add: free_page_def params)

lemma rd32_links_fold:
  "k < n \<Longrightarrow> rd32 (free_page k) (fold (\<lambda>k. wr32 (free_page k) (w k)) [0..<n] m) = w k"
proof (induction n)
  case (Suc n)
  show ?case
  proof (cases "k = n")
    case False
    then have "free_page k + 4 \<le> free_page n \<or> free_page n + 4 \<le> free_page k" using free_page_apart [OF False] by (auto simp: params)
    then show ?thesis using Suc False by (simp add: rd32_wr32_other)
  qed simp
qed simp

lemma links_other: "a < KERNBASE + 0x500000 \<Longrightarrow> links n m a = m a"
proof -
  assume a: "a < KERNBASE + 0x500000"
  have "fold (\<lambda>k. wr32 (free_page k) (w k)) [0..<l] m a = m a" for l and w :: "nat \<Rightarrow> 32 word"
    using a by (induction l) (simp_all add: wr32_other free_page_def)
  then show ?thesis by (simp add: links_def)
qed

lemma links_chain:
  assumes "free_page n < 2 ^ 32" "k < n"
  shows "chain (links n m) (free_page k) (map free_page [k..<n])"
  using assms(2)
proof (induction "n - k" arbitrary: k)
  case (Suc i)
  have rd: "rd32 (free_page k) (links n m) = (if Suc k < n then of_nat (free_page (Suc k)) else 0)"
    unfolding links_def by (rule rd32_links_fold [OF Suc.prems])
  show ?case
  proof (cases "Suc k < n")
    case True
    have "free_page (Suc k) < 2 ^ 32" using assms(1) True by (simp add: free_page_def params)
    then have "unat (rd32 (free_page k) (links n m)) = free_page (Suc k)" using rd True by (simp add: unat_of_nat take_bit_nat_eq_self)
    then show ?thesis using Suc.hyps(1) [of "Suc k"] Suc.hyps(2) True Suc.prems by (simp add: upt_conv_Cons)
  next
    case False
    then have "[k..<n] = [k]" using Suc.prems by (simp add: upt_conv_Cons)
    then show ?thesis using rd False by simp
  qed
qed simp

lemma free_page_list: "0 < n \<Longrightarrow> map free_page [0..<n] = free_page 0 # map free_page [1..<n]"
  by (simp add: upt_conv_Cons)

definition one_process :: kvm where
  "one_process = kmem.extend (user_page\<lparr>mem := links 1100 (mem user_page), freelist := free_page 0\<rparr>) (kvm.fields 0 0 0 (KERNBASE + 0x108000))"

lemma one_process_sel [simp]:
  "mem one_process = links 1100 (mem user_page)" "freelist one_process = free_page 0" "kend one_process = KERNBASE"
  "kdata one_process = KERNBASE + 0x108000" "use_lock one_process = use_lock user_page" "locks one_process = locks user_page"
  "kend user_page = KERNBASE"
  by (simp_all add: one_process_def kmem.defs kvm.defs user_page_def)

lemma one_process_ok:
  "pt_wf (KERNBASE + 0x401000) (map free_page [0..<1100]) one_process" "can_lock one_process" "kernel_end one_process"
  "va < PGSIZE \<Longrightarrow> present (translate one_process (KERNBASE + 0x401000) va) \<and> frame one_process (KERNBASE + 0x401000) va \<notin> set (map free_page [0..<1100])"
proof -
  let ?D = "KERNBASE + 0x401000" and ?s = "user_page\<lparr>mem := links 1100 (mem user_page), freelist := free_page 0\<rparr>"
  have "{i. i < 1024 \<and> present (pde user_page ?D i)} = {0}" using user_page_walk(1) by (auto split: if_splits)
  then have pg: "ptpages ?D user_page = {?D, KERNBASE + 0x402000}" using user_page_walk(2) by (simp add: ptpages_def)
  have ch: "chain (links 1100 (mem user_page)) (free_page 0) (map free_page [0..<1100])"
    by (rule links_chain) (simp_all add: free_page_def params)
  have "distinct (map free_page [0..<1100])" by (simp add: distinct_map inj_on_def free_page_def params)
  moreover have "\<forall>p \<in> set (map free_page [0..<1100]). page_ok KERNBASE p"
    by (auto simp: page_ok_def free_page_def params)
  ultimately have fw: "free_wf (map free_page [0..<1100]) ?s" using ch by (simp add: free_wf_def)
  have low: "p \<notin> set (map free_page [0..<1100])" if "p < KERNBASE + 0x500000" for p using that by (auto simp: free_page_def)
  have sp: "same_page user_page ?s q" if "q \<in> ptpages ?D user_page" for q
    using that links_other unfolding pg same_page_def by (auto simp: params)
  have dj: "ptpages ?D user_page \<inter> set (map free_page [0..<1100]) = {}" using low unfolding pg by (auto simp: params)
  note f = pt_frame [OF user_page_ok(1) fw dj _ sp]
  have eq: "pde one_process D i = pde ?s D i" "tab one_process D i = tab ?s D i" for D i by (simp_all add: pde_def tab_def)
  then have tr: "translate one_process D x = translate ?s D x" for D x by (simp add: translate_def)
  show "pt_wf ?D (map free_page [0..<1100]) one_process"
    using f(1) by (simp add: pt_wf_def tables_ok_def tables_inj_def free_wf_def eq)
  show "can_lock one_process" "kernel_end one_process"
    by (simp_all add: can_lock_def user_page_def kernel_end_def) (simp add: params)
  assume va: "va < PGSIZE"
  have t: "translate one_process ?D va = 0x403007"
    using f(2) [of va] user_page_walk(3) [of va] va unfolding tr by (simp add: PDX_def PTX_def params)
  then have "frame one_process ?D va = KERNBASE + 0x403000" by (simp add: frame_def PTE_ADDR_def P2V_def params)
  then show "present (translate one_process ?D va) \<and> frame one_process ?D va \<notin> set (map free_page [0..<1100])"
    using t low by (simp add: params)
qed

section \<open>Properties\<close>

text \<open>
  C16. \<open>copyuvm\<close> with enough free pages makes a second address space: the new table maps exactly
  the pages of the first, with the same flags and the same bytes, in frames that no other
  page of either process uses; it has the kernel mappings of \<open>kmap\<close>; and the first address
  space, its bytes included, is as before.
\<close>

theorem copyuvm_correct:
  fixes s :: "'a kvm_scheme"
  assumes "pt_wf D (d # rest) s" "can_lock s" "kernel_end s" "sz \<le> KERNBASE"
    "\<forall>va < sz. present (translate s D va) \<and> frame s D va \<notin> set (d # rest)"
    "1024 + (sz + PGSIZE - 1) div PGSIZE < length rest"
  shows "\<exists>t ps'. copyuvm D sz s = Inr (d, t) \<and> pt_wf D ps' t \<and> pt_wf d ps' t \<and> (\<forall>x. translate t D x = translate s D x) \<and>
    (\<forall>va < sz. present (translate t d va) \<and> PTE_FLAGS (translate t d va) = PTE_FLAGS (translate s D va) \<and>
       ubyte t d va = ubyte s D va \<and> ubyte t D va = ubyte s D va \<and>
       (\<forall>vb < sz. frame t d va \<noteq> frame t D vb \<and> (frame t d va = frame t d vb \<longrightarrow> va div PGSIZE = vb div PGSIZE))) \<and>
    (\<forall>va < KERNBASE. sz \<le> PGROUNDDOWN va \<longrightarrow> \<not> present (translate t d va)) \<and>
    (\<forall>(v, a, b, perm) \<in> set (kmap (kdata s)). \<forall>va. v \<le> va \<and> va < v + (b + 2 ^ 32 - a) mod 2 ^ 32 \<longrightarrow>
       translate t d va = of_nat (a + (PGROUNDDOWN va - v)) OR perm OR PTE_P)"
proof -
  from copyuvm_ok [OF assms]
  obtain t ps' where t: "copyuvm D sz s = Inr (d, t)" "pt_wf D ps' t" "pt_wf d ps' t" "\<forall>x. translate t D x = translate s D x"
      "\<forall>q. q mod PGSIZE = 0 \<and> q \<notin> set (d # rest) \<longrightarrow> same_page s t q" "\<forall>va < KERNBASE. sz \<le> PGROUNDDOWN va \<longrightarrow> translate t d va = 0"
      "\<forall>k \<in> set (kmap (kdata s)). \<forall>va. in_range k va \<longrightarrow> translate t d va = kentry k va"
      "copied D d 0 sz (set rest - set ps' - ptpages d t) s t"
    by (elim exE conjE) (rule that, assumption+)
  have fr: "frame t D va = frame s D va" for va using t(4) by (simp add: frame_def)
  have old: "ubyte t D va = ubyte s D va" if "va < sz" for va
  proof -
    have "frame s D va \<notin> set (d # rest)" using assms(5) that by simp
    then have "same_page s t (frame s D va)" using t(5) [rule_format, of "frame s D va"] frame_aligned [of s D va] by simp
    moreover have "va mod PGSIZE < PGSIZE" by (simp add: params)
    ultimately show ?thesis by (simp add: ubyte_def fr same_page_def)
  qed
  have c: "present (translate t d va)" "PTE_FLAGS (translate t d va) = PTE_FLAGS (translate s D va)" "frame t d va \<in> set rest"
    "ubyte t d va = ubyte s D va" if "va < sz" for va using t(8) that by (simp_all add: copied_def)
  have sep: "frame t d va \<noteq> frame t D vb \<and> (frame t d va = frame t d vb \<longrightarrow> va div PGSIZE = vb div PGSIZE)" if "va < sz" "vb < sz" for va vb
  proof -
    have "frame s D vb \<notin> set rest" using assms(5) that(2) by simp
    then have "frame t d va \<noteq> frame t D vb" using c(3) [OF that(1)] unfolding fr by metis
    then show ?thesis using copied_inj [OF t(8)] that by blast
  qed
  have "\<forall>va < sz. present (translate t d va) \<and> PTE_FLAGS (translate t d va) = PTE_FLAGS (translate s D va) \<and>
       ubyte t d va = ubyte s D va \<and> ubyte t D va = ubyte s D va \<and>
       (\<forall>vb < sz. frame t d va \<noteq> frame t D vb \<and> (frame t d va = frame t d vb \<longrightarrow> va div PGSIZE = vb div PGSIZE))"
    by (intro allI impI conjI c old; use sep in blast)
  moreover have "\<forall>(v, a, b, perm) \<in> set (kmap (kdata s)). \<forall>va. v \<le> va \<and> va < v + (b + 2 ^ 32 - a) mod 2 ^ 32 \<longrightarrow>
       translate t d va = of_nat (a + (PGROUNDDOWN va - v)) OR perm OR PTE_P"
    using t(7) by (force simp: in_range_def klen_def kentry_def)
  moreover have "\<forall>va < KERNBASE. sz \<le> PGROUNDDOWN va \<longrightarrow> \<not> present (translate t d va)" using t(6) by simp
  ultimately show ?thesis using t(1-4) by (intro exI [of _ t] exI [of _ ps'] conjI)
qed

theorem copyuvm_correct_witness:
  "\<exists>t. copyuvm (KERNBASE + 0x401000) PGSIZE one_process = Inr (free_page 0, t) \<and>
     ubyte t (free_page 0) 5 = ubyte one_process (KERNBASE + 0x401000) 5 \<and> frame t (free_page 0) 5 \<noteq> frame t (KERNBASE + 0x401000) 5"
proof -
  have l: "map free_page [0..<1100] = free_page 0 # map free_page [1..<1100]" by (rule free_page_list) simp
  have "length (map free_page [1..<1100]) = 1099" unfolding length_map length_upt by simp
  then have lim: "PGSIZE \<le> KERNBASE" "1024 + (PGSIZE + PGSIZE - 1) div PGSIZE < length (map free_page [1..<1100])" "5 < PGSIZE"
    by (simp_all only:) (simp_all add: params)
  have "\<forall>va < PGSIZE. present (translate one_process (KERNBASE + 0x401000) va) \<and>
      frame one_process (KERNBASE + 0x401000) va \<notin> set (free_page 0 # map free_page [1..<1100])"
    using one_process_ok(4) unfolding l by blast
  from copyuvm_correct [OF one_process_ok(1) [unfolded l] one_process_ok(2,3) lim(1) this lim(2)]
  show ?thesis using lim(3) by blast
qed

end
