(* ===== verification/Fork.thy ===== *)
theory Fork
  imports ProcLife VmCopy
begin

text \<open>
  \<open>fork\<close> from end to end (\<^verbatim>\<open>proc.c\<close>): the entry and the kernel stack of the child, its place in
  the queues of the scheduler, the copy of the parent's memory and the shared open files. The
  lemmas follow the calls of the source, each with the whole change of the state.
\<close>

section \<open>The entry of the child\<close>

definition new_entry :: "nat \<Rightarrow> int \<Rightarrow> proc \<Rightarrow> proc" where
  "new_entry k pid x = x\<lparr>p_state := EMBRYO, p_pid := pid, p_kstack := k, p_tfaddr := k + KSTACKSIZE - 76, p_retpc := Trapret,
     p_ctxaddr := k + KSTACKSIZE - 76 - 4 - 20, p_context := zero_context\<lparr>ctx_eip := Forkret\<rparr>\<rparr>"

lemma alloc_entry_ok:
  assumes lk: "locks s = []" and f: "find (\<lambda>p. p_state (ptable s p) = UNUSED) [0..<NPROC] = Some np" and fw: "free_wf (k # ps) s"
  shows "\<exists>t. alloc_entry s = Inr (Some np, t) \<and> free_wf ps t \<and>
    t = s\<lparr>ptable := (ptable s)(np := new_entry k (nextpid s) (ptable s np)), nextpid := nextpid s + 1, freelist := freelist t\<rparr>"
proof -
  let ?u = "s\<lparr>ptable := (ptable s)(np := (ptable s np)\<lparr>p_state := EMBRYO, p_pid := nextpid s\<rparr>), nextpid := nextpid s + 1, locks := []\<rparr>"
  have fu: "free_wf (k # ps) ?u" using fw by (simp add: free_wf_def)
  have "can_lock ?u" using lk by (simp add: can_lock_def)
  then obtain v where v: "kalloc ?u = Inr (k, v)" "free_wf ps v" "page_ok (kend ?u) k" "v = ?u\<lparr>freelist := freelist v\<rparr>"
    using kalloc_ok [OF fu] by auto
  let ?t = "s\<lparr>ptable := (ptable s)(np := new_entry k (nextpid s) (ptable s np)), nextpid := nextpid s + 1, freelist := freelist v\<rparr>"
  have k: "k \<noteq> 0" using page_ok_bounds(1) [OF v(3)] .
  have eq: "upd_proc np (\<lambda>x. x\<lparr>p_tfaddr := k + KSTACKSIZE - 76, p_retpc := Trapret, p_ctxaddr := k + KSTACKSIZE - 76 - 4 - 20,
      p_context := zero_context\<lparr>ctx_eip := Forkret\<rparr>\<rparr>) (upd_proc np (\<lambda>x. x\<lparr>p_kstack := k\<rparr>) v) = ?t"
    by (subst v(4), rule kmem.equality) (simp_all add: upd_proc_def new_entry_def lk)
  have "alloc_entry s = Inr (Some np, ?t)"
    using lk f v(1) k eq by (simp add: alloc_entry_def upd_proc_def Let_def)
  moreover have "free_wf ps ?t" using v(2) by (subst (asm) v(4)) (simp add: free_wf_def)
  ultimately show ?thesis by (intro exI [of _ ?t]) simp
qed

lemma mlfq_wf_cong:
  assumes "mlfq_wf s" "MLFQ_queues t = MLFQ_queues s" "\<And>q. p_level (ptable t q) = p_level (ptable s q)" "\<And>q. p_isstride (ptable t q) = p_isstride (ptable s q)"
  shows "mlfq_wf t"
  unfolding mlfq_wf_def using assms(2-4) by (auto intro!: queue_wf_cong [OF mlfq_wfD [OF assms(1)]])

text \<open>A process is put into a free slot of the queue of level \<open>l\<close>; nothing else in the queues changes.\<close>

definition enqueued :: "nat \<Rightarrow> nat \<Rightarrow> (nat \<Rightarrow> FQ) \<Rightarrow> (nat \<Rightarrow> FQ) \<Rightarrow> bool" where
  "enqueued l p q q' \<longleftrightarrow> (\<exists>i < NPROC. fq_holdingproc (q l) i = None \<and>
     q' = q(l := (q l)\<lparr>fq_holdingproc := (fq_holdingproc (q l))(i := Some p), fq_total := fq_total (q l) + 1\<rparr>))"

lemma push_slot: "push_MLFQ p l s = Inr (0, t) \<Longrightarrow> enqueued l p (MLFQ_queues s) (MLFQ_queues t)"
  by (auto simp: push_MLFQ_def enqueued_def find_upt_Some split: if_splits option.splits)

lemma push_frame:
  assumes "push_MLFQ p l s = Inr (0, t)"
  shows "t = s\<lparr>ptable := (ptable s)(p := (ptable s p)\<lparr>p_level := l, p_fqtick := 0, p_mystride := Some 0, p_isstride := False\<rparr>), MLFQ_queues := MLFQ_queues t\<rparr>"
  using assms by (auto simp: push_MLFQ_def upd_FQ_def upd_proc_def split: if_splits option.splits)

definition queued_entry :: "nat \<Rightarrow> int \<Rightarrow> proc \<Rightarrow> proc" where
  "queued_entry k pid x = (new_entry k pid x)\<lparr>p_level := 0, p_fqtick := 0, p_mystride := Some 0, p_isstride := False\<rparr>"

lemma allocproc_ok:
  assumes lk: "locks s = []" and f: "find (\<lambda>p. p_state (ptable s p) = UNUSED) [0..<NPROC] = Some np" and fw: "free_wf (k # ps) s"
    and mq: "mlfq_wf s" "\<not> member np s"
  shows "\<exists>t. allocproc s = Inr (Some np, t) \<and> free_wf ps t \<and> mlfq_wf t \<and> queued 0 np t \<and> (\<forall>q l. q \<noteq> np \<longrightarrow> queued l q t = queued l q s) \<and>
    enqueued 0 np (MLFQ_queues s) (MLFQ_queues t) \<and>
    t = s\<lparr>ptable := (ptable s)(np := queued_entry k (nextpid s) (ptable s np)), nextpid := nextpid s + 1, freelist := freelist t,
      MLFQ_queues := MLFQ_queues t\<rparr>"
proof -
  obtain u where u: "alloc_entry s = Inr (Some np, u)" "free_wf ps u"
      "u = s\<lparr>ptable := (ptable s)(np := new_entry k (nextpid s) (ptable s np)), nextpid := nextpid s + 1, freelist := freelist u\<rparr>"
    using alloc_entry_ok [OF lk f fw] by auto
  have us: "ptable u = (ptable s)(np := new_entry k (nextpid s) (ptable s np))" "MLFQ_queues u = MLFQ_queues s" by (subst u(3), simp)+
  have np: "np < NPROC" using f by (simp add: find_upt_Some)
  have wu: "mlfq_wf u" by (rule mlfq_wf_cong [OF mq(1) us(2)]) (simp_all add: us(1) new_entry_def)
  have mu: "queued l q u = queued l q s" for l q by (simp add: queued_def us(2))
  then have "\<not> member np u" using mq(2) by (simp add: member_def)
  then obtain v where v: "push_MLFQ np 0 u = Inr (0, v)" "mlfq_wf v" "queued 0 np v" "\<forall>q l. q \<noteq> np \<longrightarrow> queued l q v = queued l q u"
    using push_MLFQ_ok [OF wu np, of 0] by auto
  note vf = push_frame [OF v(1)]
  have vm: "p_mystride (ptable v np) = Some 0" by (subst vf) simp
  have "upd_proc np (\<lambda>x. x\<lparr>p_mystride := Some 0\<rparr>) v = v"
  proof -
    have "(ptable v np)\<lparr>p_mystride := Some 0\<rparr> = ptable v np" using vm by simp
    then show ?thesis by (simp add: upd_proc_def)
  qed
  then have "allocproc s = Inr (Some np, v)" using u(1) v(1) by (simp add: allocproc_def)
  moreover have vs: "v = s\<lparr>ptable := (ptable s)(np := queued_entry k (nextpid s) (ptable s np)), nextpid := nextpid s + 1, freelist := freelist v, MLFQ_queues := MLFQ_queues v\<rparr>"
  proof -
    have "freelist v = freelist u" by (subst vf) simp
    then show ?thesis by (subst vf, subst u(3)) (simp add: us(1) queued_entry_def)
  qed
  moreover have "free_wf ps v" using u(2) by (subst vf) (simp add: free_wf_def)
  moreover have "enqueued 0 np (MLFQ_queues s) (MLFQ_queues v)"
    using push_slot [OF v(1)] us(2) by simp
  ultimately show ?thesis using v(2-4) mu by (intro exI [of _ v] conjI) auto
qed

section \<open>Open files\<close>

text \<open>The descriptors below \<open>n\<close> of the child, and the references they hold.\<close>

definition inherited :: "nat \<Rightarrow> (nat \<Rightarrow> nat option) \<Rightarrow> (nat \<Rightarrow> nat option) \<Rightarrow> nat \<Rightarrow> nat option" where
  "inherited n parent child fd = (if fd < n \<and> parent fd \<noteq> None then parent fd else child fd)"

definition add_refs :: "nat \<Rightarrow> (nat \<Rightarrow> nat option) \<Rightarrow> (nat \<Rightarrow> file_t) \<Rightarrow> nat \<Rightarrow> file_t" where
  "add_refs n fds ft f = (ft f)\<lparr>f_ref := f_ref (ft f) + int (card {fd. fd < n \<and> fds fd = Some f})\<rparr>"

lemma inherited_Suc: "inherited (Suc n) P C = (if P n = None then inherited n P C else (inherited n P C)(n := P n))"
  by (auto simp: inherited_def fun_eq_iff less_Suc_eq)

lemma add_refs_Suc:
  "add_refs (Suc n) P ft = (case P n of None \<Rightarrow> add_refs n P ft
     | Some f \<Rightarrow> (add_refs n P ft)(f := (add_refs n P ft f)\<lparr>f_ref := f_ref (add_refs n P ft f) + 1\<rparr>))"
proof -
  have "{fd. fd < Suc n \<and> P fd = Some f} = (if P n = Some f then insert n {fd. fd < n \<and> P fd = Some f} else {fd. fd < n \<and> P fd = Some f})" for f
    by (auto simp: less_Suc_eq)
  then show ?thesis by (auto simp: add_refs_def fun_eq_iff split: option.split)
qed

lemma dup_fds:
  fixes s :: "'a kfile_scheme"
  assumes lk: "locks s = []" and pc: "p \<noteq> c"
    and op: "\<And>fd f. fd < n \<Longrightarrow> p_ofile (ptable s p) fd = Some f \<Longrightarrow> 1 \<le> f_ref (ftable s f)"
  shows "foldR (dup_fd p c) [0..<n] s = Inr (s\<lparr>ptable := (ptable s)(c := (ptable s c)\<lparr>p_ofile := inherited n (p_ofile (ptable s p)) (p_ofile (ptable s c))\<rparr>),
    ftable := add_refs n (p_ofile (ptable s p)) (ftable s)\<rparr>)"
  using op
proof (induction n)
  case 0
  then show ?case by (simp add: inherited_def [abs_def] add_refs_def [abs_def])
next
  case (Suc n)
  let ?P = "p_ofile (ptable s p)"
  let ?t = "s\<lparr>ptable := (ptable s)(c := (ptable s c)\<lparr>p_ofile := inherited n ?P (p_ofile (ptable s c))\<rparr>), ftable := add_refs n ?P (ftable s)\<rparr>"
  have "foldR (dup_fd p c) [0..<n] s = Inr ?t" by (rule Suc.IH, rule Suc.prems) simp_all
  then have "foldR (dup_fd p c) [0..<Suc n] s = dup_fd p c n ?t" by (simp add: foldR_append bindR_def split: sum.split)
  also have "\<dots> = Inr (s\<lparr>ptable := (ptable s)(c := (ptable s c)\<lparr>p_ofile := inherited (Suc n) ?P (p_ofile (ptable s c))\<rparr>), ftable := add_refs (Suc n) ?P (ftable s)\<rparr>)"
  proof (cases "?P n")
    case None
    then show ?thesis using pc by (simp add: dup_fd_def inherited_Suc add_refs_Suc)
  next
    case (Some f)
    have "1 \<le> f_ref (add_refs n ?P (ftable s) f)" using Suc.prems [of n f] Some by (simp add: add_refs_def)
    then show ?thesis using pc Some lk
      by (simp add: dup_fd_def inherited_Suc add_refs_Suc filedup_def upd_file_def set_ofile_def upd_proc_def locks_restore)
  qed
  finally show ?case .
qed

lemma dup_files_ok:
  fixes s :: "'a kfile_scheme"
  assumes "locks s = []" "p \<noteq> c" "\<And>fd f. fd < NOFILE \<Longrightarrow> p_ofile (ptable s p) fd = Some f \<Longrightarrow> 1 \<le> f_ref (ftable s f)"
    "p_cwd (ptable s p) = Some ip"
  shows "dup_files p c s = Inr (s\<lparr>ptable := (ptable s)(c := (ptable s c)\<lparr>p_ofile := inherited NOFILE (p_ofile (ptable s p)) (p_ofile (ptable s c)),
      p_cwd := Some ip\<rparr>), ftable := add_refs NOFILE (p_ofile (ptable s p)) (ftable s),
    icache := (icache s)(ip := (icache s ip)\<lparr>i_ref := i_ref (icache s ip) + 1\<rparr>)\<rparr>)"
  using dup_fds [OF assms(1-3)] assms(1,2,4)
  by (simp add: dup_files_def idup_def upd_inode_def upd_proc_def locks_restore)

section \<open>The call\<close>

definition child_entry :: "nat \<Rightarrow> int \<Rightarrow> nat \<Rightarrow> nat \<Rightarrow> proc \<Rightarrow> proc \<Rightarrow> proc" where
  "child_entry k pid d p par x = (queued_entry k pid x)\<lparr>p_pgdir := d, p_sz := p_sz par, p_parent := Some p, p_tf := (p_tf par)\<lparr>tf_eax := 0\<rparr>,
     p_ofile := inherited NOFILE (p_ofile par) (p_ofile x), p_cwd := p_cwd par, p_name := take 15 (p_name par), p_state := RUNNABLE\<rparr>"

lemma mem_only:
  assumes "mem t = mem s"
  shows "translate t D va = translate s D va" "frame t D va = frame s D va" "ubyte t D va = ubyte s D va" "ptpages D t = ptpages D s"
    "same_page s t q"
  using assms by (simp_all add: translate_def pde_def tab_def frame_def ubyte_def ptpages_def same_page_def)

text \<open>What \<open>fork\<close> finds: a running parent, a free entry, and enough free pages.\<close>

definition fork_ready :: "nat \<Rightarrow> nat \<Rightarrow> nat \<Rightarrow> nat \<Rightarrow> nat list \<Rightarrow> 'a kfile_scheme \<Rightarrow> bool" where
  "fork_ready p np k d rest s \<longleftrightarrow> (let x = ptable s p; D = p_pgdir x; sz = p_sz x in
     myproc s = Some p \<and> p_state x \<noteq> UNUSED \<and> locks s = [] \<and> find (\<lambda>p. p_state (ptable s p) = UNUSED) [0..<NPROC] = Some np \<and>
     mlfq_wf s \<and> \<not> member np s \<and> kernel_end s \<and> sz \<le> KERNBASE \<and> pt_wf D (k # d # rest) s \<and>
     (\<forall>va < sz. present (translate s D va) \<and> frame s D va \<notin> set (k # d # rest)) \<and> 1024 + (sz + PGSIZE - 1) div PGSIZE < length rest \<and>
     (\<forall>fd < NOFILE. \<forall>f. p_ofile x fd = Some f \<longrightarrow> 1 \<le> f_ref (ftable s f)) \<and> p_cwd x \<noteq> None)"

text \<open>The part of the state that \<open>fork\<close> may change; all other fields are as before.\<close>

definition fork_frame :: "'a kfile_scheme \<Rightarrow> 'a kfile_scheme \<Rightarrow> bool" where
  "fork_frame s t \<longleftrightarrow> t = s\<lparr>ptable := ptable t, nextpid := nextpid t, MLFQ_queues := MLFQ_queues t, mem := mem t, freelist := freelist t,
     ftable := ftable t, icache := icache t\<rparr>"


lemma fork_ok:
  fixes s :: "'a kfile_scheme"
  assumes "fork_ready p np k d rest s"
  defines "x \<equiv> ptable s p"
  defines "D \<equiv> p_pgdir x" and "sz \<equiv> p_sz x"
  shows "\<exists>t ps'. fork s = Inr (nextpid s, t) \<and> p \<noteq> np \<and> ptable t = (ptable s)(np := child_entry k (nextpid s) d p x (ptable s np)) \<and>
    nextpid t = nextpid s + 1 \<and> locks t = [] \<and> myproc t = Some p \<and> ftable t = add_refs NOFILE (p_ofile x) (ftable s) \<and>
    (\<forall>ip. p_cwd x = Some ip \<longrightarrow> icache t = (icache s)(ip := (icache s ip)\<lparr>i_ref := i_ref (icache s ip) + 1\<rparr>)) \<and>
    mlfq_wf t \<and> queued 0 np t \<and> (\<forall>q l. q \<noteq> np \<longrightarrow> queued l q t = queued l q s) \<and>
    enqueued 0 np (MLFQ_queues s) (MLFQ_queues t) \<and> fork_frame s t \<and> set ps' \<subseteq> set rest \<and>
    pt_wf D ps' t \<and> pt_wf d ps' t \<and> (\<forall>y. translate t D y = translate s D y) \<and>
    (\<forall>q. q mod PGSIZE = 0 \<and> q \<notin> set (d # rest) \<longrightarrow> same_page s t q) \<and> copied D d 0 sz (set rest - set ps' - ptpages d t) s t"
proof -
  have h: "myproc s = Some p" "p_state x \<noteq> UNUSED" "locks s = []" "find (\<lambda>p. p_state (ptable s p) = UNUSED) [0..<NPROC] = Some np"
      "mlfq_wf s" "\<not> member np s" "kernel_end s" "sz \<le> KERNBASE" "pt_wf D (k # d # rest) s"
      "\<forall>va < sz. present (translate s D va) \<and> frame s D va \<notin> set (k # d # rest)" "1024 + (sz + PGSIZE - 1) div PGSIZE < length rest"
      "\<And>fd f. fd < NOFILE \<Longrightarrow> p_ofile x fd = Some f \<Longrightarrow> 1 \<le> f_ref (ftable s f)" "p_cwd x \<noteq> None"
    using assms(1) unfolding fork_ready_def Let_def x_def D_def sz_def by blast+
  obtain ip where ip: "p_cwd x = Some ip" using h(13) by auto
  have ne: "p \<noteq> np" using h(2,4) by (auto simp: find_upt_Some x_def)
  have fw: "free_wf (k # d # rest) s" using h(9) by (simp add: pt_wf_def)
  obtain s1 where s1: "allocproc s = Inr (Some np, s1)" "free_wf (d # rest) s1" "mlfq_wf s1" "queued 0 np s1"
      "\<forall>q l. q \<noteq> np \<longrightarrow> queued l q s1 = queued l q s"
      "enqueued 0 np (MLFQ_queues s) (MLFQ_queues s1)"
      "s1 = s\<lparr>ptable := (ptable s)(np := queued_entry k (nextpid s) (ptable s np)), nextpid := nextpid s + 1, freelist := freelist s1,
        MLFQ_queues := MLFQ_queues s1\<rparr>"
    using allocproc_ok [OF h(3,4) fw h(5,6)] by (elim exE conjE) (rule that, assumption+)
  have e1: "mem s1 = mem s" "kend s1 = kend s" "locks s1 = []" "ptable s1 = (ptable s)(np := queued_entry k (nextpid s) (ptable s np))"
      "ftable s1 = ftable s" "icache s1 = icache s" "nextpid s1 = nextpid s + 1" "kdata s1 = kdata s" "myproc s1 = myproc s"
    by (subst s1(7), simp add: h(3))+
  note m1 = mem_only [OF e1(1)]
  have dj: "ptpages D s \<inter> set (d # rest) = {}" using pt_wf_apart [OF h(9)] by auto
  have w1: "pt_wf D (d # rest) s1" using pt_frame(1) [OF h(9) s1(2) dj e1(2)] m1(5) by blast
  have c1: "can_lock s1" "kernel_end s1" using e1(3,8) h(7) by (simp_all add: can_lock_def kernel_end_def)
  have src: "\<forall>va < sz. present (translate s1 D va) \<and> frame s1 D va \<notin> set (d # rest)" using h(10) by (simp add: m1)
  from copyuvm_ok [OF w1 c1 h(8) src h(11)]
  obtain s2 ps' where s2: "copyuvm D sz s1 = Inr (d, s2)" "pt_wf D ps' s2" "pt_wf d ps' s2" "set ps' \<subseteq> set rest" "s2 = s1\<lparr>mem := mem s2, freelist := freelist s2\<rparr>"
      "\<forall>y. translate s2 D y = translate s1 D y" "\<forall>q. q mod PGSIZE = 0 \<and> q \<notin> set (d # rest) \<longrightarrow> same_page s1 s2 q"
      "copied D d 0 sz (set rest - set ps' - ptpages d s2) s1 s2"
    by (elim exE conjE) (rule that, assumption+)
  have e2: "locks s2 = []" "ptable s2 = ptable s1" "ftable s2 = ftable s" "icache s2 = icache s" "nextpid s2 = nextpid s + 1"
      "MLFQ_queues s2 = MLFQ_queues s1" "kend s2 = kend s1" "myproc s2 = myproc s" by (subst s2(5), simp add: e1)+
  have d0: "d \<noteq> 0" using s1(2) page_ok_bounds(1) by (auto simp: free_wf_def)
  let ?c = "(queued_entry k (nextpid s) (ptable s np))\<lparr>p_pgdir := d, p_sz := sz, p_parent := Some p, p_tf := (p_tf x)\<lparr>tf_eax := 0\<rparr>\<rparr>"
  let ?s3 = "s2\<lparr>ptable := (ptable s2)(np := ?c)\<rparr>"
  have x3: "ptable ?s3 p = x" "ptable s2 p = x" "ptable s2 np = queued_entry k (nextpid s) (ptable s np)" using ne by (simp_all add: e2(2) e1(4) x_def)
  have po: "p_ofile (queued_entry k (nextpid s) (ptable s np)) = p_ofile (ptable s np)" "p_pid (queued_entry k (nextpid s) (ptable s np)) = nextpid s"
    by (simp_all add: queued_entry_def new_entry_def)
  let ?t = "?s3\<lparr>ptable := (ptable s)(np := child_entry k (nextpid s) d p x (ptable s np)), ftable := add_refs NOFILE (p_ofile x) (ftable s),
      icache := (icache s)(ip := (icache s ip)\<lparr>i_ref := i_ref (icache s ip) + 1\<rparr>)\<rparr>"
  have df: "dup_files p np ?s3 = Inr (?s3\<lparr>ptable := (ptable s)(np := ?c\<lparr>p_ofile := inherited NOFILE (p_ofile x) (p_ofile (ptable s np)), p_cwd := Some ip\<rparr>),
      ftable := add_refs NOFILE (p_ofile x) (ftable s), icache := (icache s)(ip := (icache s ip)\<lparr>i_ref := i_ref (icache s ip) + 1\<rparr>)\<rparr>)"
    using dup_files_ok [of ?s3 p np ip] h(12) ip ne x3(1) by (simp add: e1(4) e2 po)
  have "fork s = Inr (nextpid s, ?t)"
    using h(1) s1(1) s2(1) d0 df x3 ne
    by (simp add: fork_def curproc_def upd_proc_def Let_def e1(4) e2 x_def [symmetric] D_def [symmetric] sz_def [symmetric] po child_entry_def ip locks_restore)
  moreover have mt: "mem ?t = mem s2" by simp
  note m2 = mem_only [OF mt]
  have "mlfq_wf ?t"
    by (rule mlfq_wf_cong [OF s1(3)]) (auto simp: e1(4) e2(6) child_entry_def queued_entry_def)
  moreover have "queued l q ?t = queued l q s1" for l q by (simp add: queued_def e2(6))
  moreover have "pt_wf E ps' ?t" if "pt_wf E ps' s2" for E
  proof (rule pt_frame(1) [OF that])
    show "free_wf ps' ?t" using s2(2) by (simp add: pt_wf_def free_wf_def)
    show "ptpages E s2 \<inter> set ps' = {}" using pt_wf_apart [OF that] by auto
  qed (simp_all add: same_page_def)
  moreover have "copied D d 0 sz (set rest - set ps' - ptpages d ?t) s ?t"
    using s2(8) m1 m2 by (simp add: copied_def)
  moreover have "same_page s ?t q" if "q mod PGSIZE = 0 \<and> q \<notin> set (d # rest)" for q
    using s2(7) that e1(1) by (simp add: same_page_def)
  moreover have "fork_frame s ?t" unfolding fork_frame_def
    by (rule kfile.equality) (simp_all, (subst s2(5), subst s1(7), simp)+)
  moreover have "enqueued 0 np (MLFQ_queues s) (MLFQ_queues ?t)"
    using s1(6) e2(6) by simp
  ultimately show ?thesis using s1(4,5) s2(2-4,6) m1 m2 ne ip e2 h(1)
    by (intro exI [of _ ?t] exI [of _ ps'] conjI) simp_all
qed


section \<open>Properties\<close>


text \<open>A running process with one page and an open file.\<close>

definition forker :: "nat option \<Rightarrow> kfile" where
  "forker m = (boot_kfile small_disk)\<lparr>mem := mem one_process, freelist := freelist one_process, kend := KERNBASE, kdata := KERNBASE + 0x108000,
     myproc := Some 0, nextpid := 2, MLFQ_queues := \<lambda>_. zero_FQ,
     ptable := (\<lambda>_. zero_proc)(0 := zero_proc\<lparr>p_state := RUNNING, p_pid := 1, p_pgdir := KERNBASE + 0x401000, p_sz := PGSIZE, p_cwd := Some 0,
       p_ofile := \<lambda>fd. if fd = 1 \<or> fd = 2 then Some 5 else None\<rparr>, 1 := zero_proc\<lparr>p_master := m\<rparr>),
     ftable := (\<lambda>_. zero_file)(5 := zero_file\<lparr>f_ref := 2\<rparr>)\<rparr>"

lemma forker_ready: "fork_ready 0 1 (free_page 0) (free_page 1) (map free_page [2..<1100]) (forker m)"
proof -
  define rest where "rest = map free_page [2..<1100]"
  let ?D = "KERNBASE + 0x401000" and ?ps = "free_page 0 # free_page 1 # rest"
  have "map free_page [0..<n] = free_page 0 # free_page 1 # map free_page [2..<n]" if "1 < n" for n
    using that by (simp add: upt_conv_Cons numeral_2_eq_2)
  from this [of 1100] have l: "map free_page [0..<1100] = ?ps" unfolding rest_def by linarith
  have sel: "mem (forker m) = mem one_process" "freelist (forker m) = freelist one_process" "kend (forker m) = kend one_process" "locks (forker m) = []"
    by (simp_all add: forker_def)
  have eq: "pde (forker m) D i = pde one_process D i" "tab (forker m) D i = tab one_process D i" for D i by (simp_all add: pde_def tab_def sel)
  then have tr: "translate (forker m) D va = translate one_process D va" for D va by (simp add: translate_def sel)
  have "pt_wf ?D ?ps (forker m)"
    using one_process_ok(1) unfolding l by (simp add: pt_wf_def tables_ok_def tables_inj_def free_wf_def eq sel)
  moreover have "\<forall>va < PGSIZE. present (translate (forker m) ?D va) \<and> frame (forker m) ?D va \<notin> set ?ps"
    using one_process_ok(4) unfolding l frame_def tr by blast
  moreover have "mlfq_wf (forker m)" "\<not> member 1 (forker m)"
    by (simp_all add: mlfq_wf_def queue_wf_def forker_def zero_FQ_def occupied_def member_def queued_def)
  moreover have "find (\<lambda>p. p_state (ptable (forker m) p) = UNUSED) [0..<NPROC] = Some 1"
    unfolding find_upt_Some by (simp add: forker_def zero_proc_def params)
  moreover have "length rest = 1098" unfolding rest_def length_map length_upt by simp
  moreover have "1024 + (PGSIZE + PGSIZE - 1) div PGSIZE < 1098" "PGSIZE \<le> KERNBASE" by (simp_all add: params)
  moreover have "kernel_end (forker m)" by (simp add: kernel_end_def forker_def) (simp add: params)
  moreover have x: "ptable (forker m) 0 = zero_proc\<lparr>p_state := RUNNING, p_pid := 1, p_pgdir := ?D, p_sz := PGSIZE, p_cwd := Some 0,
       p_ofile := \<lambda>fd. if fd = 1 \<or> fd = 2 then Some 5 else None\<rparr>" "myproc (forker m) = Some 0" "ftable (forker m) 5 = zero_file\<lparr>f_ref := 2\<rparr>"
    by (simp_all add: forker_def)
  ultimately show ?thesis using sel(4) unfolding fork_ready_def Let_def x(1) rest_def [symmetric] by (simp split: if_splits)
qed


text \<open>
  C39. The entry of a thread keeps the pointer to its master when it is freed, and \<open>allocproc\<close> does
  not clear it. A child that \<open>fork\<close> makes in such an entry is lost: \<open>wait\<close> takes it for a
  thread, and a parent without other children is told that it has none.
\<close>

theorem fork_child_lost:
  fixes s :: "'a kfile_scheme"
  assumes r: "fork_ready p np k d rest s" and m: "p_master (ptable s np) \<noteq> None"
    and only: "\<forall>c < NPROC. c \<noteq> np \<longrightarrow> \<not> is_child p s c"
  shows "\<exists>t u. fork s = Inr (nextpid s, t) \<and> p_parent (ptable t np) = Some p \<and> p_state (ptable t np) = RUNNABLE \<and> wait t = Inr (Done (- 1), u)"
proof -
  obtain t where t: "fork s = Inr (nextpid s, t)" "ptable t = (ptable s)(np := child_entry k (nextpid s) d p (ptable s p) (ptable s np))"
      "locks t = []" "myproc t = Some p"
    using fork_ok [OF r] by blast
  let ?u = "t\<lparr>locks := [Lptable]\<rparr>"
  have c: "p_master (ptable t np) \<noteq> None" "p_parent (ptable t np) = Some p" "p_state (ptable t np) = RUNNABLE"
    using m by (simp_all add: t(2) child_entry_def queued_entry_def new_entry_def)
  have no: "\<not> is_child p ?u q" if "q < NPROC" for q
    using only that c(1) t(2) by (cases "q = np") (auto simp: is_child_def)
  then have "find (\<lambda>c. is_child p ?u c \<and> p_state (ptable ?u c) = ZOMBIE) [0..<NPROC] = None" by (auto simp: find_None_iff)
  then have "wait t = Inr (Done (- 1), t)" using t(3,4) no by (simp add: wait_def curproc_def wait_loop_def locks_restore)
  then show ?thesis using t(1) c by blast
qed

theorem fork_child_lost_witness: "\<exists>t u. fork (forker (Some 3)) = Inr (2, t) \<and> wait t = Inr (Done (- 1), u)"
proof -
  have "nextpid (forker (Some 3)) = 2" "p_master (ptable (forker (Some 3)) 1) \<noteq> None" "\<forall>c < NPROC. c \<noteq> 1 \<longrightarrow> \<not> is_child 0 (forker (Some 3)) c"
    by (simp_all add: forker_def is_child_def zero_proc_def)
  then show ?thesis using fork_child_lost [OF forker_ready [of "Some 3"]] by fastforce
qed

end
