(* ===== verification/Spec2Isabelle.thy ===== *)
theory Spec2Isabelle
  imports Myscheduler Printf FsInode Trap Spinlock Grep ShellRun Ide FileWrite Fork
begin

text \<open>
  A model of the kernel under \<^verbatim>\<open>src/xv6-public\<close>: xv6 for the x86 with a multi-level feedback
  queue and stride scheduler, light-weight threads, a write-ahead log that commits late, files
  with double and triple indirect blocks, and \<^verbatim>\<open>pread\<close>, \<^verbatim>\<open>pwrite\<close>, \<^verbatim>\<open>sync\<close> and
  \<^verbatim>\<open>get_log_num\<close> calls. Of the user space, part of the library, \<^verbatim>\<open>grep\<close> and the shell are modelled
  too.

  \<^bold>\<open>The program and the theories.\<close> The kernel is one state, a record that grows along the
  imports: held locks (\<open>klocks\<close>), process table and scheduler tables (\<open>kproc\<close>), memory and free
  pages (\<open>kmem\<close>), page table registers (\<open>kvm\<close>), buffer cache and disk (\<open>kbio\<close>), log (\<open>klog\<close>),
  inode cache (\<open>kfs\<close>), open files and pipes (\<open>kfile\<close>), console (\<open>kcons\<close>), clock (\<open>ktrap\<close>). Each
  function of the source is a function on the extensible version of the record that holds what
  it touches, with the name it has in the source.

  \<^item> \<open>Prelude\<close>: faults and the sequencing of fallible steps, the list of spin locks a CPU holds,
    scans of index ranges, \<open>cint\<close> for values of type \<^verbatim>\<open>int\<close>. \<open>Params\<close>: the constants of the header
    files.
  \<^item> \<open>Spinlock\<close> (\<^verbatim>\<open>spinlock.c\<close>): the locks on several CPUs, with \<open>acquire\<close> and \<open>release\<close> cut into
    their accesses to shared memory. They exclude each other under every interleaving of these
    steps, and they implement the list of held locks.
  \<^item> \<open>Ptable\<close> (\<^verbatim>\<open>proc.h\<close>, \<^verbatim>\<open>proc.c\<close>): process table, sleep and wakeup, kill. \<open>Myscheduler\<close>
    (\<^verbatim>\<open>myscheduler.c\<close>): queues, boost, tick accounting, stride selection, cpu shares, with the
    invariant of the queues, the choice of \<open>exec_MLFQ\<close> and \<open>choose_lowpass\<close>, and the faults. The
    numbers are those of the code, which are not those of \<^verbatim>\<open>OS_Project1.md\<close>.
  \<^item> \<open>StringLib\<close> (\<^verbatim>\<open>string.c\<close>, \<^verbatim>\<open>ulib.c\<close>): memory and string routines against their
    specifications. \<open>Printf\<close> (\<^verbatim>\<open>printf.c\<close>, \<^verbatim>\<open>console.c\<close>): formatted output.
  \<^item> \<open>Kalloc\<close> (\<^verbatim>\<open>kalloc.c\<close>): the page allocator; \<open>Vm\<close> (\<^verbatim>\<open>vm.c\<close>): page tables, mapping and
    \<open>copyout\<close>; \<open>VmCopy\<close>: the copy of an address space by \<open>copyuvm\<close>.
  \<^item> \<open>Bio\<close> (\<^verbatim>\<open>bio.c\<close>, \<^verbatim>\<open>sleeplock.c\<close>, \<^verbatim>\<open>memide.c\<close>): buffer cache as a map from block numbers to
    contents. \<open>Log\<close>, \<open>LogCrash\<close>, \<open>LogTxn\<close> (\<^verbatim>\<open>log.c\<close>): commit and recovery are atomic for a crash
    at any disk write, delayed commit keeps the contents of all blocks, the log makes progress.
    \<open>Ide\<close> (\<^verbatim>\<open>ide.c\<close>): the interrupt-driven driver does what the synchronous one does.
  \<^item> \<open>Fs\<close> (\<^verbatim>\<open>fs.c\<close>) has the functions; \<open>FsAlloc\<close> the block allocator, \<open>FsMap\<close> the tree of
    indirect blocks behind \<open>bmap\<close>, \<open>FsData\<close> reading and writing of file contents, \<open>FsInode\<close> the
    inodes on disk and path names.
  \<^item> \<open>Ring\<close>: ring buffers with wrapping counters as queues. \<open>Pipe\<close> (\<^verbatim>\<open>pipe.c\<close>): a pipe is a
    first-in first-out channel for any interleaving of its users, and no wake-up is lost but in
    one case. \<open>FileOps\<close> (\<^verbatim>\<open>file.c\<close>): operations on open files. \<open>FileWrite\<close>: the loop of transactions
    in \<open>filewrite\<close> and \<open>filepwrite\<close>, over what log, inode layer and file layer promise.
  \<^item> \<open>Sysfile\<close> (\<^verbatim>\<open>syscall.c\<close>, \<^verbatim>\<open>sysfile.c\<close>): arguments of system calls and the file system calls.
    \<open>ProcLife\<close> (\<^verbatim>\<open>proc.c\<close>): creation and end of processes and threads, the scheduler's loop.
    \<open>Fork\<close>: \<open>fork\<close> from end to end, with everything it changes and everything it does not.
    \<open>Exec\<close> (\<^verbatim>\<open>exec.c\<close>): program loading. \<open>Console\<close> (\<^verbatim>\<open>console.c\<close>, \<open>procdump\<close> of \<^verbatim>\<open>proc.c\<close>): screen,
    process listing and the line editor, which is shown to implement an editor on lists. \<open>Trap\<close> (\<^verbatim>\<open>trap.c\<close>, \<^verbatim>\<open>sysproc.c\<close>,
    \<^verbatim>\<open>syscall.c\<close>): dispatch of system calls and interrupts.
  \<^item> \<open>Grep\<close> (\<^verbatim>\<open>grep.c\<close>): the matcher against the language of its patterns, and the line loop.
    \<open>Shell\<close>, \<open>ShellRun\<close> (\<^verbatim>\<open>sh.c\<close>): tokens, parser, and the processes that run a command.

  \<^bold>\<open>How code becomes a definition.\<close> A function that can panic, follow a null pointer or leave an
  array returns \<open>fault + result\<close>; early returns and error values are branches. Pointers into
  tables are indices, null is \<open>None\<close>. Integers that may overflow are words, are reduced modulo
  \<open>2 ^ 32\<close> or, for the counters, passes and shares of the scheduler, wrap as a signed \<^verbatim>\<open>int\<close> does
  (\<open>cint\<close>). A call that sleeps in the middle is cut there: it returns the state in which the
  scheduler takes over, and a \<open>_resume\<close> function continues it; where the rest of a call after a
  sleep is only a retry (a sleep lock that is taken, a log that is full, a console without
  input) sleeping is the fault \<open>WouldSleep\<close>. The device table is an argument of the functions
  that go through it; \<open>Console\<close> defines the entries of the console.

  \<^bold>\<open>Bounds.\<close> The page loops of \<open>Vm\<close> and \<open>Exec\<close> carry the number of pages of the address space
  plus one as a bound, more than any run needs; the loops over the buffer ring of \<open>Bio\<close> carry the
  number of buffers, which their lemmas show to be enough, as does the walk along the request
  queue of \<open>Ide\<close>. \<open>pick_loop\<close> makes at most \<open>NTHRE + 2\<close> rounds, since the index comes back to its
  start after \<open>NTHRE + 1\<close>. The parser of \<open>Shell\<close> starts with a depth of five times the length of the
  line plus five, shown to be enough for every line. All other loops are recursive functions with
  a termination proof or folds over index ranges. \<open>write_room\<close> of \<open>FileWrite\<close> is a condition of a
  theorem, not a bound of the model: it says which allocating writes are shown to fit the log.

  \<^bold>\<open>Interfaces.\<close> \<open>multilevel\<close> (queues of the scheduler), \<open>page_pool\<close> (allocator), \<open>block_store\<close>
  (transactions on blocks) and \<open>fifo\<close> (queues) are locales, interpreted on the functions above.

  \<^bold>\<open>Not modelled.\<close> Boot code, trap entry and context switch in assembly; the drivers of the
  interrupt controllers, the keyboard and the serial line, which only move bytes to and from
  device registers; \<^verbatim>\<open>main.c\<close>, which calls the initialisation functions in order; the call stack
  that \<open>acquire\<close> records for debugging; \<^verbatim>\<open>umalloc.c\<close> and \<^verbatim>\<open>mkfs.c\<close>; the other user programs and
  tests, which only issue system calls. The kernel above the driver runs on the memory disk of
  \<^verbatim>\<open>memide.c\<close>, whose \<open>ideintr\<close> does nothing.
\<close>

end
